(* ===== verification/Prelude.thy ===== *)
theory Prelude
  imports Main "HOL-Library.Word" "HOL-Library.FSet" "HOL-Library.Finite_Map"
begin

text \<open>
  Shared vocabulary of the development: the machine integers of the Rust sources, the
  standard-library operations the sources use on them (\<open>saturating_add\<close>,
  \<open>saturating_sub\<close>, \<open>checked_add\<close>, \<open>to_be_bytes\<close>, \<open>from_be_bytes\<close>), ordered
  containers (\<open>BTreeSet\<close> and \<open>HashMap\<close> as finite sets and finite maps,
  \<open>partition_point\<close>), and a combinator for loops that leave by \<open>return\<close>.
\<close>

section \<open>Machine integers\<close>

type_synonym u8 = "8 word"
type_synonym u16 = "16 word"
type_synonym u32 = "32 word"
type_synonym u64 = "64 word"
type_synonym byte = "8 word"
type_synonym i64 = int
type_synonym instant = int

named_theorems u64_arith \<open>translation of word facts to natural numbers\<close>
named_theorems codec_simps \<open>evaluation of byte slices at fixed offsets\<close>

abbreviation u64_max :: u64 where "u64_max \<equiv> -1"
abbreviation i64_max :: i64 where "i64_max \<equiv> 9223372036854775807"
abbreviation i64_min :: i64 where "i64_min \<equiv> -9223372036854775808"

definition in_i64 :: "int \<Rightarrow> bool" where
  "in_i64 x \<longleftrightarrow> i64_min \<le> x \<and> x \<le> i64_max"

definition sat_add :: "'a::len word \<Rightarrow> 'a word \<Rightarrow> 'a word" where
  "sat_add a b = (if unat a + unat b < 2 ^ LENGTH('a) then a + b else -1)"

definition sat_sub :: "'a::len word \<Rightarrow> 'a word \<Rightarrow> 'a word" where
  "sat_sub a b = (if a < b then 0 else a - b)"

definition checked_add :: "'a::len word \<Rightarrow> 'a word \<Rightarrow> 'a word option" where
  "checked_add a b = (if unat a + unat b < 2 ^ LENGTH('a) then Some (a + b) else None)"

definition sat_add_i64 :: "i64 \<Rightarrow> i64 \<Rightarrow> i64" where
  "sat_add_i64 a b = max i64_min (min i64_max (a + b))"

definition sat_sub_i64 :: "i64 \<Rightarrow> i64 \<Rightarrow> i64" where
  "sat_sub_i64 a b = max i64_min (min i64_max (a - b))"

lemma unat_max_word: "unat (-1 :: 'a::len word) = 2 ^ LENGTH('a) - 1"
  by (simp add: unsigned_minus_1_eq_mask mask_eq_exp_minus_1)

lemma unat_u64_max [simp, u64_arith]: "unat u64_max = 18446744073709551615"
  by (simp add: unat_max_word)

lemma unat_le_u64_max: "unat (x :: u64) \<le> 18446744073709551615"
  using unsigned_less [of x, where ?'a = nat] by simp

lemma unat_sat_sub [u64_arith, simp]: "unat (sat_sub a b) = unat a - unat b"
  by (auto simp: sat_sub_def word_less_nat_alt unat_sub word_le_nat_alt)

lemma unat_sat_add [u64_arith]:
  "unat (sat_add a b :: 'a::len word) = min (unat a + unat b) (2 ^ LENGTH('a) - 1)"
  by (auto simp: sat_add_def unat_max_word unat_word_ariths)

lemma unat_sat_add_u64 [u64_arith]:
  "unat (sat_add a b :: u64) = min (unat a + unat b) 18446744073709551615"
  by (simp add: unat_sat_add)

lemma checked_add_Some:
  "checked_add a b = Some c \<longleftrightarrow>
     unat a + unat b < 2 ^ LENGTH('a::len) \<and> c = (a + b :: 'a word)"
  by (auto simp: checked_add_def)

lemma unat_checked_add: "checked_add a b = Some c \<Longrightarrow> unat c = unat a + unat b"
  by (auto simp: checked_add_Some unat_word_ariths)

text \<open>
  The successor \<open>position.saturating_add(1)\<close> is the only arithmetic most of the queue
  does on positions. Its order laws hold for every machine word.
\<close>

abbreviation sat_inc :: "u64 \<Rightarrow> u64" where "sat_inc x \<equiv> sat_add x 1"

lemma sat_inc_max [simp]: "sat_inc u64_max = u64_max"
  by (simp add: sat_add_def)

lemma unat_sat_inc [u64_arith]: "unat (sat_inc x) = min (Suc (unat x)) 18446744073709551615"
  by (simp add: unat_sat_add_u64)

lemma sat_inc_eq_iff [simp]: "sat_inc x = x \<longleftrightarrow> x = u64_max"
  using unat_le_u64_max [of x]
  by (auto simp: word_unat_eq_iff u64_arith)

lemma sat_inc_ge [simp]: "x \<le> sat_inc x"
  using unat_le_u64_max [of x] by (simp add: word_le_nat_alt u64_arith)

lemma less_sat_inc_iff: "x < sat_inc x \<longleftrightarrow> x \<noteq> u64_max"
  using unat_le_u64_max [of x]
  by (auto simp: word_less_nat_alt word_unat_eq_iff u64_arith)

lemma sat_inc_le_iff: "sat_inc x \<le> y \<longleftrightarrow> x < y \<or> y = u64_max"
  using unat_le_u64_max [of x] unat_le_u64_max [of y]
  by (auto simp: word_less_nat_alt word_le_nat_alt word_unat_eq_iff u64_arith)

lemma less_imp_sat_inc_le [intro]: "x < y \<Longrightarrow> sat_inc x \<le> y"
  by (simp add: sat_inc_le_iff)

lemma less_sat_inc_le: "x < sat_inc y \<Longrightarrow> x \<le> y"
  using unat_le_u64_max [of x] unat_le_u64_max [of y]
  by (auto simp: word_less_nat_alt word_le_nat_alt u64_arith)

lemma le_less_sat_inc: "x \<le> y \<Longrightarrow> y \<noteq> u64_max \<Longrightarrow> x < sat_inc y"
  using unat_le_u64_max [of y]
  by (auto simp: word_less_nat_alt word_le_nat_alt word_unat_eq_iff u64_arith)

lemma sat_inc_neq_max: "x < y \<Longrightarrow> y \<noteq> u64_max \<Longrightarrow> sat_inc x \<noteq> u64_max"
  using unat_le_u64_max [of x] unat_le_u64_max [of y]
  by (auto simp: word_less_nat_alt word_unat_eq_iff u64_arith)

lemma sat_inc_mono: "x \<le> y \<Longrightarrow> sat_inc x \<le> sat_inc y"
  by (auto simp: word_le_nat_alt u64_arith)

lemma less_neq_u64_max: "x < y \<Longrightarrow> x \<noteq> (u64_max :: u64)"
  using unat_le_u64_max [of y] by (auto simp: word_less_nat_alt)

lemma u64_max_ge [simp]: "(x :: u64) \<le> u64_max"
  by (simp add: word_le_nat_alt unat_le_u64_max)

lemma u64_max_not_less [simp]: "\<not> u64_max < (x :: u64)"
  by (simp add: not_less)

lemma card_u64_interval: "card {a<..b :: u64} = unat b - unat a"
proof -
  have "unat ` {a<..b} = {unat a<..unat b}"
  proof (intro equalityI subsetI)
    fix n assume n: "n \<in> {unat a<..unat b}"
    then have "n < 2 ^ 64" using unsigned_less [of b, where ?'a = nat] by simp
    then have "unat (word_of_nat n :: u64) = n" by (simp add: unat_of_nat)
    with n show "n \<in> unat ` {a<..b}"
      by (intro image_eqI [of _ _ "word_of_nat n"]) (auto simp: word_less_nat_alt word_le_nat_alt)
  qed (auto simp: word_less_nat_alt word_le_nat_alt)
  moreover have "inj_on unat {a<..b}" by (simp add: inj_on_def word_unat_eq_iff)
  ultimately show ?thesis by (metis card_greaterThanAtMost card_image)
qed

section \<open>Big-endian bytes\<close>

fun be_bytes :: "nat \<Rightarrow> nat \<Rightarrow> byte list" where
  "be_bytes 0 n = []"
| "be_bytes (Suc k) n = be_bytes k (n div 256) @ [word_of_nat n]"

definition be_nat :: "byte list \<Rightarrow> nat" where
  "be_nat bs = foldl (\<lambda>a b. a * 256 + unat b) 0 bs"

definition to_be_bytes :: "'a::len word \<Rightarrow> byte list" where
  "to_be_bytes x = be_bytes (LENGTH('a) div 8) (unat x)"

definition from_be_bytes :: "byte list \<Rightarrow> 'a::len word" where
  "from_be_bytes bs = word_of_nat (be_nat bs)"

definition i64_to_be_bytes :: "i64 \<Rightarrow> byte list" where
  "i64_to_be_bytes x = to_be_bytes (word_of_int x :: u64)"

definition i64_from_be_bytes :: "byte list \<Rightarrow> i64" where
  "i64_from_be_bytes bs = sint (from_be_bytes bs :: u64)"

lemma length_be_bytes [simp, codec_simps]: "length (be_bytes k n) = k"
  by (induction k arbitrary: n) auto

lemma be_nat_snoc [simp]: "be_nat (bs @ [b]) = be_nat bs * 256 + unat b"
  by (simp add: be_nat_def)

lemma be_nat_Nil [simp]: "be_nat [] = 0"
  by (simp add: be_nat_def)

lemma be_nat_be_bytes: "be_nat (be_bytes k n) = n mod 256 ^ k"
proof (induction k arbitrary: n)
  case (Suc k)
  have "be_nat (be_bytes (Suc k) n) = (n div 256) mod 256 ^ k * 256 + n mod 256"
    by (simp add: Suc.IH unat_of_nat)
  also have "\<dots> = n mod (256 * 256 ^ k)"
    by (simp add: mod_mult2_eq mult.commute)
  finally show ?case by simp
qed simp

lemma be_nat_less: "be_nat bs < 256 ^ length bs"
proof (induction bs rule: rev_induct)
  case (snoc b bs)
  have "unat b < 256" using unsigned_less [of b, where ?'a = nat] by simp
  with snoc have "be_nat bs * 256 + unat b < 256 ^ length bs * 256" by linarith
  then show ?case by (simp add: mult.commute)
qed simp

lemma be_bytes_be_nat: "be_bytes (length bs) (be_nat bs) = bs"
proof (induction bs rule: rev_induct)
  case (snoc b bs)
  have b: "unat b < 256" using unsigned_less [of b, where ?'a = nat] by simp
  have "(word_of_nat (be_nat bs * 256 + unat b) :: byte) = b"
    using b by (simp only: word_unat_eq_iff unat_of_nat) simp
  moreover have "(be_nat bs * 256 + unat b) div 256 = be_nat bs"
    using b by simp
  ultimately show ?case using snoc by simp
qed simp

lemma length_to_be_bytes [simp, codec_simps]:
  "length (to_be_bytes (x :: 'a::len word)) = LENGTH('a) div 8"
  by (simp add: to_be_bytes_def)

lemma length_i64_to_be_bytes [simp, codec_simps]: "length (i64_to_be_bytes x) = 8"
  by (simp add: i64_to_be_bytes_def)

lemma from_to_be_bytes:
  assumes "8 dvd LENGTH('a)"
  shows "from_be_bytes (to_be_bytes (x :: 'a::len word)) = x"
proof -
  have "(256 :: nat) ^ (LENGTH('a) div 8) = (2 ^ 8) ^ (LENGTH('a) div 8)" by simp
  also have "\<dots> = 2 ^ LENGTH('a)" using assms by (simp only: power_mult [symmetric] dvd_mult_div_cancel)
  finally have "(256 :: nat) ^ (LENGTH('a) div 8) = 2 ^ LENGTH('a)" .
  then show ?thesis
    by (simp add: from_be_bytes_def to_be_bytes_def be_nat_be_bytes)
qed


lemma from_to_be_bytes_u16 [simp, codec_simps]: "from_be_bytes (to_be_bytes (x :: u16)) = x"
  by (rule from_to_be_bytes) simp

lemma from_to_be_bytes_u32 [simp, codec_simps]: "from_be_bytes (to_be_bytes (x :: u32)) = x"
  by (rule from_to_be_bytes) simp

lemma from_to_be_bytes_u64 [simp, codec_simps]: "from_be_bytes (to_be_bytes (x :: u64)) = x"
  by (rule from_to_be_bytes) simp

lemma to_from_be_bytes_u64: "length bs = 8 \<Longrightarrow> to_be_bytes (from_be_bytes bs :: u64) = bs"
  using be_nat_less [of bs] be_bytes_be_nat [of bs]
  by (simp add: to_be_bytes_def from_be_bytes_def unat_of_nat)

lemma to_from_be_bytes_u32: "length bs = 4 \<Longrightarrow> to_be_bytes (from_be_bytes bs :: u32) = bs"
  using be_nat_less [of bs] be_bytes_be_nat [of bs]
  by (simp add: to_be_bytes_def from_be_bytes_def unat_of_nat)

lemma i64_from_to_be_bytes [simp, codec_simps]:
  assumes "in_i64 x"
  shows "i64_from_be_bytes (i64_to_be_bytes x) = x"
proof -
  have "i64_from_be_bytes (i64_to_be_bytes x) = sint (word_of_int x :: u64)"
    by (simp add: i64_from_be_bytes_def i64_to_be_bytes_def)
  also have "\<dots> = signed_take_bit 63 x" by (simp only: sint_sbintrunc') simp
  also have "\<dots> = x"
    using assms by (intro signed_take_bit_int_eq_self) (simp_all add: in_i64_def)
  finally show ?thesis .
qed

lemma to_from_be_bytes_u16: "length bs = 2 \<Longrightarrow> to_be_bytes (from_be_bytes bs :: u16) = bs"
  using be_nat_less [of bs] be_bytes_be_nat [of bs]
  by (simp add: to_be_bytes_def from_be_bytes_def unat_of_nat)

lemma to_from_be_bytes_i64: "length bs = 8 \<Longrightarrow> i64_to_be_bytes (i64_from_be_bytes bs) = bs"
  by (simp add: i64_to_be_bytes_def i64_from_be_bytes_def to_from_be_bytes_u64)

lemma in_i64_from_be_bytes: "in_i64 (i64_from_be_bytes bs)"
  using sint_ge [of "from_be_bytes bs :: u64"] sint_lt [of "from_be_bytes bs :: u64"]
  by (simp add: i64_from_be_bytes_def in_i64_def)

section \<open>Text\<close>

text \<open>Decimal digits, as \<open>format!\<close> prints an unsigned integer.\<close>

fun decimal :: "nat \<Rightarrow> string" where
  "decimal n = (if n < 10 then [char_of (48 + n)] else decimal (n div 10) @ [char_of (48 + n mod 10)])"

declare decimal.simps [simp del]

section \<open>Slices\<close>

text \<open>\<open>&bytes[i..j]\<close>; the callers check the length before they slice.\<close>

definition slice :: "nat \<Rightarrow> nat \<Rightarrow> 'a list \<Rightarrow> 'a list" where
  "slice i j xs = take (j - i) (drop i xs)"

lemma length_slice [simp]: "j \<le> length xs \<Longrightarrow> length (slice i j xs) = j - i"
  by (simp add: slice_def)

lemma slice_append [codec_simps]:
  "slice i j (xs @ ys) =
     (if j \<le> length xs then slice i j xs
      else if length xs \<le> i then slice (i - length xs) (j - length xs) ys
      else drop i xs @ take (j - length xs) ys)"
  by (auto simp: slice_def)

lemma slice_all [codec_simps]: "length xs = n \<Longrightarrow> slice 0 n xs = xs"
  by (simp add: slice_def)

lemma slice_Cons [codec_simps]: "0 < i \<Longrightarrow> slice i j (x # xs) = slice (i - 1) (j - 1) xs"
  by (cases i; cases j) (auto simp: slice_def)

lemma slice_split: "i \<le> j \<Longrightarrow> j \<le> k \<Longrightarrow> slice i k xs = slice i j xs @ slice j k xs"
  using take_add [of "j - i" "k - j" "drop i xs"] by (simp add: slice_def)

lemma slice_slice: "i \<le> j \<Longrightarrow> j \<le> n - m \<Longrightarrow> slice i j (slice m n xs) = slice (m + i) (m + j) xs"
  by (simp add: slice_def take_drop min_def add.commute)

lemma take_slice: "i \<le> j \<Longrightarrow> take j xs = take i xs @ slice i j xs"
  by (metis slice_def take_add le_add_diff_inverse)

section \<open>Ordered containers\<close>

declare fmfilter_cong [cong del]

text \<open>
  \<open>slice::partition_point\<close> on a slice that its predicate partitions is the length of the
  longest prefix satisfying it; the callers keep their slices ordered.
\<close>

definition partition_point :: "('a \<Rightarrow> bool) \<Rightarrow> 'a list \<Rightarrow> nat" where
  "partition_point P xs = length (takeWhile P xs)"

definition get_at :: "'a list \<Rightarrow> nat \<Rightarrow> 'a option" where
  "get_at xs i = (if i < length xs then Some (xs ! i) else None)"

lemma get_at_partition_point:
  "get_at xs (partition_point P xs) =
     (case dropWhile P xs of [] \<Rightarrow> None | x # _ \<Rightarrow> Some x)"
  by (induction xs) (auto simp: get_at_def partition_point_def)

text \<open>\<open>BTreeSet::range((cursor, Unbounded)).next()\<close> with an excluded or unbounded cursor.\<close>

fun beyond :: "'a::linorder option \<Rightarrow> 'a \<Rightarrow> bool" where
  "beyond None x = True"
| "beyond (Some c) x = (c < x)"

definition next_above :: "'a::linorder option \<Rightarrow> 'a fset \<Rightarrow> 'a option" where
  "next_above c S = (let T = ffilter (beyond c) S in if T = {||} then None else Some (fMin T))"

lemma next_above_None: "next_above c S = None \<longleftrightarrow> (\<forall>x. x |\<in>| S \<longrightarrow> \<not> beyond c x)"
  by (auto simp: next_above_def Let_def)

lemma next_above_Some:
  assumes "next_above c S = Some x"
  shows "x |\<in>| S" and "beyond c x" and "\<And>y. y |\<in>| S \<Longrightarrow> beyond c y \<Longrightarrow> x \<le> y"
proof -
  have ne: "ffilter (beyond c) S \<noteq> {||}" and x: "x = fMin (ffilter (beyond c) S)"
    using assms by (auto simp: next_above_def Let_def split: if_splits)
  have "x |\<in>| ffilter (beyond c) S" using fMin_in [OF ne] x by simp
  then show "x |\<in>| S" and "beyond c x" by simp_all
  fix y assume "y |\<in>| S" "beyond c y"
  then show "x \<le> y" using x by simp
qed

lemma beyond_trans: "beyond c x \<Longrightarrow> beyond (Some x) y \<Longrightarrow> beyond c y"
  by (cases c) auto

lemma fcard_beyond_less:
  assumes "next_above c S = Some x" and "T |\<subseteq>| S"
  shows "fcard (ffilter (beyond (Some x)) T) < fcard (ffilter (beyond c) S)"
proof (rule pfsubset_fcard_mono)
  have x: "x |\<in>| S" "beyond c x" using next_above_Some [OF assms(1)] by simp_all
  then show "ffilter (beyond (Some x)) T |\<subset>| ffilter (beyond c) S"
    using assms(2) beyond_trans [OF x(2)] by fastforce
qed

section \<open>Loops that leave by return\<close>

text \<open>
  A loop body either returns (\<open>Inl\<close>) or continues with the next state (\<open>Inr\<close>).
  \<open>None\<close> is a loop that does not end.
\<close>

partial_function (option) loop :: "('s \<Rightarrow> 'r + 's) \<Rightarrow> 's \<Rightarrow> 'r option" where
  "loop body s = (case body s of Inl r \<Rightarrow> Some r | Inr s' \<Rightarrow> loop body s')"

lemma loop_total:
  assumes "I s"
    and "\<And>s s'. I s \<Longrightarrow> body s = Inr s' \<Longrightarrow> I s' \<and> (f s' :: nat) < f s"
    and "\<And>s r. I s \<Longrightarrow> body s = Inl r \<Longrightarrow> Q r"
  shows "\<exists>r. loop body s = Some r \<and> Q r"
  using assms(1)
proof (induction "f s" arbitrary: s rule: less_induct)
  case less
  show ?case
  proof (cases "body s")
    case (Inl r)
    then show ?thesis using assms(3) [OF less.prems] by (simp add: loop.simps)
  next
    case (Inr s')
    then have "I s'" "f s' < f s" using assms(2) [OF less.prems] by simp_all
    then show ?thesis using less.hyps Inr by (simp add: loop.simps)
  qed
qed

lemma loop_partial:
  assumes ret: "loop body s = Some r" and "I s"
    and step: "\<And>s s'. I s \<Longrightarrow> body s = Inr s' \<Longrightarrow> I s'"
    and post: "\<And>s r. I s \<Longrightarrow> body s = Inl r \<Longrightarrow> Q r"
  shows "Q r"
proof -
  have "body = body \<longrightarrow> I s \<longrightarrow> Q r"
  proof (rule loop.raw_induct [where P = "\<lambda>b s r. b = body \<longrightarrow> I s \<longrightarrow> Q r", OF _ ret], intro impI)
    fix f b s r
    assume IH: "\<And>b s r. f b s = Some r \<Longrightarrow> b = body \<longrightarrow> I s \<longrightarrow> Q r"
      and eq: "(case b s of Inl r \<Rightarrow> Some r | Inr s' \<Rightarrow> f b s') = Some r"
      and b: "b = body" and s: "I s"
    show "Q r"
    proof (cases "body s")
      case (Inl r')
      then show ?thesis using post [OF s] eq b by simp
    next
      case (Inr s')
      then show ?thesis using step [OF s] IH [of b s' r] eq b by simp
    qed
  qed
  then show ?thesis using assms(2) by simp
qed

end
