(* ===== verification/Errors.thy ===== *)
theory Errors
  imports Prelude
begin

text \<open>
  The error values of the storage and queue crates: \<open>io::Error\<close> with the kinds the
  sources construct or match on, \<open>StorageError\<close> of \<open>crates/storage/src/segment.rs\<close> and
  \<open>BrokerError\<close> of \<open>crates/queue/src/broker.rs\<close>. A fallible operation returns
  \<open>Inl error\<close> or \<open>Inr value\<close>.
\<close>

datatype io_kind = InvalidData | InvalidInput | NotFound | WouldBlock | WriteZero | Interrupted
  | UnexpectedEof | BrokenPipe | OtherKind

datatype io_error = IoError io_kind string

datatype storage_error =
    StIo io_error
  | Corrupt string u64 string
  | NonContiguous u64 u64
  | Isolated

datatype broker_error =
    InvalidTopic
  | InvalidChannel
  | TopicNotFound
  | TopicRetiring
  | TopicTombstoned
  | ChannelNotFound
  | ChannelTombstoned
  | ChannelNotIdle u64 u64 u64
  | ManagementUnavailable
  | RevisionConflict u64 u64
  | OperationConflict
  | InvalidTombstone
  | InvalidTopicPolicy string
  | MessageNotFound
  | MessageNotInFlight
  | MessageTooLarge
  | BatchTooLarge
  | TopicLimit
  | PublishWorkerLimit
  | ChannelWorkerLimit
  | ChannelLimit
  | SequenceExhausted
  | StorageUnavailable
  | InvalidRecord string
  | StorageErr storage_error
  | BrIo io_error

text \<open>The \<open>?\<close> operator: an error leaves the function, a value is bound.\<close>

definition and_then :: "'e + 'a \<Rightarrow> ('a \<Rightarrow> 'e + 'b) \<Rightarrow> 'e + 'b" where
  "and_then r f = (case r of Inl e \<Rightarrow> Inl e | Inr x \<Rightarrow> f x)"

lemma and_then_simps [simp]: "and_then (Inl e) f = Inl e" "and_then (Inr x) f = f x"
  by (simp_all add: and_then_def)

lemma and_then_Inr_iff: "and_then r f = Inr y \<longleftrightarrow> (\<exists>x. r = Inr x \<and> f x = Inr y)"
  by (cases r) auto

lemma and_then_Inl_iff: "and_then r f = Inl e \<longleftrightarrow> r = Inl e \<or> (\<exists>x. r = Inr x \<and> f x = Inl e)"
  by (cases r) auto

definition ok_or :: "'a option \<Rightarrow> 'e \<Rightarrow> 'e + 'a" where
  "ok_or x e = (case x of None \<Rightarrow> Inl e | Some y \<Rightarrow> Inr y)"

lemma ok_or_simps [simp]: "ok_or None e = Inl e" "ok_or (Some y) e = Inr y"
  by (simp_all add: ok_or_def)

lemma ok_or_Inr_iff [simp]: "ok_or x e = Inr y \<longleftrightarrow> x = Some y"
  by (cases x) auto

end
