(* ===== verification/Channel.thy ===== *)
theory Channel
  imports Errors "HOL-Library.Product_Lexorder"
begin

text \<open>
  The state of one Channel (\<open>crates/queue/src/channel.rs\<close>): acknowledgement floor and
  sparse acknowledgements, delayed requeues, in-flight deliveries with their identity and
  deadline indexes, the scan cursor over the Topic log and the ranges of positions that are
  absent from it. Every method of \<open>ChannelState\<close> is one definition here, on an explicit
  state; \<open>Instant::now()\<close> and the process-wide delivery token counter are arguments.
\<close>

section \<open>Data\<close>

datatype channel_command =
    Finish u64 u64
  | Requeue u64 u64 i64 u16 "u64 option"
  | Pause bool
  | Empty u64
  | Evict u64
  | Timeout u64

record channel_checkpoint =
  cp_format :: u8
  cp_name :: string
  cp_barrier_position :: u64
  cp_ack_floor_position :: u64
  cp_acknowledged :: "u64 fset"
  cp_requeued_until :: "(u64, i64) fmap"
  cp_attempts :: "(u64, u16) fmap"
  cp_message_count_origin_position :: "u64 option"
  cp_requeue_count :: u64
  cp_timeout_count :: u64
  cp_paused :: bool
  cp_ephemeral :: bool

text \<open>A delivery lease is known by the identity of the semaphore permit it holds.\<close>

type_synonym lease = nat

record in_flight =
  fl_id :: u64
  fl_timestamp_ns :: i64
  fl_deadline :: instant
  fl_token :: u64
  fl_lease :: "lease option"

record channel_state =
  ch_name :: string
  ch_barrier_position :: u64
  ch_ack_floor_position :: u64
  ch_acknowledged :: "u64 fset"
  ch_requeued_until :: "(u64, i64) fmap"
  ch_paused :: bool
  ch_ephemeral :: bool
  ch_message_count_origin_position :: u64
  ch_next_position :: u64
  ch_deferred_scan :: "(u64 \<times> i64) option"
  ch_in_flight :: "(u64, in_flight) fmap"
  ch_in_flight_ids :: "(u64, u64) fmap"
  ch_in_flight_deadlines :: "(instant \<times> u64 \<times> u64) fset"
  ch_redelivery :: "u64 fset"
  ch_attempts :: "(u64, u16) fmap"
  ch_max_ack_gap :: u64
  ch_requeue_count :: u64
  ch_timeout_count :: u64
  ch_absent_ranges :: "(u64 \<times> u64) list"

datatype message_availability = Ready i64 | Missing | Absent

datatype candidate = CandReady u64 | CandLoad u64 | CandNone

record channel_stats =
  st_name :: string
  st_depth :: u64
  st_message_count :: u64
  st_in_flight_count :: u64
  st_deferred_count :: u64
  st_requeue_count :: u64
  st_timeout_count :: u64
  st_paused :: bool
  st_ephemeral :: bool
  st_ack_cursor :: u64
  st_ack_gap :: u64

section \<open>Operations\<close>

definition new_channel :: "string \<Rightarrow> u64 \<Rightarrow> bool \<Rightarrow> u64 \<Rightarrow> channel_state" where
  "new_channel name barrier_position ephemeral max_ack_gap =
     \<lparr>ch_name = name, ch_barrier_position = barrier_position,
      ch_ack_floor_position = barrier_position, ch_acknowledged = {||},
      ch_requeued_until = fmempty, ch_paused = False, ch_ephemeral = ephemeral,
      ch_message_count_origin_position = barrier_position,
      ch_next_position = sat_inc barrier_position, ch_deferred_scan = None,
      ch_in_flight = fmempty, ch_in_flight_ids = fmempty, ch_in_flight_deadlines = {||},
      ch_redelivery = {||}, ch_attempts = fmempty, ch_max_ack_gap = max max_ack_gap 1,
      ch_requeue_count = 0, ch_timeout_count = 0, ch_absent_ranges = []\<rparr>"

definition from_checkpoint :: "channel_checkpoint \<Rightarrow> u64 \<Rightarrow> broker_error + channel_state" where
  "from_checkpoint cp max_ack_gap =
     (let origin = (case cp_message_count_origin_position cp of
                      None \<Rightarrow> cp_barrier_position cp | Some p \<Rightarrow> p)
      in if cp_format cp \<noteq> 7
            \<or> cp_ack_floor_position cp < cp_barrier_position cp
            \<or> origin > cp_barrier_position cp
         then Inl (InvalidRecord ''invalid channel checkpoint'')
         else Inr
           \<lparr>ch_name = cp_name cp, ch_barrier_position = cp_barrier_position cp,
            ch_ack_floor_position = cp_ack_floor_position cp,
            ch_acknowledged = cp_acknowledged cp, ch_requeued_until = cp_requeued_until cp,
            ch_paused = cp_paused cp, ch_ephemeral = cp_ephemeral cp,
            ch_message_count_origin_position = origin,
            ch_next_position = sat_inc (cp_ack_floor_position cp), ch_deferred_scan = None,
            ch_in_flight = fmempty, ch_in_flight_ids = fmempty, ch_in_flight_deadlines = {||},
            ch_redelivery = fmdom (cp_requeued_until cp), ch_attempts = cp_attempts cp,
            ch_max_ack_gap = max max_ack_gap 1, ch_requeue_count = cp_requeue_count cp,
            ch_timeout_count = cp_timeout_count cp, ch_absent_ranges = []\<rparr>)"

definition checkpoint :: "channel_state \<Rightarrow> channel_checkpoint" where
  "checkpoint s =
     \<lparr>cp_format = 7, cp_name = ch_name s, cp_barrier_position = ch_barrier_position s,
      cp_ack_floor_position = ch_ack_floor_position s, cp_acknowledged = ch_acknowledged s,
      cp_requeued_until = ch_requeued_until s, cp_attempts = ch_attempts s,
      cp_message_count_origin_position = Some (ch_message_count_origin_position s),
      cp_requeue_count = ch_requeue_count s, cp_timeout_count = ch_timeout_count s,
      cp_paused = ch_paused s, cp_ephemeral = ch_ephemeral s\<rparr>"

text \<open>
  \<open>compact_recovered_dpubs\<close> visits the keys of \<open>requeued_until\<close> in order behind a cursor
  and removes only the key it visits; \<open>available_at\<close> may fail.
\<close>

function compact_from ::
  "(u64 \<Rightarrow> broker_error + i64 option) \<Rightarrow> u64 option \<Rightarrow> channel_state
   \<Rightarrow> (broker_error + unit) \<times> channel_state" where
  "compact_from available_at cursor s =
     (case next_above cursor (fmdom (ch_requeued_until s)) of
        None \<Rightarrow> (Inr (), s)
      | Some position \<Rightarrow>
          if position |\<in>| fmdom (ch_attempts s) then compact_from available_at (Some position) s
          else (case available_at position of
                  Inl e \<Rightarrow> (Inl e, s)
                | Inr a \<Rightarrow>
                    if a = fmlookup (ch_requeued_until s) position
                    then compact_from available_at (Some position)
                           (s\<lparr>ch_requeued_until := fmdrop position (ch_requeued_until s),
                              ch_redelivery := ch_redelivery s |-| {|position|}\<rparr>)
                    else compact_from available_at (Some position) s))"
  by pat_completeness auto
termination
  by (relation "measure (\<lambda>(f, c, s). fcard (ffilter (beyond c) (fmdom (ch_requeued_until s))))")
     (auto intro: fcard_beyond_less)

declare compact_from.simps [simp del]

definition compact_recovered_dpubs ::
  "(u64 \<Rightarrow> broker_error + i64 option) \<Rightarrow> channel_state
   \<Rightarrow> (broker_error + unit) \<times> channel_state" where
  "compact_recovered_dpubs available_at s = compact_from available_at None s"

subsection \<open>Absent ranges\<close>

definition range_end :: "(u64 \<times> u64) list \<Rightarrow> u64 \<Rightarrow> u64 option" where
  "range_end ranges position =
     (case get_at ranges (partition_point (\<lambda>(start, end). end < position) ranges) of
        None \<Rightarrow> None
      | Some (start, end) \<Rightarrow> if position \<ge> start then Some end else None)"

definition absent_range_end :: "channel_state \<Rightarrow> u64 \<Rightarrow> u64 option" where
  "absent_range_end s position = range_end (ch_absent_ranges s) position"

definition is_absent :: "channel_state \<Rightarrow> u64 \<Rightarrow> bool" where
  "is_absent s position \<longleftrightarrow> absent_range_end s position \<noteq> None"

definition position_in_ranges :: "(u64 \<times> u64) list \<Rightarrow> u64 \<Rightarrow> bool" where
  "position_in_ranges ranges position \<longleftrightarrow>
     (case get_at ranges (partition_point (\<lambda>(start, end). end < position) ranges) of
        None \<Rightarrow> False
      | Some (start, end) \<Rightarrow> position \<ge> start)"

definition range_overlap :: "u64 \<Rightarrow> u64 \<Rightarrow> u64 \<times> u64 \<Rightarrow> u64" where
  "range_overlap first last_p r =
     (let overlap_first = max first (fst r); overlap_last = min last_p (snd r)
      in if overlap_first \<le> overlap_last then sat_add (sat_sub overlap_last overlap_first) 1
         else 0)"

definition absent_count :: "channel_state \<Rightarrow> u64 \<Rightarrow> u64 \<Rightarrow> u64" where
  "absent_count s first last_p =
     (if first > last_p then 0
      else foldl sat_add 0 (map (range_overlap first last_p) (ch_absent_ranges s)))"

definition present_distance :: "channel_state \<Rightarrow> u64 \<Rightarrow> u64" where
  "present_distance s position =
     sat_sub (sat_sub position (ch_ack_floor_position s))
             (absent_count s (sat_inc (ch_ack_floor_position s)) position)"

subsection \<open>Acknowledgements\<close>

definition remove_in_flight :: "u64 \<Rightarrow> channel_state \<Rightarrow> bool \<times> channel_state" where
  "remove_in_flight position s =
     (case fmlookup (ch_in_flight s) position of
        None \<Rightarrow> (False, s)
      | Some delivery \<Rightarrow>
          (True, s\<lparr>ch_in_flight := fmdrop position (ch_in_flight s),
                   ch_in_flight_deadlines :=
                     ch_in_flight_deadlines s |-| {|(fl_deadline delivery, position, fl_token delivery)|},
                   ch_in_flight_ids := fmdrop (fl_id delivery) (ch_in_flight_ids s)\<rparr>))"

lemma range_end_ge: "range_end ranges p = Some e \<Longrightarrow> p \<le> e"
proof -
  assume a: "range_end ranges p = Some e"
  then obtain s r rs where "dropWhile (\<lambda>(start, end). end < p) ranges = (s, e) # rs"
    by (auto simp: range_end_def get_at_partition_point split: option.splits list.splits if_splits)
  then show ?thesis using hd_dropWhile [of "\<lambda>(start, end). end < p" ranges] by force
qed

function advance_floor ::
  "(u64 \<times> u64) list \<Rightarrow> u64 \<Rightarrow> u64 fset \<Rightarrow> u64 \<times> u64 fset" where
  "advance_floor ranges ack_floor acked =
     (let next = sat_inc ack_floor
      in if next = ack_floor then (ack_floor, acked)
         else (case range_end ranges next of
                 Some end \<Rightarrow> advance_floor ranges end acked
               | None \<Rightarrow>
                   if next |\<in>| acked then advance_floor ranges next (acked |-| {|next|})
                   else (ack_floor, acked)))"
  by pat_completeness auto
termination
proof (relation "measure (\<lambda>(r, f, a). 18446744073709551615 - unat f)", goal_cases)
  case (2 ranges ack_floor acked x)
  then have "ack_floor < x" using less_sat_inc_iff [of ack_floor] by auto
  then show ?case using unat_le_u64_max [of x] by (simp add: word_less_nat_alt)
next
  case (3 ranges ack_floor acked x e)
  then have "ack_floor < e"
    using range_end_ge [of ranges "sat_inc ack_floor" e] less_sat_inc_iff [of ack_floor] by auto
  then show ?case using unat_le_u64_max [of e] by (simp add: word_less_nat_alt)
qed simp

declare advance_floor.simps [simp del]

definition advance_ack_floor :: "channel_state \<Rightarrow> channel_state" where
  "advance_ack_floor s =
     (case advance_floor (ch_absent_ranges s) (ch_ack_floor_position s) (ch_acknowledged s) of
        (ack_floor, acked) \<Rightarrow>
          s\<lparr>ch_ack_floor_position := ack_floor, ch_acknowledged := acked,
            ch_next_position := max (ch_next_position s) (sat_inc ack_floor)\<rparr>)"

definition acknowledge :: "u64 \<Rightarrow> channel_state \<Rightarrow> channel_state" where
  "acknowledge position s =
     (let s1 = snd (remove_in_flight position s);
          s2 = s1\<lparr>ch_redelivery := ch_redelivery s1 |-| {|position|},
                  ch_requeued_until := fmdrop position (ch_requeued_until s1),
                  ch_attempts := fmdrop position (ch_attempts s1)\<rparr>
      in if position \<le> ch_ack_floor_position s2 then s2
         else advance_ack_floor (s2\<lparr>ch_acknowledged := finsert position (ch_acknowledged s2)\<rparr>))"

text \<open>
  \<open>Empty\<close> and \<open>Evict\<close> share one arm. The in-flight keys of a \<open>HashMap\<close> come in no
  particular order; the removals commute, and the model takes them in increasing order.
\<close>

definition drop_through :: "u64 \<Rightarrow> channel_state \<Rightarrow> channel_state" where
  "drop_through through s =
     (let s1 = s\<lparr>ch_ack_floor_position := max (ch_ack_floor_position s) through,
                 ch_acknowledged := ffilter (\<lambda>p. through < p) (ch_acknowledged s),
                 ch_requeued_until := fmfilter (\<lambda>p. through < p) (ch_requeued_until s),
                 ch_attempts := fmfilter (\<lambda>p. through < p) (ch_attempts s)\<rparr>;
          removed = sorted_list_of_fset (ffilter (\<lambda>p. p \<le> through) (fmdom (ch_in_flight s1)));
          s2 = fold (\<lambda>p t. snd (remove_in_flight p t)) removed s1
      in s2\<lparr>ch_redelivery := ffilter (\<lambda>p. through < p) (ch_redelivery s2),
            ch_next_position := max (ch_next_position s2) (sat_inc through)\<rparr>)"

fun apply_command :: "channel_command \<Rightarrow> channel_state \<Rightarrow> channel_state" where
  "apply_command (Finish position message_id) s = acknowledge position s"
| "apply_command (Requeue position message_id available_at_ms attempts cumulative_count) s =
     (let already_applied = (fmlookup (ch_requeued_until s) position = Some available_at_ms
                             \<and> fmlookup (ch_attempts s) position = Some attempts);
          s1 = snd (remove_in_flight position s);
          s2 = s1\<lparr>ch_redelivery := finsert position (ch_redelivery s1),
                  ch_requeued_until := fmupd position available_at_ms (ch_requeued_until s1),
                  ch_attempts := fmupd position attempts (ch_attempts s1)\<rparr>
      in (case cumulative_count of
            Some count \<Rightarrow> s2\<lparr>ch_requeue_count := max (ch_requeue_count s2) count\<rparr>
          | None \<Rightarrow> if already_applied then s2
                    else s2\<lparr>ch_requeue_count := sat_inc (ch_requeue_count s2)\<rparr>))"
| "apply_command (Pause paused) s = s\<lparr>ch_paused := paused\<rparr>"
| "apply_command (Empty through_position) s = drop_through through_position s"
| "apply_command (Evict through_position) s = drop_through through_position s"
| "apply_command (Timeout cumulative_count) s =
     s\<lparr>ch_timeout_count := max (ch_timeout_count s) cumulative_count\<rparr>"


subsection \<open>Choosing the next delivery\<close>

lemma advance_ack_floor_redelivery [simp]:
  "ch_redelivery (advance_ack_floor s) = ch_redelivery s"
  by (simp add: advance_ack_floor_def split: prod.splits)

lemma remove_in_flight_redelivery [simp]:
  "ch_redelivery (snd (remove_in_flight p s)) = ch_redelivery s"
  by (simp add: remove_in_flight_def split: option.splits)

lemma acknowledge_redelivery [simp]:
  "ch_redelivery (acknowledge p s) = ch_redelivery s |-| {|p|}"
  by (simp add: acknowledge_def Let_def)

text \<open>The first loop of \<open>next_candidate\<close>: redeliveries in position order behind a cursor.\<close>

function redelivery_scan ::
  "i64 \<Rightarrow> (u64 \<Rightarrow> message_availability) \<Rightarrow> u64 option \<Rightarrow> channel_state
   \<Rightarrow> candidate option \<times> channel_state" where
  "redelivery_scan now_ms available_at cursor s =
     (case next_above cursor (ch_redelivery s) of
        None \<Rightarrow> (None, s)
      | Some position \<Rightarrow>
          if is_absent s position then
            redelivery_scan now_ms available_at (Some position)
              (advance_ack_floor
                 (s\<lparr>ch_redelivery := ch_redelivery s |-| {|position|},
                    ch_requeued_until := fmdrop position (ch_requeued_until s),
                    ch_attempts := fmdrop position (ch_attempts s)\<rparr>))
          else if (case fmlookup (ch_requeued_until s) position of None \<Rightarrow> 0 | Some u \<Rightarrow> u) > now_ms then
            redelivery_scan now_ms available_at (Some position) s
          else (case available_at position of
                  Ready available \<Rightarrow>
                    if available \<le> now_ms then
                      (Some (CandReady position),
                       s\<lparr>ch_redelivery := ch_redelivery s |-| {|position|},
                         ch_requeued_until := fmdrop position (ch_requeued_until s)\<rparr>)
                    else redelivery_scan now_ms available_at (Some position) s
                | Missing \<Rightarrow> (Some (CandLoad position), s)
                | Absent \<Rightarrow>
                    redelivery_scan now_ms available_at (Some position) (acknowledge position s)))"
  by pat_completeness auto
termination
  by (relation "measure (\<lambda>(n, f, c, s). fcard (ffilter (beyond c) (ch_redelivery s)))")
     (auto intro!: fcard_beyond_less)

declare redelivery_scan.simps [simp del]

text \<open>
  One iteration of the second loop, the scan of positions not looked at before. It ends
  when the cursor passes \<open>last_position\<close>; the cursor saturates, so the loop is bounded only
  while \<open>last_position\<close> is below the largest position.
\<close>

definition scan_step ::
  "i64 \<Rightarrow> u64 \<Rightarrow> (u64 \<Rightarrow> message_availability) \<Rightarrow> channel_state
   \<Rightarrow> (candidate \<times> channel_state) + channel_state" where
  "scan_step now_ms last_position available_at s =
     (if \<not> ch_next_position s \<le> last_position then Inl (CandNone, s)
      else (case absent_range_end s (ch_next_position s) of
        Some end \<Rightarrow> Inr (advance_ack_floor (s\<lparr>ch_next_position := sat_inc end\<rparr>))
      | None \<Rightarrow>
          if present_distance s (ch_next_position s) > ch_max_ack_gap s then Inl (CandNone, s)
          else let position = ch_next_position s;
                   moved = s\<lparr>ch_next_position := sat_inc (ch_next_position s)\<rparr>
            in if position \<le> ch_ack_floor_position s
                  \<or> position |\<in>| ch_acknowledged s
                  \<or> position |\<in>| fmdom (ch_in_flight s)
                  \<or> position |\<in>| ch_redelivery s
               then Inr moved
               else (case available_at position of
                       Missing \<Rightarrow> Inl (CandLoad position, s)
                     | Absent \<Rightarrow> Inr (acknowledge position moved)
                     | Ready available \<Rightarrow>
                         if available > now_ms then
                           Inr (moved\<lparr>ch_deferred_scan := Some
                                  (case ch_deferred_scan moved of
                                     Some (first, until) \<Rightarrow> (min first position, min until available)
                                   | None \<Rightarrow> (position, available))\<rparr>)
                         else Inl (CandReady position, moved))))"

definition rewind_deferred :: "i64 \<Rightarrow> channel_state \<Rightarrow> channel_state" where
  "rewind_deferred now_ms s =
     (case ch_deferred_scan s of
        None \<Rightarrow> s
      | Some (first, until) \<Rightarrow>
          if until \<le> now_ms then
            s\<lparr>ch_next_position :=
                min (ch_next_position s) (max first (sat_inc (ch_ack_floor_position s))),
              ch_deferred_scan := None\<rparr>
          else s)"

definition next_candidate ::
  "i64 \<Rightarrow> u64 \<Rightarrow> (u64 \<Rightarrow> message_availability) \<Rightarrow> channel_state
   \<Rightarrow> (candidate \<times> channel_state) option" where
  "next_candidate now_ms last_position available_at s =
     (if ch_paused s then Some (CandNone, s)
      else (case redelivery_scan now_ms available_at None (rewind_deferred now_ms s) of
              (Some c, s1) \<Rightarrow> Some (c, s1)
            | (None, s1) \<Rightarrow> loop (scan_step now_ms last_position available_at) s1))"

subsection \<open>Reservations and leases\<close>

definition set_absent_ranges :: "(u64 \<times> u64) list \<Rightarrow> channel_state \<Rightarrow> channel_state" where
  "set_absent_ranges ranges s =
     advance_ack_floor
       (s\<lparr>ch_acknowledged := ffilter (\<lambda>p. \<not> position_in_ranges ranges p) (ch_acknowledged s),
          ch_redelivery := ffilter (\<lambda>p. \<not> position_in_ranges ranges p) (ch_redelivery s),
          ch_requeued_until := fmfilter (\<lambda>p. \<not> position_in_ranges ranges p) (ch_requeued_until s),
          ch_attempts := fmfilter (\<lambda>p. \<not> position_in_ranges ranges p) (ch_attempts s),
          ch_absent_ranges := ranges\<rparr>)"

definition fmax_or_0 :: "u64 fset \<Rightarrow> u64" where
  "fmax_or_0 S = (if S = {||} then 0 else fMax S)"

definition recovered_position_high_watermark :: "channel_state \<Rightarrow> u64" where
  "recovered_position_high_watermark s =
     max (max (max (ch_ack_floor_position s) (fmax_or_0 (ch_acknowledged s)))
              (fmax_or_0 (fmdom (ch_requeued_until s))))
         (fmax_or_0 (fmdom (ch_attempts s)))"

text \<open>
  \<open>reserve_timestamped\<close>: \<open>next_token\<close> is the process-wide counter before the call
  (\<open>fetch_add\<close> wraps), \<open>now\<close> the monotonic clock, \<open>timeout\<close> a duration.
\<close>

definition reserve_timestamped ::
  "u64 \<Rightarrow> instant \<Rightarrow> u64 \<Rightarrow> u64 \<Rightarrow> i64 \<Rightarrow> int \<Rightarrow> lease option \<Rightarrow> channel_state
   \<Rightarrow> (u64 \<times> u16) \<times> u64 \<times> channel_state" where
  "reserve_timestamped next_token now position msg_id timestamp_ns timeout lease s =
     (let token = next_token;
          attempts = sat_add (case fmlookup (ch_attempts s) position of None \<Rightarrow> 0 | Some a \<Rightarrow> a) 1;
          deadline = now + timeout
      in ((token, attempts), next_token + 1,
          s\<lparr>ch_attempts := fmupd position attempts (ch_attempts s),
            ch_in_flight := fmupd position
              \<lparr>fl_id = msg_id, fl_timestamp_ns = timestamp_ns, fl_deadline = deadline,
               fl_token = token, fl_lease = lease\<rparr> (ch_in_flight s),
            ch_in_flight_deadlines := finsert (deadline, position, token) (ch_in_flight_deadlines s),
            ch_in_flight_ids := fmupd msg_id position (ch_in_flight_ids s)\<rparr>))"

definition cancel :: "u64 \<Rightarrow> u64 \<Rightarrow> channel_state \<Rightarrow> channel_state" where
  "cancel position token s =
     (case fmlookup (ch_in_flight s) position of
        None \<Rightarrow> s
      | Some flight \<Rightarrow>
          if fl_token flight = token then
            (let s1 = snd (remove_in_flight position s);
                 s2 = s1\<lparr>ch_redelivery := finsert position (ch_redelivery s1)\<rparr>
             in (case fmlookup (ch_attempts s2) position of
                   None \<Rightarrow> s2
                 | Some a \<Rightarrow>
                     let a' = sat_sub a 1
                     in if a' = 0 then s2\<lparr>ch_attempts := fmdrop position (ch_attempts s2)\<rparr>
                        else s2\<lparr>ch_attempts := fmupd position a' (ch_attempts s2)\<rparr>))
          else s)"

definition defer_candidate :: "u64 \<Rightarrow> channel_state \<Rightarrow> channel_state" where
  "defer_candidate position s = s\<lparr>ch_redelivery := finsert position (ch_redelivery s)\<rparr>"

definition in_flight_position :: "channel_state \<Rightarrow> u64 \<Rightarrow> u64 option" where
  "in_flight_position s msg_id = fmlookup (ch_in_flight_ids s) msg_id"

definition in_flight_position_with_token :: "channel_state \<Rightarrow> u64 \<Rightarrow> u64 \<Rightarrow> u64 option" where
  "in_flight_position_with_token s msg_id token =
     (case in_flight_position s msg_id of
        None \<Rightarrow> None
      | Some position \<Rightarrow>
          (case fmlookup (ch_in_flight s) position of
             None \<Rightarrow> None
           | Some flight \<Rightarrow> if fl_token flight = token then Some position else None))"

definition in_flight_timestamp :: "channel_state \<Rightarrow> u64 \<Rightarrow> u64 option \<Rightarrow> i64 option" where
  "in_flight_timestamp s msg_id token =
     (case in_flight_position s msg_id of
        None \<Rightarrow> None
      | Some position \<Rightarrow>
          (case fmlookup (ch_in_flight s) position of
             None \<Rightarrow> None
           | Some flight \<Rightarrow>
               if (case token of None \<Rightarrow> True | Some t \<Rightarrow> fl_token flight = t)
               then Some (fl_timestamp_ns flight) else None))"

definition is_unacknowledged :: "channel_state \<Rightarrow> u64 \<Rightarrow> bool" where
  "is_unacknowledged s position \<longleftrightarrow>
     position > ch_ack_floor_position s \<and> position |\<notin>| ch_acknowledged s"

definition delivery_attempts :: "channel_state \<Rightarrow> u64 \<Rightarrow> u16" where
  "delivery_attempts s position =
     (case fmlookup (ch_attempts s) position of None \<Rightarrow> 0 | Some a \<Rightarrow> a)"

definition next_requeue_count :: "channel_state \<Rightarrow> u64" where
  "next_requeue_count s = sat_inc (ch_requeue_count s)"

definition touch_until :: "u64 \<Rightarrow> instant \<Rightarrow> channel_state \<Rightarrow> bool \<times> channel_state" where
  "touch_until position deadline s =
     (case fmlookup (ch_in_flight s) position of
        None \<Rightarrow> (False, s)
      | Some flight \<Rightarrow>
          (True,
           s\<lparr>ch_in_flight := fmupd position (flight\<lparr>fl_deadline := deadline\<rparr>) (ch_in_flight s),
             ch_in_flight_deadlines :=
               finsert (deadline, position, fl_token flight)
                 (ch_in_flight_deadlines s |-| {|(fl_deadline flight, position, fl_token flight)|})\<rparr>))"

definition touch :: "instant \<Rightarrow> u64 \<Rightarrow> int \<Rightarrow> channel_state \<Rightarrow> bool \<times> channel_state" where
  "touch now position timeout s = touch_until position (now + timeout) s"

definition release :: "u64 \<Rightarrow> channel_state \<Rightarrow> channel_state" where
  "release position s =
     (case remove_in_flight position s of
        (True, s1) \<Rightarrow> s1\<lparr>ch_redelivery := finsert position (ch_redelivery s1)\<rparr>
      | (False, s1) \<Rightarrow> s1)"

definition release_all :: "channel_state \<Rightarrow> nat \<times> channel_state" where
  "release_all s =
     (let positions = sorted_list_of_fset (fmdom (ch_in_flight s))
      in (length positions,
          fold (\<lambda>p t. let t1 = snd (remove_in_flight p t)
                       in t1\<lparr>ch_redelivery := finsert p (ch_redelivery t1)\<rparr>) positions s))"

text \<open>
  \<open>expired_positions\<close> takes the prefix of the deadline index up to
  \<open>(now, u64::MAX, u64::MAX)\<close> in the lexicographic order of its triples.
\<close>

definition expired_entries :: "channel_state \<Rightarrow> instant \<Rightarrow> (instant \<times> u64 \<times> u64) fset" where
  "expired_entries s now = ffilter (\<lambda>d. d \<le> (now, u64_max, u64_max)) (ch_in_flight_deadlines s)"

definition expired_positions :: "channel_state \<Rightarrow> instant \<Rightarrow> u64 list" where
  "expired_positions s now =
     map (\<lambda>(deadline, position, token). position) (sorted_list_of_fset (expired_entries s now))"

definition has_expired_in_flight :: "channel_state \<Rightarrow> instant \<Rightarrow> bool" where
  "has_expired_in_flight s now \<longleftrightarrow>
     ch_in_flight_deadlines s \<noteq> {||} \<and> fst (fMin (ch_in_flight_deadlines s)) \<le> now"

definition expire_positions :: "u64 list \<Rightarrow> channel_state \<Rightarrow> channel_state" where
  "expire_positions positions s =
     fold (\<lambda>p t. let t1 = snd (remove_in_flight p t)
                  in t1\<lparr>ch_redelivery := finsert p (ch_redelivery t1)\<rparr>) positions s"

definition first_in_flight_position :: "channel_state \<Rightarrow> u64 option" where
  "first_in_flight_position s =
     (if fmdom (ch_in_flight s) = {||} then None else Some (fMin (fmdom (ch_in_flight s))))"

subsection \<open>Statistics\<close>

definition is_outstanding :: "channel_state \<Rightarrow> u64 \<Rightarrow> u64 \<Rightarrow> bool" where
  "is_outstanding s position last_position \<longleftrightarrow>
     position > ch_ack_floor_position s \<and> position \<le> last_position
     \<and> \<not> is_absent s position \<and> position |\<notin>| ch_acknowledged s
     \<and> position |\<notin>| fmdom (ch_in_flight s)"

definition requeued_in :: "channel_state \<Rightarrow> u64 \<Rightarrow> i64 \<Rightarrow> u64 fset \<Rightarrow> u64 fset" where
  "requeued_in s last_position now_ms keys =
     ffilter (\<lambda>p. (case fmlookup (ch_requeued_until s) p of None \<Rightarrow> False | Some u \<Rightarrow> u > now_ms)
                  \<and> is_outstanding s p last_position) keys"

definition metric_counts ::
  "channel_state \<Rightarrow> u64 \<Rightarrow> u64 \<Rightarrow> i64 \<Rightarrow> u64 \<times> u64 \<times> u64 \<times> u64" where
  "metric_counts s last_position scheduled_without_requeues now_ms =
     (let total = sat_sub (sat_sub last_position (ch_ack_floor_position s))
                          (absent_count s (sat_inc (ch_ack_floor_position s)) last_position);
          requeued_count = fcard (requeued_in s last_position now_ms (fmdom (ch_requeued_until s)))
      in (sat_sub total (word_of_nat (fcard (ch_acknowledged s))),
          word_of_nat (fcard (fmdom (ch_in_flight s))),
          sat_add scheduled_without_requeues (word_of_nat requeued_count),
          word_of_nat (fcard (ch_acknowledged s))))"

definition stats :: "channel_state \<Rightarrow> u64 \<Rightarrow> u64 \<Rightarrow> i64 \<Rightarrow> channel_stats" where
  "stats s last_position scheduled_without_requeues now_ms =
     (case metric_counts s last_position scheduled_without_requeues now_ms of
        (depth, in_flight_count, deferred_count, ack_gap) \<Rightarrow>
          \<lparr>st_name = ch_name s, st_depth = depth,
           st_message_count = sat_sub last_position (ch_message_count_origin_position s),
           st_in_flight_count = in_flight_count, st_deferred_count = deferred_count,
           st_requeue_count = ch_requeue_count s, st_timeout_count = ch_timeout_count s,
           st_paused = ch_paused s, st_ephemeral = ch_ephemeral s,
           st_ack_cursor = ch_ack_floor_position s, st_ack_gap = ack_gap\<rparr>)"

definition scheduled_count_in_range :: "channel_state \<Rightarrow> u64 \<Rightarrow> u64 \<Rightarrow> i64 \<Rightarrow> u64" where
  "scheduled_count_in_range s first_p last_p now_ms =
     (let first' = max first_p (sat_inc (ch_ack_floor_position s))
      in if first' > last_p \<or> last_p \<le> ch_ack_floor_position s then 0
         else
           let within = (\<lambda>p. first' \<le> p \<and> p \<le> last_p);
               acknowledged = fcard (ffilter (\<lambda>p. within p \<and> \<not> is_absent s p) (ch_acknowledged s));
               in_flight = fcard (ffilter (\<lambda>p. within p \<and> \<not> is_absent s p) (fmdom (ch_in_flight s)));
               requeued = fcard (requeued_in s last_p now_ms
                                   (ffilter within (fmdom (ch_requeued_until s))))
           in sat_sub (sat_sub (sat_sub (sat_sub
                (sat_add (sat_sub last_p first') 1) (absent_count s first' last_p))
                (word_of_nat acknowledged)) (word_of_nat in_flight)) (word_of_nat requeued))"

end
