(* ===== verification/Channel_Ranges.thy ===== *)
theory Channel_Ranges
  imports Channel
begin

text \<open>
  The absent ranges of a Channel as a set of positions, the arithmetic of
  \<open>absent_count\<close> and \<open>present_distance\<close> as cardinalities, and the acknowledgement
  floor: \<open>advance_ack_floor\<close> keeps the set of settled positions and leaves no settled
  position directly above the floor.
\<close>

section \<open>Ranges as sets\<close>

definition ranges_wf :: "(u64 \<times> u64) list \<Rightarrow> bool" where
  "ranges_wf ranges \<longleftrightarrow>
     sorted_wrt (\<lambda>(a, b) (c, d). b < c) ranges \<and> list_all (\<lambda>(a, b). a \<le> b) ranges"

definition ranges_set :: "(u64 \<times> u64) list \<Rightarrow> u64 set" where
  "ranges_set ranges = (\<Union>(a, b) \<in> set ranges. {a..b})"

lemma ranges_wf_Nil [simp]: "ranges_wf []"
  by (simp add: ranges_wf_def)

lemma ranges_set_Nil [simp]: "ranges_set [] = {}"
  by (simp add: ranges_set_def)

lemma ranges_wf_Cons:
  "ranges_wf ((a, b) # rs) \<longleftrightarrow> a \<le> b \<and> (\<forall>(c, d) \<in> set rs. b < c) \<and> ranges_wf rs"
  by (auto simp: ranges_wf_def)

lemma ranges_set_Cons [simp]: "ranges_set ((a, b) # rs) = {a..b} \<union> ranges_set rs"
  by (auto simp: ranges_set_def)

lemma ranges_set_above:
  assumes "ranges_wf ((a, b) # rs)" and "p \<in> ranges_set rs" shows "b < p"
  using assms by (fastforce simp: ranges_wf_Cons ranges_set_def)

lemma range_end_Nil [simp]: "range_end [] p = None"
  by (simp add: range_end_def get_at_partition_point)

lemma range_end_Cons [simp]:
  "range_end ((a, b) # rs) p =
     (if b < p then range_end rs p else if a \<le> p then Some b else None)"
  by (simp add: range_end_def get_at_partition_point)

lemma range_end_None_iff:
  "ranges_wf rs \<Longrightarrow> range_end rs p = None \<longleftrightarrow> p \<notin> ranges_set rs"
proof (induction rs)
  case (Cons r rs)
  obtain a b where r: "r = (a, b)" by (cases r)
  have "p \<notin> ranges_set rs" if "p \<le> b"
    using ranges_set_above [of a b rs p] Cons.prems r that by auto
  then show ?case using Cons by (auto simp: r ranges_wf_Cons)
qed simp

lemma range_end_Some_subset:
  assumes "range_end rs p = Some e" shows "{p..e} \<subseteq> ranges_set rs"
  using assms
proof (induction rs)
  case (Cons r rs)
  then show ?case by (cases r) (auto split: if_splits)
qed simp

lemma position_in_ranges_iff:
  "ranges_wf rs \<Longrightarrow> position_in_ranges rs p \<longleftrightarrow> p \<in> ranges_set rs"
  using range_end_None_iff [of rs p]
  by (auto simp: position_in_ranges_def range_end_def split: option.splits if_splits)

lemma is_absent_iff:
  "ranges_wf (ch_absent_ranges s) \<Longrightarrow> is_absent s p \<longleftrightarrow> p \<in> ranges_set (ch_absent_ranges s)"
  using range_end_None_iff [of "ch_absent_ranges s" p]
  by (auto simp: is_absent_def absent_range_end_def)

section \<open>Counting\<close>

lemma card_u64_closed:
  "a \<le> b \<Longrightarrow> card {a..b :: u64} = Suc (unat b - unat a)"
proof -
  assume "a \<le> b"
  then have "{a..b} = insert a {a<..b}" by auto
  then show ?thesis using card_u64_interval [of a b] by simp
qed

lemma unat_range_overlap:
  assumes "1 \<le> x"
  shows "unat (range_overlap x y (a, b)) = card ({x..y} \<inter> {a..b})"
proof (cases "max x a \<le> min y b")
  case True
  let ?d = "unat (min y b) - unat (max x a)"
  have "0 < unat (max x a)" using assms by (simp add: word_le_nat_alt max_def)
  then have d: "?d < 18446744073709551615"
    using unat_le_u64_max [of "min y b"] by linarith
  have "unat (range_overlap x y (a, b)) = Suc ?d"
    using True d by (simp add: range_overlap_def Let_def unat_sat_inc)
  moreover have "{x..y} \<inter> {a..b} = {max x a..min y b}" by auto
  ultimately show ?thesis using True card_u64_closed by simp
next
  case False
  then have "{x..y} \<inter> {a..b} = {}" by auto
  moreover have "range_overlap x y (a, b) = 0"
    using False by (simp only: range_overlap_def Let_def fst_conv snd_conv if_False)
  ultimately show ?thesis by simp
qed

lemma card_u64_set_le:
  assumes "0 \<notin> S" shows "card (S :: u64 set) \<le> 18446744073709551615"
proof -
  have "S \<subseteq> {0<..u64_max}" using assms by (auto simp: word_gt_0)
  then have "card S \<le> card {0<..u64_max :: u64}" by (intro card_mono) simp_all
  then show ?thesis by (simp add: card_u64_interval)
qed

lemma foldl_sat_add_exact:
  "unat (acc :: u64) + sum_list (map unat xs) \<le> 18446744073709551615 \<Longrightarrow>
   unat (foldl sat_add acc xs) = unat acc + sum_list (map unat xs)"
proof (induction xs arbitrary: acc)
  case (Cons x xs)
  then have "unat (sat_add acc x) = unat acc + unat x" by (simp add: unat_sat_add_u64)
  with Cons show ?case by simp
qed simp

lemma sum_overlaps:
  assumes "ranges_wf rs" and "1 \<le> x"
  shows "sum_list (map (unat \<circ> range_overlap x y) rs) = card ({x..y} \<inter> ranges_set rs)"
  using assms
proof (induction rs)
  case (Cons r rs)
  obtain a b where r: "r = (a, b)" by (cases r)
  have "({x..y} \<inter> {a..b}) \<inter> ({x..y} \<inter> ranges_set rs) = {}"
    using ranges_set_above [of a b rs] Cons.prems r by fastforce
  then have "card ({x..y} \<inter> ranges_set (r # rs))
      = card ({x..y} \<inter> {a..b}) + card ({x..y} \<inter> ranges_set rs)"
    by (simp add: r Int_Un_distrib card_Un_disjoint)
  then show ?case
    using Cons unat_range_overlap [of x y a b] by (simp add: r ranges_wf_Cons)
qed simp

lemma unat_absent_count:
  assumes "ranges_wf (ch_absent_ranges s)" and "1 \<le> x"
  shows "unat (absent_count s x y) = card {p \<in> {x..y}. is_absent s p}"
proof -
  let ?S = "{x..y} \<inter> ranges_set (ch_absent_ranges s)"
  have S: "{p \<in> {x..y}. is_absent s p} = ?S"
    using is_absent_iff [OF assms(1)] by auto
  have "0 \<notin> ?S" using assms(2) by auto
  then have "card ?S \<le> 18446744073709551615" by (rule card_u64_set_le)
  moreover have "sum_list (map unat (map (range_overlap x y) (ch_absent_ranges s))) = card ?S"
    using sum_overlaps [OF assms, of y] by (simp add: comp_def)
  ultimately show ?thesis
    using foldl_sat_add_exact [of 0 "map (range_overlap x y) (ch_absent_ranges s)"] S
    by (auto simp: absent_count_def)
qed

lemma unat_present_distance:
  assumes wf: "ranges_wf (ch_absent_ranges s)"
  shows "unat (present_distance s p)
         = card {q. ch_ack_floor_position s < q \<and> q \<le> p \<and> \<not> is_absent s q}"
proof (cases "ch_ack_floor_position s < p")
  case False
  then have "{q. ch_ack_floor_position s < q \<and> q \<le> p \<and> \<not> is_absent s q} = {}" by auto
  moreover have "unat (present_distance s p) = 0"
    using False by (simp add: present_distance_def word_le_nat_alt not_less)
  ultimately show ?thesis by simp
next
  case True
  let ?f = "ch_ack_floor_position s"
  have ne: "?f \<noteq> u64_max" using True by (auto dest: less_neq_u64_max)
  have one: "1 \<le> sat_inc ?f"
    using ne by (simp add: word_le_nat_alt unat_sat_inc)
  have ivl: "{sat_inc ?f..p} = {?f<..p}"
    using ne less_sat_inc_iff [of ?f] by (auto intro: less_le_trans)
  let ?A = "{q \<in> {?f<..p}. is_absent s q}" and ?P = "{q \<in> {?f<..p}. \<not> is_absent s q}"
  have "card {?f<..p} = card ?A + card ?P"
    by (subst card_Un_disjoint [symmetric]) (auto intro: arg_cong [of _ _ card])
  moreover have "unat (absent_count s (sat_inc ?f) p) = card ?A"
    using unat_absent_count [OF wf one, of p] by (simp only: ivl)
  moreover have "{q. ?f < q \<and> q \<le> p \<and> \<not> is_absent s q} = ?P" by auto
  ultimately show ?thesis
    by (simp only: present_distance_def unat_sat_sub card_u64_interval diff_add_inverse)
qed

section \<open>The acknowledgement floor\<close>

text \<open>The positions a Channel will not deliver any more.\<close>

definition settled :: "channel_state \<Rightarrow> u64 set" where
  "settled s = {..ch_ack_floor_position s} \<union> fset (ch_acknowledged s)
               \<union> ranges_set (ch_absent_ranges s)"

lemma atMost_sat_inc: "sat_inc f \<noteq> f \<Longrightarrow> {..sat_inc f} = insert (sat_inc f) {..f}"
proof -
  have "x \<le> f" if "x \<le> sat_inc f" "x \<noteq> sat_inc f" for x
    using that by (intro less_sat_inc_le) simp
  then show ?thesis using sat_inc_ge [of f] by (auto intro: order_trans)
qed

lemma atMost_range_end:
  assumes "range_end rs (sat_inc f) = Some e"
  shows "f \<le> e" and "{..e} \<union> fset A \<union> ranges_set rs = {..f} \<union> fset A \<union> ranges_set rs"
proof -
  have "sat_inc f \<le> e" using assms by (rule range_end_ge)
  then show fe: "f \<le> e" using sat_inc_ge [of f] by (rule order_trans [rotated])
  have "x \<in> ranges_set rs" if "x \<le> e" "\<not> x \<le> f" for x
    using range_end_Some_subset [OF assms] that less_imp_sat_inc_le [of f x] by auto
  then show "{..e} \<union> fset A \<union> ranges_set rs = {..f} \<union> fset A \<union> ranges_set rs"
    using fe by (auto intro: order_trans)
qed

lemma advance_floor_spec:
  assumes "advance_floor rs f A = (f', A')"
  shows "f \<le> f' \<and> {..f'} \<union> fset A' \<union> ranges_set rs = {..f} \<union> fset A \<union> ranges_set rs
         \<and> A' |\<subseteq>| A
         \<and> (ranges_wf rs \<longrightarrow> f' = u64_max \<or> sat_inc f' \<notin> fset A' \<union> ranges_set rs)"
  using assms
proof (induction rs f A arbitrary: f' A' rule: advance_floor.induct)
  case (1 rs f A)
  let ?n = "sat_inc f"
  note eq = 1(3) [unfolded advance_floor.simps [of rs f A] Let_def]
  show ?case
  proof (cases "?n = f")
    case True
    then show ?thesis using eq by auto
  next
    case False
    show ?thesis
    proof (cases "range_end rs ?n")
      case (Some e)
      then have rec: "advance_floor rs e A = (f', A')" using False eq by simp
      show ?thesis
        using 1(2) [OF refl False Some rec] atMost_range_end [OF Some] order_trans [of f e f']
        by simp
    next
      case None
      show ?thesis
      proof (cases "?n |\<in>| A")
        case True
        then have rec: "advance_floor rs ?n (A |-| {|?n|}) = (f', A')"
          using False None eq by simp
        have "{..?n} \<union> fset (A |-| {|?n|}) = {..f} \<union> fset A" using atMost_sat_inc [OF False] True by auto
        then show ?thesis
          using 1(1) [OF refl False None True rec] order_trans [OF sat_inc_ge [of f], of f'] by auto
      next
        case False
        then show ?thesis using \<open>?n \<noteq> f\<close> None eq
          by (auto simp: range_end_None_iff)
      qed
    qed
  qed
qed

lemma advance_floor_above:
  assumes "advance_floor rs f A = (f', A')" and "\<And>p. p |\<in>| A \<Longrightarrow> f < p \<and> p \<notin> ranges_set rs"
    and "p |\<in>| A'"
  shows "f' < p"
  using assms
proof (induction rs f A arbitrary: f' A' rule: advance_floor.induct)
  case (1 rs f A)
  let ?n = "sat_inc f"
  note eq = 1(3) [unfolded advance_floor.simps [of rs f A] Let_def]
  consider "(f', A') = (f, A)" | e where "?n \<noteq> f" "range_end rs ?n = Some e" "advance_floor rs e A = (f', A')"
    | "?n \<noteq> f" "range_end rs ?n = None" "?n |\<in>| A" "advance_floor rs ?n (A |-| {|?n|}) = (f', A')"
    using eq by (auto split: if_splits option.splits)
  then show ?case
  proof cases
    case 1
    then show ?thesis using \<open>\<And>p. p |\<in>| A \<Longrightarrow> f < p \<and> p \<notin> ranges_set rs\<close> \<open>p |\<in>| A'\<close> by simp
  next
    case (2 e)
    have "e < q \<and> q \<notin> ranges_set rs" if "q |\<in>| A" for q
      using 1(4) [OF that] range_end_Some_subset [OF 2(2)] less_imp_sat_inc_le [of f q]
      by (auto simp: subset_iff not_le [symmetric])
    then show ?thesis using 1(2) [OF refl 2] 1(5) by blast
  next
    case 3
    have "?n < q \<and> q \<notin> ranges_set rs" if "q |\<in>| A |-| {|?n|}" for q
      using 1(4) [of q] that less_imp_sat_inc_le [of f q] by (auto simp: less_le)
    then show ?thesis using 1(1) [OF refl 3] 1(5) by blast
  qed
qed

section \<open>States after an advance\<close>

lemma advance_ack_floor_frame [simp]:
  "ch_name (advance_ack_floor s) = ch_name s"
  "ch_barrier_position (advance_ack_floor s) = ch_barrier_position s"
  "ch_requeued_until (advance_ack_floor s) = ch_requeued_until s"
  "ch_paused (advance_ack_floor s) = ch_paused s"
  "ch_ephemeral (advance_ack_floor s) = ch_ephemeral s"
  "ch_message_count_origin_position (advance_ack_floor s) = ch_message_count_origin_position s"
  "ch_deferred_scan (advance_ack_floor s) = ch_deferred_scan s"
  "ch_in_flight (advance_ack_floor s) = ch_in_flight s"
  "ch_in_flight_ids (advance_ack_floor s) = ch_in_flight_ids s"
  "ch_in_flight_deadlines (advance_ack_floor s) = ch_in_flight_deadlines s"
  "ch_attempts (advance_ack_floor s) = ch_attempts s"
  "ch_max_ack_gap (advance_ack_floor s) = ch_max_ack_gap s"
  "ch_requeue_count (advance_ack_floor s) = ch_requeue_count s"
  "ch_timeout_count (advance_ack_floor s) = ch_timeout_count s"
  "ch_absent_ranges (advance_ack_floor s) = ch_absent_ranges s"
  by (simp_all add: advance_ack_floor_def split: prod.splits)

lemma is_absent_cong: "ch_absent_ranges s = ch_absent_ranges t \<Longrightarrow> is_absent s = is_absent t"
  by (simp add: is_absent_def absent_range_end_def fun_eq_iff)

lemma is_absent_advance [simp]: "is_absent (advance_ack_floor s) = is_absent s"
  by (rule is_absent_cong) simp

lemma settled_advance [simp]: "settled (advance_ack_floor s) = settled s"
  using advance_floor_spec [of "ch_absent_ranges s" "ch_ack_floor_position s" "ch_acknowledged s"]
  by (auto simp: settled_def advance_ack_floor_def split: prod.splits)

lemma advance_ack_floor_ge: "ch_ack_floor_position s \<le> ch_ack_floor_position (advance_ack_floor s)"
  using advance_floor_spec [of "ch_absent_ranges s" "ch_ack_floor_position s" "ch_acknowledged s"]
  by (auto simp: advance_ack_floor_def split: prod.splits)

lemma advance_ack_floor_acknowledged: "ch_acknowledged (advance_ack_floor s) |\<subseteq>| ch_acknowledged s"
  using advance_floor_spec [of "ch_absent_ranges s" "ch_ack_floor_position s" "ch_acknowledged s"]
  by (auto simp: advance_ack_floor_def split: prod.splits)

lemma advance_ack_floor_next:
  "ch_next_position (advance_ack_floor s)
   = max (ch_next_position s) (sat_inc (ch_ack_floor_position (advance_ack_floor s)))"
  by (simp add: advance_ack_floor_def split: prod.splits)

lemma advance_ack_floor_maximal:
  assumes "ranges_wf (ch_absent_ranges s)"
    and "ch_ack_floor_position (advance_ack_floor s) \<noteq> u64_max"
  shows "sat_inc (ch_ack_floor_position (advance_ack_floor s))
           \<notin> fset (ch_acknowledged (advance_ack_floor s)) \<union> ranges_set (ch_absent_ranges s)"
  using assms advance_floor_spec [of "ch_absent_ranges s" "ch_ack_floor_position s" "ch_acknowledged s"]
  by (auto simp: advance_ack_floor_def split: prod.splits)

lemma advance_ack_floor_above:
  assumes "\<And>p. p |\<in>| ch_acknowledged s
             \<Longrightarrow> ch_ack_floor_position s < p \<and> p \<notin> ranges_set (ch_absent_ranges s)"
    and "p |\<in>| ch_acknowledged (advance_ack_floor s)"
  shows "ch_ack_floor_position (advance_ack_floor s) < p"
  using advance_floor_above [of "ch_absent_ranges s" "ch_ack_floor_position s" "ch_acknowledged s" _ _ p]
    assms by (auto simp: advance_ack_floor_def split: prod.splits)

end
