(* ===== verification/Channel_Inv.thy ===== *)
theory Channel_Inv
  imports Channel_Ranges
begin

text \<open>
  The invariant of a Channel and its preservation. \<open>book_inv\<close> is the bookkeeping between
  the floor, the sparse acknowledgements, the redelivery set and the requeue deadlines;
  \<open>index_inv\<close> says that the identity and deadline indexes describe the in-flight table
  exactly; \<open>no_loss\<close> says that every position that is not settled is in flight, waiting
  for redelivery, not scanned yet, or remembered by the deferred scan.
\<close>

section \<open>The invariant\<close>

definition pending :: "channel_state \<Rightarrow> u64 \<Rightarrow> bool" where
  "pending s p \<longleftrightarrow> ch_ack_floor_position s < p \<and> p |\<notin>| ch_acknowledged s \<and> \<not> is_absent s p"

definition held :: "channel_state \<Rightarrow> u64 \<Rightarrow> bool" where
  "held s p \<longleftrightarrow> p |\<in>| fmdom (ch_in_flight s) \<or> p |\<in>| ch_redelivery s"

text \<open>
  \<open>due\<close> gives the time each message becomes available. A position behind the scan cursor
  that nothing holds was passed because it was not due; the deferred scan then starts at
  or before it and wakes no later than it is due.
\<close>

definition covered :: "(u64 \<Rightarrow> i64) \<Rightarrow> channel_state \<Rightarrow> u64 \<Rightarrow> bool" where
  "covered due s p \<longleftrightarrow> held s p \<or> ch_next_position s \<le> p
     \<or> (case ch_deferred_scan s of None \<Rightarrow> False | Some (first, until) \<Rightarrow> first \<le> p \<and> until \<le> due p)"

text \<open>\<open>X\<close> is the set of positions handed out as candidates and not reserved or deferred yet.\<close>

definition no_loss :: "(u64 \<Rightarrow> i64) \<Rightarrow> u64 set \<Rightarrow> channel_state \<Rightarrow> bool" where
  "no_loss due X s \<longleftrightarrow> (\<forall>p. pending s p \<and> p \<notin> X \<longrightarrow> covered due s p)"

definition index_inv :: "channel_state \<Rightarrow> bool" where
  "index_inv s \<longleftrightarrow>
     (\<forall>p fl. fmlookup (ch_in_flight s) p = Some fl \<longrightarrow>
        fmlookup (ch_in_flight_ids s) (fl_id fl) = Some p
        \<and> (fl_deadline fl, p, fl_token fl) |\<in>| ch_in_flight_deadlines s)
     \<and> (\<forall>i p. fmlookup (ch_in_flight_ids s) i = Some p \<longrightarrow>
        (\<exists>fl. fmlookup (ch_in_flight s) p = Some fl \<and> fl_id fl = i))
     \<and> (\<forall>d p t. (d, p, t) |\<in>| ch_in_flight_deadlines s \<longrightarrow>
        (\<exists>fl. fmlookup (ch_in_flight s) p = Some fl \<and> fl_deadline fl = d \<and> fl_token fl = t))"

definition book_inv :: "channel_state \<Rightarrow> bool" where
  "book_inv s \<longleftrightarrow>
     ranges_wf (ch_absent_ranges s)
     \<and> ch_message_count_origin_position s \<le> ch_barrier_position s
     \<and> ch_barrier_position s \<le> ch_ack_floor_position s
     \<and> (\<forall>p. p |\<in>| ch_acknowledged s \<longrightarrow> ch_ack_floor_position s < p \<and> \<not> is_absent s p)
     \<and> (\<forall>p. p |\<in>| fmdom (ch_in_flight s) \<longrightarrow> pending s p)
     \<and> (\<forall>p. p |\<in>| ch_redelivery s \<longrightarrow> pending s p \<and> p |\<notin>| fmdom (ch_in_flight s))
     \<and> fmdom (ch_requeued_until s) |\<subseteq>| ch_redelivery s
     \<and> (\<forall>p. p |\<in>| fmdom (ch_attempts s) \<longrightarrow> pending s p)
     \<and> sat_inc (ch_ack_floor_position s) \<le> ch_next_position s
     \<and> 1 \<le> ch_max_ack_gap s"

definition chan_inv :: "(u64 \<Rightarrow> i64) \<Rightarrow> u64 set \<Rightarrow> channel_state \<Rightarrow> bool" where
  "chan_inv due X s \<longleftrightarrow> book_inv s \<and> index_inv s \<and> no_loss due X s"

lemma book_inv_ranges: "book_inv s \<Longrightarrow> ranges_wf (ch_absent_ranges s)"
  by (simp add: book_inv_def)

lemma chan_inv_ranges: "chan_inv due X s \<Longrightarrow> ranges_wf (ch_absent_ranges s)"
  by (simp add: chan_inv_def book_inv_ranges)

lemma pending_settled: "ranges_wf (ch_absent_ranges s) \<Longrightarrow> pending s p \<longleftrightarrow> p \<notin> settled s"
  by (auto simp: pending_def settled_def is_absent_iff)

lemma no_lossD: "no_loss due X s \<Longrightarrow> pending s p \<Longrightarrow> p \<notin> X \<Longrightarrow> covered due s p"
  by (simp add: no_loss_def)

lemma no_loss_mono: "no_loss due X s \<Longrightarrow> X \<subseteq> Y \<Longrightarrow> no_loss due Y s"
  by (auto simp: no_loss_def)

section \<open>Removing an in-flight delivery\<close>

lemma remove_in_flight_frame [simp]:
  "ch_name (snd (remove_in_flight p s)) = ch_name s"
  "ch_barrier_position (snd (remove_in_flight p s)) = ch_barrier_position s"
  "ch_ack_floor_position (snd (remove_in_flight p s)) = ch_ack_floor_position s"
  "ch_acknowledged (snd (remove_in_flight p s)) = ch_acknowledged s"
  "ch_requeued_until (snd (remove_in_flight p s)) = ch_requeued_until s"
  "ch_paused (snd (remove_in_flight p s)) = ch_paused s"
  "ch_ephemeral (snd (remove_in_flight p s)) = ch_ephemeral s"
  "ch_message_count_origin_position (snd (remove_in_flight p s)) = ch_message_count_origin_position s"
  "ch_next_position (snd (remove_in_flight p s)) = ch_next_position s"
  "ch_deferred_scan (snd (remove_in_flight p s)) = ch_deferred_scan s"
  "ch_attempts (snd (remove_in_flight p s)) = ch_attempts s"
  "ch_max_ack_gap (snd (remove_in_flight p s)) = ch_max_ack_gap s"
  "ch_requeue_count (snd (remove_in_flight p s)) = ch_requeue_count s"
  "ch_timeout_count (snd (remove_in_flight p s)) = ch_timeout_count s"
  "ch_absent_ranges (snd (remove_in_flight p s)) = ch_absent_ranges s"
  by (simp_all add: remove_in_flight_def split: option.splits)

lemma remove_in_flight_table [simp]:
  "ch_in_flight (snd (remove_in_flight p s)) = fmdrop p (ch_in_flight s)"
  by (auto simp: remove_in_flight_def intro!: fmap_ext split: option.splits)

lemma remove_in_flight_removed:
  "fst (remove_in_flight p s) \<longleftrightarrow> p |\<in>| fmdom (ch_in_flight s)"
  by (auto simp: remove_in_flight_def fmdom_notI fmdomI split: option.splits)

lemma is_absent_update [simp]:
  "is_absent (snd (remove_in_flight p s)) = is_absent s"
  "is_absent (s\<lparr>ch_acknowledged := a\<rparr>) = is_absent s"
  "is_absent (s\<lparr>ch_redelivery := r\<rparr>) = is_absent s"
  "is_absent (s\<lparr>ch_requeued_until := q\<rparr>) = is_absent s"
  "is_absent (s\<lparr>ch_attempts := m\<rparr>) = is_absent s"
  "is_absent (s\<lparr>ch_next_position := n\<rparr>) = is_absent s"
  "is_absent (s\<lparr>ch_ack_floor_position := n\<rparr>) = is_absent s"
  "is_absent (s\<lparr>ch_deferred_scan := d\<rparr>) = is_absent s"
  "is_absent (s\<lparr>ch_in_flight := fs\<rparr>) = is_absent s"
  "is_absent (s\<lparr>ch_in_flight_ids := is\<rparr>) = is_absent s"
  "is_absent (s\<lparr>ch_in_flight_deadlines := ds\<rparr>) = is_absent s"
  "is_absent (s\<lparr>ch_paused := b\<rparr>) = is_absent s"
  "is_absent (s\<lparr>ch_requeue_count := n\<rparr>) = is_absent s"
  "is_absent (s\<lparr>ch_timeout_count := n\<rparr>) = is_absent s"
  by (rule is_absent_cong, simp)+

lemma index_invI:
  assumes "\<And>p fl. fmlookup (ch_in_flight s) p = Some fl \<Longrightarrow>
        fmlookup (ch_in_flight_ids s) (fl_id fl) = Some p
        \<and> (fl_deadline fl, p, fl_token fl) |\<in>| ch_in_flight_deadlines s"
    and "\<And>i p. fmlookup (ch_in_flight_ids s) i = Some p \<Longrightarrow>
        \<exists>fl. fmlookup (ch_in_flight s) p = Some fl \<and> fl_id fl = i"
    and "\<And>d p t. (d, p, t) |\<in>| ch_in_flight_deadlines s \<Longrightarrow>
        \<exists>fl. fmlookup (ch_in_flight s) p = Some fl \<and> fl_deadline fl = d \<and> fl_token fl = t"
  shows "index_inv s"
  using assms by (simp add: index_inv_def)

lemma index_invD:
  assumes "index_inv s"
  shows "fmlookup (ch_in_flight s) p = Some fl \<Longrightarrow>
        fmlookup (ch_in_flight_ids s) (fl_id fl) = Some p
        \<and> (fl_deadline fl, p, fl_token fl) |\<in>| ch_in_flight_deadlines s"
    and "fmlookup (ch_in_flight_ids s) i = Some p \<Longrightarrow>
        \<exists>fl. fmlookup (ch_in_flight s) p = Some fl \<and> fl_id fl = i"
    and "(d, p, t) |\<in>| ch_in_flight_deadlines s \<Longrightarrow>
        \<exists>fl. fmlookup (ch_in_flight s) p = Some fl \<and> fl_deadline fl = d \<and> fl_token fl = t"
  using assms by (simp_all add: index_inv_def)

lemma index_inv_remove [simp]:
  assumes "index_inv s" shows "index_inv (snd (remove_in_flight p s))"
proof (cases "fmlookup (ch_in_flight s) p")
  case None
  then show ?thesis using assms by (simp add: remove_in_flight_def)
next
  case (Some fl)
  let ?t = "snd (remove_in_flight p s)"
  have t: "ch_in_flight ?t = fmdrop p (ch_in_flight s)"
    "ch_in_flight_ids ?t = fmdrop (fl_id fl) (ch_in_flight_ids s)"
    "ch_in_flight_deadlines ?t = ch_in_flight_deadlines s |-| {|(fl_deadline fl, p, fl_token fl)|}"
    using Some by (simp_all add: remove_in_flight_def)
  note fwd = index_invD(1) [OF assms] and ids = index_invD(2) [OF assms]
    and deadlines = index_invD(3) [OF assms]
  show ?thesis
  proof (rule index_invI, unfold t)
    fix q f assume "fmlookup (fmdrop p (ch_in_flight s)) q = Some f"
    then have "q \<noteq> p" and q: "fmlookup (ch_in_flight s) q = Some f" by (auto split: if_splits)
    then show "fmlookup (fmdrop (fl_id fl) (ch_in_flight_ids s)) (fl_id f) = Some q \<and>
        (fl_deadline f, q, fl_token f)
          |\<in>| ch_in_flight_deadlines s |-| {|(fl_deadline fl, p, fl_token fl)|}"
      using fwd [OF q] fwd [OF Some] by auto
  next
    fix i q assume "fmlookup (fmdrop (fl_id fl) (ch_in_flight_ids s)) i = Some q"
    then have i: "i \<noteq> fl_id fl" "fmlookup (ch_in_flight_ids s) i = Some q" by (auto split: if_splits)
    with ids [OF i(2)] Some show "\<exists>f. fmlookup (fmdrop p (ch_in_flight s)) q = Some f \<and> fl_id f = i"
      by auto
  next
    fix d q k assume "(d, q, k) |\<in>| ch_in_flight_deadlines s |-| {|(fl_deadline fl, p, fl_token fl)|}"
    then have d: "(d, q, k) \<noteq> (fl_deadline fl, p, fl_token fl)" "(d, q, k) |\<in>| ch_in_flight_deadlines s"
      by auto
    with deadlines [OF d(2)] Some
    show "\<exists>f. fmlookup (fmdrop p (ch_in_flight s)) q = Some f \<and> fl_deadline f = d \<and> fl_token f = k"
      by auto
  qed
qed

lemma index_inv_cong:
  assumes "ch_in_flight t = ch_in_flight s" and "ch_in_flight_ids t = ch_in_flight_ids s"
    and "ch_in_flight_deadlines t = ch_in_flight_deadlines s"
  shows "index_inv t = index_inv s"
  by (simp add: index_inv_def assms)

lemma index_inv_update [simp]:
  "index_inv (s\<lparr>ch_ack_floor_position := v0\<rparr>) = index_inv s"
  "index_inv (s\<lparr>ch_acknowledged := v1\<rparr>) = index_inv s"
  "index_inv (s\<lparr>ch_requeued_until := v2\<rparr>) = index_inv s"
  "index_inv (s\<lparr>ch_paused := v3\<rparr>) = index_inv s"
  "index_inv (s\<lparr>ch_next_position := v4\<rparr>) = index_inv s"
  "index_inv (s\<lparr>ch_deferred_scan := v5\<rparr>) = index_inv s"
  "index_inv (s\<lparr>ch_redelivery := v6\<rparr>) = index_inv s"
  "index_inv (s\<lparr>ch_attempts := v7\<rparr>) = index_inv s"
  "index_inv (s\<lparr>ch_requeue_count := v8\<rparr>) = index_inv s"
  "index_inv (s\<lparr>ch_timeout_count := v9\<rparr>) = index_inv s"
  "index_inv (s\<lparr>ch_absent_ranges := v10\<rparr>) = index_inv s"
  "index_inv (advance_ack_floor s) = index_inv s"
  by (rule index_inv_cong; simp)+

section \<open>Acknowledgements\<close>

lemma book_invD:
  assumes "book_inv s"
  shows "p |\<in>| ch_acknowledged s \<Longrightarrow> ch_ack_floor_position s < p \<and> \<not> is_absent s p"
    and "p |\<in>| fmdom (ch_in_flight s) \<Longrightarrow> pending s p"
    and "p |\<in>| ch_redelivery s \<Longrightarrow> pending s p \<and> p |\<notin>| fmdom (ch_in_flight s)"
    and "p |\<in>| fmdom (ch_requeued_until s) \<Longrightarrow> p |\<in>| ch_redelivery s"
    and "p |\<in>| fmdom (ch_attempts s) \<Longrightarrow> pending s p"
    and "sat_inc (ch_ack_floor_position s) \<le> ch_next_position s"
    and "ch_barrier_position s \<le> ch_ack_floor_position s"
    and "ch_message_count_origin_position s \<le> ch_barrier_position s"
    and "1 \<le> ch_max_ack_gap s"
    and "ranges_wf (ch_absent_ranges s)"
  using assms by (auto simp: book_inv_def)

lemma pending_advance [simp]:
  "ranges_wf (ch_absent_ranges s) \<Longrightarrow> pending (advance_ack_floor s) p = pending s p"
  by (simp add: pending_settled)

lemma book_inv_advance:
  assumes "book_inv s" shows "book_inv (advance_ack_floor s)"
proof -
  note inv = book_invD [OF assms]
  have "ch_ack_floor_position (advance_ack_floor s) < p"
    if "p |\<in>| ch_acknowledged (advance_ack_floor s)" for p
    using inv(1) assms that by (intro advance_ack_floor_above) (simp_all add: is_absent_iff book_inv_ranges)
  moreover have "ch_barrier_position s \<le> ch_ack_floor_position (advance_ack_floor s)"
    using inv(7) advance_ack_floor_ge by (rule order_trans)
  ultimately show ?thesis
    using inv advance_ack_floor_acknowledged [of s] assms
    by (auto simp: book_inv_def [of "advance_ack_floor s"] advance_ack_floor_next book_inv_ranges)
qed

lemma no_loss_advance:
  assumes "ranges_wf (ch_absent_ranges s)" and "no_loss due X s"
  shows "no_loss due X (advance_ack_floor s)"
  unfolding no_loss_def
proof (intro allI impI)
  fix p assume "pending (advance_ack_floor s) p \<and> p \<notin> X"
  moreover from this have "ch_ack_floor_position (advance_ack_floor s) < p" by (simp add: pending_def)
  ultimately show "covered due (advance_ack_floor s) p"
    using no_lossD [OF assms(2), of p] assms(1)
    by (auto simp: covered_def held_def advance_ack_floor_next)
qed

lemma chan_inv_advance: "chan_inv due X s \<Longrightarrow> chan_inv due X (advance_ack_floor s)"
  by (simp add: chan_inv_def book_inv_advance no_loss_advance book_inv_ranges)

definition forget :: "u64 \<Rightarrow> channel_state \<Rightarrow> channel_state" where
  "forget p s =
     (let s1 = snd (remove_in_flight p s)
      in s1\<lparr>ch_redelivery := ch_redelivery s1 |-| {|p|},
            ch_requeued_until := fmdrop p (ch_requeued_until s1),
            ch_attempts := fmdrop p (ch_attempts s1)\<rparr>)"

lemma acknowledge_forget:
  "acknowledge p s =
     (if p \<le> ch_ack_floor_position s then forget p s
      else advance_ack_floor ((forget p s)\<lparr>ch_acknowledged := finsert p (ch_acknowledged s)\<rparr>))"
  by (simp add: acknowledge_def forget_def Let_def)

lemma pending_cong:
  assumes "ch_ack_floor_position t = ch_ack_floor_position s" "ch_acknowledged t = ch_acknowledged s"
    and "ch_absent_ranges t = ch_absent_ranges s"
  shows "pending t = pending s"
  using is_absent_cong [OF assms(3)] by (simp add: pending_def fun_eq_iff assms)

lemma pending_update [simp]:
  "pending (s\<lparr>ch_requeued_until := v0\<rparr>) = pending s"
  "pending (s\<lparr>ch_paused := v1\<rparr>) = pending s"
  "pending (s\<lparr>ch_next_position := v2\<rparr>) = pending s"
  "pending (s\<lparr>ch_deferred_scan := v3\<rparr>) = pending s"
  "pending (s\<lparr>ch_redelivery := v4\<rparr>) = pending s"
  "pending (s\<lparr>ch_attempts := v5\<rparr>) = pending s"
  "pending (s\<lparr>ch_requeue_count := v6\<rparr>) = pending s"
  "pending (s\<lparr>ch_timeout_count := v7\<rparr>) = pending s"
  "pending (s\<lparr>ch_in_flight := v8\<rparr>) = pending s"
  "pending (s\<lparr>ch_in_flight_ids := v9\<rparr>) = pending s"
  "pending (s\<lparr>ch_in_flight_deadlines := v10\<rparr>) = pending s"
  by (rule pending_cong; simp)+

lemma pending_forget [simp]: "pending (forget p s) = pending s"
  by (rule pending_cong) (simp_all add: forget_def Let_def)

lemma book_inv_forget: "book_inv s \<Longrightarrow> book_inv (forget p s)"
  using book_invD [of s]
  by (auto simp: book_inv_def [of "forget p s"]) (auto simp: forget_def Let_def)

lemma index_inv_forget: "index_inv s \<Longrightarrow> index_inv (forget p s)"
  using index_inv_remove [of s p]
  by (simp add: forget_def Let_def)

lemma book_inv_settle:
  assumes "book_inv s" and "\<not> held s p" and "p |\<notin>| fmdom (ch_attempts s)"
    and "ch_ack_floor_position s < p" and "\<not> is_absent s p"
  shows "book_inv (s\<lparr>ch_acknowledged := finsert p (ch_acknowledged s)\<rparr>)"
  using assms book_invD [OF assms(1)]
  by (auto simp: book_inv_def [of "s\<lparr>ch_acknowledged := _\<rparr>"] pending_def held_def)

lemma chan_inv_acknowledge:
  assumes inv: "chan_inv due X s" and p: "\<not> is_absent s p"
  shows "chan_inv due (X - {p}) (acknowledge p s)"
proof -
  let ?f = "forget p s" and ?g = "(forget p s)\<lparr>ch_acknowledged := finsert p (ch_acknowledged s)\<rparr>"
  have fields: "ch_ack_floor_position ?f = ch_ack_floor_position s" "ch_acknowledged ?f = ch_acknowledged s"
      "ch_absent_ranges ?f = ch_absent_ranges s" "\<not> held ?f p" "p |\<notin>| fmdom (ch_attempts ?f)"
      "is_absent ?f = is_absent s"
    by (auto simp: forget_def Let_def held_def)
  have book: "book_inv ?f" and idx: "index_inv ?f"
    using inv by (simp_all add: chan_inv_def book_inv_forget index_inv_forget)
  have cov: "covered due ?f q" if "pending s q" "q \<notin> X" "q \<noteq> p" for q
    using no_lossD [of due X s q] inv that
    by (auto simp: chan_inv_def covered_def held_def forget_def Let_def)
  show ?thesis
  proof (cases "p \<le> ch_ack_floor_position s")
    case True
    then have "pending s q \<Longrightarrow> q \<noteq> p" for q by (auto simp: pending_def)
    then have "no_loss due (X - {p}) ?f" using cov by (auto simp: no_loss_def)
    then show ?thesis using book idx True by (simp add: chan_inv_def acknowledge_forget)
  next
    case False
    have "book_inv ?g" using book_inv_settle [OF book, of p] False p fields by simp
    moreover have "index_inv ?g" using idx by (simp add: index_inv_def)
    moreover have "no_loss due (X - {p}) ?g"
      unfolding no_loss_def
    proof (intro allI impI)
      fix q assume "pending ?g q \<and> q \<notin> X - {p}"
      then have "covered due ?f q" using cov [of q] fields by (auto simp: pending_def)
      then show "covered due ?g q" by (simp add: covered_def held_def)
    qed
    ultimately have "chan_inv due (X - {p}) ?g" by (simp add: chan_inv_def)
    then show ?thesis using False by (simp add: chan_inv_advance acknowledge_forget)
  qed
qed

section \<open>Emptying and evicting\<close>

lemma fold_remove_frame [simp]:
  "ch_name (fold (\<lambda>p t. snd (remove_in_flight p t)) ps s) = ch_name s"
  "ch_barrier_position (fold (\<lambda>p t. snd (remove_in_flight p t)) ps s) = ch_barrier_position s"
  "ch_ack_floor_position (fold (\<lambda>p t. snd (remove_in_flight p t)) ps s) = ch_ack_floor_position s"
  "ch_acknowledged (fold (\<lambda>p t. snd (remove_in_flight p t)) ps s) = ch_acknowledged s"
  "ch_requeued_until (fold (\<lambda>p t. snd (remove_in_flight p t)) ps s) = ch_requeued_until s"
  "ch_paused (fold (\<lambda>p t. snd (remove_in_flight p t)) ps s) = ch_paused s"
  "ch_ephemeral (fold (\<lambda>p t. snd (remove_in_flight p t)) ps s) = ch_ephemeral s"
  "ch_message_count_origin_position (fold (\<lambda>p t. snd (remove_in_flight p t)) ps s) = ch_message_count_origin_position s"
  "ch_next_position (fold (\<lambda>p t. snd (remove_in_flight p t)) ps s) = ch_next_position s"
  "ch_deferred_scan (fold (\<lambda>p t. snd (remove_in_flight p t)) ps s) = ch_deferred_scan s"
  "ch_redelivery (fold (\<lambda>p t. snd (remove_in_flight p t)) ps s) = ch_redelivery s"
  "ch_attempts (fold (\<lambda>p t. snd (remove_in_flight p t)) ps s) = ch_attempts s"
  "ch_max_ack_gap (fold (\<lambda>p t. snd (remove_in_flight p t)) ps s) = ch_max_ack_gap s"
  "ch_requeue_count (fold (\<lambda>p t. snd (remove_in_flight p t)) ps s) = ch_requeue_count s"
  "ch_timeout_count (fold (\<lambda>p t. snd (remove_in_flight p t)) ps s) = ch_timeout_count s"
  "ch_absent_ranges (fold (\<lambda>p t. snd (remove_in_flight p t)) ps s) = ch_absent_ranges s"
  by (induction ps arbitrary: s; simp)+

lemma fold_remove_table [simp]:
  "ch_in_flight (fold (\<lambda>p t. snd (remove_in_flight p t)) ps s)
     = fmfilter (\<lambda>p. p \<notin> set ps) (ch_in_flight s)"
proof (induction ps arbitrary: s)
  case Nil
  then show ?case by (simp add: fmap_ext)
next
  case (Cons p ps)
  have "fmfilter (\<lambda>q. q \<notin> set ps) (fmdrop p (ch_in_flight s))
      = fmfilter (\<lambda>q. q \<notin> set (p # ps)) (ch_in_flight s)"
    by (rule fmap_ext) auto
  then show ?case using Cons [of "snd (remove_in_flight p s)"] by simp
qed

lemma index_inv_fold_remove:
  "index_inv s \<Longrightarrow> index_inv (fold (\<lambda>p t. snd (remove_in_flight p t)) ps s)"
  by (induction ps arbitrary: s) simp_all

lemma drop_through_fields:
  "ch_ack_floor_position (drop_through t s) = max (ch_ack_floor_position s) t"
  "ch_acknowledged (drop_through t s) = ffilter (\<lambda>p. t < p) (ch_acknowledged s)"
  "ch_requeued_until (drop_through t s) = fmfilter (\<lambda>p. t < p) (ch_requeued_until s)"
  "ch_attempts (drop_through t s) = fmfilter (\<lambda>p. t < p) (ch_attempts s)"
  "ch_redelivery (drop_through t s) = ffilter (\<lambda>p. t < p) (ch_redelivery s)"
  "ch_in_flight (drop_through t s) = fmfilter (\<lambda>p. t < p) (ch_in_flight s)"
  "ch_next_position (drop_through t s) = max (ch_next_position s) (sat_inc t)"
  "ch_absent_ranges (drop_through t s) = ch_absent_ranges s"
  "ch_deferred_scan (drop_through t s) = ch_deferred_scan s"
  "ch_paused (drop_through t s) = ch_paused s"
  "ch_barrier_position (drop_through t s) = ch_barrier_position s"
  "ch_message_count_origin_position (drop_through t s) = ch_message_count_origin_position s"
  "ch_max_ack_gap (drop_through t s) = ch_max_ack_gap s"
  "ch_requeue_count (drop_through t s) = ch_requeue_count s"
  "ch_timeout_count (drop_through t s) = ch_timeout_count s"
proof -
  let ?ps = "sorted_list_of_fset (ffilter (\<lambda>p. p \<le> t) (fmdom (ch_in_flight s)))"
  have "fmfilter (\<lambda>p. p \<notin> set ?ps) (ch_in_flight s) = fmfilter (\<lambda>p. t < p) (ch_in_flight s)"
  proof (rule fmap_ext)
    fix p
    show "fmlookup (fmfilter (\<lambda>p. p \<notin> set ?ps) (ch_in_flight s)) p
        = fmlookup (fmfilter (\<lambda>p. t < p) (ch_in_flight s)) p"
      by (cases "fmlookup (ch_in_flight s) p") (auto simp: sorted_list_of_fset.rep_eq fmdomI)
  qed
  then show "ch_in_flight (drop_through t s) = fmfilter (\<lambda>p. t < p) (ch_in_flight s)"
    by (simp add: drop_through_def Let_def)
qed (simp_all add: drop_through_def Let_def)

lemma pending_drop_through: "pending (drop_through t s) p \<longleftrightarrow> pending s p \<and> t < p"
  using is_absent_cong [OF drop_through_fields(8) [of t s]]
  by (auto simp: pending_def drop_through_fields)

lemma chan_inv_drop_through:
  assumes "chan_inv due X s" shows "chan_inv due X (drop_through t s)"
proof -
  have b: "book_inv s" and i: "index_inv s" and n: "no_loss due X s"
    using assms by (simp_all add: chan_inv_def)
  have abs: "is_absent (drop_through t s) = is_absent s"
    by (rule is_absent_cong) (simp add: drop_through_fields)
  have le: "max (ch_next_position s) (sat_inc t) \<ge> sat_inc (max (ch_ack_floor_position s) t)"
    using book_invD(6) [OF b] by (auto simp: max_def)
  have "book_inv (drop_through t s)"
    using b book_invD [OF b] le
    by (auto simp: book_inv_def [of "drop_through t s"] pending_drop_through abs drop_through_fields
        intro: le_max_iff_disj [THEN iffD2])
  moreover have "index_inv (drop_through t s)"
    by (simp add: drop_through_def Let_def index_inv_fold_remove i)
  moreover have "no_loss due X (drop_through t s)"
    unfolding no_loss_def
  proof (intro allI impI)
    fix q assume "pending (drop_through t s) q \<and> q \<notin> X"
    then have q: "pending s q" "t < q" "q \<notin> X" by (auto simp: pending_drop_through)
    have "covered due s q" using no_lossD [OF n q(1,3)] .
    then show "covered due (drop_through t s) q"
      using q(2) by (auto simp: covered_def held_def drop_through_fields split: option.splits)
  qed
  ultimately show ?thesis by (simp add: chan_inv_def)
qed

section \<open>Returning deliveries to the redelivery set\<close>

definition give_back :: "u64 \<Rightarrow> channel_state \<Rightarrow> channel_state" where
  "give_back p s =
     (let t = snd (remove_in_flight p s)
      in t\<lparr>ch_redelivery := finsert p (ch_redelivery t)\<rparr>)"

lemma pending_give_back [simp]: "pending (give_back p s) = pending s"
  by (rule pending_cong) (simp_all add: give_back_def Let_def)

lemma chan_inv_give_back:
  assumes inv: "chan_inv due X s" and p: "pending s p"
  shows "chan_inv due (X - {p}) (give_back p s)"
proof -
  have b: "book_inv s" using inv by (simp add: chan_inv_def)
  have "book_inv (give_back p s)"
    using book_invD [OF b] b p
    by (auto simp: book_inv_def [of "give_back p s"]) (auto simp: give_back_def Let_def)
  moreover have "index_inv (give_back p s)"
    using inv by (simp add: give_back_def Let_def chan_inv_def)
  moreover have "no_loss due (X - {p}) (give_back p s)"
    using inv
    by (auto simp: no_loss_def chan_inv_def)
       (auto simp: covered_def held_def give_back_def Let_def)
  ultimately show ?thesis by (simp add: chan_inv_def)
qed

lemma chan_inv_flags:
  assumes "chan_inv due X s"
  shows "chan_inv due X (s\<lparr>ch_paused := b\<rparr>)" "chan_inv due X (s\<lparr>ch_requeue_count := n\<rparr>)"
    "chan_inv due X (s\<lparr>ch_timeout_count := n\<rparr>)"
  using assms by (simp_all add: chan_inv_def book_inv_def no_loss_def covered_def held_def)

lemma chan_inv_requeued:
  assumes inv: "chan_inv due X s" and p: "p |\<in>| ch_redelivery s"
  shows "chan_inv due X (s\<lparr>ch_requeued_until := fmupd p u (ch_requeued_until s),
                       ch_attempts := fmupd p a (ch_attempts s)\<rparr>)" (is "chan_inv due X ?t")
proof -
  have b: "book_inv s" using inv by (simp add: chan_inv_def)
  have "book_inv ?t"
    using book_invD [OF b] b p by (auto simp: book_inv_def [of ?t])
  moreover have "no_loss due X ?t"
    using inv by (auto simp: chan_inv_def no_loss_def) (auto simp: covered_def held_def)
  ultimately show ?thesis using inv by (simp add: chan_inv_def)
qed

definition delay :: "u64 \<Rightarrow> i64 \<Rightarrow> u16 \<Rightarrow> channel_state \<Rightarrow> channel_state" where
  "delay p u a s =
     s\<lparr>ch_requeued_until := fmupd p u (ch_requeued_until s), ch_attempts := fmupd p a (ch_attempts s)\<rparr>"

lemma apply_requeue:
  "apply_command (Requeue p i u a c) s
     = (let t = delay p u a (give_back p s)
        in case c of
             Some count \<Rightarrow> t\<lparr>ch_requeue_count := max (ch_requeue_count t) count\<rparr>
           | None \<Rightarrow>
               if fmlookup (ch_requeued_until s) p = Some u \<and> fmlookup (ch_attempts s) p = Some a
               then t else t\<lparr>ch_requeue_count := sat_inc (ch_requeue_count t)\<rparr>)"
  by (cases c) (simp_all add: delay_def give_back_def Let_def)

text \<open>The commands the Topic logs: it finishes and requeues positions that are in flight.\<close>

fun command_ok :: "channel_command \<Rightarrow> channel_state \<Rightarrow> bool" where
  "command_ok (Finish p i) s = (\<not> is_absent s p)"
| "command_ok (Requeue p i u a c) s = pending s p"
| "command_ok _ s = True"

lemma chan_inv_apply:
  assumes inv: "chan_inv due X s" and ok: "command_ok c s"
  shows "chan_inv due X (apply_command c s)"
proof (cases c)
  case (Finish p i)
  then have "chan_inv due (X - {p}) (apply_command c s)" using chan_inv_acknowledge [OF inv] ok by simp
  then show ?thesis by (auto simp: chan_inv_def intro: no_loss_mono)
next
  case (Requeue p i u a n)
  let ?t = "give_back p s"
  have "chan_inv due (X - {p}) ?t" using chan_inv_give_back [OF inv] ok Requeue by simp
  moreover have "p |\<in>| ch_redelivery ?t" by (simp add: give_back_def Let_def)
  ultimately have "chan_inv due (X - {p}) (delay p u a ?t)"
    unfolding delay_def by (rule chan_inv_requeued)
  then have "chan_inv due (X - {p}) (apply_command c s)"
    unfolding Requeue apply_requeue Let_def
    by (auto intro: chan_inv_flags split: option.split)
  then show ?thesis by (auto simp: chan_inv_def intro: no_loss_mono)
qed (use inv in \<open>simp_all add: chan_inv_flags chan_inv_drop_through\<close>)

end
