(* ===== verification/Channel_Lease.thy ===== *)
theory Channel_Lease
  imports Channel_Inv
begin

text \<open>
  Preservation of the Channel invariant by the reservation and lease operations
  (\<open>reserve_timestamped\<close>, \<open>cancel\<close>, \<open>touch_until\<close>, \<open>release\<close>, expiry), by recovery
  (\<open>from_checkpoint\<close>, \<open>set_absent_ranges\<close>, \<open>compact_recovered_dpubs\<close>) and what the
  in-flight indexes promise their callers.
\<close>

section \<open>Giving back\<close>

lemma release_give_back:
  "release p s = (if p |\<in>| fmdom (ch_in_flight s) then give_back p s else s)"
proof (cases "fmlookup (ch_in_flight s) p")
  case None
  then show ?thesis by (simp add: release_def remove_in_flight_def fmdom_notI)
next
  case (Some fl)
  then show ?thesis by (simp add: release_def give_back_def remove_in_flight_def fmdomI Let_def)
qed

lemma chan_inv_release: "chan_inv due X s \<Longrightarrow> chan_inv due X (release p s)"
  using chan_inv_give_back [of due X s p] book_invD(2) [of s p]
  by (auto simp: release_give_back chan_inv_def intro: no_loss_mono)

lemma fold_give_back:
  "fold (\<lambda>p t. let t1 = snd (remove_in_flight p t)
                in t1\<lparr>ch_redelivery := finsert p (ch_redelivery t1)\<rparr>) ps s
   = fold give_back ps s"
  by (rule fold_cong) (simp_all add: give_back_def fun_eq_iff)

lemma expire_positions_fold: "expire_positions ps s = fold give_back ps s"
  by (simp only: expire_positions_def fold_give_back)

lemma release_all_fold:
  "release_all s = (fcard (fmdom (ch_in_flight s)),
                    fold give_back (sorted_list_of_fset (fmdom (ch_in_flight s))) s)"
proof -
  have "length (sorted_list_of_fset (fmdom (ch_in_flight s))) = fcard (fmdom (ch_in_flight s))"
    by (simp add: sorted_list_of_fset.rep_eq fcard.rep_eq)
  then show ?thesis
    unfolding release_all_def fold_give_back by (simp add: Let_def)
qed

lemma chan_inv_fold_give_back:
  assumes "chan_inv due X s" and "\<And>p. p \<in> set ps \<Longrightarrow> pending s p"
  shows "chan_inv due X (fold give_back ps s)"
  using assms
proof (induction ps arbitrary: s)
  case (Cons p ps)
  then have "chan_inv due X (give_back p s)"
    using chan_inv_give_back [of due X s p] by (auto simp: chan_inv_def intro: no_loss_mono)
  then show ?case using Cons by simp
qed simp

lemma chan_inv_release_all: "chan_inv due X s \<Longrightarrow> chan_inv due X (snd (release_all s))"
  by (auto simp: release_all_fold sorted_list_of_fset.rep_eq chan_inv_def
      intro!: chan_inv_fold_give_back [unfolded chan_inv_def] book_invD(2))

section \<open>Expiry\<close>

lemma expired_positions_in_flight:
  assumes "index_inv s" and "p \<in> set (expired_positions s now)"
  shows "\<exists>fl. fmlookup (ch_in_flight s) p = Some fl \<and> fl_deadline fl \<le> now"
proof -
  obtain d k where d: "(d, p, k) |\<in>| ch_in_flight_deadlines s" "(d, p, k) \<le> (now, u64_max, u64_max)"
    using assms(2)
    by (auto simp: expired_positions_def expired_entries_def sorted_list_of_fset.rep_eq)
  then have "d \<le> now" by (auto simp: less_eq_prod_def)
  then show ?thesis using index_invD(3) [OF assms(1) d(1)] by auto
qed

lemma expired_positions_complete:
  assumes "index_inv s" and "fmlookup (ch_in_flight s) p = Some fl" and "fl_deadline fl \<le> now"
  shows "p \<in> set (expired_positions s now)"
proof -
  have "(fl_deadline fl, p, fl_token fl) |\<in>| ch_in_flight_deadlines s"
    using index_invD(1) [OF assms(1,2)] by simp
  moreover have "(fl_deadline fl, p, fl_token fl) \<le> (now, u64_max, u64_max)"
    using assms(3) by (auto simp: less_eq_prod_def)
  ultimately have "(fl_deadline fl, p, fl_token fl) \<in> set (sorted_list_of_fset (expired_entries s now))"
    by (simp add: expired_entries_def sorted_list_of_fset.rep_eq)
  then have "(\<lambda>(d, p, k). p) (fl_deadline fl, p, fl_token fl)
      \<in> (\<lambda>(d, p, k). p) ` set (sorted_list_of_fset (expired_entries s now))"
    by (rule imageI)
  then show ?thesis by (simp add: expired_positions_def)
qed

lemma has_expired_iff:
  assumes "index_inv s"
  shows "has_expired_in_flight s now
     \<longleftrightarrow> (\<exists>p fl. fmlookup (ch_in_flight s) p = Some fl \<and> fl_deadline fl \<le> now)"
proof
  let ?D = "ch_in_flight_deadlines s"
  assume "has_expired_in_flight s now"
  then obtain d q k where d: "(d, q, k) |\<in>| ?D" "d \<le> now"
    using fMin_in [of ?D] by (cases "fMin ?D") (auto simp: has_expired_in_flight_def)
  then show "\<exists>p fl. fmlookup (ch_in_flight s) p = Some fl \<and> fl_deadline fl \<le> now"
    using index_invD(3) [OF assms d(1)] by auto
next
  let ?D = "ch_in_flight_deadlines s"
  assume "\<exists>p fl. fmlookup (ch_in_flight s) p = Some fl \<and> fl_deadline fl \<le> now"
  then obtain p fl where fl: "fmlookup (ch_in_flight s) p = Some fl" "fl_deadline fl \<le> now" by blast
  then have d: "(fl_deadline fl, p, fl_token fl) |\<in>| ?D" using index_invD(1) [OF assms fl(1)] by simp
  then have "fMin ?D \<le> (fl_deadline fl, p, fl_token fl)" by simp
  then have "fst (fMin ?D) \<le> fl_deadline fl" by (auto simp: less_eq_prod_def)
  then show "has_expired_in_flight s now" using d fl by (auto simp: has_expired_in_flight_def)
qed

lemma distinct_expired_positions:
  assumes "index_inv s" shows "distinct (expired_positions s now)"
proof -
  have "inj_on (\<lambda>(d, p, k). p) (fset (ch_in_flight_deadlines s))"
  proof (rule inj_onI)
    fix x y assume xy: "x |\<in>| ch_in_flight_deadlines s" "y |\<in>| ch_in_flight_deadlines s"
      "(case x of (d, p, k) \<Rightarrow> p) = (case y of (d, p, k) \<Rightarrow> p)"
    obtain d p k d' k' where "x = (d, p, k)" "y = (d', p, k')" using xy(3) by (cases x; cases y) auto
    then show "x = y"
      using index_invD(3) [OF assms, of d p k] index_invD(3) [OF assms, of d' p k'] xy(1,2) by auto
  qed
  then have "inj_on (\<lambda>(d, p, k). p) (set (sorted_list_of_fset (expired_entries s now)))"
    by (rule inj_on_subset) (auto simp: expired_entries_def sorted_list_of_fset.rep_eq)
  then show ?thesis
    by (simp add: expired_positions_def distinct_map sorted_list_of_fset.rep_eq)
qed

lemma chan_inv_expire:
  "chan_inv due X s \<Longrightarrow> chan_inv due X (expire_positions (expired_positions s now) s)"
  unfolding expire_positions_fold
  by (rule chan_inv_fold_give_back)
    (auto simp: chan_inv_def intro!: book_invD(2) fmdomI dest!: expired_positions_in_flight)

section \<open>Reservations\<close>

lemma chan_inv_attempts:
  assumes "chan_inv due X s" and "\<And>p. p |\<in>| fmdom m \<Longrightarrow> pending s p"
  shows "chan_inv due X (s\<lparr>ch_attempts := m\<rparr>)"
  using assms by (auto simp: chan_inv_def book_inv_def no_loss_def covered_def held_def)

lemma chan_inv_cancel:
  assumes "chan_inv due X s" shows "chan_inv due X (cancel p k s)"
proof (cases "\<exists>fl. fmlookup (ch_in_flight s) p = Some fl \<and> fl_token fl = k")
  case False
  then have "cancel p k s = s" by (auto simp: cancel_def split: option.split)
  then show ?thesis using assms by simp
next
  case True
  then have p: "p |\<in>| fmdom (ch_in_flight s)" by (auto intro: fmdomI)
  have inv: "chan_inv due X (give_back p s)"
    using chan_inv_release [OF assms, of p] p by (simp add: release_give_back)
  then have att: "q |\<in>| fmdom (ch_attempts (give_back p s)) \<Longrightarrow> pending (give_back p s) q" for q
    by (auto simp: chan_inv_def simp del: pending_give_back intro: book_invD(5))
  let ?r = "give_back p s"
  have eq: "cancel p k s =
      (case fmlookup (ch_attempts ?r) p of None \<Rightarrow> ?r
       | Some a \<Rightarrow> if sat_sub a 1 = 0 then ?r\<lparr>ch_attempts := fmdrop p (ch_attempts ?r)\<rparr>
                   else ?r\<lparr>ch_attempts := fmupd p (sat_sub a 1) (ch_attempts ?r)\<rparr>)"
    using True by (auto simp: cancel_def give_back_def Let_def split: option.split)
  show ?thesis
  proof (cases "fmlookup (ch_attempts ?r) p")
    case (Some a)
    then have "p |\<in>| fmdom (ch_attempts ?r)" by (rule fmdomI)
    then show ?thesis
      using Some inv att unfolding eq by (auto intro!: chan_inv_attempts)
  qed (simp add: eq inv)
qed

lemma chan_inv_defer:
  assumes inv: "chan_inv due X s" and p: "pending s p" "p |\<notin>| fmdom (ch_in_flight s)"
  shows "chan_inv due (X - {p}) (defer_candidate p s)"
proof -
  have "give_back p s = defer_candidate p s"
    using p by (simp add: give_back_def defer_candidate_def remove_in_flight_def Let_def fmdom_notD)
  then show ?thesis using chan_inv_give_back [OF inv p(1)] by simp
qed

lemma index_inv_insert:
  assumes inv: "index_inv s"
    and "p |\<notin>| fmdom (ch_in_flight s)" and "fl_id fl |\<notin>| fmdom (ch_in_flight_ids s)"
    and t: "ch_in_flight t = fmupd p fl (ch_in_flight s)"
      "ch_in_flight_ids t = fmupd (fl_id fl) p (ch_in_flight_ids s)"
      "ch_in_flight_deadlines t = finsert (fl_deadline fl, p, fl_token fl) (ch_in_flight_deadlines s)"
  shows "index_inv t"
proof (rule index_invI, unfold t)
  have p: "fmlookup (ch_in_flight s) p = None" using assms(2) by (rule fmdom_notD)
  have i: "fmlookup (ch_in_flight_ids s) (fl_id fl) = None" using assms(3) by (rule fmdom_notD)
  fix q f assume q: "fmlookup (fmupd p fl (ch_in_flight s)) q = Some f"
  show "fmlookup (fmupd (fl_id fl) p (ch_in_flight_ids s)) (fl_id f) = Some q \<and>
      (fl_deadline f, q, fl_token f)
        |\<in>| finsert (fl_deadline fl, p, fl_token fl) (ch_in_flight_deadlines s)"
    using q index_invD(1) [OF inv, of q f] i by (auto split: if_splits)
next
  have p: "fmlookup (ch_in_flight s) p = None" using assms(2) by (rule fmdom_notD)
  fix i q assume "fmlookup (fmupd (fl_id fl) p (ch_in_flight_ids s)) i = Some q"
  then show "\<exists>f. fmlookup (fmupd p fl (ch_in_flight s)) q = Some f \<and> fl_id f = i"
    using index_invD(2) [OF inv, of i q] p by (auto split: if_splits)
next
  have p: "fmlookup (ch_in_flight s) p = None" using assms(2) by (rule fmdom_notD)
  fix d q k assume "(d, q, k) |\<in>| finsert (fl_deadline fl, p, fl_token fl) (ch_in_flight_deadlines s)"
  then show "\<exists>f. fmlookup (fmupd p fl (ch_in_flight s)) q = Some f \<and> fl_deadline f = d \<and> fl_token f = k"
    using index_invD(3) [OF inv, of d q k] p by auto
qed

lemma chan_inv_reserve:
  assumes inv: "chan_inv due X s" and p: "pending s p" "\<not> held s p"
    and i: "i |\<notin>| fmdom (ch_in_flight_ids s)"
  shows "chan_inv due (X - {p}) (snd (snd (reserve_timestamped k now p i ts timeout l s)))"
    (is "chan_inv due _ ?t")
proof -
  have b: "book_inv s" using inv by (simp add: chan_inv_def)
  have p': "p |\<notin>| fmdom (ch_in_flight s)" "p |\<notin>| ch_redelivery s" using p(2) by (auto simp: held_def)
  have pend: "pending ?t = pending s"
    by (rule pending_cong) (simp_all add: reserve_timestamped_def Let_def)
  have "book_inv ?t"
    using book_invD [OF b] p p'
    by (auto simp: book_inv_def [of ?t] pend) (auto simp: reserve_timestamped_def Let_def)
  moreover have "index_inv ?t"
    by (rule index_inv_insert [where s = s and p = p and fl = "\<lparr>fl_id = i, fl_timestamp_ns = ts,
          fl_deadline = now + timeout, fl_token = k, fl_lease = l\<rparr>"])
       (use inv p' i in \<open>simp_all add: chan_inv_def reserve_timestamped_def Let_def\<close>)
  moreover have "no_loss due (X - {p}) ?t"
    using inv by (auto simp: no_loss_def chan_inv_def pend)
      (auto simp: covered_def held_def reserve_timestamped_def Let_def)
  ultimately show ?thesis by (simp add: chan_inv_def)
qed

lemma index_inv_touch:
  assumes inv: "index_inv s" shows "index_inv (snd (touch_until p d s))"
proof (cases "fmlookup (ch_in_flight s) p")
  case None
  then show ?thesis using inv by (simp add: touch_until_def)
next
  case (Some fl)
  let ?r = "snd (remove_in_flight p s)" and ?fl = "fl\<lparr>fl_deadline := d\<rparr>"
  have i: "fmlookup (ch_in_flight_ids s) (fl_id fl) = Some p"
    using index_invD(1) [OF inv Some] by simp
  show ?thesis
  proof (rule index_inv_insert [where s = ?r and p = p and fl = ?fl])
    show "index_inv ?r" using inv by simp
    show "fl_id ?fl |\<notin>| fmdom (ch_in_flight_ids ?r)"
      using Some by (simp add: remove_in_flight_def)
    show "ch_in_flight (snd (touch_until p d s)) = fmupd p ?fl (ch_in_flight ?r)"
      using Some by (auto simp: touch_until_def intro: fmap_ext)
    show "ch_in_flight_ids (snd (touch_until p d s)) = fmupd (fl_id ?fl) p (ch_in_flight_ids ?r)"
      using Some i by (auto simp: touch_until_def remove_in_flight_def intro: fmap_ext)
  qed (use Some in \<open>simp_all add: touch_until_def remove_in_flight_def\<close>)
qed

lemma chan_inv_touch:
  assumes "chan_inv due X s" shows "chan_inv due X (snd (touch_until p d s))" (is "chan_inv due X ?t")
proof -
  have b: "book_inv s" using assms by (simp add: chan_inv_def)
  have pend: "pending ?t = pending s"
    by (rule pending_cong) (simp_all add: touch_until_def split: option.split)
  have dom: "fmdom (ch_in_flight ?t) = fmdom (ch_in_flight s)"
    by (auto simp: touch_until_def intro: fmdomI split: option.split)
  have "book_inv ?t"
    using book_invD [OF b]
    by (auto simp: book_inv_def [of ?t] pend dom) (auto simp: touch_until_def split: option.splits)
  moreover have "covered due ?t = covered due s"
    by (auto simp: covered_def held_def dom fun_eq_iff) (auto simp: touch_until_def split: option.splits)
  ultimately show ?thesis
    using assms index_inv_touch [of s p d] by (simp add: chan_inv_def no_loss_def pend)
qed

section \<open>Creation and recovery\<close>

lemma chan_inv_new: "chan_inv due X (new_channel name barrier ephemeral gap)"
  by (auto simp: chan_inv_def book_inv_def index_inv_def no_loss_def covered_def pending_def new_channel_def)

text \<open>What a checkpoint promises beyond the checks of \<open>from_checkpoint\<close>.\<close>

definition checkpoint_wf :: "channel_checkpoint \<Rightarrow> bool" where
  "checkpoint_wf cp \<longleftrightarrow>
     fBall (cp_acknowledged cp) (\<lambda>p. cp_ack_floor_position cp < p)
     \<and> fBall (fmdom (cp_requeued_until cp))
         (\<lambda>p. cp_ack_floor_position cp < p \<and> p |\<notin>| cp_acknowledged cp)
     \<and> fBall (fmdom (cp_attempts cp))
         (\<lambda>p. cp_ack_floor_position cp < p \<and> p |\<notin>| cp_acknowledged cp)"

lemma checkpoint_wf_checkpoint: "book_inv s \<Longrightarrow> checkpoint_wf (checkpoint s)"
  using book_invD [of s] by (auto simp: checkpoint_wf_def checkpoint_def pending_def)

lemma is_absent_no_ranges: "ch_absent_ranges s = [] \<Longrightarrow> \<not> is_absent s p"
  by (simp add: is_absent_def absent_range_end_def)

definition fresh_scan :: "channel_state \<Rightarrow> bool" where
  "fresh_scan s \<longleftrightarrow> ch_next_position s = sat_inc (ch_ack_floor_position s)"

lemma no_loss_fresh: "fresh_scan s \<Longrightarrow> no_loss due X s"
  by (auto simp: fresh_scan_def no_loss_def covered_def pending_def)

lemma chan_inv_restore:
  assumes "from_checkpoint cp gap = Inr s" and "checkpoint_wf cp"
  shows "chan_inv due X s" and "fresh_scan s"
proof -
  show f: "fresh_scan s"
    using assms(1) by (auto simp: from_checkpoint_def fresh_scan_def Let_def split: if_splits)
  have "ch_absent_ranges s = []"
    using assms(1) by (auto simp: from_checkpoint_def Let_def split: if_splits)
  then have "book_inv s"
    using assms is_absent_no_ranges [of s]
    by (auto simp: from_checkpoint_def book_inv_def pending_def checkpoint_wf_def Let_def
        split: if_splits)
  moreover have "index_inv s"
    using assms(1) by (auto simp: from_checkpoint_def index_inv_def Let_def split: if_splits)
  ultimately show "chan_inv due X s" using no_loss_fresh [OF f] by (simp add: chan_inv_def)
qed

lemma settled_restore:
  "from_checkpoint cp gap = Inr s \<Longrightarrow> settled s = {..cp_ack_floor_position cp} \<union> fset (cp_acknowledged cp)"
  by (auto simp: from_checkpoint_def settled_def Let_def split: if_splits)

lemma settled_set_absent_ranges:
  assumes "ranges_wf rs" and "ranges_set (ch_absent_ranges s) \<subseteq> ranges_set rs"
  shows "settled (set_absent_ranges rs s) = settled s \<union> ranges_set rs"
  unfolding set_absent_ranges_def settled_advance
  using assms(2) by (auto simp: settled_def position_in_ranges_iff [OF assms(1)])

lemma chan_inv_set_absent_ranges:
  assumes inv: "chan_inv due X s" and empty: "ch_in_flight s = fmempty"
    and wf: "ranges_wf rs" and sub: "ranges_set (ch_absent_ranges s) \<subseteq> ranges_set rs"
  shows "chan_inv due X (set_absent_ranges rs s)" and "settled (set_absent_ranges rs s) = settled s \<union> ranges_set rs"
proof -
  let ?keep = "\<lambda>p. \<not> position_in_ranges rs p"
  define u where "u = s\<lparr>ch_acknowledged := ffilter ?keep (ch_acknowledged s),
          ch_redelivery := ffilter ?keep (ch_redelivery s),
          ch_requeued_until := fmfilter ?keep (ch_requeued_until s),
          ch_attempts := fmfilter ?keep (ch_attempts s),
          ch_absent_ranges := rs\<rparr>"
  have b: "book_inv s" using inv by (simp add: chan_inv_def)
  have old: "is_absent s p \<longleftrightarrow> p \<in> ranges_set (ch_absent_ranges s)" for p
    by (rule is_absent_iff [OF book_invD(10) [OF b]])
  have new: "is_absent u p \<longleftrightarrow> p \<in> ranges_set rs" for p
    using is_absent_iff [of u p] wf by (simp add: u_def)
  have pend: "pending u p \<longleftrightarrow> pending s p \<and> p \<notin> ranges_set rs" for p
    using sub unfolding pending_def new old by (auto simp: u_def position_in_ranges_iff [OF wf])
  have "book_inv u"
    using book_invD [OF b] wf
    by (auto simp: book_inv_def [of u] pend new) 
       (auto simp: u_def empty position_in_ranges_iff [OF wf])
  moreover have "index_inv u" using inv by (simp add: chan_inv_def u_def)
  moreover have "no_loss due X u"
    using inv
    by (auto simp: no_loss_def chan_inv_def pend)
       (auto simp: covered_def held_def u_def position_in_ranges_iff [OF wf])
  ultimately have u: "chan_inv due X u" by (simp add: chan_inv_def)
  then show "chan_inv due X (set_absent_ranges rs s)"
    using chan_inv_advance [OF u] by (simp add: set_absent_ranges_def u_def)
  show "settled (set_absent_ranges rs s) = settled s \<union> ranges_set rs" by (rule settled_set_absent_ranges [OF wf sub])
qed

lemma chan_inv_compact_from:
  assumes "chan_inv due X s" and "fresh_scan s"
  shows "chan_inv due X (snd (compact_from f c s)) \<and> fresh_scan (snd (compact_from f c s))
         \<and> settled (snd (compact_from f c s)) = settled s"
  using assms
proof (induction f c s rule: compact_from.induct)
  case (1 f c s)
  let ?t = "\<lambda>p. s\<lparr>ch_requeued_until := fmdrop p (ch_requeued_until s),
                   ch_redelivery := ch_redelivery s |-| {|p|}\<rparr>"
  have t: "chan_inv due X (?t p) \<and> fresh_scan (?t p) \<and> settled (?t p) = settled s" for p
  proof -
    have b: "book_inv s" using 1(4) by (simp add: chan_inv_def)
    have "book_inv (?t p)" using book_invD [OF b] by (auto simp: book_inv_def [of "?t p"])
    moreover have "fresh_scan (?t p)" using 1(5) by (simp add: fresh_scan_def)
    ultimately show ?thesis
      using 1(4) by (simp add: chan_inv_def no_loss_fresh settled_def)
  qed
  show ?case
    unfolding compact_from.simps [of f c s]
    using 1 t by (auto split: option.split sum.split)
qed

end
