(* ===== verification/Channel_Scan.thy ===== *)
theory Channel_Scan
  imports Channel_Lease
begin

text \<open>
  \<open>next_candidate\<close>: it returns for every last position below the largest one, keeps the
  Channel invariant, hands out only positions that may be delivered, and hands out one
  whenever there is one.
\<close>

section \<open>What a scan may change\<close>

definition scan_rel :: "(u64 \<Rightarrow> message_availability) \<Rightarrow> channel_state \<Rightarrow> channel_state \<Rightarrow> bool" where
  "scan_rel available_at s t \<longleftrightarrow>
     ch_in_flight t = ch_in_flight s \<and> ch_in_flight_ids t = ch_in_flight_ids s
     \<and> ch_max_ack_gap t = ch_max_ack_gap s \<and> ch_absent_ranges t = ch_absent_ranges s
     \<and> ch_ack_floor_position s \<le> ch_ack_floor_position t
     \<and> ch_redelivery t |\<subseteq>| ch_redelivery s
     \<and> (\<forall>p. pending t p \<longrightarrow> pending s p)
     \<and> (\<forall>p. pending s p \<longrightarrow> available_at p \<noteq> Absent \<longrightarrow> pending t p)"

lemma scan_rel_refl [simp]: "scan_rel f s s"
  by (simp add: scan_rel_def)

lemma scan_relD:
  assumes "scan_rel f s t"
  shows "ch_in_flight t = ch_in_flight s" "ch_in_flight_ids t = ch_in_flight_ids s"
    "ch_max_ack_gap t = ch_max_ack_gap s" "ch_absent_ranges t = ch_absent_ranges s"
    "ch_ack_floor_position s \<le> ch_ack_floor_position t" "ch_redelivery t |\<subseteq>| ch_redelivery s"
    "pending t p \<Longrightarrow> pending s p" "pending s p \<Longrightarrow> f p \<noteq> Absent \<Longrightarrow> pending t p"
  using assms unfolding scan_rel_def by blast+

lemma scan_rel_trans [trans]:
  assumes "scan_rel f s t" and "scan_rel f t u" shows "scan_rel f s u"
proof -
  note st = scan_relD [OF assms(1)] and tu = scan_relD [OF assms(2)]
  have "ch_ack_floor_position s \<le> ch_ack_floor_position u" using st(5) tu(5) by (rule order_trans)
  moreover have "ch_redelivery u |\<subseteq>| ch_redelivery s" using tu(6) st(6) by (rule order_trans)
  moreover have "\<forall>p. pending u p \<longrightarrow> pending s p" using st(7) tu(7) by blast
  moreover have "\<forall>p. pending s p \<longrightarrow> f p \<noteq> Absent \<longrightarrow> pending u p" using st(8) tu(8) by blast
  ultimately show ?thesis
    unfolding scan_rel_def using st(1-4) tu(1-4) by (simp only: simp_thms)
qed

lemma scan_rel_advance:
  "ranges_wf (ch_absent_ranges s) \<Longrightarrow> scan_rel f s (advance_ack_floor s)"
  by (simp add: scan_rel_def advance_ack_floor_ge)

lemma scan_rel_update:
  "scan_rel f s (s\<lparr>ch_next_position := n\<rparr>)" "scan_rel f s (s\<lparr>ch_deferred_scan := d\<rparr>)"
  by (simp_all add: scan_rel_def)

lemma pending_acknowledge:
  assumes "ranges_wf (ch_absent_ranges s)"
  shows "pending (acknowledge p s) q \<longleftrightarrow> pending s q \<and> q \<noteq> p"
proof -
  let ?g = "(forget p s)\<lparr>ch_acknowledged := finsert p (ch_acknowledged s)\<rparr>"
  have g: "ch_absent_ranges ?g = ch_absent_ranges s" "ch_ack_floor_position ?g = ch_ack_floor_position s"
    by (simp_all add: forget_def Let_def)
  have "pending ?g q \<longleftrightarrow> pending s q \<and> q \<noteq> p"
    using is_absent_cong [OF g(1)] by (auto simp: pending_def g(2))
  moreover have "p \<le> ch_ack_floor_position s \<Longrightarrow> pending s q \<Longrightarrow> q \<noteq> p" by (auto simp: pending_def)
  ultimately show ?thesis using assms g(1) by (auto simp: acknowledge_forget)
qed

lemma acknowledge_fields:
  "ch_absent_ranges (acknowledge p s) = ch_absent_ranges s"
  "ch_max_ack_gap (acknowledge p s) = ch_max_ack_gap s"
  "ch_in_flight (acknowledge p s) = fmdrop p (ch_in_flight s)"
  "ch_requeued_until (acknowledge p s) = fmdrop p (ch_requeued_until s)"
  "ch_deferred_scan (acknowledge p s) = ch_deferred_scan s"
  "ch_attempts (acknowledge p s) = fmdrop p (ch_attempts s)"
  "ch_paused (acknowledge p s) = ch_paused s"
  by (simp_all add: acknowledge_def Let_def)

lemma acknowledge_ids:
  "p |\<notin>| fmdom (ch_in_flight s) \<Longrightarrow> ch_in_flight_ids (acknowledge p s) = ch_in_flight_ids s"
  by (simp add: acknowledge_def Let_def remove_in_flight_def fmdom_notD)

lemma acknowledge_floor: "ch_ack_floor_position s \<le> ch_ack_floor_position (acknowledge p s)"
  using advance_ack_floor_ge [of "(forget p s)\<lparr>ch_acknowledged := finsert p (ch_acknowledged s)\<rparr>"]
  by (auto simp: acknowledge_forget forget_def Let_def)

lemma scan_rel_acknowledge:
  assumes "ranges_wf (ch_absent_ranges s)" and "p |\<notin>| fmdom (ch_in_flight s)" and "f p = Absent"
  shows "scan_rel f s (acknowledge p s)"
proof -
  have "fmdrop p (ch_in_flight s) = ch_in_flight s"
    using assms(2) by (auto intro!: fmap_ext dest: fmdom_notD)
  then show ?thesis
    using assms
    by (auto simp: scan_rel_def pending_acknowledge acknowledge_fields acknowledge_ids acknowledge_floor)
qed

lemma scan_rel_cursor:
  assumes "scan_rel f s t" and "pending s p" and "f p \<noteq> Absent"
  shows "pending t p" and "held t p \<Longrightarrow> held s p"
  using scan_relD [OF assms(1)] assms(2,3) by (auto simp: held_def)

section \<open>The redelivery loop\<close>

lemma redelivery_scan_step:
  assumes "chan_inv due X s" and "next_above c (ch_redelivery s) = Some p"
  shows "pending s p" "p |\<notin>| fmdom (ch_in_flight s)" "\<not> is_absent s p" "ch_redelivery s \<noteq> {||}"
  using assms book_invD(3) [of s p] next_above_Some(1) [OF assms(2)]
  by (auto simp: chan_inv_def pending_def)

lemma chan_inv_take_redelivery:
  assumes inv: "chan_inv due X s" and p: "p |\<in>| ch_redelivery s"
  shows "chan_inv due (insert p X) (s\<lparr>ch_redelivery := ch_redelivery s |-| {|p|},
           ch_requeued_until := fmdrop p (ch_requeued_until s)\<rparr>)" (is "chan_inv due _ ?t")
proof -
  have b: "book_inv s" using inv by (simp add: chan_inv_def)
  have "book_inv ?t" using book_invD [OF b] by (auto simp: book_inv_def [of ?t])
  moreover have "no_loss due (insert p X) ?t"
    using inv by (auto simp: chan_inv_def no_loss_def) (auto simp: covered_def held_def)
  ultimately show ?thesis using inv by (simp add: chan_inv_def)
qed

definition handed_out ::
  "(u64 \<Rightarrow> i64) \<Rightarrow> u64 set \<Rightarrow> i64 \<Rightarrow> (u64 \<Rightarrow> message_availability) \<Rightarrow> candidate \<times> channel_state \<Rightarrow> bool" where
  "handed_out due X now_ms available_at r \<longleftrightarrow>
     (case r of
        (CandReady p, t) \<Rightarrow> chan_inv due (insert p X) t \<and> pending t p \<and> \<not> held t p
          \<and> (\<exists>a. available_at p = Ready a \<and> a \<le> now_ms)
      | (CandLoad p, t) \<Rightarrow> chan_inv due X t \<and> pending t p \<and> available_at p = Missing
      | (CandNone, t) \<Rightarrow> chan_inv due X t)"

lemma redelivery_scan_safe:
  assumes "chan_inv due X s" and "redelivery_scan now f c s = (r, t)"
  shows "scan_rel f s t \<and> (case r of None \<Rightarrow> chan_inv due X t | Some k \<Rightarrow> k \<noteq> CandNone \<and> handed_out due X now f (k, t))"
  using assms
proof (induction now f c s arbitrary: r t rule: redelivery_scan.induct)
  case (1 now f c s)
  note inv = \<open>chan_inv due X s\<close> and eq = 1(6) [unfolded redelivery_scan.simps [of now f c s]]
  show ?case
  proof (cases "next_above c (ch_redelivery s)")
    case None
    then show ?thesis using eq inv by simp
  next
    case (Some p)
    note p = redelivery_scan_step [OF inv Some]
    have in_red: "p |\<in>| ch_redelivery s" using next_above_Some(1) [OF Some] .
    consider (delayed) "redelivery_scan now f (Some p) s = (r, t)"
        "(case fmlookup (ch_requeued_until s) p of None \<Rightarrow> 0 | Some u \<Rightarrow> u) > now"
      | (later) a where "redelivery_scan now f (Some p) s = (r, t)"
        "\<not> (case fmlookup (ch_requeued_until s) p of None \<Rightarrow> 0 | Some u \<Rightarrow> u) > now" "f p = Ready a" "\<not> a \<le> now"
      | (ready) a where "f p = Ready a" "a \<le> now" "r = Some (CandReady p)"
        "t = s\<lparr>ch_redelivery := ch_redelivery s |-| {|p|}, ch_requeued_until := fmdrop p (ch_requeued_until s)\<rparr>"
      | (load) "f p = Missing" "r = Some (CandLoad p)" "t = s"
      | (absent) "\<not> (case fmlookup (ch_requeued_until s) p of None \<Rightarrow> 0 | Some u \<Rightarrow> u) > now" "f p = Absent"
        "redelivery_scan now f (Some p) (acknowledge p s) = (r, t)"
      using eq Some p(3)
      by (cases "f p"; cases "(case fmlookup (ch_requeued_until s) p of None \<Rightarrow> 0 | Some u \<Rightarrow> u) > now")
        (simp_all split: if_splits)
    then show ?thesis
    proof cases
      case delayed
      then show ?thesis using 1(2) [OF Some p(3)] inv by blast
    next
      case later
      then show ?thesis using 1(3) [OF Some p(3)] inv by blast
    next
      case ready
      then show ?thesis
        using chan_inv_take_redelivery [OF inv in_red] p
        by (auto simp: handed_out_def held_def scan_rel_def)
    next
      case load
      then show ?thesis using inv p by (simp add: handed_out_def)
    next
      case absent
      have "chan_inv due X (acknowledge p s)"
        using chan_inv_acknowledge [OF inv p(3)] by (auto simp: chan_inv_def intro: no_loss_mono)
      then have "scan_rel f (acknowledge p s) t \<and> (case r of None \<Rightarrow> chan_inv due X t
          | Some k \<Rightarrow> k \<noteq> CandNone \<and> handed_out due X now f (k, t))"
        using 1(4) [OF Some p(3) absent(1,2) _ absent(3)] by simp
      moreover have "scan_rel f s (acknowledge p s)"
        using scan_rel_acknowledge [OF chan_inv_ranges [OF inv] p(2)] absent by simp
      ultimately show ?thesis using scan_rel_trans by blast
    qed
  qed
qed

definition not_delayed :: "i64 \<Rightarrow> channel_state \<Rightarrow> u64 \<Rightarrow> bool" where
  "not_delayed now_ms s p \<longleftrightarrow>
     (case fmlookup (ch_requeued_until s) p of None \<Rightarrow> 0 | Some u \<Rightarrow> u) \<le> now_ms"

lemma redelivery_scan_complete:
  assumes "chan_inv due X s" and "p |\<in>| ch_redelivery s" and "beyond c p"
    and "not_delayed now s p" and "f p = Ready a" and "a \<le> now"
  shows "fst (redelivery_scan now f c s) \<noteq> None"
  using assms
proof (induction now f c s rule: redelivery_scan.induct)
  case (1 now f c s)
  note inv = 1(5) and p = 1(6-10)
  obtain q where q: "next_above c (ch_redelivery s) = Some q"
    using p(1,2) next_above_None [of c "ch_redelivery s"] by (cases "next_above c (ch_redelivery s)") auto
  note st = redelivery_scan_step [OF inv q] and eq = redelivery_scan.simps [of now f c s]
  have q': "q |\<in>| ch_redelivery s" "q \<le> p" using next_above_Some [OF q] p by auto
  show ?case
  proof (cases "q = p")
    case True
    then show ?thesis using p st(3) q unfolding eq by (simp add: not_delayed_def)
  next
    case False
    then have b: "beyond (Some q) p" using q'(2) by simp
    have inv': "chan_inv due X (acknowledge q s)"
      using chan_inv_acknowledge [OF inv st(3)] by (auto simp: chan_inv_def intro: no_loss_mono)
    have nd: "not_delayed now (acknowledge q s) p"
      using p(3) False by (simp add: not_delayed_def acknowledge_fields)
    show ?thesis
    proof (cases "(case fmlookup (ch_requeued_until s) q of None \<Rightarrow> 0 | Some u \<Rightarrow> u) > now")
      case True
      then show ?thesis using 1(2) [OF q st(3) True inv p(1) b p(3-5)] q st(3) unfolding eq by simp
    next
      case nd_q: False
      show ?thesis
      proof (cases "f q")
        case (Ready x)
        then show ?thesis using 1(3) [OF q st(3) nd_q Ready _ inv p(1) b p(3-5)] q st(3) nd_q
          unfolding eq by simp
      next
        case Missing
        then show ?thesis using q st(3) nd_q unfolding eq by simp
      next
        case Absent
        then show ?thesis
          using 1(4) [OF q st(3) nd_q Absent inv' _ b nd p(4,5)] p(1) False q st(3) nd_q
          unfolding eq by simp
      qed
    qed
  qed
qed

section \<open>The scan of the log\<close>

lemma chan_inv_move:
  assumes inv: "chan_inv due X s" and "X \<subseteq> Y" and "ch_next_position s \<le> n"
    and pass: "\<And>p. ch_next_position s \<le> p \<Longrightarrow> p < n \<Longrightarrow> pending s p \<Longrightarrow> p \<in> Y \<or> held s p"
  shows "chan_inv due Y (s\<lparr>ch_next_position := n\<rparr>)" (is "chan_inv due Y ?t")
proof -
  have b: "book_inv s" using inv by (simp add: chan_inv_def)
  have "book_inv ?t"
    using book_invD [OF b] order_trans [OF book_invD(6) [OF b] assms(3)]
    by (auto simp: book_inv_def [of ?t])
  moreover have "no_loss due Y ?t"
    unfolding no_loss_def
  proof (intro allI impI)
    fix p assume "pending ?t p \<and> p \<notin> Y"
    then have p: "pending s p" "p \<notin> X" "p \<notin> Y" using assms(2) by auto
    then have "covered due s p" using inv by (simp add: chan_inv_def no_loss_def)
    then show "covered due ?t p" using pass [of p] p
      by (cases "p < n") (auto simp: covered_def held_def not_less)
  qed
  ultimately show ?thesis using inv by (simp add: chan_inv_def)
qed

definition agrees :: "(u64 \<Rightarrow> i64) \<Rightarrow> (u64 \<Rightarrow> message_availability) \<Rightarrow> bool" where
  "agrees due available_at \<longleftrightarrow> (\<forall>p a. available_at p = Ready a \<longrightarrow> a = due p)"

definition defer_scan :: "u64 \<Rightarrow> i64 \<Rightarrow> channel_state \<Rightarrow> channel_state" where
  "defer_scan p a s =
     s\<lparr>ch_deferred_scan := Some (case ch_deferred_scan s of
         Some (first, until) \<Rightarrow> (min first p, min until a) | None \<Rightarrow> (p, a))\<rparr>"

lemma chan_inv_defer_scan:
  assumes inv: "chan_inv due (insert p X) s" and "due p = a"
  shows "chan_inv due X (defer_scan p a s)" (is "chan_inv due X ?t")
proof -
  have "book_inv ?t" using inv by (simp add: chan_inv_def book_inv_def defer_scan_def)
  moreover have "no_loss due X ?t"
    unfolding no_loss_def
  proof (intro allI impI)
    fix q assume "pending ?t q \<and> q \<notin> X"
    then have q: "pending s q" "q \<notin> X" by (auto simp: defer_scan_def)
    show "covered due ?t q"
    proof (cases "q = p")
      case True
      then show ?thesis using assms(2) by (auto simp: covered_def defer_scan_def split: option.split)
    next
      case False
      then have "covered due s q" using inv q by (simp add: chan_inv_def no_loss_def)
      then show ?thesis by (auto simp: covered_def held_def defer_scan_def min_le_iff_disj split: option.splits)
    qed
  qed
  ultimately show ?thesis using inv by (simp add: chan_inv_def defer_scan_def)
qed

lemma scan_step_cases:
  fixes s now last_p f
  defines "n \<equiv> ch_next_position s" and "m \<equiv> s\<lparr>ch_next_position := sat_inc (ch_next_position s)\<rparr>"
  obtains (finished) "\<not> n \<le> last_p" "scan_step now last_p f s = Inl (CandNone, s)"
  | (gap) e where "n \<le> last_p" "absent_range_end s n = Some e"
      "scan_step now last_p f s = Inr (advance_ack_floor (s\<lparr>ch_next_position := sat_inc e\<rparr>))"
  | (window) "n \<le> last_p" "absent_range_end s n = None" "present_distance s n > ch_max_ack_gap s"
      "scan_step now last_p f s = Inl (CandNone, s)"
  | (skip) "n \<le> last_p" "absent_range_end s n = None" "\<not> pending s n \<or> held s n"
      "scan_step now last_p f s = Inr m"
  | (load) "n \<le> last_p" "pending s n" "\<not> held s n" "f n = Missing"
      "scan_step now last_p f s = Inl (CandLoad n, s)"
  | (absent) "n \<le> last_p" "pending s n" "\<not> held s n" "f n = Absent"
      "scan_step now last_p f s = Inr (acknowledge n m)"
  | (later) a where "n \<le> last_p" "pending s n" "\<not> held s n" "f n = Ready a" "now < a"
      "scan_step now last_p f s = Inr (defer_scan n a m)"
  | (ready) a where "n \<le> last_p" "pending s n" "\<not> held s n" "f n = Ready a" "a \<le> now"
      "present_distance s n \<le> ch_max_ack_gap s"
      "scan_step now last_p f s = Inl (CandReady n, m)"
proof -
  note def = scan_step_def [of now last_p f s, folded n_def m_def, unfolded Let_def]
  show ?thesis
  proof (cases "n \<le> last_p")
    case False
    then show ?thesis using def finished by simp
  next
    case last: True
    show ?thesis
    proof (cases "absent_range_end s n")
      case (Some e)
      then show ?thesis using def last gap by simp
    next
      case None
      then have ab: "\<not> is_absent s n" by (simp add: is_absent_def)
      show ?thesis
      proof (cases "present_distance s n > ch_max_ack_gap s")
        case True
        then show ?thesis using def last None window by simp
      next
        case dist: False
        show ?thesis
        proof (cases "\<not> pending s n \<or> held s n")
          case True
          then have "n \<le> ch_ack_floor_position s \<or> n |\<in>| ch_acknowledged s
              \<or> n |\<in>| fmdom (ch_in_flight s) \<or> n |\<in>| ch_redelivery s"
            using ab by (auto simp: pending_def held_def)
          then show ?thesis using def last None dist True skip by simp
        next
          case False
          then have "\<not> (n \<le> ch_ack_floor_position s \<or> n |\<in>| ch_acknowledged s
              \<or> n |\<in>| fmdom (ch_in_flight s) \<or> n |\<in>| ch_redelivery s)"
            by (auto simp: pending_def held_def)
          then have eq: "scan_step now last_p f s = (case f n of
                Missing \<Rightarrow> Inl (CandLoad n, s) | Absent \<Rightarrow> Inr (acknowledge n m)
              | Ready a \<Rightarrow> if a > now then Inr (defer_scan n a m) else Inl (CandReady n, m))"
            using def last None dist by (simp add: defer_scan_def split: message_availability.split)
          show ?thesis
          proof (cases "f n")
            case (Ready a)
            then show ?thesis using eq last False later ready dist by (cases "now < a") auto
          qed (use eq last False load absent in auto)
        qed
      qed
    qed
  qed
qed

lemma scan_step_continue:
  assumes inv: "chan_inv due X s" and ag: "agrees due f"
    and last: "last_p \<noteq> u64_max" and step: "scan_step now last_p f s = Inr t"
  shows "chan_inv due X t" "scan_rel f s t" "ch_next_position s < ch_next_position t"
    "ch_next_position s \<le> last_p"
proof -
  let ?n = "ch_next_position s" and ?m = "s\<lparr>ch_next_position := sat_inc (ch_next_position s)\<rparr>"
  have wf: "ranges_wf (ch_absent_ranges s)" using inv by (rule chan_inv_ranges)
  have lt: "?n < sat_inc e" if "?n \<le> last_p" "?n \<le> e" for e
  proof (cases "e = u64_max")
    case True
    have "last_p < u64_max" using last u64_max_ge [of last_p] by (simp add: order.strict_iff_order del: u64_max_ge)
    then show ?thesis using that(1) True by (simp add: le_less_trans)
  qed (rule le_less_sat_inc [OF that(2)])
  have pass: "chan_inv due Y ?m" if "X \<subseteq> Y" "\<not> pending s ?n \<or> held s ?n \<or> ?n \<in> Y" for Y
    by (rule chan_inv_move [OF inv]) (use that in \<open>auto dest!: less_sat_inc_le\<close>)
  have m: "scan_rel f s ?m" by (rule scan_rel_update)
  have "chan_inv due X t \<and> scan_rel f s t \<and> ?n < ch_next_position t \<and> ?n \<le> last_p"
  proof (cases rule: scan_step_cases [of s last_p now f])
    case (gap e)
    let ?g = "s\<lparr>ch_next_position := sat_inc e\<rparr>"
    have e: "?n \<le> e" "{?n..e} \<subseteq> ranges_set (ch_absent_ranges s)"
      using gap(2) range_end_ge range_end_Some_subset by (auto simp: absent_range_end_def)
    have "chan_inv due X ?g"
    proof (rule chan_inv_move [OF inv])
      show "?n \<le> sat_inc e" using lt [OF gap(1) e(1)] by simp
      show "p \<in> X \<or> held s p" if "?n \<le> p" "p < sat_inc e" "pending s p" for p
        using that e(2) is_absent_iff [OF wf, of p] by (auto simp: pending_def dest!: less_sat_inc_le)
    qed simp
    moreover have "scan_rel f s (advance_ack_floor ?g)"
      by (rule scan_rel_trans [OF scan_rel_update(1) scan_rel_advance]) (simp add: wf)
    moreover have "?n < ch_next_position (advance_ack_floor ?g)"
      using lt [OF gap(1) e(1)] by (simp add: advance_ack_floor_next less_max_iff_disj)
    ultimately show ?thesis
      using step gap by (auto intro: chan_inv_advance)
  next
    case skip
    then show ?thesis using step pass [of X] m lt [of ?n] by auto
  next
    case absent
    have "chan_inv due (insert ?n X - {?n}) (acknowledge ?n ?m)"
      by (rule chan_inv_acknowledge) (use pass [of "insert ?n X"] absent in \<open>auto simp: pending_def\<close>)
    then have "chan_inv due X (acknowledge ?n ?m)" by (auto simp: chan_inv_def intro: no_loss_mono)
    moreover have "scan_rel f s (acknowledge ?n ?m)"
      by (rule scan_rel_trans [OF m scan_rel_acknowledge]) (use absent wf in \<open>auto simp: held_def\<close>)
    moreover have "sat_inc ?n \<le> ch_next_position (acknowledge ?n ?m)"
      by (auto simp: acknowledge_def Let_def advance_ack_floor_next)
    ultimately show ?thesis using step absent lt [of ?n] by auto
  next
    case (later a)
    have "due ?n = a" using later ag by (simp add: agrees_def)
    then have "chan_inv due X (defer_scan ?n a ?m)"
      using pass [of "insert ?n X"] by (intro chan_inv_defer_scan) auto
    moreover have "scan_rel f s (defer_scan ?n a ?m)"
      unfolding defer_scan_def by (rule scan_rel_trans [OF m scan_rel_update(2)])
    ultimately show ?thesis using step later lt [of ?n] by (auto simp: defer_scan_def)
  qed (use step in auto)
  then show "chan_inv due X t" "scan_rel f s t" "?n < ch_next_position t" "?n \<le> last_p" by auto
qed

lemma scan_step_return:
  assumes inv: "chan_inv due X s" and step: "scan_step now last_p f s = Inl r"
  shows "handed_out due X now f r" "scan_rel f s (snd r)"
proof -
  let ?n = "ch_next_position s" and ?m = "s\<lparr>ch_next_position := sat_inc (ch_next_position s)\<rparr>"
  have pass: "chan_inv due (insert ?n X) ?m"
    by (rule chan_inv_move [OF inv]) (auto dest!: less_sat_inc_le)
  show "handed_out due X now f r" "scan_rel f s (snd r)"
    using step inv pass scan_rel_update(1) [of f s "sat_inc ?n"]
    by (cases rule: scan_step_cases [of s last_p now f]; auto simp: handed_out_def held_def)+
qed

section \<open>The whole operation\<close>

lemma chan_inv_rewind:
  assumes inv: "chan_inv due X s"
  shows "chan_inv due X (rewind_deferred now s)" and "scan_rel f s (rewind_deferred now s)"
proof -
  have b: "book_inv s" using inv by (simp add: chan_inv_def)
  have fl: "sat_inc (ch_ack_floor_position s) \<le> p" if "pending s p" for p
    using that by (auto simp: pending_def)
  show "scan_rel f s (rewind_deferred now s)"
    by (auto simp: rewind_deferred_def scan_rel_def split: option.split)
  show "chan_inv due X (rewind_deferred now s)"
  proof (cases "\<exists>first until. ch_deferred_scan s = Some (first, until) \<and> until \<le> now")
    case False
    then show ?thesis using inv by (auto simp: rewind_deferred_def split: option.split)
  next
    case True
    then obtain first until where d: "ch_deferred_scan s = Some (first, until)" "until \<le> now" by auto
    let ?t = "rewind_deferred now s"
    have t: "?t = s\<lparr>ch_next_position := min (ch_next_position s) (max first (sat_inc (ch_ack_floor_position s))),
        ch_deferred_scan := None\<rparr>"
      using d by (simp add: rewind_deferred_def)
    have "book_inv ?t"
      using book_invD [OF b] by (auto simp: book_inv_def [of ?t]) (auto simp: t)
    moreover have "index_inv ?t" using inv by (simp add: t chan_inv_def)
    moreover have "no_loss due X ?t"
      using inv fl
      by (auto simp: no_loss_def chan_inv_def t)
        (auto simp: covered_def held_def d min_le_iff_disj)
    ultimately show ?thesis by (simp add: chan_inv_def)
  qed
qed

lemma next_candidate_returns:
  assumes inv: "chan_inv due X s" and ag: "agrees due f" and last: "last_p \<noteq> u64_max"
  obtains r where "next_candidate now last_p f s = Some r" "handed_out due X now f r" "scan_rel f s (snd r)"
proof (cases "ch_paused s")
  case True
  then show ?thesis using that [of "(CandNone, s)"] inv by (simp add: next_candidate_def handed_out_def)
next
  case run: False
  let ?w = "rewind_deferred now s"
  note w = chan_inv_rewind [OF inv, where now = now]
  obtain c t where rs: "redelivery_scan now f None ?w = (c, t)" by fastforce
  note t = redelivery_scan_safe [OF w(1) rs]
  have st: "scan_rel f s t" using scan_rel_trans [OF w(2)] t by blast
  show ?thesis
  proof (cases c)
    case (Some k)
    then show ?thesis using that [of "(k, t)"] t st rs run by (simp add: next_candidate_def)
  next
    case None
    let ?I = "\<lambda>u. chan_inv due X u \<and> scan_rel f s u"
    have "\<exists>r. loop (scan_step now last_p f) t = Some r \<and> (handed_out due X now f r \<and> scan_rel f s (snd r))"
    proof (rule loop_total [where I = ?I and f = "\<lambda>u. Suc (unat last_p) - unat (ch_next_position u)"])
      show "?I t" using t None st by simp
      show "?I v \<and> Suc (unat last_p) - unat (ch_next_position v) < Suc (unat last_p) - unat (ch_next_position u)"
        if "?I u" "scan_step now last_p f u = Inr v" for u v
        using that scan_step_continue [OF _ ag last that(2), of X] scan_rel_trans [of f s u v]
        by (auto simp: word_less_nat_alt word_le_nat_alt)
      show "handed_out due X now f r \<and> scan_rel f s (snd r)"
        if "?I u" "scan_step now last_p f u = Inl r" for u r
        using that scan_step_return [of due X u now last_p f r] scan_rel_trans [of f s u "snd r"] by auto
    qed
    then show ?thesis using that rs None run by (auto simp: next_candidate_def)
  qed
qed

section \<open>Progress\<close>

definition wakes_after :: "i64 \<Rightarrow> channel_state \<Rightarrow> bool" where
  "wakes_after now_ms s \<longleftrightarrow>
     (case ch_deferred_scan s of None \<Rightarrow> True | Some (first, until) \<Rightarrow> now_ms < until)"

lemma wakes_after_rewind: "wakes_after now (rewind_deferred now s)"
  by (auto simp: wakes_after_def rewind_deferred_def split: option.splits)

lemma redelivery_scan_deferred:
  "ch_deferred_scan (snd (redelivery_scan now f c s)) = ch_deferred_scan s"
proof (induction now f c s rule: redelivery_scan.induct)
  case (1 now f c s)
  then show ?case unfolding redelivery_scan.simps [of now f c s]
    by (auto simp: acknowledge_fields split: option.split message_availability.split)
qed

lemma wakes_after_step:
  assumes "wakes_after now s" and "scan_step now last_p f s = Inr t"
  shows "wakes_after now t"
  using assms
  by (cases rule: scan_step_cases [of s last_p now f])
    (auto simp: wakes_after_def acknowledge_fields defer_scan_def split: option.splits)

lemma due_ahead:
  assumes "chan_inv due X s" and "wakes_after now s" and "pending s p" and "\<not> held s p" and "p \<notin> X"
    and "due p \<le> now"
  shows "ch_next_position s \<le> p"
  using assms no_lossD [of due X s p]
  by (auto simp: chan_inv_def covered_def wakes_after_def split: option.splits)

lemma present_distance_mono:
  assumes "ranges_wf (ch_absent_ranges s)" and "ch_absent_ranges t = ch_absent_ranges s"
    and "ch_ack_floor_position s \<le> ch_ack_floor_position t" and "q \<le> p"
  shows "present_distance t q \<le> present_distance s p"
proof -
  have "card {x. ch_ack_floor_position t < x \<and> x \<le> q \<and> \<not> is_absent t x}
      \<le> card {x. ch_ack_floor_position s < x \<and> x \<le> p \<and> \<not> is_absent s x}"
    using assms is_absent_cong [OF assms(2)] by (intro card_mono) auto
  then show ?thesis
    using unat_present_distance [of s p] unat_present_distance [of t q] assms(1,2)
    by (simp add: word_le_nat_alt)
qed

lemma scan_step_not_none:
  assumes inv: "chan_inv due X s" and "wakes_after now s" and "pending s p" and "\<not> held s p" and "p \<notin> X"
    and "due p \<le> now" and "p \<le> last_p" and dist: "present_distance s p \<le> ch_max_ack_gap s"
    and step: "scan_step now last_p f s = Inl r"
  shows "fst r \<noteq> CandNone"
proof -
  have n: "ch_next_position s \<le> p" using due_ahead assms(1-6) by blast
  then have "ch_next_position s \<le> last_p" using assms(7) by simp
  moreover have "present_distance s (ch_next_position s) \<le> ch_max_ack_gap s"
    using present_distance_mono [OF chan_inv_ranges [OF inv] refl order_refl n] dist by simp
  ultimately show ?thesis
    using step by (cases rule: scan_step_cases [of s last_p now f]) auto
qed

lemma next_candidate_finds:
  assumes inv: "chan_inv due X s" and ag: "agrees due f" and last: "last_p \<noteq> u64_max"
    and "\<not> ch_paused s" and p: "pending s p" "p |\<notin>| fmdom (ch_in_flight s)" "p \<notin> X" "p \<le> last_p"
    and fp: "f p = Ready a" "a \<le> now"
    and "if p |\<in>| ch_redelivery s then not_delayed now s p
         else present_distance s p \<le> ch_max_ack_gap s"
  obtains c t where "next_candidate now last_p f s = Some (c, t)" "c \<noteq> CandNone"
proof -
  let ?w = "rewind_deferred now s"
  note w = chan_inv_rewind [OF inv, where now = now]
  obtain c t where rs: "redelivery_scan now f None ?w = (c, t)" by fastforce
  note t = redelivery_scan_safe [OF w(1) rs]
  have nc: "next_candidate now last_p f s = (case c of Some k \<Rightarrow> Some (k, t) | None \<Rightarrow> loop (scan_step now last_p f) t)"
    using rs assms(4) by (simp add: next_candidate_def split: option.split)
  have due: "due p \<le> now" using ag fp by (simp add: agrees_def)
  show ?thesis
  proof (cases c)
    case (Some k)
    then show ?thesis using that nc t by auto
  next
    case None
    have wr: "ch_redelivery ?w = ch_redelivery s" "ch_requeued_until ?w = ch_requeued_until s"
      by (auto simp: rewind_deferred_def split: option.split)
    then have notr: "p |\<notin>| ch_redelivery s"
      using redelivery_scan_complete [OF w(1), where p = p and c = None and now = now and f = f and a = a] assms(11) fp rs None
      by (auto simp: not_delayed_def)
    let ?I = "\<lambda>u. chan_inv due X u \<and> scan_rel f s u \<and> wakes_after now u"
    have u: "pending u p" "\<not> held u p" "present_distance u p \<le> ch_max_ack_gap u" if "?I u" for u
    proof -
      note r = scan_relD [of f s u]
      show "pending u p" "\<not> held u p" using that p notr fp r(1,6,8) by (auto simp: held_def)
      have "present_distance u p \<le> present_distance s p"
        using that r(4,5) chan_inv_ranges [OF inv] by (intro present_distance_mono) auto
      then show "present_distance u p \<le> ch_max_ack_gap u"
        using assms(11) notr that r(3) by (auto intro: order_trans)
    qed
    have "\<exists>r. loop (scan_step now last_p f) t = Some r \<and> fst r \<noteq> CandNone"
    proof (rule loop_total [where I = ?I and f = "\<lambda>u. Suc (unat last_p) - unat (ch_next_position u)"])
      show "?I t"
        using t None scan_rel_trans [OF w(2)] redelivery_scan_deferred [of now f None ?w]
          wakes_after_rewind [of now s] rs by (simp add: wakes_after_def)
      show "?I y \<and> Suc (unat last_p) - unat (ch_next_position y) < Suc (unat last_p) - unat (ch_next_position x)"
        if "?I x" "scan_step now last_p f x = Inr y" for x y
        using that scan_step_continue [OF _ ag last that(2), of X] scan_rel_trans [of f s x y]
          wakes_after_step [of now x last_p f y]
        by (auto simp: word_less_nat_alt word_le_nat_alt)
      show "fst r \<noteq> CandNone" if "?I x" "scan_step now last_p f x = Inl r" for x r
        using that scan_step_not_none [of due X x now p last_p f r] u [of x] p due by auto
    qed
    then show ?thesis using that nc None by auto
  qed
qed

end
