(* ===== verification/Replay.thy ===== *)
theory Replay
  imports Prelude
begin

text \<open>
  The contract between a command log and the state it is replayed into: each command adds
  a fixed set of positions to the settled set, whatever the state. From this contract
  follow the facts recovery rests on: a log may be replayed twice, in part, or on top of a
  state that already contains it.
\<close>

locale settling_log =
  fixes step :: "'c \<Rightarrow> 's \<Rightarrow> 's"
    and done_set :: "'s \<Rightarrow> 'p set"
    and effect :: "'c \<Rightarrow> 'p set"
    and ok :: "'s \<Rightarrow> bool"
  assumes step_done: "ok s \<Longrightarrow> done_set (step c s) = done_set s \<union> effect c"
    and step_ok: "ok s \<Longrightarrow> ok (step c s)"
begin

lemma replay_done:
  "ok s \<Longrightarrow> ok (fold step cs s) \<and> done_set (fold step cs s) = done_set s \<union> (\<Union>c \<in> set cs. effect c)"
  by (induction cs arbitrary: s) (auto simp: step_done step_ok)

lemma replay_again:
  assumes "ok s" and "set ds \<subseteq> set cs"
  shows "done_set (fold step ds (fold step cs s)) = done_set (fold step cs s)"
  using replay_done [OF assms(1), of cs] replay_done [of "fold step cs s" ds] assms(2) by auto

lemma replay_prefix:
  assumes "ok s" shows "done_set (fold step (take n cs) s) \<subseteq> done_set (fold step cs s)"
  using replay_done [OF assms, of cs] replay_done [OF assms, of "take n cs"] set_take_subset [of n cs]
  by auto

lemma replay_order:
  assumes "ok s" and "set ds = set cs"
  shows "done_set (fold step ds s) = done_set (fold step cs s)"
  using replay_done [OF assms(1), of cs] replay_done [OF assms(1), of ds] assms(2)
  by auto

end

end
