(* ===== verification/Channel_Props.thy ===== *)
theory Channel_Props
  imports Channel_Scan Replay
begin

text \<open>
  What a Channel promises. The commands of its log refine insertion into the settled set,
  so replaying a log is idempotent; from a new or recovered Channel every sequence of
  operations keeps the invariant, so no unsettled message is ever out of reach; the scan
  finds a deliverable message whenever there is one; the in-flight indexes, the expiry and
  the metrics agree with the in-flight table and the settled set.
\<close>

section \<open>The log of a Channel settles positions\<close>

fun command_effect :: "channel_command \<Rightarrow> u64 set" where
  "command_effect (Finish p i) = {p}"
| "command_effect (Empty t) = {..t}"
| "command_effect (Evict t) = {..t}"
| "command_effect _ = {}"

lemma settled_acknowledge:
  assumes "ranges_wf (ch_absent_ranges s)" shows "settled (acknowledge p s) = insert p (settled s)"
proof -
  have wf: "ranges_wf (ch_absent_ranges (acknowledge p s))" using assms by (simp add: acknowledge_fields)
  have "q \<in> settled (acknowledge p s) \<longleftrightarrow> q \<in> insert p (settled s)" for q
    using pending_acknowledge [OF assms, of p q] pending_settled [OF assms, of q] pending_settled [OF wf, of q]
    by auto
  then show ?thesis by blast
qed

lemma settled_drop_through: "settled (drop_through t s) = settled s \<union> {..t}"
  by (auto simp: settled_def drop_through_fields le_max_iff_disj)

lemma settled_give_back [simp]: "settled (give_back p s) = settled s"
  by (simp add: settled_def give_back_def Let_def)

lemma settled_delay [simp]: "settled (delay p u a s) = settled s"
  by (simp add: settled_def delay_def)

lemma settled_count [simp]:
  "settled (s\<lparr>ch_requeue_count := n\<rparr>) = settled s" "settled (s\<lparr>ch_timeout_count := n\<rparr>) = settled s"
  "settled (s\<lparr>ch_paused := b\<rparr>) = settled s"
  by (simp_all add: settled_def)

lemma settled_apply:
  assumes "ranges_wf (ch_absent_ranges s)"
  shows "settled (apply_command c s) = settled s \<union> command_effect c"
proof (cases c)
  case (Requeue p i u a n)
  show ?thesis unfolding Requeue apply_requeue Let_def by (auto split: option.split)
qed (use assms in \<open>auto simp: settled_acknowledge settled_drop_through\<close>)

lemma apply_ranges: "ch_absent_ranges (apply_command c s) = ch_absent_ranges s"
  by (cases c) (auto simp: acknowledge_fields drop_through_fields Let_def split: option.split)

interpretation channel_log: settling_log apply_command settled command_effect
  "\<lambda>s. ranges_wf (ch_absent_ranges s)"
  by unfold_locales (simp_all add: settled_apply apply_ranges)

section \<open>Runs of a Channel\<close>

text \<open>
  The states a Channel goes through. Commands are logged for positions that are not absent
  and requeued only while they are unsettled; a candidate is either reserved under a message
  id that is not in flight or put back; recovery starts from a checkpoint of an earlier
  state and fences the positions missing from the log before anything is in flight.

  That a candidate is reserved or put back holds for every path of a delivery round but one:
  when the second lookup of a ready candidate does not find its metadata, the round goes on
  without it (\<open>crates/queue/src/topic/delivery.rs\<close>, lines 56 to 58). The runs below leave that
  path out; \<open>Topic_Delivery_Props\<close> shows what it loses.
\<close>

inductive chan_reach :: "(u64 \<Rightarrow> i64) \<Rightarrow> channel_state \<Rightarrow> bool" for due where
  create: "chan_reach due (new_channel name barrier ephemeral gap)"
| command: "chan_reach due s \<Longrightarrow> command_ok c s \<Longrightarrow> chan_reach due (apply_command c s)"
| look: "chan_reach due s \<Longrightarrow> agrees due f \<Longrightarrow> last_p \<noteq> u64_max
    \<Longrightarrow> next_candidate now last_p f s = Some (CandLoad p, t) \<Longrightarrow> chan_reach due t"
| idle: "chan_reach due s \<Longrightarrow> agrees due f \<Longrightarrow> last_p \<noteq> u64_max
    \<Longrightarrow> next_candidate now last_p f s = Some (CandNone, t) \<Longrightarrow> chan_reach due t"
| deliver: "chan_reach due s \<Longrightarrow> agrees due f \<Longrightarrow> last_p \<noteq> u64_max
    \<Longrightarrow> next_candidate now last_p f s = Some (CandReady p, t)
    \<Longrightarrow> i |\<notin>| fmdom (ch_in_flight_ids t)
    \<Longrightarrow> reserve_timestamped token clock p i ts timeout lease t = (r, token', u)
    \<Longrightarrow> chan_reach due u"
| put_back: "chan_reach due s \<Longrightarrow> agrees due f \<Longrightarrow> last_p \<noteq> u64_max
    \<Longrightarrow> next_candidate now last_p f s = Some (CandReady p, t)
    \<Longrightarrow> chan_reach due (defer_candidate p t)"
| cancelled: "chan_reach due s \<Longrightarrow> chan_reach due (cancel p token s)"
| touched: "chan_reach due s \<Longrightarrow> chan_reach due (snd (touch_until p d s))"
| released: "chan_reach due s \<Longrightarrow> chan_reach due (release p s)"
| released_all: "chan_reach due s \<Longrightarrow> chan_reach due (snd (release_all s))"
| expired: "chan_reach due s \<Longrightarrow> chan_reach due (expire_positions (expired_positions s clock) s)"
| recovered: "chan_reach due s \<Longrightarrow> from_checkpoint (checkpoint s) gap = Inr t \<Longrightarrow> chan_reach due t"
| fenced: "chan_reach due s \<Longrightarrow> ch_in_flight s = fmempty \<Longrightarrow> ranges_wf rs
    \<Longrightarrow> ranges_set (ch_absent_ranges s) \<subseteq> ranges_set rs \<Longrightarrow> chan_reach due (set_absent_ranges rs s)"
| compacted: "chan_reach due s \<Longrightarrow> fresh_scan s \<Longrightarrow> chan_reach due (snd (compact_recovered_dpubs g s))"

lemma next_candidate_handed_out:
  assumes "chan_inv due X s" and "agrees due f" and "last_p \<noteq> u64_max"
    and "next_candidate now last_p f s = Some r"
  shows "handed_out due X now f r" "scan_rel f s (snd r)"
  using next_candidate_returns [OF assms(1-3), of now] assms(4) by (metis option.inject)+

lemma chan_reach_inv: "chan_reach due s \<Longrightarrow> chan_inv due {} s"
proof (induction rule: chan_reach.induct)
  case (look s f last_p now p t)
  then show ?case using next_candidate_handed_out [of due "{}" s f last_p now] by (fastforce simp: handed_out_def)
next
  case (idle s f last_p now t)
  then show ?case using next_candidate_handed_out [of due "{}" s f last_p now] by (fastforce simp: handed_out_def)
next
  case (deliver s f last_p now p t i token clock ts timeout lease r token' u)
  then have "chan_inv due {p} t" "pending t p" "\<not> held t p"
    using next_candidate_handed_out [of due "{}" s f last_p now] by (fastforce simp: handed_out_def)+
  then show ?case
    using chan_inv_reserve [of due "{p}" t p i token clock ts timeout lease] deliver by simp
next
  case (put_back s f last_p now p t)
  then have "chan_inv due {p} t" "pending t p" "\<not> held t p"
    using next_candidate_handed_out [of due "{}" s f last_p now] by (fastforce simp: handed_out_def)+
  then show ?case using chan_inv_defer [of due "{p}" t p] by (simp add: held_def)
next
  case (recovered s gap t)
  then show ?case using chan_inv_restore [of "checkpoint s" gap t] checkpoint_wf_checkpoint [of s]
    by (simp add: chan_inv_def)
next
  case (compacted s g)
  then show ?case by (simp add: compact_recovered_dpubs_def chan_inv_compact_from)
qed (simp_all add: chan_inv_new chan_inv_apply chan_inv_cancel chan_inv_touch chan_inv_release
    chan_inv_release_all chan_inv_expire chan_inv_set_absent_ranges)

section \<open>Where a candidate comes from\<close>

lemma redelivery_scan_source:
  assumes "chan_inv due X s" and "redelivery_scan now f c s = (Some (CandReady p), t)"
  shows "p |\<in>| ch_redelivery s \<and> not_delayed now s p"
  using assms
proof (induction now f c s arbitrary: t rule: redelivery_scan.induct)
  case (1 now f c s)
  note inv = 1(5) and eq = 1(6) [unfolded redelivery_scan.simps [of now f c s]]
  obtain q where q: "next_above c (ch_redelivery s) = Some q"
    using eq by (cases "next_above c (ch_redelivery s)") auto
  note st = redelivery_scan_step [OF inv q]
  have in_red: "q |\<in>| ch_redelivery s" using next_above_Some(1) [OF q] .
  have inv': "chan_inv due X (acknowledge q s)"
    using chan_inv_acknowledge [OF inv st(3)] by (auto simp: chan_inv_def intro: no_loss_mono)
  show ?case
  proof (cases "(case fmlookup (ch_requeued_until s) q of None \<Rightarrow> 0 | Some u \<Rightarrow> u) > now")
    case True
    then show ?thesis using 1(2) [OF q st(3) True inv] eq q st(3) by simp
  next
    case nd: False
    show ?thesis
    proof (cases "f q")
      case (Ready x)
      then show ?thesis using 1(3) [OF q st(3) nd Ready _ inv] eq q st(3) nd in_red
        by (auto simp: not_delayed_def split: if_splits)
    next
      case Missing
      then show ?thesis using eq q st(3) nd by simp
    next
      case Absent
      have "redelivery_scan now f (Some q) (acknowledge q s) = (Some (CandReady p), t)"
        using eq q st(3) nd Absent by simp
      from 1(4) [OF q st(3) nd Absent inv' this] show ?thesis
        by (auto simp: not_delayed_def acknowledge_fields split: if_splits)
    qed
  qed
qed

lemma scan_loop_window:
  assumes "loop (scan_step now last_p f) s = Some (CandReady p, t)"
  shows "p \<le> last_p \<and> present_distance t p \<le> ch_max_ack_gap t"
proof -
  have "fst r = CandReady p \<longrightarrow> p \<le> last_p \<and> present_distance (snd r) p \<le> ch_max_ack_gap (snd r)"
    if "loop (scan_step now last_p f) s = Some r" for r
  proof (rule loop_partial [OF that, where I = "\<lambda>_. True"])
    fix u r' assume "scan_step now last_p f u = Inl r'"
    then show "fst r' = CandReady p \<longrightarrow> p \<le> last_p \<and> present_distance (snd r') p \<le> ch_max_ack_gap (snd r')"
      by (cases rule: scan_step_cases [of u last_p now f])
        (auto simp: present_distance_def absent_count_def)
  qed simp_all
  from this [OF assms] show ?thesis by simp
qed

lemma next_candidate_window:
  assumes inv: "chan_inv due X s" and nc: "next_candidate now last_p f s = Some (CandReady p, t)"
  shows "(p |\<in>| ch_redelivery s \<and> not_delayed now s p)
         \<or> (p \<le> last_p \<and> present_distance t p \<le> ch_max_ack_gap t)"
proof -
  let ?w = "rewind_deferred now s"
  have w: "ch_redelivery ?w = ch_redelivery s" "not_delayed now ?w p = not_delayed now s p"
    by (auto simp: rewind_deferred_def not_delayed_def split: option.split)
  obtain c u where rs: "redelivery_scan now f None ?w = (c, u)" by fastforce
  show ?thesis
  proof (cases c)
    case (Some k)
    then have "k = CandReady p" using nc rs by (simp add: next_candidate_def split: if_splits)
    then show ?thesis
      using redelivery_scan_source [OF chan_inv_rewind(1) [OF inv]] rs Some w by blast
  next
    case None
    then show ?thesis
      using nc rs scan_loop_window [of now last_p f u p t] by (simp add: next_candidate_def split: if_splits)
  qed
qed

section \<open>Metrics\<close>

lemma unat_word_of_card:
  assumes "0 |\<notin>| (S :: u64 fset)" shows "unat (word_of_nat (fcard S) :: u64) = fcard S"
proof -
  have "card (fset S) \<le> 18446744073709551615" using assms by (intro card_u64_set_le) simp
  then show ?thesis by (simp add: fcard.rep_eq unat_of_nat)
qed

lemma pending_positive: "pending s p \<Longrightarrow> p \<noteq> 0"
  by (auto simp: pending_def)

lemma metric_depth:
  assumes inv: "book_inv s" and "\<And>p. p |\<in>| ch_acknowledged s \<Longrightarrow> p \<le> last_p"
  shows "unat (fst (metric_counts s last_p k now)) = card {p. pending s p \<and> p \<le> last_p}"
proof -
  let ?P = "{q. ch_ack_floor_position s < q \<and> q \<le> last_p \<and> \<not> is_absent s q}"
  have sub: "fset (ch_acknowledged s) \<subseteq> ?P" using book_invD(1) [OF inv] assms(2) by auto
  have "0 |\<notin>| ch_acknowledged s" using book_invD(1) [OF inv, of 0] by auto
  then have "unat (word_of_nat (fcard (ch_acknowledged s)) :: u64) = card (fset (ch_acknowledged s))"
    using unat_word_of_card by (simp add: fcard.rep_eq)
  moreover have "fst (metric_counts s last_p k now)
      = sat_sub (present_distance s last_p) (word_of_nat (fcard (ch_acknowledged s)))"
    by (simp add: metric_counts_def present_distance_def Let_def)
  moreover have "{p. pending s p \<and> p \<le> last_p} = ?P - fset (ch_acknowledged s)"
    by (auto simp: pending_def)
  ultimately show ?thesis
    using unat_present_distance [OF book_invD(10) [OF inv], of last_p] sub
    by (simp add: card_Diff_subset)
qed

lemma scheduled_count:
  assumes inv: "book_inv s"
  shows "unat (scheduled_count_in_range s x y now)
         = card {p. x \<le> p \<and> p \<le> y \<and> pending s p \<and> p |\<notin>| fmdom (ch_in_flight s)
                    \<and> (case fmlookup (ch_requeued_until s) p of None \<Rightarrow> True | Some u \<Rightarrow> u \<le> now)}"
    (is "_ = card ?S")
proof -
  note b = book_invD [OF inv]
  let ?f = "ch_ack_floor_position s"
  define z where "z = max x (sat_inc ?f)"
  show ?thesis
  proof (cases "z > y \<or> y \<le> ?f")
    case True
    have "p \<notin> ?S" for p
      using True less_imp_sat_inc_le [of ?f p] by (auto simp: z_def pending_def less_max_iff_disj)
    then have "?S = {}" by blast
    then show ?thesis using True by (simp add: scheduled_count_in_range_def z_def Let_def)
  next
    case False
    have ne: "?f \<noteq> u64_max" using False by auto
    then have z: "?f < z" "z \<le> y"
      using False less_sat_inc_iff [of ?f] by (auto simp: z_def less_max_iff_disj not_less)
    have z1: "1 \<le> z" using z(1) by (auto simp: word_less_nat_alt word_le_nat_alt)
    let ?K = "ffilter (\<lambda>p. (z \<le> p \<and> p \<le> y) \<and> \<not> is_absent s p) (ch_acknowledged s)"
    let ?F = "ffilter (\<lambda>p. (z \<le> p \<and> p \<le> y) \<and> \<not> is_absent s p) (fmdom (ch_in_flight s))"
    let ?R = "requeued_in s y now (ffilter (\<lambda>p. z \<le> p \<and> p \<le> y) (fmdom (ch_requeued_until s)))"
    let ?A = "{p \<in> {z..y}. is_absent s p}"
    have pos: "0 |\<notin>| ?K" "0 |\<notin>| ?F" "0 |\<notin>| ?R" using z(1) by (auto simp: requeued_in_def)
    have count: "unat (scheduled_count_in_range s x y now)
        = card {z..y} - card ?A - fcard ?K - fcard ?F - fcard ?R"
      using False z z1 card_u64_closed [OF z(2)] unat_absent_count [OF b(10) z1, of y] pos [THEN unat_word_of_card]
        unat_le_u64_max [of y]
      by (simp add: scheduled_count_in_range_def z_def [symmetric] Let_def unat_sat_inc word_le_nat_alt)
    have ge: "z \<le> p" if "x \<le> p" "?f < p" for p
      using that less_imp_sat_inc_le [of ?f p] by (simp add: z_def)
    have le: "x \<le> p \<and> ?f < p" if "z \<le> p" for p
      using that z(1) by (auto simp: z_def intro: less_le_trans)
    have R: "p |\<in>| ?R \<longleftrightarrow> z \<le> p \<and> p \<le> y \<and> pending s p \<and> p |\<notin>| fmdom (ch_in_flight s)
        \<and> (\<exists>u. fmlookup (ch_requeued_until s) p = Some u \<and> now < u)" for p
      by (auto simp: requeued_in_def is_outstanding_def pending_def fmlookup_dom_iff dest: le split: option.splits)
    have F: "p |\<in>| ?F \<longleftrightarrow> z \<le> p \<and> p \<le> y \<and> p |\<in>| fmdom (ch_in_flight s)" for p
      using b(2) [of p] by (auto simp: pending_def)
    have K: "p |\<in>| ?K \<longleftrightarrow> z \<le> p \<and> p \<le> y \<and> p |\<in>| ch_acknowledged s" for p
      using b(1) [of p] by auto
    have S: "p \<in> ?S \<longleftrightarrow> z \<le> p \<and> p \<le> y \<and> pending s p \<and> p |\<notin>| fmdom (ch_in_flight s)
        \<and> \<not> (\<exists>u. fmlookup (ch_requeued_until s) p = Some u \<and> now < u)" for p
      using le [of p] ge [of p] by (auto simp: pending_def split: option.splits)
    have part: "{z..y} = ?S \<union> (?A \<union> (fset ?K \<union> (fset ?F \<union> fset ?R)))"
    proof (rule set_eqI)
      fix p
      show "p \<in> {z..y} \<longleftrightarrow> p \<in> ?S \<union> (?A \<union> (fset ?K \<union> (fset ?F \<union> fset ?R)))"
        unfolding Un_iff S R F K using le [of p] by (auto simp: pending_def)
    qed
    have "card (?S \<union> (?A \<union> (fset ?K \<union> (fset ?F \<union> fset ?R))))
        = card ?S + (card ?A + (card (fset ?K) + (card (fset ?F) + card (fset ?R))))"
    proof -
      have "?S \<inter> (?A \<union> (fset ?K \<union> (fset ?F \<union> fset ?R))) = {}"
        unfolding disjoint_iff Un_iff S R F K by (auto simp: pending_def)
      moreover have "?A \<inter> (fset ?K \<union> (fset ?F \<union> fset ?R)) = {}"
        unfolding disjoint_iff Un_iff R F K using b(1,2) by (auto simp: pending_def)
      moreover have "fset ?K \<inter> (fset ?F \<union> fset ?R) = {}"
        unfolding disjoint_iff Un_iff R F K using b(2) by (auto simp: pending_def)
      moreover have "fset ?F \<inter> fset ?R = {}"
        unfolding disjoint_iff R F by auto
      ultimately show ?thesis by (simp only: card_Un_disjoint finite)
    qed
    then have "card {z..y} = card ?S + (card ?A + (fcard ?K + (fcard ?F + fcard ?R)))"
      by (simp only: part [symmetric] fcard.rep_eq)
    then show ?thesis using count by simp
  qed
qed

section \<open>Properties\<close>

text \<open>
  C1: a Channel loses no message as long as every candidate it hands out is reserved or put
  back. In every state of such a run, a position that is not settled is in flight, waiting for redelivery, still ahead of the scan cursor, or behind the
  deferred scan, which starts at or before it and wakes no later than the message is due.
\<close>

theorem channel_no_loss:
  assumes "chan_reach due s" and "pending s p"
  shows "p |\<in>| fmdom (ch_in_flight s) \<or> p |\<in>| ch_redelivery s \<or> ch_next_position s \<le> p
         \<or> (\<exists>first until. ch_deferred_scan s = Some (first, until) \<and> first \<le> p \<and> until \<le> due p)"
  using chan_reach_inv [OF assms(1)] assms(2)
  by (auto simp: chan_inv_def no_loss_def covered_def held_def split: option.splits)

definition sample_channel :: channel_state where
  "sample_channel = new_channel ''orders'' 4 False 8"

lemma sample_reach: "chan_reach due sample_channel"
  by (simp add: sample_channel_def chan_reach.create)

lemma sample_pending: "pending sample_channel p \<longleftrightarrow> 4 < p"
  by (simp add: sample_channel_def pending_def new_channel_def is_absent_def absent_range_end_def)

definition sample_scanned :: channel_state where
  "sample_scanned = sample_channel\<lparr>ch_next_position := 6\<rparr>"

definition sample_flight :: channel_state where
  "sample_flight = snd (snd (reserve_timestamped 1 100 5 77 0 30 None sample_scanned))"

lemma sample_candidate:
  "next_candidate 0 9 (\<lambda>_. Ready 0) sample_channel = Some (CandReady 5, sample_scanned)"
proof -
  have "scan_step 0 9 (\<lambda>_. Ready 0) sample_channel = Inl (CandReady 5, sample_scanned)"
    by (simp add: scan_step_def sample_channel_def sample_scanned_def new_channel_def absent_range_end_def
        present_distance_def absent_count_def sat_add_def sat_sub_def Let_def)
  moreover have "next_above None (ch_redelivery sample_channel) = None"
    by (simp add: next_above_None sample_channel_def new_channel_def)
  then have "redelivery_scan 0 (\<lambda>_. Ready 0) None sample_channel = (None, sample_channel)"
    by (simp add: redelivery_scan.simps)
  moreover have "rewind_deferred 0 sample_channel = sample_channel"
    by (simp add: rewind_deferred_def sample_channel_def new_channel_def)
  ultimately show ?thesis
    by (simp add: next_candidate_def loop.simps [of _ sample_channel]) (simp add: sample_channel_def new_channel_def)
qed

lemma sample_flight_reach: "chan_reach (\<lambda>_. 0) sample_flight"
proof -
  have "agrees (\<lambda>_. 0) (\<lambda>_. Ready 0)" by (simp add: agrees_def)
  moreover have "77 |\<notin>| fmdom (ch_in_flight_ids sample_scanned)"
    by (simp add: sample_scanned_def sample_channel_def new_channel_def)
  moreover have "reserve_timestamped 1 100 5 77 0 30 None sample_scanned
      = (fst (reserve_timestamped 1 100 5 77 0 30 None sample_scanned),
         fst (snd (reserve_timestamped 1 100 5 77 0 30 None sample_scanned)), sample_flight)"
    by (simp add: sample_flight_def)
  ultimately show ?thesis
    using chan_reach.deliver [OF sample_reach _ _ sample_candidate] by simp
qed

lemmas sample_defs = sample_flight_def sample_scanned_def sample_channel_def new_channel_def
  reserve_timestamped_def

theorem channel_no_loss_witness:
  "pending sample_flight 5
   \<and> (5 |\<in>| fmdom (ch_in_flight sample_flight) \<or> 5 |\<in>| ch_redelivery sample_flight
      \<or> ch_next_position sample_flight \<le> 5
      \<or> (\<exists>first until. ch_deferred_scan sample_flight = Some (first, until) \<and> first \<le> 5 \<and> until \<le> 0))"
proof -
  have "pending sample_flight 5"
    by (simp add: sample_defs pending_def is_absent_def absent_range_end_def Let_def)
  then show ?thesis using channel_no_loss [OF sample_flight_reach, of 5] by blast
qed

text \<open>
  C2: the scan makes progress. If every candidate handed out so far has been reserved or put
  back, the Channel is not paused and some unsettled message up to
  the last position is not in flight, is due, and is either an undelayed redelivery or
  within the acknowledgement window, then \<open>next_candidate\<close> returns a position to deliver
  or to load.
\<close>

theorem channel_progress:
  assumes "chan_reach due s" and "agrees due available_at" and "last_position \<noteq> u64_max"
    and "\<not> ch_paused s" and "pending s p" and "p |\<notin>| fmdom (ch_in_flight s)" and "p \<le> last_position"
    and "available_at p = Ready a" and "a \<le> now_ms"
    and "if p |\<in>| ch_redelivery s then not_delayed now_ms s p
         else present_distance s p \<le> ch_max_ack_gap s"
  shows "\<exists>c t. next_candidate now_ms last_position available_at s = Some (c, t) \<and> c \<noteq> CandNone"
  by (rule next_candidate_finds [OF chan_reach_inv [OF assms(1)] assms(2-6) _ assms(7-10)]) auto

theorem channel_progress_witness:
  "\<exists>c t. next_candidate 0 9 (\<lambda>_. Ready 0) sample_channel = Some (c, t) \<and> c \<noteq> CandNone"
proof (rule channel_progress [where due = "\<lambda>_. 0" and p = 6 and a = 0])
  show "agrees (\<lambda>_. 0) (\<lambda>_. Ready 0)" by (simp add: agrees_def)
  show "if 6 |\<in>| ch_redelivery sample_channel then not_delayed 0 sample_channel 6
        else present_distance sample_channel 6 \<le> ch_max_ack_gap sample_channel"
    by (simp add: sample_defs present_distance_def absent_count_def sat_sub_def sat_add_def)
qed (simp_all add: sample_reach sample_pending, simp_all add: sample_defs)

text \<open>
  C3: \<open>next_candidate\<close> always returns, and what it hands out may be delivered: the position
  is unsettled, neither in flight nor waiting for redelivery afterwards, due at \<open>now_ms\<close>,
  and either an undelayed redelivery or within the acknowledgement window and the log.
\<close>

theorem channel_candidate_sound:
  assumes "chan_reach due s" and "agrees due available_at" and "last_position \<noteq> u64_max"
  shows "\<exists>c t. next_candidate now_ms last_position available_at s = Some (c, t)
    \<and> (case c of
         CandReady p \<Rightarrow> pending s p \<and> p |\<notin>| fmdom (ch_in_flight s) \<and> pending t p \<and> \<not> held t p
           \<and> (\<exists>a. available_at p = Ready a \<and> a \<le> now_ms)
           \<and> (p |\<in>| ch_redelivery s \<and> not_delayed now_ms s p
              \<or> p \<le> last_position \<and> present_distance t p \<le> ch_max_ack_gap s)
       | CandLoad p \<Rightarrow> pending t p \<and> available_at p = Missing
       | CandNone \<Rightarrow> True)"
proof -
  note inv = chan_reach_inv [OF assms(1)]
  obtain r where r: "next_candidate now_ms last_position available_at s = Some r"
    "handed_out due {} now_ms available_at r" "scan_rel available_at s (snd r)"
    using next_candidate_returns [OF inv assms(2,3)] by blast
  obtain c t where ct: "r = (c, t)" by (cases r)
  show ?thesis
  proof (cases c)
    case (CandReady p)
    have rel: "pending s p" "ch_in_flight t = ch_in_flight s" "ch_max_ack_gap t = ch_max_ack_gap s"
      using scan_relD [OF r(3)] r(2) ct CandReady by (auto simp: handed_out_def)
    have "(p |\<in>| ch_redelivery s \<and> not_delayed now_ms s p)
          \<or> (p \<le> last_position \<and> present_distance t p \<le> ch_max_ack_gap t)"
      using next_candidate_window [OF inv] r(1) ct CandReady by simp
    then show ?thesis using r ct CandReady rel by (auto simp: handed_out_def held_def)
  qed (use r ct in \<open>auto simp: handed_out_def\<close>)
qed

theorem channel_candidate_sound_witness:
  "\<exists>c t. next_candidate 0 9 (\<lambda>_. Ready 0) sample_flight = Some (c, t)"
  using channel_candidate_sound [OF sample_flight_reach, of "\<lambda>_. Ready 0" 9 0]
  by (auto simp: agrees_def)

text \<open>
  C4: the commands of the Channel log refine insertion into the settled set: \<open>Finish\<close>
  settles its position, \<open>Empty\<close> and \<open>Evict\<close> settle every position up to theirs, and no
  other command settles or revives anything.
\<close>

theorem channel_apply_refines:
  assumes "chan_reach due s"
  shows "settled (apply_command c s) = settled s \<union> command_effect c"
  using settled_apply [OF chan_inv_ranges [OF chan_reach_inv [OF assms]]] .

theorem channel_apply_refines_witness:
  "settled (apply_command (Finish 5 77) sample_flight) = settled sample_flight \<union> {5}"
  using channel_apply_refines [OF sample_flight_reach, of "Finish 5 77"] by simp

text \<open>
  C5: recovery may replay a log it has already absorbed. If a checkpoint taken after the
  commands \<open>cs\<close> is restored and any of those commands are applied again, exactly the
  positions settled at the checkpoint are settled. A checkpoint does not hold the absent
  positions the Channel was fenced off from: they are missing from the restored state, and only
  they, until recovery installs them again.
\<close>

theorem channel_replay_idempotent:
  assumes "chan_reach due s" and "x = fold apply_command cs s"
    and "from_checkpoint (checkpoint x) gap = Inr r" and "set ds \<subseteq> set cs"
  shows "settled (fold apply_command ds r) \<union> ranges_set (ch_absent_ranges s) = settled x
    \<and> settled (set_absent_ranges (ch_absent_ranges s) (fold apply_command ds r)) = settled x"
proof -
  have wf: "ranges_wf (ch_absent_ranges s)" using chan_reach_inv [OF assms(1)] book_inv_ranges by (auto simp: chan_inv_def)
  have ranges: "ch_absent_ranges (fold apply_command cs s) = ch_absent_ranges s" for cs s
    by (induction cs arbitrary: s) (simp_all add: apply_ranges)
  have r: "settled r \<union> ranges_set (ch_absent_ranges s) = settled x" "ch_absent_ranges r = []"
    using assms(3) ranges [of cs s] by (auto simp: assms(2) settled_restore settled_def checkpoint_def from_checkpoint_def Let_def
        split: if_splits)
  have "settled (fold apply_command ds r) = settled r \<union> (\<Union>c \<in> set ds. command_effect c)"
    using channel_log.replay_done [of r ds] r(2) by simp
  moreover have "settled x = settled s \<union> (\<Union>c \<in> set cs. command_effect c)"
    using channel_log.replay_done [OF wf, of cs] by (simp add: assms(2))
  ultimately have "settled (fold apply_command ds r) \<union> ranges_set (ch_absent_ranges s) = settled x" using r(1) assms(4) by auto
  moreover have "settled (set_absent_ranges (ch_absent_ranges s) (fold apply_command ds r))
      = settled (fold apply_command ds r) \<union> ranges_set (ch_absent_ranges s)"
    by (rule settled_set_absent_ranges [OF wf]) (simp add: ranges r(2))
  ultimately show ?thesis by simp
qed

text \<open>The witness replays into a Channel that positions 8 and 9 are missing for.\<close>

theorem channel_replay_idempotent_witness:
  "\<exists>s r. ch_absent_ranges s = [(8, 9)]
     \<and> from_checkpoint (checkpoint (fold apply_command [Finish 7 1, Empty 5] s)) 8 = Inr r
     \<and> settled (set_absent_ranges [(8, 9)] (fold apply_command [Finish 7 1] r))
       = settled (fold apply_command [Finish 7 1, Empty 5] s)"
proof -
  define s where "s = set_absent_ranges [(8, 9)] sample_channel"
  let ?x = "fold apply_command [Finish 7 1, Empty 5] s"
  have wf: "ranges_wf [(8, 9 :: u64)]" by (simp add: ranges_wf_def)
  have s: "chan_reach (\<lambda>_. 0) s"
    unfolding s_def by (rule chan_reach.fenced [OF sample_reach _ wf]) (simp_all add: sample_channel_def new_channel_def)
  have ranges: "ch_absent_ranges s = [(8, 9)]" by (simp add: s_def set_absent_ranges_def advance_ack_floor_def split: prod.split)
  have "chan_reach (\<lambda>_. 0) ?x"
    using chan_reach.command [OF chan_reach.command [OF s, of "Finish 7 1"], of "Empty 5"] wf
    by (simp add: is_absent_iff ranges apply_ranges ranges_set_def)
  then have b: "book_inv ?x" using chan_reach_inv by (auto simp: chan_inv_def)
  then obtain r where r: "from_checkpoint (checkpoint ?x) 8 = Inr r"
    using book_invD(7,8) [OF b] by (auto simp: from_checkpoint_def checkpoint_def Let_def not_less)
  have "settled (set_absent_ranges [(8, 9)] (fold apply_command [Finish 7 1] r)) = settled ?x"
    using channel_replay_idempotent [OF s refl r, of "[Finish 7 1]"] ranges by simp
  with r ranges show ?thesis by blast
qed

text \<open>
  C6: \<open>advance_ack_floor\<close> moves the floor as far as the settled positions allow: it settles
  and revives nothing, never moves the floor back, keeps every sparse acknowledgement above
  the floor, and stops below a position that is neither acknowledged nor absent.
\<close>

theorem channel_floor_advance:
  assumes "book_inv s"
  shows "settled (advance_ack_floor s) = settled s
    \<and> ch_ack_floor_position s \<le> ch_ack_floor_position (advance_ack_floor s)
    \<and> fBall (ch_acknowledged (advance_ack_floor s)) (\<lambda>p. ch_ack_floor_position (advance_ack_floor s) < p)
    \<and> (ch_ack_floor_position (advance_ack_floor s) = u64_max
       \<or> pending s (sat_inc (ch_ack_floor_position (advance_ack_floor s))))"
proof -
  let ?t = "advance_ack_floor s"
  have wf: "ranges_wf (ch_absent_ranges s)" using assms by (rule book_inv_ranges)
  have "pending s (sat_inc (ch_ack_floor_position ?t))" if "ch_ack_floor_position ?t \<noteq> u64_max"
  proof -
    have "pending ?t (sat_inc (ch_ack_floor_position ?t))"
      using advance_ack_floor_maximal [OF wf that] that less_sat_inc_iff [of "ch_ack_floor_position ?t"] wf
      by (simp add: pending_def is_absent_iff)
    then show ?thesis using wf by simp
  qed
  then show ?thesis
    using book_invD(1) [OF book_inv_advance [OF assms]] advance_ack_floor_ge [of s] by auto
qed

theorem channel_floor_advance_witness:
  "settled (advance_ack_floor (apply_command (Finish 5 77) sample_flight))
   = settled (apply_command (Finish 5 77) sample_flight)"
proof -
  have "chan_reach (\<lambda>_. 0) (apply_command (Finish 5 77) sample_flight)"
    using chan_reach.command [OF sample_flight_reach, of "Finish 5 77"]
    by (simp add: sample_defs is_absent_def absent_range_end_def Let_def)
  then have "book_inv (apply_command (Finish 5 77) sample_flight)"
    using chan_reach_inv by (auto simp: chan_inv_def)
  from channel_floor_advance [OF this] show ?thesis by simp
qed

text \<open>
  C7: the identity index answers exactly for the deliveries in flight: the lookup by message
  id and delivery token finds a position if and only if that position is in flight under
  this id and token, so a stale token finds nothing.
\<close>

theorem channel_token_lookup:
  assumes "chan_reach due s"
  shows "in_flight_position_with_token s i k = Some p
     \<longleftrightarrow> (\<exists>fl. fmlookup (ch_in_flight s) p = Some fl \<and> fl_id fl = i \<and> fl_token fl = k)"
proof -
  have inv: "index_inv s" using chan_reach_inv [OF assms] by (simp add: chan_inv_def)
  show ?thesis
    using index_invD(1) [OF inv, of p] index_invD(2) [OF inv, of i]
    by (fastforce simp: in_flight_position_with_token_def in_flight_position_def split: option.splits if_splits)
qed

theorem channel_token_lookup_witness:
  "in_flight_position_with_token sample_flight 77 1 = Some 5
   \<and> in_flight_position_with_token sample_flight 77 2 \<noteq> Some 5"
  using channel_token_lookup [OF sample_flight_reach, of 77 1 5]
    channel_token_lookup [OF sample_flight_reach, of 77 2 5]
  by (simp add: sample_defs Let_def)

lemma fold_give_back_fields:
  "ch_in_flight (fold give_back ps s) = fmfilter (\<lambda>p. p \<notin> set ps) (ch_in_flight s)
   \<and> ch_redelivery (fold give_back ps s) = ch_redelivery s |\<union>| fset_of_list ps"
proof (induction ps arbitrary: s)
  case Nil
  then show ?case by (simp add: fmap_ext)
next
  case (Cons p ps)
  have "fmfilter (\<lambda>q. q \<notin> set ps) (fmdrop p (ch_in_flight s))
      = fmfilter (\<lambda>q. q \<notin> set (p # ps)) (ch_in_flight s)"
    by (rule fmap_ext) auto
  then show ?case using Cons [of "give_back p s"] by (simp add: give_back_def Let_def)
qed

text \<open>
  C8: expiry returns exactly the overdue deliveries. After \<open>expire_positions\<close> on the expired
  positions, a delivery is in flight if and only if it was and its deadline lies after
  \<open>now\<close>; every other delivery that was in flight waits for redelivery, none is counted
  twice, and there is something to expire exactly when \<open>has_expired_in_flight\<close> says so.
\<close>

theorem channel_expiry:
  assumes "chan_reach due s"
  shows "fmlookup (ch_in_flight (expire_positions (expired_positions s now) s)) p
           = (case fmlookup (ch_in_flight s) p of
                Some fl \<Rightarrow> if fl_deadline fl \<le> now then None else Some fl
              | None \<Rightarrow> None)
     \<and> (p |\<in>| ch_redelivery (expire_positions (expired_positions s now) s)
        \<longleftrightarrow> p |\<in>| ch_redelivery s
            \<or> (\<exists>fl. fmlookup (ch_in_flight s) p = Some fl \<and> fl_deadline fl \<le> now))
     \<and> distinct (expired_positions s now)
     \<and> (has_expired_in_flight s now \<longleftrightarrow> expired_positions s now \<noteq> [])"
proof -
  have inv: "index_inv s" using chan_reach_inv [OF assms] by (simp add: chan_inv_def)
  have mem: "q \<in> set (expired_positions s now)
      \<longleftrightarrow> (\<exists>fl. fmlookup (ch_in_flight s) q = Some fl \<and> fl_deadline fl \<le> now)" for q
    using expired_positions_in_flight [OF inv, of q now] expired_positions_complete [OF inv, of q _ now] by blast
  have "has_expired_in_flight s now \<longleftrightarrow> expired_positions s now \<noteq> []"
    unfolding has_expired_iff [OF inv] by (simp only: mem [symmetric] ex_in_conv set_empty simp_thms)
  then show ?thesis
    using distinct_expired_positions [OF inv, of now] mem [of p]
    by (auto simp: expire_positions_fold fold_give_back_fields fset_of_list_elem split: option.split)
qed

theorem channel_expiry_witness:
  "fmlookup (ch_in_flight (expire_positions (expired_positions sample_flight 130) sample_flight)) 5 = None
   \<and> fmlookup (ch_in_flight (expire_positions (expired_positions sample_flight 129) sample_flight)) 5 \<noteq> None"
  using channel_expiry [OF sample_flight_reach, of 130 5] channel_expiry [OF sample_flight_reach, of 129 5]
  by (simp add: sample_defs Let_def)

text \<open>
  C9: the depth a Channel reports is the number of unsettled positions up to the last one,
  and its deferred backlog per range, \<open>scheduled_count_in_range\<close>, is the number of unsettled
  positions of the range that are neither in flight nor delayed by a requeue; no saturating
  subtraction of the two counts ever cuts anything off.
\<close>

theorem channel_metrics:
  assumes "chan_reach due s" and "fBall (ch_acknowledged s) (\<lambda>p. p \<le> last_p)"
  shows "unat (st_depth (stats s last_p k now)) = card {p. pending s p \<and> p \<le> last_p}
    \<and> unat (scheduled_count_in_range s x y now)
      = card {p. x \<le> p \<and> p \<le> y \<and> pending s p \<and> p |\<notin>| fmdom (ch_in_flight s)
                 \<and> (case fmlookup (ch_requeued_until s) p of None \<Rightarrow> True | Some u \<Rightarrow> u \<le> now)}"
proof -
  have b: "book_inv s" using chan_reach_inv [OF assms(1)] by (simp add: chan_inv_def)
  have "st_depth (stats s last_p k now) = fst (metric_counts s last_p k now)"
    by (simp add: stats_def split: prod.split)
  then show ?thesis using metric_depth [OF b] assms(2) scheduled_count [OF b] by auto
qed

theorem channel_metrics_witness:
  "unat (st_depth (stats sample_flight 9 0 0)) = card {p. pending sample_flight p \<and> p \<le> 9}"
proof -
  have "fBall (ch_acknowledged sample_flight) (\<lambda>p. p \<le> 9)" by (simp add: sample_defs Let_def)
  from channel_metrics [OF sample_flight_reach this, of 0 0] show ?thesis by simp
qed

text \<open>
  C10: a checkpoint loses nothing that is durable. Restoring the checkpoint of a reachable
  state succeeds, and checkpointing the restored state gives the checkpoint back; every
  position that was unsettled is then waiting for redelivery or ahead of the scan cursor.
\<close>

theorem channel_checkpoint_roundtrip:
  assumes "chan_reach due s"
  shows "\<exists>t. from_checkpoint (checkpoint s) gap = Inr t \<and> checkpoint t = checkpoint s
    \<and> (pending s p \<longrightarrow> p |\<in>| ch_redelivery t \<or> ch_next_position t \<le> p)"
proof -
  have b: "book_inv s" using chan_reach_inv [OF assms] by (simp add: chan_inv_def)
  then obtain t where t: "from_checkpoint (checkpoint s) gap = Inr t" "checkpoint t = checkpoint s"
    "ch_next_position t = sat_inc (ch_ack_floor_position s)"
    using book_invD(7,8) [OF b] by (auto simp: from_checkpoint_def checkpoint_def Let_def not_less)
  moreover have "sat_inc (ch_ack_floor_position s) \<le> p" if "pending s p"
    using that by (auto simp: pending_def)
  ultimately show ?thesis by auto
qed

theorem channel_checkpoint_roundtrip_witness:
  "\<exists>t. from_checkpoint (checkpoint sample_flight) 3 = Inr t \<and> checkpoint t = checkpoint sample_flight"
  using channel_checkpoint_roundtrip [OF sample_flight_reach, of 3] by blast

end
