(* ===== verification/Files.thy ===== *)
theory Files
  imports Errors "HOL-Library.Sublist"
begin

text \<open>
  What the sources use of \<open>std::fs\<close>, as pure functions. An append-only file has its
  content and the length of the prefix that is known to be on the disk; a crash may cut
  the file anywhere behind that prefix. A file replaced by
  \<open>store_bytes_atomic_with_failpoint\<close> (\<open>crates/queue/src/metadata.rs\<close>) is either the
  old or the new one. Every call that may fail takes the outcome of the system call as an
  argument: \<open>None\<close> when it succeeds.
\<close>

record disk_file =
  fi_bytes :: "byte list"
  fi_durable :: nat
  fi_shadows :: "byte list list"

text \<open>\<open>Write::write_all\<close> in append mode; when it fails, \<open>n\<close> bytes have been written.\<close>

definition write_all :: "(nat \<times> io_error) option \<Rightarrow> byte list \<Rightarrow> disk_file \<Rightarrow> (io_error + unit) \<times> disk_file" where
  "write_all fault bytes f =
     (case fault of
        None \<Rightarrow> (Inr (), f\<lparr>fi_bytes := fi_bytes f @ bytes\<rparr>)
      | Some (n, e) \<Rightarrow> (Inl e, f\<lparr>fi_bytes := fi_bytes f @ take n bytes\<rparr>))"

text \<open>\<open>File::sync_data\<close> and \<open>File::sync_all\<close>; a failed call promises nothing new.\<close>

definition sync_file :: "io_error option \<Rightarrow> disk_file \<Rightarrow> (io_error + unit) \<times> disk_file" where
  "sync_file fault f =
     (case fault of
        None \<Rightarrow> (Inr (), f\<lparr>fi_durable := length (fi_bytes f), fi_shadows := []\<rparr>)
      | Some e \<Rightarrow> (Inl e, f))"

text \<open>
  \<open>File::set_len\<close> to a shorter length and opening with \<open>truncate\<close>: until the next sync a
  crash may bring the old content back, so it is kept as a shadow.
\<close>

definition set_len :: "nat \<Rightarrow> disk_file \<Rightarrow> disk_file" where
  "set_len n f = \<lparr>fi_bytes = take n (fi_bytes f), fi_durable = min n (fi_durable f),
                  fi_shadows = fi_bytes f # fi_shadows f\<rparr>"

definition crash_images :: "disk_file \<Rightarrow> byte list set" where
  "crash_images f = {take n (fi_bytes f) | n. fi_durable f \<le> n \<and> n \<le> length (fi_bytes f)}
                    \<union> (\<Union>old \<in> set (fi_shadows f). {take n old | n. n \<le> length old})"

lemma crash_image_prefix:
  "fi_shadows f = [] \<Longrightarrow> b \<in> crash_images f \<Longrightarrow> prefix b (fi_bytes f) \<and> fi_durable f \<le> length b"
  by (auto simp: crash_images_def take_is_prefix)

section \<open>Atomic replacement\<close>

datatype replace_fault = NoFault | BeforeRename io_error | AfterRename io_error

definition max_metadata_bytes :: nat where
  "max_metadata_bytes = 67108864"

definition store_bytes_atomic ::
  "replace_fault \<Rightarrow> byte list \<Rightarrow> byte list option \<Rightarrow> (io_error + unit) \<times> byte list option" where
  "store_bytes_atomic fault bytes old =
     (if length bytes > max_metadata_bytes
      then (Inl (IoError InvalidData ''metadata file exceeds the maximum size''), old)
      else (case fault of
              BeforeRename e \<Rightarrow> (Inl e, old)
            | AfterRename e \<Rightarrow> (Inl e, Some bytes)
            | NoFault \<Rightarrow> (Inr (), Some bytes)))"

end
