(* ===== verification/Framing.thy ===== *)
theory Framing
  imports Prelude "HOL-Library.Sublist"
begin

text \<open>
  Logs of framed records and their recovery. A scanner reads one frame at a byte offset and
  either returns or goes on behind the frame. Its contract is local, one frame with
  arbitrary bytes before and after it; from it follows what a scanner makes of a whole
  log whose tail was cut off by a crash: every complete frame is recovered, in order, and
  the torn one is dropped. A scanner may keep offsets in its state; \<open>located\<close> relates them to
  the bytes scanned.
\<close>

fun chain :: "('st \<Rightarrow> 'a \<Rightarrow> bool) \<Rightarrow> ('a \<Rightarrow> 'st \<Rightarrow> 'st) \<Rightarrow> 'st \<Rightarrow> 'a list \<Rightarrow> bool" where
  "chain admits absorb st [] = True"
| "chain admits absorb st (x # xs) = (admits st x \<and> chain admits absorb (absorb x st) xs)"

lemma chain_append:
  "chain admits absorb st (xs @ ys)
     \<longleftrightarrow> chain admits absorb st xs \<and> chain admits absorb (fold absorb xs st) ys"
  by (induction xs arbitrary: st) auto

lemma chain_take: "chain admits absorb st xs \<Longrightarrow> chain admits absorb st (take m xs)"
  by (metis append_take_drop_id chain_append)

lemma chain_nth:
  assumes "chain admits absorb st xs" and "m < length xs"
  shows "admits (fold absorb (take m xs) st) (xs ! m)"
proof -
  have "xs = take m xs @ xs ! m # drop (Suc m) xs" using assms(2) by (rule id_take_nth_drop)
  then show ?thesis using assms(1) chain_append [of admits absorb st "take m xs"] by (metis chain.simps(2))
qed

definition frames :: "('a \<Rightarrow> byte list) \<Rightarrow> 'a list \<Rightarrow> byte list" where
  "frames emit xs = concat (map emit xs)"

lemma frames_simps [simp]: "frames emit [] = []" "frames emit (x # xs) = emit x @ frames emit xs"
  "frames emit (xs @ ys) = frames emit xs @ frames emit ys"
  by (simp_all add: frames_def)

lemma prefix_frames:
  assumes "prefix b (frames emit xs)"
  obtains m where "m \<le> length xs" "b = frames emit (take m xs)"
  | m k where "m < length xs" "0 < k" "k < length (emit (xs ! m))"
      "b = frames emit (take m xs) @ take k (emit (xs ! m))"
  using assms
proof (induction xs arbitrary: b thesis)
  case Nil
  then show ?case using Nil(1) [of 0] by simp
next
  case (Cons x xs)
  show ?case
  proof (cases "length (emit x) \<le> length b")
    case True
    obtain zs where z: "emit x @ frames emit xs = b @ zs" using Cons.prems(3) by (auto simp: prefix_def)
    let ?n = "length (emit x)" and ?b = "drop (length (emit x)) b"
    have "take ?n b = emit x" using arg_cong [OF z, of "take ?n"] True by simp
    then have b1: "b = emit x @ ?b" by (metis append_take_drop_id)
    have "frames emit xs = ?b @ zs" using arg_cong [OF z, of "drop ?n"] True by simp
    then have b2: "prefix ?b (frames emit xs)" by (simp add: prefix_def)
    show ?thesis
    proof (rule Cons.IH [OF _ _ b2])
      fix m assume "m \<le> length xs" "?b = frames emit (take m xs)"
      then show thesis using Cons.prems(1) [of "Suc m"] b1 by simp
    next
      fix m k assume "m < length xs" "0 < k" "k < length (emit (xs ! m))"
        "?b = frames emit (take m xs) @ take k (emit (xs ! m))"
      then show thesis using Cons.prems(2) [of "Suc m" k] b1 by simp
    qed
  next
    case False
    then have b: "b = take (length b) (emit x)"
      using Cons.prems(3) by (auto simp: prefix_def append_eq_append_conv_if)
    show ?thesis
    proof (cases b)
      case Nil
      then show ?thesis using Cons.prems(1) [of 0] by simp
    next
      case (Cons c cs)
      then show ?thesis using Cons.prems(2) [of 0 "length b"] False b by simp
    qed
  qed
qed

locale frame_reader =
  fixes body :: "byte list \<Rightarrow> nat \<times> 'st \<Rightarrow> 'r + nat \<times> 'st"
    and emit :: "'a \<Rightarrow> byte list"
    and admits :: "'st \<Rightarrow> 'a \<Rightarrow> bool"
    and absorb :: "'a \<Rightarrow> 'st \<Rightarrow> 'st"
    and stop :: "byte list \<Rightarrow> nat \<Rightarrow> 'st \<Rightarrow> 'r"
    and located :: "nat \<Rightarrow> 'st \<Rightarrow> bool"
  assumes scan_frame: "admits st x \<Longrightarrow> located (length pre) st \<Longrightarrow>
      body (pre @ emit x @ rest) (length pre, st) = Inr (length pre + length (emit x), absorb x st)"
    and scan_end: "located (length pre) st \<Longrightarrow> body pre (length pre, st) = Inl (stop pre 0 st)"
    and located_absorb: "admits st x \<Longrightarrow> located n st \<Longrightarrow> located (n + length (emit x)) (absorb x st)"
    and emit_nonempty: "emit x \<noteq> []"
begin

lemma located_fold:
  "chain admits absorb st xs \<Longrightarrow> located n st \<Longrightarrow> located (n + length (frames emit xs)) (fold absorb xs st)"
proof (induction xs arbitrary: n st)
  case (Cons x xs)
  then show ?case using Cons.IH [of "absorb x st" "n + length (emit x)"] located_absorb [of st x n]
    by (simp add: add.assoc)
qed simp

lemma scan_all:
  "chain admits absorb st xs \<Longrightarrow> located (length pre) st \<Longrightarrow>
   loop (body (pre @ frames emit xs @ rest)) (length pre, st)
   = loop (body (pre @ frames emit xs @ rest)) (length pre + length (frames emit xs), fold absorb xs st)"
proof (induction xs arbitrary: pre st)
  case (Cons x xs)
  have "loop (body (pre @ frames emit (x # xs) @ rest)) (length pre, st)
      = loop (body (pre @ frames emit (x # xs) @ rest)) (length pre + length (emit x), absorb x st)"
    using scan_frame [of st x pre "frames emit xs @ rest"] Cons.prems
    by (subst loop.simps) simp
  also have "\<dots> = loop (body (pre @ frames emit (x # xs) @ rest))
      (length pre + length (frames emit (x # xs)), fold absorb (x # xs) st)"
    using Cons.IH [of "absorb x st" "pre @ emit x"] Cons.prems located_absorb [of st x "length pre"]
    by (simp add: add.assoc)
  finally show ?case .
qed simp

lemma recover_exact:
  assumes "chain admits absorb st xs" and "located 0 st"
  shows "loop (body (frames emit xs)) (0, st) = Some (stop (frames emit xs) 0 (fold absorb xs st))"
  using scan_all [OF assms(1), of "[]" "[]"] located_fold [OF assms(1), of 0] assms(2)
  by (simp add: loop.simps scan_end)

lemma frames_take_mono: "i \<le> j \<Longrightarrow> length (frames emit (take i xs)) \<le> length (frames emit (take j xs))"
proof -
  assume "i \<le> j"
  then have "take j xs = take i xs @ take (j - i) (drop i xs)" by (metis le_add_diff_inverse take_add)
  then show ?thesis by simp
qed

lemma frames_take_less:
  assumes "m < j" and "j \<le> length xs"
  shows "length (frames emit (take m xs)) + length (emit (xs ! m)) \<le> length (frames emit (take j xs))"
proof -
  have "take (Suc m) xs = take m xs @ [xs ! m]" using assms by (simp add: take_Suc_conv_app_nth)
  then show ?thesis using frames_take_mono [of "Suc m" j xs] assms by simp
qed

end

text \<open>A scanner also copes with a torn tail.\<close>

locale frame_scanner = frame_reader +
  assumes scan_torn: "admits st x \<Longrightarrow> located (length pre) st \<Longrightarrow> 0 < k \<Longrightarrow> k < length (emit x) \<Longrightarrow>
      body (pre @ take k (emit x)) (length pre, st) = Inl (stop pre k st)"
begin

lemma recover_torn:
  assumes "chain admits absorb st (xs @ [x])" and "located 0 st" and "0 < k" and "k < length (emit x)"
  shows "loop (body (frames emit xs @ take k (emit x))) (0, st)
       = Some (stop (frames emit xs) k (fold absorb xs st))"
  using scan_all [of st xs "[]" "take k (emit x)"] scan_torn [OF _ _ assms(3,4), of "fold absorb xs st"]
    located_fold [of st xs 0] assms(1,2)
  by (simp add: loop.simps chain_append)

lemma recover_crashed:
  assumes "chain admits absorb st xs" and "prefix b (frames emit xs)" and "located 0 st"
  shows "\<exists>m \<le> length xs. loop (body b) (0, st)
            = Some (stop (frames emit (take m xs)) (length b - length (frames emit (take m xs)))
                      (fold absorb (take m xs) st))
         \<and> prefix (frames emit (take m xs)) b
         \<and> (\<forall>j \<le> length xs. length (frames emit (take j xs)) \<le> length b \<longrightarrow> j \<le> m)"
  using assms(2)
proof (cases rule: prefix_frames)
  case (1 m)
  have "j \<le> m" if "j \<le> length xs" "length (frames emit (take j xs)) \<le> length b" for j
    using that frames_take_less [of m j xs] emit_nonempty [of "xs ! m", folded length_greater_0_conv] 1
    by (cases "m < j") auto
  then show ?thesis
    using recover_exact [OF chain_take [OF assms(1), of m] assms(3)] 1 by (auto intro!: exI [of _ m])
next
  case (2 m k)
  have "chain admits absorb st (take m xs @ [xs ! m])"
    using chain_take [OF assms(1), of "Suc m"] 2 by (simp add: take_Suc_conv_app_nth)
  then have "loop (body b) (0, st) = Some (stop (frames emit (take m xs)) k (fold absorb (take m xs) st))"
    using recover_torn 2 assms(3) by blast
  moreover have "length b - length (frames emit (take m xs)) = k" using 2(3,4) by simp
  moreover have "j \<le> m" if "j \<le> length xs" "length (frames emit (take j xs)) \<le> length b" for j
    using that frames_take_less [of m j xs] 2 by (cases "m < j") auto
  moreover have "prefix (frames emit (take m xs)) b" using 2(4) by (simp add: prefix_def)
  ultimately show ?thesis using 2(1) by (auto intro!: exI [of _ m])
qed

end

text \<open>
  A parser goes on only behind a frame, so on arbitrary bytes it ends, having read exactly the
  frames before the offset at which it stopped.
\<close>

locale frame_parser =
  fixes body :: "byte list \<Rightarrow> nat \<times> 'st \<Rightarrow> 'r + nat \<times> 'st"
    and emit :: "'a \<Rightarrow> byte list"
    and admits :: "'st \<Rightarrow> 'a \<Rightarrow> bool"
    and absorb :: "'a \<Rightarrow> 'st \<Rightarrow> 'st"
  assumes parse_frame: "body bytes (offset, st) = Inr (offset', st') \<Longrightarrow>
      \<exists>x. admits st x \<and> st' = absorb x st \<and> offset < offset' \<and> offset' \<le> length bytes
          \<and> slice offset offset' bytes = emit x"
begin

lemma parse_exact:
  "\<exists>r offset xs. loop (body bytes) (0, st) = Some r \<and> body bytes (offset, fold absorb xs st) = Inl r
      \<and> offset \<le> length bytes \<and> take offset bytes = frames emit xs \<and> chain admits absorb st xs"
proof -
  let ?I = "\<lambda>s. \<exists>xs. fst s \<le> length bytes \<and> snd s = fold absorb xs st
      \<and> take (fst s) bytes = frames emit xs \<and> chain admits absorb st xs"
  let ?Q = "\<lambda>r. \<exists>offset xs. body bytes (offset, fold absorb xs st) = Inl r
      \<and> offset \<le> length bytes \<and> take offset bytes = frames emit xs \<and> chain admits absorb st xs"
  have "\<exists>r. loop (body bytes) (0, st) = Some r \<and> ?Q r"
  proof (rule loop_total [where I = ?I and f = "\<lambda>s. length bytes - fst s"])
    show "?I (0, st)" by (auto intro!: exI [of _ "[]"])
  next
    fix s s' assume i: "?I s" and step: "body bytes s = Inr s'"
    then obtain xs where xs: "fst s \<le> length bytes" "snd s = fold absorb xs st"
        "take (fst s) bytes = frames emit xs" "chain admits absorb st xs" by blast
    obtain x where x: "admits (snd s) x" "snd s' = absorb x (snd s)" "fst s < fst s'" "fst s' \<le> length bytes"
        "slice (fst s) (fst s') bytes = emit x"
      using parse_frame [of bytes "fst s" "snd s" "fst s'" "snd s'"] step by auto
    have "take (fst s') bytes = frames emit (xs @ [x])"
      using take_slice [of "fst s" "fst s'" bytes] xs(3) x(3,5) by simp
    then have "?I s'" using xs x by (intro exI [of _ "xs @ [x]"]) (simp add: chain_append)
    then show "?I s' \<and> length bytes - fst s' < length bytes - fst s" using x(3,4) by simp
  next
    fix s r assume "?I s" "body bytes s = Inl r"
    then show "?Q r" by (metis prod.collapse)
  qed
  then show ?thesis by blast
qed

end

end
