(* ===== verification/Text.thy ===== *)
theory Text
  imports Errors
begin

text \<open>
  What the sources use of \<open>str\<close> and of integer parsing in the standard library: prefixes and
  suffixes, digits, \<open>from_str_radix\<close>, and zero padding.
\<close>

definition strip_suffix :: "string \<Rightarrow> string \<Rightarrow> string option" where
  "strip_suffix suffix s =
     (if length suffix \<le> length s \<and> drop (length s - length suffix) s = suffix
      then Some (take (length s - length suffix) s) else None)"

text \<open>\<open>char::to_digit\<close> and the accumulation of \<open>from_str_radix\<close>.\<close>

definition to_digit :: "nat \<Rightarrow> char \<Rightarrow> nat option" where
  "to_digit radix c =
     (let n = of_char c :: nat;
          d = (if 48 \<le> n \<and> n \<le> 57 then Some (n - 48)
               else if 97 \<le> n \<and> n \<le> 122 then Some (n - 87)
               else if 65 \<le> n \<and> n \<le> 90 then Some (n - 55) else None)
      in (case d of None \<Rightarrow> None | Some v \<Rightarrow> if v < radix then Some v else None))"

fun digits_value :: "nat \<Rightarrow> nat \<Rightarrow> string \<Rightarrow> nat option" where
  "digits_value radix acc [] = Some acc"
| "digits_value radix acc (c # cs) =
     (case to_digit radix c of None \<Rightarrow> None | Some d \<Rightarrow> digits_value radix (acc * radix + d) cs)"

text \<open>
  \<open>u64::from_str_radix\<close>: an optional \<open>+\<close>, then at least one digit, and no overflow. The
  value only grows along the digits, so overflow at any digit is overflow of the value.
\<close>

definition u64_from_str_radix :: "nat \<Rightarrow> string \<Rightarrow> u64 option" where
  "u64_from_str_radix radix s =
     (let digits = (case s of [] \<Rightarrow> [] | c # cs \<Rightarrow> if c = CHR ''+'' then cs else s)
      in if digits = [] then None
         else (case digits_value radix 0 digits of
                 None \<Rightarrow> None
               | Some n \<Rightarrow> if n < 2 ^ 64 then Some (word_of_nat n) else None))"

text \<open>\<open>{n:0width}\<close>: decimal digits padded with zeros on the left.\<close>

definition padded_decimal :: "nat \<Rightarrow> nat \<Rightarrow> string" where
  "padded_decimal width n = replicate (width - length (decimal n)) CHR ''0'' @ decimal n"

section \<open>Digits\<close>

lemma strip_suffix_append [simp]: "strip_suffix suffix (base @ suffix) = Some base"
  by (simp add: strip_suffix_def)

lemma strip_suffix_Some: "strip_suffix suffix s = Some base \<Longrightarrow> s = base @ suffix"
  by (auto simp: strip_suffix_def split: if_splits) (metis append_take_drop_id)

lemma digits_value_append:
  "digits_value radix acc (xs @ ys)
   = (case digits_value radix acc xs of None \<Rightarrow> None | Some v \<Rightarrow> digits_value radix v ys)"
  by (induction xs arbitrary: acc) (auto split: option.split)

lemma digit_cases: "d < 10 \<Longrightarrow> (d :: nat) \<in> {0, 1, 2, 3, 4, 5, 6, 7, 8, 9}"
  by (simp, presburger)

lemma to_digit_decimal:
  assumes "d < 10" shows "to_digit 10 (char_of (48 + d)) = Some d"
  using digit_cases [OF assms] by (auto simp: to_digit_def)

lemma digits_value_decimal: "digits_value 10 0 (decimal n) = Some n"
proof (induction n rule: decimal.induct)
  case (1 n)
  then show ?case
    using to_digit_decimal [of n] to_digit_decimal [of "n mod 10"]
    by (subst decimal.simps) (auto simp: digits_value_append)
qed

end
