(* ===== verification/Protocol.thy ===== *)
theory Protocol
  imports Text
begin

text \<open>
  The wire protocol (\<open>crates/protocol/src\<close>): Topic and Channel names, response and message
  frames, the body of a multi-publish, and the command lines. A \<open>str\<close> is the list of its
  bytes as characters, so its length is \<open>str::len\<close>.
\<close>

unbundle bit_operations_syntax

section \<open>Names\<close>

datatype name_error = NameLength | NameCharacter

definition is_ascii_alphanumeric :: "char \<Rightarrow> bool" where
  "is_ascii_alphanumeric c \<longleftrightarrow>
     (let n = of_char c :: nat
      in (48 \<le> n \<and> n \<le> 57) \<or> (65 \<le> n \<and> n \<le> 90) \<or> (97 \<le> n \<and> n \<le> 122))"

definition name_char :: "char \<Rightarrow> bool" where
  "name_char c \<longleftrightarrow> is_ascii_alphanumeric c \<or> c = CHR ''.'' \<or> c = CHR ''_'' \<or> c = CHR ''-''"

definition validate_name :: "string \<Rightarrow> name_error + unit" where
  "validate_name name =
     (let base = (case strip_suffix ''#ephemeral'' name of Some b \<Rightarrow> b | None \<Rightarrow> name)
      in if base = [] \<or> length name > 64 then Inl NameLength
         else if \<not> list_all name_char base then Inl NameCharacter
         else Inr ())"

section \<open>Frames\<close>

datatype frame_type = FrameResponse | FrameError | FrameMessage

fun frame_type_code :: "frame_type \<Rightarrow> u32" where
  "frame_type_code FrameResponse = 0"
| "frame_type_code FrameError = 1"
| "frame_type_code FrameMessage = 2"

text \<open>\<open>usize\<close> is 64 bits wide; the cast to \<open>u32\<close> keeps the low bits.\<close>

definition sat_usize :: "nat \<Rightarrow> nat \<Rightarrow> nat" where
  "sat_usize a b = min (a + b) 18446744073709551615"

definition encode_frame :: "frame_type \<Rightarrow> byte list \<Rightarrow> byte list" where
  "encode_frame frame_type body =
     (let size = sat_usize 4 (length body)
      in to_be_bytes (word_of_nat size :: u32) @ to_be_bytes (frame_type_code frame_type) @ body)"

definition hex_digit :: "u64 \<Rightarrow> byte" where
  "hex_digit d = (let n = unat d in word_of_nat (if n < 10 then 48 + n else 87 + n))"

text \<open>The loop fills the slice from its end; \<open>k\<close> bytes are left to fill.\<close>

fun encode_hex_id :: "nat \<Rightarrow> u64 \<Rightarrow> byte list" where
  "encode_hex_id 0 msg_id = []"
| "encode_hex_id (Suc k) msg_id = encode_hex_id k (drop_bit 4 msg_id) @ [hex_digit (msg_id AND 0xf)]"

definition encode_message_header :: "i64 \<Rightarrow> u16 \<Rightarrow> u64 \<Rightarrow> nat \<Rightarrow> byte list" where
  "encode_message_header timestamp_ns attempts msg_id body_len =
     (let frame_body_bytes = sat_usize 26 body_len
      in to_be_bytes (word_of_nat (4 + frame_body_bytes) :: u32)
         @ to_be_bytes (frame_type_code FrameMessage)
         @ i64_to_be_bytes timestamp_ns @ to_be_bytes attempts @ encode_hex_id 16 msg_id)"

definition encode_message :: "i64 \<Rightarrow> u16 \<Rightarrow> u64 \<Rightarrow> byte list \<Rightarrow> byte list" where
  "encode_message timestamp_ns attempts msg_id body =
     encode_message_header timestamp_ns attempts msg_id (length body) @ body"

section \<open>Multi-publish bodies\<close>

definition max_mpub_messages :: nat where "max_mpub_messages = 65536"

datatype mpub_error = BadBody string | BadMessage string

fun mpub_code :: "mpub_error \<Rightarrow> string" where
  "mpub_code (BadBody m) = ''E_BAD_BODY''"
| "mpub_code (BadMessage m) = ''E_BAD_MESSAGE''"

text \<open>The \<open>for\<close> loop over the announced count, at a byte offset.\<close>

fun mpub_messages :: "nat \<Rightarrow> byte list \<Rightarrow> nat \<Rightarrow> nat \<Rightarrow> mpub_error + nat \<times> byte list list" where
  "mpub_messages max_message_bytes body 0 offset = Inr (offset, [])"
| "mpub_messages max_message_bytes body (Suc count) offset =
     (if length body - offset < 4 then Inl (BadMessage ''truncated message length'')
      else
        let len = unat (from_be_bytes (slice offset (offset + 4) body) :: u32);
            start = offset + 4;
            end = sat_usize start len
        in if len = 0 \<or> len > max_message_bytes \<or> end > length body
           then Inl (BadMessage ''invalid message length'')
           else and_then (mpub_messages max_message_bytes body count end)
                  (\<lambda>(last_offset, messages). Inr (last_offset, slice start end body # messages)))"

definition parse_mpub_bytes :: "byte list \<Rightarrow> nat \<Rightarrow> mpub_error + byte list list" where
  "parse_mpub_bytes body max_message_bytes =
     (if length body < 4 then Inl (BadBody ''missing batch count'')
      else
        let count = unat (from_be_bytes (slice 0 4 body) :: u32)
        in if count = 0 \<or> count > max_mpub_messages then Inl (BadBody ''invalid batch count'')
           else and_then (mpub_messages max_message_bytes body count 4)
                  (\<lambda>(offset, messages).
                     if offset \<noteq> length body then Inl (BadBody ''batch contains trailing bytes'')
                     else Inr messages))"

definition parse_mpub_body :: "byte list \<Rightarrow> nat \<Rightarrow> mpub_error + byte list list" where
  "parse_mpub_body body max_message_bytes = parse_mpub_bytes body max_message_bytes"

section \<open>Command lines\<close>

datatype client_command =
    Identify
  | Auth
  | Subscribe string string
  | Publish string
  | MultiPublish string
  | DeferredPublish string u64
  | ReadyCount u64
  | FinishMessage u64
  | RequeueMessage u64 i64
  | TouchMessage u64
  | CloseClient
  | Noop

datatype command_error = CommandInvalid string | BadTopic | BadChannel

text \<open>\<open>str::from_utf8\<close>: well-formed sequences of one to four bytes.\<close>

definition within :: "nat \<Rightarrow> nat \<Rightarrow> byte \<Rightarrow> bool" where
  "within lo hi b \<longleftrightarrow> lo \<le> unat b \<and> unat b \<le> hi"

fun utf8_valid :: "byte list \<Rightarrow> bool" where
  "utf8_valid [] = True"
| "utf8_valid (a # bs) =
     (if within 0x00 0x7F a then utf8_valid bs
      else (case bs of
              [] \<Rightarrow> False
            | b # cs \<Rightarrow>
                if within 0xC2 0xDF a then within 0x80 0xBF b \<and> utf8_valid cs
                else (case cs of
                        [] \<Rightarrow> False
                      | c # ds \<Rightarrow>
                          if within 0xE0 0xEF a then
                            within (if a = 0xE0 then 0xA0 else 0x80) (if a = 0xED then 0x9F else 0xBF) b
                            \<and> within 0x80 0xBF c \<and> utf8_valid ds
                          else (case ds of
                                  [] \<Rightarrow> False
                                | d # es \<Rightarrow>
                                    within 0xF0 0xF4 a
                                    \<and> within (if a = 0xF0 then 0x90 else 0x80) (if a = 0xF4 then 0x8F else 0xBF) b
                                    \<and> within 0x80 0xBF c \<and> within 0x80 0xBF d \<and> utf8_valid es))))"

definition as_str :: "byte list \<Rightarrow> string" where
  "as_str bytes = map (\<lambda>b. char_of (unat b)) bytes"

definition trim_end_crlf :: "string \<Rightarrow> string" where
  "trim_end_crlf s = rev (dropWhile (\<lambda>c. c = CHR 0x0D \<or> c = CHR 0x0A) (rev s))"

definition is_ascii_whitespace :: "char \<Rightarrow> bool" where
  "is_ascii_whitespace c \<longleftrightarrow> c \<in> {CHR 0x20, CHR 0x09, CHR 0x0A, CHR 0x0C, CHR 0x0D}"

fun split_words :: "string \<Rightarrow> string \<Rightarrow> string list" where
  "split_words word [] = (if word = [] then [] else [word])"
| "split_words word (c # cs) =
     (if is_ascii_whitespace c
      then (if word = [] then split_words [] cs else word # split_words [] cs)
      else split_words (word @ [c]) cs)"

definition split_ascii_whitespace :: "string \<Rightarrow> string list" where
  "split_ascii_whitespace s = split_words [] s"

definition i64_from_str :: "string \<Rightarrow> i64 option" where
  "i64_from_str s =
     (let neg = (s \<noteq> [] \<and> hd s = CHR ''-'');
          digits = (case s of [] \<Rightarrow> [] | c # cs \<Rightarrow> if c = CHR ''+'' \<or> c = CHR ''-'' then cs else s)
      in if digits = [] then None
         else (case digits_value 10 0 digits of
                 None \<Rightarrow> None
               | Some n \<Rightarrow>
                   let v = (if neg then - int n else int n)
                   in if in_i64 v then Some v else None))"

definition parse_u64 :: "string \<Rightarrow> command_error + u64" where
  "parse_u64 value = ok_or (u64_from_str_radix 10 value) (CommandInvalid ''expected unsigned integer'')"

definition parse_i64 :: "string \<Rightarrow> command_error + i64" where
  "parse_i64 value = ok_or (i64_from_str value) (CommandInvalid ''expected integer'')"

definition parse_id :: "string \<Rightarrow> command_error + u64" where
  "parse_id value =
     (if length value \<noteq> 16 then Inl (CommandInvalid ''message ID must contain 16 hex bytes'')
      else ok_or (u64_from_str_radix 16 value)
             (CommandInvalid ''message ID must contain 16 hex bytes''))"

definition checked_name :: "string \<Rightarrow> command_error \<Rightarrow> command_error + unit" where
  "checked_name name e = (case validate_name name of Inl _ \<Rightarrow> Inl e | Inr u \<Rightarrow> Inr u)"

definition parse_parts :: "string list \<Rightarrow> command_error + client_command" where
  "parse_parts parts =
     (case parts of
        [] \<Rightarrow> Inl (CommandInvalid ''empty command'')
      | command # args \<Rightarrow>
          if command = ''IDENTIFY'' \<and> length parts = 1 then Inr Identify
          else if command = ''AUTH'' \<and> length parts = 1 then Inr Auth
          else if command = ''SUB'' \<and> length args = 2 then
            and_then (checked_name (args ! 0) BadTopic) (\<lambda>_.
            and_then (checked_name (args ! 1) BadChannel) (\<lambda>_.
            Inr (Subscribe (args ! 0) (args ! 1))))
          else if command = ''PUB'' \<and> length args = 1 then
            and_then (checked_name (args ! 0) BadTopic) (\<lambda>_. Inr (Publish (args ! 0)))
          else if command = ''MPUB'' \<and> length args = 1 then
            and_then (checked_name (args ! 0) BadTopic) (\<lambda>_. Inr (MultiPublish (args ! 0)))
          else if command = ''DPUB'' \<and> length args = 2 then
            and_then (checked_name (args ! 0) BadTopic) (\<lambda>_.
            and_then (parse_u64 (args ! 1)) (\<lambda>delay. Inr (DeferredPublish (args ! 0) delay)))
          else if command = ''RDY'' \<and> args = [] then Inr (ReadyCount 1)
          else if command = ''RDY'' \<and> length args = 1 then
            and_then (parse_u64 (args ! 0)) (\<lambda>count. Inr (ReadyCount count))
          else if command = ''FIN'' \<and> length args = 1 then
            and_then (parse_id (args ! 0)) (\<lambda>msg_id. Inr (FinishMessage msg_id))
          else if command = ''REQ'' \<and> length args = 2 then
            and_then (parse_id (args ! 0)) (\<lambda>msg_id.
            and_then (parse_i64 (args ! 1)) (\<lambda>delay. Inr (RequeueMessage msg_id delay)))
          else if command = ''TOUCH'' \<and> length args = 1 then
            and_then (parse_id (args ! 0)) (\<lambda>msg_id. Inr (TouchMessage msg_id))
          else if command = ''CLS'' \<and> length parts = 1 then Inr CloseClient
          else if command = ''NOP'' \<and> length parts = 1 then Inr Noop
          else Inl (CommandInvalid ''unsupported command or arguments''))"

definition parse_command :: "byte list \<Rightarrow> command_error + client_command" where
  "parse_command line =
     (if \<not> utf8_valid line then Inl (CommandInvalid ''command is not UTF-8'')
      else parse_parts (split_ascii_whitespace (trim_end_crlf (as_str line))))"

end
