(* ===== verification/Channel_Store.thy ===== *)
theory Channel_Store
  imports Channel_Props Files Framing Protocol
begin

text \<open>
  The durable log of a Channel (\<open>crates/queue/src/channel_store.rs\<close>): the command codec,
  the framed write-ahead log with its checksum, the checkpoint file, buffering, sync,
  isolation after a failed write, and recovery. \<open>crc32c\<close> and the JSON codec of the
  checkpoint are parameters; the outcome of each system call is an argument.
\<close>

section \<open>Codec of commands\<close>

definition encode_command :: "channel_command \<Rightarrow> byte list" where
  "encode_command c =
     (case c of
        Finish position message_id \<Rightarrow> [1] @ to_be_bytes position @ to_be_bytes message_id
      | Requeue position message_id available_at_ms attempts cumulative_count \<Rightarrow>
          [if cumulative_count \<noteq> None then 7 else 2]
          @ to_be_bytes position @ to_be_bytes message_id
          @ i64_to_be_bytes available_at_ms @ to_be_bytes attempts
          @ (case cumulative_count of Some count \<Rightarrow> to_be_bytes count | None \<Rightarrow> [])
      | Pause paused \<Rightarrow> [3, if paused then 1 else 0]
      | Empty through_position \<Rightarrow> [4] @ to_be_bytes through_position
      | Evict through_position \<Rightarrow> [5] @ to_be_bytes through_position
      | Timeout cumulative_count \<Rightarrow> [6] @ to_be_bytes cumulative_count)"

definition decode_command :: "byte list \<Rightarrow> broker_error + channel_command" where
  "decode_command body =
     (case body of
        [] \<Rightarrow> Inl (InvalidRecord ''channel WAL command is invalid'')
      | tag # _ \<Rightarrow>
          if tag = 1 \<and> length body = 17 then
            Inr (Finish (from_be_bytes (slice 1 9 body)) (from_be_bytes (slice 9 17 body)))
          else if tag = 2 \<and> length body = 27 then
            Inr (Requeue (from_be_bytes (slice 1 9 body)) (from_be_bytes (slice 9 17 body))
                   (i64_from_be_bytes (slice 17 25 body)) (from_be_bytes (slice 25 27 body)) None)
          else if tag = 3 \<and> length body = 2 \<and> body ! 1 \<le> 1 then Inr (Pause (body ! 1 = 1))
          else if tag = 4 \<and> length body = 9 then Inr (Empty (from_be_bytes (slice 1 9 body)))
          else if tag = 5 \<and> length body = 9 then Inr (Evict (from_be_bytes (slice 1 9 body)))
          else if tag = 6 \<and> length body = 9 then Inr (Timeout (from_be_bytes (slice 1 9 body)))
          else if tag = 7 \<and> length body = 35 then
            Inr (Requeue (from_be_bytes (slice 1 9 body)) (from_be_bytes (slice 9 17 body))
                   (i64_from_be_bytes (slice 17 25 body)) (from_be_bytes (slice 25 27 body))
                   (Some (from_be_bytes (slice 27 35 body))))
          else Inl (InvalidRecord ''channel WAL command is invalid''))"

section \<open>The write-ahead log\<close>

definition wal_magic :: "byte list" where
  "wal_magic = [0x52, 0x43, 0x57, 0x37]"

definition checkpoint_magic :: "byte list" where
  "checkpoint_magic = [0x52, 0x43, 0x43, 0x37]"

definition max_command_bytes :: nat where "max_command_bytes = 1048576"
definition max_checkpoint_bytes :: nat where "max_checkpoint_bytes = 67108864"
definition checkpoint_interval :: nat where "checkpoint_interval = 8192"
definition max_recovery_commands :: nat where "max_recovery_commands = checkpoint_interval * 2"

definition frame_command :: "(byte list \<Rightarrow> u32) \<Rightarrow> channel_command \<Rightarrow> byte list" where
  "frame_command crc32c command =
     (let body = encode_command command
      in wal_magic @ to_be_bytes (word_of_nat (length body) :: u32) @ to_be_bytes (crc32c body) @ body)"

text \<open>
  The outcomes of the system calls of \<open>ChannelStore::open\<close>: of the two calls that read the
  checkpoint, of opening the log and asking for its length, of the seek and the two reads
  of the frame at an offset, of cutting off the tail and syncing the cut, and of opening
  the log again for appending.
\<close>

record open_io =
  oi_metadata :: "io_error option"
  oi_checkpoint :: "io_error option"
  oi_open :: "io_error option"
  oi_length :: "io_error option"
  oi_seek :: "nat \<Rightarrow> io_error option"
  oi_header :: "nat \<Rightarrow> io_error option"
  oi_body :: "nat \<Rightarrow> io_error option"
  oi_set_len :: "io_error option"
  oi_sync :: "io_error option"
  oi_reopen :: "io_error option"

definition open_succeeds :: open_io where
  "open_succeeds = \<lparr>oi_metadata = None, oi_checkpoint = None, oi_open = None, oi_length = None, oi_seek = (\<lambda>_. None),
      oi_header = (\<lambda>_. None), oi_body = (\<lambda>_. None), oi_set_len = None, oi_sync = None, oi_reopen = None\<rparr>"

text \<open>
  One iteration of \<open>recover_wal\<close> on the file, at an offset with the commands read so far. It
  returns the result together with the file as it is left.
\<close>

definition cut_wal ::
  "open_io \<Rightarrow> nat \<Rightarrow> channel_command list \<Rightarrow> disk_file \<Rightarrow> (broker_error + channel_command list) \<times> disk_file" where
  "cut_wal io offset commands f =
     (case oi_set_len io of
        Some e \<Rightarrow> (Inl (BrIo e), f)
      | None \<Rightarrow>
          (case sync_file (oi_sync io) (set_len offset f) of
             (Inl e, f1) \<Rightarrow> (Inl (BrIo e), f1)
           | (Inr _, f1) \<Rightarrow> (Inr commands, f1)))"

definition wal_step ::
  "(byte list \<Rightarrow> u32) \<Rightarrow> open_io \<Rightarrow> disk_file \<Rightarrow> nat \<times> channel_command list
   \<Rightarrow> ((broker_error + channel_command list) \<times> disk_file) + nat \<times> channel_command list" where
  "wal_step crc32c io f st =
     (let offset = fst st; commands = snd st; wal = fi_bytes f; len = length wal
      in if \<not> offset < len then Inl (Inr commands, f)
         else if len - offset < 12 then Inl (cut_wal io offset commands f)
         else (case oi_seek io offset of
           Some e \<Rightarrow> Inl (Inl (BrIo e), f)
         | None \<Rightarrow> (case oi_header io offset of
           Some e \<Rightarrow> Inl (Inl (BrIo e), f)
         | None \<Rightarrow>
           let header = slice offset (offset + 12) wal;
               body_len = unat (from_be_bytes (slice 4 8 header) :: u32);
               end = offset + 12 + body_len
           in if slice 0 4 header \<noteq> wal_magic then
                Inl (Inl (InvalidRecord (''channel WAL corruption at byte '' @ decimal offset)), f)
              else if body_len > max_command_bytes then
                Inl (Inl (InvalidRecord ''channel WAL command is too large''), f)
              else if end > len then Inl (cut_wal io offset commands f)
              else (case oi_body io offset of
                Some e \<Rightarrow> Inl (Inl (BrIo e), f)
              | None \<Rightarrow>
                let body = slice (offset + 12) end wal
                in if crc32c body \<noteq> from_be_bytes (slice 8 12 header) then
                     Inl (Inl (InvalidRecord (''channel WAL checksum failure at byte '' @ decimal offset)), f)
                   else (case decode_command body of
                           Inl e \<Rightarrow> Inl (Inl e, f)
                         | Inr command \<Rightarrow>
                             if length (commands @ [command]) > max_recovery_commands then
                               Inl (Inl (InvalidRecord
                                 ''channel WAL contains too many commands without a checkpoint''), f)
                             else Inr (end, commands @ [command]))))))"

text \<open>A log that is missing is created empty: it is the file without bytes.\<close>

definition recover_wal ::
  "(byte list \<Rightarrow> u32) \<Rightarrow> open_io \<Rightarrow> disk_file \<Rightarrow> ((broker_error + channel_command list) \<times> disk_file) option" where
  "recover_wal crc32c io f =
     (case oi_open io of
        Some e \<Rightarrow> Some (Inl (BrIo e), f)
      | None \<Rightarrow>
          (case oi_length io of
             Some e \<Rightarrow> Some (Inl (BrIo e), f)
           | None \<Rightarrow> loop (wal_step crc32c io f) (0, [])))"

section \<open>The checkpoint file\<close>

definition checkpoint_bytes :: "(byte list \<Rightarrow> u32) \<Rightarrow> byte list \<Rightarrow> byte list" where
  "checkpoint_bytes crc32c body =
     checkpoint_magic @ to_be_bytes (word_of_nat (length body) :: u32) @ to_be_bytes (crc32c body) @ body"

definition write_checkpoint ::
  "(byte list \<Rightarrow> u32) \<Rightarrow> (channel_checkpoint \<Rightarrow> string + byte list) \<Rightarrow> replace_fault \<Rightarrow> channel_checkpoint
   \<Rightarrow> byte list option \<Rightarrow> (broker_error + unit) \<times> byte list option" where
  "write_checkpoint crc32c to_json fault cp old =
     (case to_json cp of
        Inl e \<Rightarrow> (Inl (InvalidRecord e), old)
      | Inr body \<Rightarrow>
          if length body > max_checkpoint_bytes then
            (Inl (InvalidRecord ''channel checkpoint exceeds the maximum size''), old)
          else (case store_bytes_atomic fault (checkpoint_bytes crc32c body) old of
                  (Inl e, new) \<Rightarrow> (Inl (BrIo e), new)
                | (Inr _, new) \<Rightarrow> (Inr (), new)))"

definition parse_checkpoint ::
  "(byte list \<Rightarrow> u32) \<Rightarrow> (byte list \<Rightarrow> string + channel_checkpoint) \<Rightarrow> byte list
   \<Rightarrow> broker_error + channel_checkpoint" where
  "parse_checkpoint crc32c from_json bytes =
     (if length bytes < 12 \<or> slice 0 4 bytes \<noteq> checkpoint_magic then
        Inl (InvalidRecord ''channel checkpoint header is invalid'')
      else
        let len = unat (from_be_bytes (slice 4 8 bytes) :: u32)
        in if len > max_checkpoint_bytes \<or> len \<noteq> length bytes - 12
              \<or> crc32c (drop 12 bytes) \<noteq> from_be_bytes (slice 8 12 bytes) then
             Inl (InvalidRecord ''channel checkpoint checksum is invalid'')
           else (case from_json (drop 12 bytes) of
                   Inl e \<Rightarrow> Inl (InvalidRecord e)
                 | Inr cp \<Rightarrow> Inr cp))"

definition read_checkpoint ::
  "(byte list \<Rightarrow> u32) \<Rightarrow> (byte list \<Rightarrow> string + channel_checkpoint) \<Rightarrow> open_io \<Rightarrow> byte list option
   \<Rightarrow> broker_error + channel_checkpoint" where
  "read_checkpoint crc32c from_json io content =
     (case content of
        None \<Rightarrow> Inl (BrIo (IoError NotFound ''No such file or directory''))
      | Some bytes \<Rightarrow>
          (case oi_metadata io of
             Some e \<Rightarrow> Inl (BrIo e)
           | None \<Rightarrow>
               if length bytes > max_checkpoint_bytes + 12 then
                 Inl (InvalidRecord ''channel checkpoint exceeds the maximum size'')
               else (case oi_checkpoint io of
                       Some e \<Rightarrow> Inl (BrIo e)
                     | None \<Rightarrow> parse_checkpoint crc32c from_json bytes)))"

section \<open>The store\<close>

text \<open>
  The two files of a Channel and the store that owns them. The directory and the paths are
  given by the stem, the hexadecimal name.
\<close>

record channel_disk =
  cd_checkpoint :: "byte list option"
  cd_wal :: disk_file

record channel_store =
  cs_stem :: string
  cs_disk :: channel_disk
  cs_pending_wal :: "byte list"
  cs_commands_since_checkpoint :: nat
  cs_isolated :: bool

definition io_call :: "io_error option \<Rightarrow> broker_error + unit" where
  "io_call fault = (case fault of None \<Rightarrow> Inr () | Some e \<Rightarrow> Inl (BrIo e))"

text \<open>
  The operations that touch the disk in several steps return, besides their result, the
  disks a crash may find: one after each step.
\<close>

definition create_store ::
  "(byte list \<Rightarrow> u32) \<Rightarrow> (channel_checkpoint \<Rightarrow> string + byte list) \<Rightarrow> (string \<Rightarrow> string)
   \<Rightarrow> (nat \<Rightarrow> io_error option) \<Rightarrow> replace_fault \<Rightarrow> channel_state \<Rightarrow> channel_disk
   \<Rightarrow> (broker_error + channel_store) \<times> channel_disk list" where
  "create_store crc32c to_json hex_encode io fault state disk =
     (case io_call (io 0) of
        Inl e \<Rightarrow> (Inl e, [])
      | Inr _ \<Rightarrow> (case io_call (io 1) of
        Inl e \<Rightarrow> (Inl e, [])
      | Inr _ \<Rightarrow>
          let d1 = disk\<lparr>cd_wal := set_len 0 (cd_wal disk)\<rparr>
          in (case sync_file (io 2) (cd_wal d1) of
                (Inl e, wal) \<Rightarrow> (Inl (BrIo e), [d1])
              | (Inr _, wal) \<Rightarrow>
                  let d2 = d1\<lparr>cd_wal := wal\<rparr>
                  in (case io_call (io 3) of
                        Inl e \<Rightarrow> (Inl e, [d1, d2])
                      | Inr _ \<Rightarrow> (case write_checkpoint crc32c to_json fault (checkpoint state) (cd_checkpoint d2) of
                          (Inl e, new) \<Rightarrow> (Inl e, [d1, d2, d2\<lparr>cd_checkpoint := new\<rparr>])
                        | (Inr _, new) \<Rightarrow>
                            let d3 = d2\<lparr>cd_checkpoint := new\<rparr>
                            in (case io_call (io 4) of
                                  Inl e \<Rightarrow> (Inl e, [d1, d2, d3])
                                | Inr _ \<Rightarrow>
                                    (Inr \<lparr>cs_stem = hex_encode (ch_name state), cs_disk = d3,
                                          cs_pending_wal = [], cs_commands_since_checkpoint = 0,
                                          cs_isolated = False\<rparr>, [d1, d2, d3])))))))"

text \<open>
  \<open>open\<close> returns, besides its result, the log as it leaves it. A log that was complete is not
  synced here: what was durable of it stays what is durable.
\<close>

definition open_store ::
  "(byte list \<Rightarrow> u32) \<Rightarrow> (byte list \<Rightarrow> string + channel_checkpoint) \<Rightarrow> (string \<Rightarrow> string) \<Rightarrow> open_io \<Rightarrow> string
   \<Rightarrow> byte list option \<Rightarrow> disk_file \<Rightarrow> u64
   \<Rightarrow> ((broker_error + channel_state \<times> channel_store) \<times> disk_file) option" where
  "open_store crc32c from_json hex_encode io stem ck wal max_ack_gap =
     (case read_checkpoint crc32c from_json io ck of
        Inl e \<Rightarrow> Some (Inl e, wal)
      | Inr cp \<Rightarrow>
          if validate_name (cp_name cp) \<noteq> Inr () \<or> stem \<noteq> hex_encode (cp_name cp) then
            Some (Inl (InvalidRecord ''channel checkpoint name does not match its file''), wal)
          else (case recover_wal crc32c io wal of
                  None \<Rightarrow> None
                | Some (Inl e, kept) \<Rightarrow> Some (Inl e, kept)
                | Some (Inr commands, kept) \<Rightarrow>
                    (case from_checkpoint cp max_ack_gap of
                       Inl e \<Rightarrow> Some (Inl e, kept)
                     | Inr state \<Rightarrow>
                         (case oi_reopen io of
                            Some e \<Rightarrow> Some (Inl (BrIo e), kept)
                          | None \<Rightarrow>
                              Some (Inr (fold apply_command commands state,
                                \<lparr>cs_stem = stem, cs_disk = \<lparr>cd_checkpoint = ck, cd_wal = kept\<rparr>,
                                 cs_pending_wal = [],
                                 cs_commands_since_checkpoint = length commands,
                                 cs_isolated = False\<rparr>), kept)))))"

definition ensure_available :: "channel_store \<Rightarrow> broker_error + unit" where
  "ensure_available s = (if cs_isolated s then Inl StorageUnavailable else Inr ())"

definition append_buffered ::
  "(byte list \<Rightarrow> u32) \<Rightarrow> channel_command \<Rightarrow> channel_store \<Rightarrow> (broker_error + unit) \<times> channel_store" where
  "append_buffered crc32c command s =
     (case ensure_available s of
        Inl e \<Rightarrow> (Inl e, s)
      | Inr _ \<Rightarrow>
          (Inr (), s\<lparr>cs_pending_wal := cs_pending_wal s @ frame_command crc32c command,
                     cs_commands_since_checkpoint := cs_commands_since_checkpoint s + 1\<rparr>))"

definition flush_pending ::
  "(nat \<times> io_error) option \<Rightarrow> channel_store \<Rightarrow> (broker_error + unit) \<times> channel_store" where
  "flush_pending wr s =
     (if cs_pending_wal s = [] then (Inr (), s)
      else (case write_all wr (cs_pending_wal s) (cd_wal (cs_disk s)) of
              (Inl e, wal) \<Rightarrow>
                (Inl (BrIo e), s\<lparr>cs_disk := (cs_disk s)\<lparr>cd_wal := wal\<rparr>, cs_isolated := True\<rparr>)
            | (Inr _, wal) \<Rightarrow>
                (Inr (), s\<lparr>cs_disk := (cs_disk s)\<lparr>cd_wal := wal\<rparr>, cs_pending_wal := []\<rparr>)))"

definition sync_store ::
  "(nat \<times> io_error) option \<Rightarrow> io_error option \<Rightarrow> channel_store
   \<Rightarrow> (broker_error + unit) \<times> channel_store" where
  "sync_store wr sy s =
     (case ensure_available s of
        Inl e \<Rightarrow> (Inl e, s)
      | Inr _ \<Rightarrow>
          (case flush_pending wr s of
             (Inl e, s1) \<Rightarrow> (Inl e, s1)
           | (Inr _, s1) \<Rightarrow>
               (case sync_file sy (cd_wal (cs_disk s1)) of
                  (Inl e, wal) \<Rightarrow> (Inl (BrIo e), s1\<lparr>cs_isolated := True\<rparr>)
                | (Inr _, wal) \<Rightarrow> (Inr (), s1\<lparr>cs_disk := (cs_disk s1)\<lparr>cd_wal := wal\<rparr>\<rparr>))))"

definition append_command ::
  "(byte list \<Rightarrow> u32) \<Rightarrow> (nat \<times> io_error) option \<Rightarrow> io_error option \<Rightarrow> channel_command \<Rightarrow> channel_store
   \<Rightarrow> (broker_error + unit) \<times> channel_store" where
  "append_command crc32c wr sy command s =
     (case append_buffered crc32c command s of
        (Inl e, s1) \<Rightarrow> (Inl e, s1)
      | (Inr _, s1) \<Rightarrow> sync_store wr sy s1)"

definition prepare_sync ::
  "(nat \<times> io_error) option \<Rightarrow> io_error option \<Rightarrow> channel_store
   \<Rightarrow> (broker_error + unit) \<times> channel_store" where
  "prepare_sync wr clone s =
     (case ensure_available s of
        Inl e \<Rightarrow> (Inl e, s)
      | Inr _ \<Rightarrow>
          (case flush_pending wr s of
             (Inl e, s1) \<Rightarrow> (Inl e, s1)
           | (Inr _, s1) \<Rightarrow>
               (case io_call clone of
                  Inl e \<Rightarrow> (Inl e, s1\<lparr>cs_isolated := True\<rparr>)
                | Inr _ \<Rightarrow> (Inr (), s1))))"

definition mark_sync_failed :: "channel_store \<Rightarrow> channel_store" where
  "mark_sync_failed s = s\<lparr>cs_isolated := True\<rparr>"

definition write_checkpoint_and_reset ::
  "(byte list \<Rightarrow> u32) \<Rightarrow> (channel_checkpoint \<Rightarrow> string + byte list) \<Rightarrow> replace_fault
   \<Rightarrow> (nat \<Rightarrow> io_error option) \<Rightarrow> channel_state \<Rightarrow> channel_store
   \<Rightarrow> (broker_error + unit) \<times> channel_store \<times> channel_disk list" where
  "write_checkpoint_and_reset crc32c to_json fault io state s =
     (let d = cs_disk s
      in (case write_checkpoint crc32c to_json fault (checkpoint state) (cd_checkpoint d) of
            (Inl e, new) \<Rightarrow>
              let d1 = d\<lparr>cd_checkpoint := new\<rparr> in (Inl e, s\<lparr>cs_disk := d1\<rparr>, [d1])
          | (Inr _, new) \<Rightarrow>
              let d1 = d\<lparr>cd_checkpoint := new\<rparr>
              in (case io_call (io 0) of
                    Inl e \<Rightarrow> (Inl e, s\<lparr>cs_disk := d1\<rparr>, [d1])
                  | Inr _ \<Rightarrow>
                      let d2 = d1\<lparr>cd_wal := set_len 0 (cd_wal d1)\<rparr>
                      in (case sync_file (io 1) (cd_wal d2) of
                            (Inl e, wal) \<Rightarrow> (Inl (BrIo e), s\<lparr>cs_disk := d2\<rparr>, [d1, d2])
                          | (Inr _, wal) \<Rightarrow>
                              let d3 = d2\<lparr>cd_wal := wal\<rparr>; s3 = s\<lparr>cs_disk := d3\<rparr>
                              in (case io_call (io 2) of
                                    Inl e \<Rightarrow> (Inl e, s3, [d1, d2, d3])
                                  | Inr _ \<Rightarrow>
                                      (case io_call (io 3) of
                                         Inl e \<Rightarrow> (Inl e, s3, [d1, d2, d3])
                                       | Inr _ \<Rightarrow> (Inr (), s3, [d1, d2, d3])))))))"

definition checkpoint_store ::
  "(byte list \<Rightarrow> u32) \<Rightarrow> (channel_checkpoint \<Rightarrow> string + byte list) \<Rightarrow> replace_fault
   \<Rightarrow> (nat \<Rightarrow> io_error option) \<Rightarrow> channel_state \<Rightarrow> channel_store
   \<Rightarrow> (broker_error + unit) \<times> channel_store \<times> channel_disk list" where
  "checkpoint_store crc32c to_json fault io state s =
     (case ensure_available s of
        Inl e \<Rightarrow> (Inl e, s, [])
      | Inr _ \<Rightarrow>
          (case write_checkpoint_and_reset crc32c to_json fault io state s of
             (Inl e, s1, trace) \<Rightarrow> (Inl e, s1\<lparr>cs_isolated := True\<rparr>, trace)
           | (Inr _, s1, trace) \<Rightarrow> (Inr (), s1\<lparr>cs_commands_since_checkpoint := 0\<rparr>, trace)))"

definition checkpoint_if_needed ::
  "(byte list \<Rightarrow> u32) \<Rightarrow> (channel_checkpoint \<Rightarrow> string + byte list) \<Rightarrow> replace_fault
   \<Rightarrow> (nat \<Rightarrow> io_error option) \<Rightarrow> channel_state \<Rightarrow> channel_store
   \<Rightarrow> (broker_error + unit) \<times> channel_store \<times> channel_disk list" where
  "checkpoint_if_needed crc32c to_json fault io state s =
     (if cs_commands_since_checkpoint s < checkpoint_interval then (Inr (), s, [])
      else checkpoint_store crc32c to_json fault io state s)"

text \<open>
  \<open>remove\<close>: the WAL first, then the checkpoint; a file that is already gone is no error.
  Unlinking is durable once the directory is synced. Until then a crash may find any of the
  files unlinked so far still there, in whatever order they were unlinked: the list holds what
  it may find of the checkpoint and of the log.
\<close>

definition remove_file_ok :: "io_error option \<Rightarrow> broker_error + unit" where
  "remove_file_ok fault =
     (case fault of
        None \<Rightarrow> Inr ()
      | Some (IoError kind m) \<Rightarrow> if kind = NotFound then Inr () else Inl (BrIo (IoError kind m)))"

definition remove_store ::
  "(nat \<Rightarrow> io_error option) \<Rightarrow> channel_store \<Rightarrow> (broker_error + unit) \<times> (byte list option \<times> byte list option) list" where
  "remove_store io s =
     (let ck = cd_checkpoint (cs_disk s); wal = fi_bytes (cd_wal (cs_disk s));
          unlinked = [(ck, Some wal), (ck, None), (None, Some wal), (None, None)]
      in (case io_call (io 0) of
            Inl e \<Rightarrow> (Inl e, [(ck, Some wal)])
          | Inr _ \<Rightarrow> (case remove_file_ok (io 1) of
            Inl e \<Rightarrow> (Inl e, [(ck, Some wal)])
          | Inr _ \<Rightarrow> (case remove_file_ok (io 2) of
            Inl e \<Rightarrow> (Inl e, [(ck, Some wal), (ck, None)])
          | Inr _ \<Rightarrow> (case io_call (io 3) of
            Inl e \<Rightarrow> (Inl e, unlinked)
          | Inr _ \<Rightarrow> (case io_call (io 4) of
            Inl e \<Rightarrow> (Inl e, unlinked)
          | Inr _ \<Rightarrow> (Inr (), unlinked)))))))"

section \<open>A Channel with its store\<close>

record channel_runtime =
  cr_state :: channel_state
  cr_store :: "channel_store option"
  cr_durable_counters :: bool

definition runtime_has_expired :: "instant \<Rightarrow> channel_runtime \<Rightarrow> bool" where
  "runtime_has_expired now rt = has_expired_in_flight (cr_state rt) now"

text \<open>
  \<open>ChannelRuntime::expire_in_flight\<close>. The outcomes of the append and of the checkpoint are
  the arguments of the store operations it calls.
\<close>

definition expire_in_flight ::
  "(byte list \<Rightarrow> u32) \<Rightarrow> (channel_checkpoint \<Rightarrow> string + byte list) \<Rightarrow> (nat \<times> io_error) option
   \<Rightarrow> io_error option \<Rightarrow> replace_fault \<Rightarrow> (nat \<Rightarrow> io_error option) \<Rightarrow> instant \<Rightarrow> channel_runtime
   \<Rightarrow> (broker_error + nat) \<times> channel_runtime" where
  "expire_in_flight crc32c to_json wr sy fault io now rt =
     (let positions = expired_positions (cr_state rt) now
      in if positions = [] then (Inr 0, rt)
         else
           let cumulative_count = sat_add (ch_timeout_count (cr_state rt)) (word_of_nat (length positions));
               command = Timeout cumulative_count;
               logged = (if cr_durable_counters rt
                         then (case cr_store rt of
                                 None \<Rightarrow> (Inr (), None)
                               | Some store \<Rightarrow>
                                   (case append_command crc32c wr sy command store of (r, s1) \<Rightarrow> (r, Some s1)))
                         else (Inr (), cr_store rt))
           in (case fst logged of
                 Inl e \<Rightarrow> (Inl e, rt\<lparr>cr_store := snd logged\<rparr>)
               | Inr _ \<Rightarrow>
                   let expired = expire_positions positions (cr_state rt);
                       state = (if cr_durable_counters rt then apply_command command expired
                                else expired\<lparr>ch_timeout_count := cumulative_count\<rparr>)
                   in (case snd logged of
                         None \<Rightarrow> (Inr (length positions), rt\<lparr>cr_state := state, cr_store := None\<rparr>)
                       | Some store \<Rightarrow>
                           (case checkpoint_if_needed crc32c to_json fault io state store of
                              (Inl e, s2, _) \<Rightarrow> (Inl e, rt\<lparr>cr_state := state, cr_store := Some s2\<rparr>)
                            | (Inr _, s2, _) \<Rightarrow>
                                (Inr (length positions), rt\<lparr>cr_state := state, cr_store := Some s2\<rparr>)))))"

section \<open>Correctness of the codec\<close>

fun command_valid :: "channel_command \<Rightarrow> bool" where
  "command_valid (Requeue p i available_at_ms a c) = in_i64 available_at_ms"
| "command_valid _ = True"

lemma decode_encode_command: "command_valid c \<Longrightarrow> decode_command (encode_command c) = Inr c"
  by (cases c) (auto simp: encode_command_def decode_command_def codec_simps split: option.splits)

lemma length_encode_command: "0 < length (encode_command c)" "length (encode_command c) \<le> 35"
  by (auto simp: encode_command_def split: channel_command.split option.split)

lemma slice_shift: "slice (length pre + i) (length pre + j) (pre @ ys) = slice i j ys"
  by (simp add: slice_def)

lemma unat_body_length:
  "unat (word_of_nat (length (encode_command c)) :: u32) = length (encode_command c)"
  using length_encode_command(2) [of c] by (simp add: unat_of_nat)

definition frame_header :: "(byte list \<Rightarrow> u32) \<Rightarrow> channel_command \<Rightarrow> byte list" where
  "frame_header crc32c c = wal_magic @ to_be_bytes (word_of_nat (length (encode_command c)) :: u32)
     @ to_be_bytes (crc32c (encode_command c))"

lemma frame_command_header: "frame_command crc32c c = frame_header crc32c c @ encode_command c"
  by (simp add: frame_command_def frame_header_def Let_def)

lemma length_wal_magic [simp]: "length wal_magic = 4"
  by (simp add: wal_magic_def)

lemma frame_header_fields:
  "length (frame_header crc32c c) = 12" "slice 0 4 (frame_header crc32c c) = wal_magic"
  "unat (from_be_bytes (slice 4 8 (frame_header crc32c c)) :: u32) = length (encode_command c)"
  "from_be_bytes (slice 8 12 (frame_header crc32c c)) = crc32c (encode_command c)"
  by (simp_all add: frame_header_def codec_simps unat_body_length)

lemma length_frame_command: "length (frame_command crc32c c) = 12 + length (encode_command c)"
  by (simp add: frame_command_header frame_header_fields)

lemma header_slice: "slice (length pre) (length pre + 12) (pre @ frame_header crc32c c @ rest) = frame_header crc32c c"
  using slice_shift [of pre 0 12 "frame_header crc32c c @ rest"]
  by (simp add: slice_def frame_header_fields)

lemma body_slice:
  "slice (length pre + 12) (length pre + 12 + length (encode_command c))
     (pre @ frame_header crc32c c @ encode_command c @ rest) = encode_command c"
  using slice_shift [of pre 12 "12 + length (encode_command c)" "frame_header crc32c c @ encode_command c @ rest"]
  by (simp add: slice_def frame_header_fields add.assoc)

lemma cut_wal_succeeds:
  "cut_wal open_succeeds (length pre) commands (f\<lparr>fi_bytes := pre @ torn\<rparr>)
   = (Inr commands, \<lparr>fi_bytes = pre, fi_durable = length pre, fi_shadows = []\<rparr>)"
  by (simp add: cut_wal_def open_succeeds_def set_len_def sync_file_def)

lemma open_succeeds_fields [simp]:
  "oi_metadata open_succeeds = None" "oi_checkpoint open_succeeds = None" "oi_open open_succeeds = None"
  "oi_length open_succeeds = None" "oi_seek open_succeeds n = None" "oi_header open_succeeds n = None"
  "oi_body open_succeeds n = None" "oi_set_len open_succeeds = None" "oi_sync open_succeeds = None"
  "oi_reopen open_succeeds = None"
  by (simp_all add: open_succeeds_def)

lemma wal_step_frame:
  assumes "command_valid c" and "length commands < max_recovery_commands"
  shows "wal_step crc32c open_succeeds (f\<lparr>fi_bytes := pre @ frame_command crc32c c @ rest\<rparr>) (length pre, commands)
       = Inr (length pre + length (frame_command crc32c c), commands @ [c])"
  using assms length_encode_command [of c]
  by (simp add: wal_step_def Let_def frame_command_header header_slice body_slice frame_header_fields
      decode_encode_command max_command_bytes_def)

lemma wal_step_torn:
  assumes "0 < k" and "k < length (frame_command crc32c c)"
  shows "wal_step crc32c open_succeeds (f\<lparr>fi_bytes := pre @ take k (frame_command crc32c c)\<rparr>) (length pre, commands)
       = Inl (Inr commands, \<lparr>fi_bytes = pre, fi_durable = length pre, fi_shadows = []\<rparr>)"
proof (cases "k < 12")
  case True
  then show ?thesis using assms
    by (simp add: wal_step_def Let_def length_frame_command min_def cut_wal_succeeds)
next
  case False
  then have "take k (frame_command crc32c c) = frame_header crc32c c @ take (k - 12) (encode_command c)"
    by (simp add: frame_command_header frame_header_fields)
  then show ?thesis
    using False assms length_encode_command [of c]
    by (simp add: wal_step_def Let_def header_slice frame_header_fields length_frame_command max_command_bytes_def
        cut_wal_succeeds)
qed

text \<open>The log read without a failing call, as a scanner of its bytes.\<close>

definition recovered_wal :: "disk_file \<Rightarrow> byte list \<Rightarrow> nat \<Rightarrow> disk_file" where
  "recovered_wal f pre torn =
     (if torn = 0 then f\<lparr>fi_bytes := pre\<rparr> else \<lparr>fi_bytes = pre, fi_durable = length pre, fi_shadows = []\<rparr>)"

interpretation channel_wal: frame_scanner "\<lambda>bytes. wal_step crc32c open_succeeds (f\<lparr>fi_bytes := bytes\<rparr>)" "frame_command crc32c"
  "\<lambda>commands c. command_valid c \<and> length commands < max_recovery_commands"
  "\<lambda>c commands. commands @ [c]" "\<lambda>pre torn commands. (Inr commands, recovered_wal f pre torn)" "\<lambda>_ _. True" for crc32c f
proof
  fix c show "frame_command crc32c c \<noteq> []" by (simp add: frame_command_def wal_magic_def Let_def)
qed (simp_all add: wal_step_frame wal_step_torn recovered_wal_def, simp add: wal_step_def)

lemma fold_snoc: "fold (\<lambda>c cs. cs @ [c]) xs acc = acc @ xs"
  by (induction xs arbitrary: acc) simp_all

lemma wal_chain:
  "list_all command_valid cs \<Longrightarrow> length acc + length cs \<le> max_recovery_commands \<Longrightarrow>
   chain (\<lambda>commands c. command_valid c \<and> length commands < max_recovery_commands)
     (\<lambda>c commands. commands @ [c]) acc cs"
  by (induction cs arbitrary: acc) auto

end
