(* ===== verification/Channel_Durability.thy ===== *)
theory Channel_Durability
  imports Channel_Store
begin

text \<open>
  What survives a crash. A ghost list of the commands handed to the store and the number of
  them whose sync has returned describe every state of the store; a crash at any point
  leaves a write-ahead log from which recovery reads a prefix of those commands that
  contains all the synced ones. Taking a checkpoint is safe at each of its steps.
\<close>

section \<open>The log of a store\<close>

definition store_inv ::
  "(byte list \<Rightarrow> u32) \<Rightarrow> channel_command list \<Rightarrow> nat \<Rightarrow> channel_store \<Rightarrow> bool" where
  "store_inv crc32c cs k s \<longleftrightarrow>
     (let wal = cd_wal (cs_disk s)
      in fi_shadows wal = [] \<and> fi_durable wal \<le> length (fi_bytes wal)
         \<and> prefix (fi_bytes wal) (frames (frame_command crc32c) cs)
         \<and> k \<le> length cs \<and> length (frames (frame_command crc32c) (take k cs)) \<le> fi_durable wal
         \<and> (\<not> cs_isolated s \<longrightarrow>
              fi_bytes wal @ cs_pending_wal s = frames (frame_command crc32c) cs
              \<and> cs_commands_since_checkpoint s = length cs))"

lemma store_inv_isolated: "store_inv crc32c cs k s \<Longrightarrow> store_inv crc32c cs k (s\<lparr>cs_isolated := True\<rparr>)"
  by (simp add: store_inv_def Let_def)

lemma store_inv_append_buffered:
  assumes "store_inv crc32c cs k s" and "append_buffered crc32c c s = (r, t)"
  shows "(r = Inr () \<and> store_inv crc32c (cs @ [c]) k t) \<or> (r = Inl StorageUnavailable \<and> t = s \<and> cs_isolated s)"
  using assms
  by (auto simp: store_inv_def append_buffered_def ensure_available_def Let_def prefix_def split: if_splits)

lemma store_inv_flush:
  assumes "store_inv crc32c cs k s" and "\<not> cs_isolated s" and "flush_pending wr s = (r, t)"
  shows "store_inv crc32c cs k t \<and> (r = Inr () \<longrightarrow> cs_pending_wal t = [] \<and> \<not> cs_isolated t)"
proof (cases "cs_pending_wal s = []")
  case True
  then show ?thesis using assms by (auto simp: flush_pending_def)
next
  case False
  let ?w = "cd_wal (cs_disk s)"
  have all: "fi_bytes ?w @ cs_pending_wal s = frames (frame_command crc32c) cs"
    and d: "fi_durable ?w \<le> length (fi_bytes ?w)"
    using assms(1,2) by (auto simp: store_inv_def Let_def)
  have p: "prefix (fi_bytes ?w @ take n (cs_pending_wal s)) (frames (frame_command crc32c) cs)" for n
    unfolding all [symmetric] by (simp add: take_is_prefix)
  have "fi_durable ?w \<le> length (frames (frame_command crc32c) cs)"
    unfolding all [symmetric] using d by simp
  then show ?thesis using assms False p d
    by (auto simp: flush_pending_def write_all_def store_inv_def Let_def split: option.splits)
qed

lemma store_inv_sync:
  assumes "store_inv crc32c cs k s" and "sync_store wr sy s = (r, t)"
  shows "store_inv crc32c cs k t \<and> (r = Inr () \<longrightarrow> store_inv crc32c cs (length cs) t)"
proof (cases "cs_isolated s")
  case True
  then show ?thesis using assms by (auto simp: sync_store_def ensure_available_def)
next
  case False
  obtain r1 s1 where f: "flush_pending wr s = (r1, s1)" by fastforce
  note inv = store_inv_flush [OF assms(1) False f]
  show ?thesis
  proof (cases r1)
    case (Inl e)
    then show ?thesis using assms(2) f inv False by (auto simp: sync_store_def ensure_available_def)
  next
    case (Inr u)
    then have b: "fi_bytes (cd_wal (cs_disk s1)) = frames (frame_command crc32c) cs"
      using inv by (auto simp: store_inv_def Let_def)
    show ?thesis
      using assms(2) f inv False Inr b store_inv_isolated [of crc32c cs k s1]
      by (auto simp: sync_store_def ensure_available_def sync_file_def split: option.splits)
         (auto simp: store_inv_def Let_def)
  qed
qed

lemma flush_failed_isolates: "flush_pending wr s = (Inl e, t) \<Longrightarrow> cs_isolated t"
  by (auto simp: flush_pending_def write_all_def split: if_splits option.splits)

lemma sync_failed_isolates:
  assumes "sync_store wr sy s = (Inl e, t)" shows "cs_isolated t"
proof (cases "cs_isolated s")
  case True
  then show ?thesis using assms by (simp add: sync_store_def ensure_available_def)
next
  case False
  obtain r1 s1 where f: "flush_pending wr s = (r1, s1)" by fastforce
  then show ?thesis
    using assms False flush_failed_isolates [of wr s _ s1]
    by (cases r1; cases sy) (auto simp: sync_store_def ensure_available_def sync_file_def)
qed

lemma append_failed_isolates:
  assumes "append_command crc32c wr sy c s = (Inl e, t)" shows "cs_isolated t"
proof (cases "cs_isolated s")
  case True
  then show ?thesis
    using assms by (simp add: append_command_def append_buffered_def ensure_available_def)
next
  case False
  then show ?thesis
    using assms sync_failed_isolates by (auto simp: append_command_def append_buffered_def ensure_available_def)
qed

lemma store_inv_append:
  assumes "store_inv crc32c cs k s" and "append_command crc32c wr sy c s = (r, t)"
  shows "(r = Inr () \<and> store_inv crc32c (cs @ [c]) (Suc (length cs)) t)
         \<or> (r \<noteq> Inr () \<and> store_inv crc32c cs k t \<and> cs_isolated s)
         \<or> (r \<noteq> Inr () \<and> store_inv crc32c (cs @ [c]) k t \<and> cs_isolated t)"
proof -
  obtain r1 s1 where a: "append_buffered crc32c c s = (r1, s1)" by fastforce
  note inv = store_inv_append_buffered [OF assms(1) a]
  show ?thesis
  proof (cases r1)
    case (Inl e)
    then show ?thesis using assms inv a by (auto simp: append_command_def)
  next
    case (Inr u)
    then have s1: "store_inv crc32c (cs @ [c]) k s1" and eq: "sync_store wr sy s1 = (r, t)"
      using inv assms(2) a by (auto simp: append_command_def)
    show ?thesis using store_inv_sync [OF s1 eq] sync_failed_isolates [of wr sy s1 _ t] eq by (cases r) auto
  qed
qed

lemma recover_crash_image:
  assumes inv: "store_inv crc32c cs k s" and b: "fi_bytes f \<in> crash_images (cd_wal (cs_disk s))"
    and valid: "list_all command_valid cs" and bound: "length cs \<le> max_recovery_commands"
  shows "\<exists>m. k \<le> m \<and> m \<le> length cs
           \<and> (\<exists>kept. recover_wal crc32c open_succeeds f = Some (Inr (take m cs), kept)
                \<and> fi_bytes kept = frames (frame_command crc32c) (take m cs))"
proof -
  let ?F = "frames (frame_command crc32c)"
  have sh: "fi_shadows (cd_wal (cs_disk s)) = []" using inv by (simp add: store_inv_def Let_def)
  note img = crash_image_prefix [OF sh b]
  have p: "prefix (fi_bytes f) (?F cs)" and kb: "k \<le> length cs" "length (?F (take k cs)) \<le> length (fi_bytes f)"
    using inv img prefix_order.trans [of "fi_bytes f"] by (auto simp: store_inv_def Let_def)
  obtain m where "m \<le> length cs"
      "loop (wal_step crc32c open_succeeds (f\<lparr>fi_bytes := fi_bytes f\<rparr>)) (0, [])
        = Some (Inr (fold (\<lambda>c cs. cs @ [c]) (take m cs) []), recovered_wal f (?F (take m cs)) (length (fi_bytes f) - length (?F (take m cs))))"
      "\<forall>j \<le> length cs. length (?F (take j cs)) \<le> length (fi_bytes f) \<longrightarrow> j \<le> m"
    using channel_wal.recover_crashed [OF wal_chain [OF valid, of "[]"] p TrueI, of f] bound by auto
  then show ?thesis using kb by (auto simp: recover_wal_def fold_snoc recovered_wal_def)
qed

section \<open>Sequences of appends\<close>

fun append_all ::
  "(byte list \<Rightarrow> u32) \<Rightarrow> (channel_command \<times> (nat \<times> io_error) option \<times> io_error option) list
   \<Rightarrow> channel_store \<Rightarrow> (broker_error + unit) list \<times> channel_store" where
  "append_all crc32c [] s = ([], s)"
| "append_all crc32c ((c, wr, sy) # ops) s =
     (case append_command crc32c wr sy c s of
        (r, s1) \<Rightarrow> (case append_all crc32c ops s1 of (rs, t) \<Rightarrow> (r # rs, t)))"

lemma append_all_isolated:
  "cs_isolated s \<Longrightarrow> append_all crc32c ops s = (map (\<lambda>_. Inl StorageUnavailable) ops, s)"
  by (induction ops)
    (auto simp: append_command_def append_buffered_def ensure_available_def split: prod.splits)

lemma append_all_inv:
  assumes "store_inv crc32c cs k s" and "append_all crc32c ops s = (rs, t)"
  shows "\<exists>n k'. store_inv crc32c (cs @ map fst (take n ops)) k' t \<and> k \<le> k'
           \<and> length rs = length ops \<and> (\<forall>i < length ops. rs ! i = Inr () \<longrightarrow> length cs + i < k')"
  using assms
proof (induction ops arbitrary: cs k s rs t)
  case Nil
  then show ?case by auto
next
  case (Cons op ops)
  obtain c wr sy where op: "op = (c, wr, sy)" by (cases op)
  obtain r s1 where r: "append_command crc32c wr sy c s = (r, s1)" by fastforce
  obtain rs' where rs: "append_all crc32c ops s1 = (rs', t)" "rs = r # rs'"
    using Cons.prems(2) op r by (auto split: prod.splits)
  consider (ok) "r = Inr ()" "store_inv crc32c (cs @ [c]) (Suc (length cs)) s1"
    | (before) "r \<noteq> Inr ()" "store_inv crc32c cs k s1" "cs_isolated s"
    | (failed) "r \<noteq> Inr ()" "store_inv crc32c (cs @ [c]) k s1" "cs_isolated s1"
    using store_inv_append [OF Cons.prems(1) r] by blast
  then show ?case
  proof cases
    case ok
    obtain n k' where n: "store_inv crc32c ((cs @ [c]) @ map fst (take n ops)) k' t" "Suc (length cs) \<le> k'"
        "length rs' = length ops" "\<forall>i < length ops. rs' ! i = Inr () \<longrightarrow> length (cs @ [c]) + i < k'"
      using Cons.IH [OF ok(2) rs(1)] by blast
    have "k \<le> length cs" using Cons.prems(1) by (simp add: store_inv_def Let_def)
    moreover have "rs ! i = Inr () \<longrightarrow> length cs + i < k'" if "i < length (op # ops)" for i
      using n(2,4) rs(2) that by (cases i) auto
    ultimately show ?thesis using n rs(2) op by (intro exI [of _ "Suc n"] exI [of _ k']) auto
  next
    case before
    then have "append_command crc32c wr sy c s = (Inl StorageUnavailable, s)"
      by (simp add: append_command_def append_buffered_def ensure_available_def)
    then have "append_all crc32c (op # ops) s = (map (\<lambda>_. Inl StorageUnavailable) (op # ops), s)"
      using append_all_isolated [OF before(3)] by blast
    then show ?thesis using Cons.prems by (intro exI [of _ 0] exI [of _ k]) (auto simp: nth_Cons split: nat.splits)
  next
    case failed
    have "rs' = map (\<lambda>_. Inl StorageUnavailable) ops" "t = s1"
      using rs(1) append_all_isolated [OF failed(3), of crc32c ops] by auto
    moreover have "rs ! i \<noteq> Inr ()" if "i < length (op # ops)" for i
      using that failed(1) rs(2) \<open>rs' = _\<close> by (cases i) auto
    ultimately show ?thesis
      using failed(2) rs(2) op by (intro exI [of _ 1] exI [of _ k]) auto
  qed
qed

definition fresh_store :: "channel_store \<Rightarrow> bool" where
  "fresh_store s \<longleftrightarrow>
     cd_wal (cs_disk s) = \<lparr>fi_bytes = [], fi_durable = 0, fi_shadows = []\<rparr>
     \<and> cs_pending_wal s = [] \<and> cs_commands_since_checkpoint s = 0 \<and> \<not> cs_isolated s"

lemma store_inv_fresh: "fresh_store s \<Longrightarrow> store_inv crc32c [] 0 s"
  by (simp add: fresh_store_def store_inv_def)

text \<open>
  C11: the Channel log is durable. Whatever write and sync errors a sequence of appends runs
  into and wherever a crash cuts the file, recovery succeeds, if its own system calls do, and reads back a prefix of the
  submitted commands, unchanged and in order, that contains every command whose append
  returned success.
\<close>

theorem channel_wal_durable:
  assumes "fresh_store s" and "append_all crc32c ops s = (rs, t)" and "fi_bytes f \<in> crash_images (cd_wal (cs_disk t))"
    and "list_all (\<lambda>(c, wr, sy). command_valid c) ops" and "length ops \<le> max_recovery_commands"
  shows "\<exists>m kept. recover_wal crc32c open_succeeds f = Some (Inr (take m (map fst ops)), kept)
           \<and> (\<forall>i < length ops. rs ! i = Inr () \<longrightarrow> i < m)"
proof -
  obtain n k where inv: "store_inv crc32c (map fst (take n ops)) k t"
      "\<forall>i < length ops. rs ! i = Inr () \<longrightarrow> i < k"
    using append_all_inv [OF store_inv_fresh [OF assms(1)] assms(2)] by auto
  have "list_all command_valid (map fst (take n ops))"
    using assms(4) by (auto simp: list_all_iff dest!: in_set_takeD)
  moreover have "length (map fst (take n ops)) \<le> max_recovery_commands" using assms(5) by simp
  ultimately obtain m kept where m: "k \<le> m" "m \<le> length (map fst (take n ops))"
      "recover_wal crc32c open_succeeds f = Some (Inr (take m (map fst (take n ops))), kept)"
    using recover_crash_image [OF inv(1) assms(3)] by blast
  have "take m (map fst (take n ops)) = take m (map fst ops)"
    using m(2) by (simp add: take_map)
  then have "recover_wal crc32c open_succeeds f = Some (Inr (take m (map fst ops)), kept)" using m(3) by simp
  moreover have "\<forall>i < length ops. rs ! i = Inr () \<longrightarrow> i < m"
    using inv(2) m(1) order.strict_trans2 by blast
  ultimately show ?thesis by blast
qed

definition sample_store :: channel_store where
  "sample_store = \<lparr>cs_stem = ''6f'', cs_disk = \<lparr>cd_checkpoint = None,
      cd_wal = \<lparr>fi_bytes = [], fi_durable = 0, fi_shadows = []\<rparr>\<rparr>, cs_pending_wal = [],
      cs_commands_since_checkpoint = 0, cs_isolated = False\<rparr>"

definition sample_appends :: "(channel_command \<times> (nat \<times> io_error) option \<times> io_error option) list" where
  "sample_appends = [(Finish 5 77, None, None), (Empty 9, Some (3, IoError OtherKind ''disk full''), None)]"

lemma sample_appends_results:
  "fst (append_all (\<lambda>_. 0) sample_appends sample_store) = [Inr (), Inl (BrIo (IoError OtherKind ''disk full''))]"
  by (simp add: sample_appends_def sample_store_def append_command_def append_buffered_def ensure_available_def
      sync_store_def flush_pending_def write_all_def sync_file_def frame_command_def wal_magic_def Let_def)

theorem channel_wal_durable_witness:
  "let w = cd_wal (cs_disk (snd (append_all (\<lambda>_. 0) sample_appends sample_store)))
   in fi_bytes w \<in> crash_images w
      \<and> (\<exists>m kept. recover_wal (\<lambda>_. 0) open_succeeds w = Some (Inr (take m [Finish 5 77, Empty 9]), kept) \<and> 0 < m)"
proof -
  let ?t = "snd (append_all (\<lambda>_. 0) sample_appends sample_store)"
  let ?w = "cd_wal (cs_disk ?t)"
  obtain n k where "store_inv (\<lambda>_. 0) (map fst (take n sample_appends)) k ?t"
    using append_all_inv [OF store_inv_fresh, of sample_store "\<lambda>_. 0" sample_appends
        "fst (append_all (\<lambda>_. 0) sample_appends sample_store)" ?t]
    by (auto simp: fresh_store_def sample_store_def)
  then have b: "fi_bytes ?w \<in> crash_images ?w"
    by (auto simp: crash_images_def store_inv_def Let_def intro!: exI [of _ "length (fi_bytes ?w)"])
  have "\<exists>m kept. recover_wal (\<lambda>_. 0) open_succeeds ?w = Some (Inr (take m (map fst sample_appends)), kept)
      \<and> (\<forall>i < length sample_appends. fst (append_all (\<lambda>_. 0) sample_appends sample_store) ! i = Inr () \<longrightarrow> i < m)"
    (is "\<exists>m kept. ?P m kept")
    by (rule channel_wal_durable [OF _ _ b])
      (simp_all add: fresh_store_def sample_store_def sample_appends_def max_recovery_commands_def
        checkpoint_interval_def del: append_all.simps)
  then obtain m kept where m: "?P m kept" by blast
  have "length sample_appends = 2" "map fst sample_appends = [Finish 5 77, Empty 9]"
    by (simp_all add: sample_appends_def)
  then have "recover_wal (\<lambda>_. 0) open_succeeds ?w = Some (Inr (take m [Finish 5 77, Empty 9]), kept) \<and> 0 < m"
    using m sample_appends_results by auto
  with b show ?thesis unfolding Let_def by blast
qed

section \<open>The command codec is exact\<close>

lemma body_tail: "body = tag # rest \<Longrightarrow> body = [tag] @ slice 1 (length body) body"
  by (simp add: slice_def)

lemma decode_command_sound:
  assumes "decode_command body = Inr c"
  shows "body = encode_command c \<and> command_valid c"
proof (cases body)
  case Nil
  then show ?thesis using assms by (simp add: decode_command_def)
next
  case (Cons tag rest)
  let ?s = "\<lambda>i j. slice i j body"
  have b: "body = [tag] @ ?s 1 (length body)" by (rule body_tail [OF Cons])
  have w: "i \<le> j \<Longrightarrow> j \<le> length body \<Longrightarrow> length (?s i j) = j - i" for i j by simp
  consider (finish) "tag = 1" "length body = 17" "c = Finish (from_be_bytes (?s 1 9)) (from_be_bytes (?s 9 17))"
    | (requeue) "tag = 2" "length body = 27" "c = Requeue (from_be_bytes (?s 1 9)) (from_be_bytes (?s 9 17))
          (i64_from_be_bytes (?s 17 25)) (from_be_bytes (?s 25 27)) None"
    | (pause) "tag = 3" "length body = 2" "body ! 1 \<le> 1" "c = Pause (body ! 1 = 1)"
    | (empty) "tag = 4" "length body = 9" "c = Empty (from_be_bytes (?s 1 9))"
    | (evict) "tag = 5" "length body = 9" "c = Evict (from_be_bytes (?s 1 9))"
    | (timeout) "tag = 6" "length body = 9" "c = Timeout (from_be_bytes (?s 1 9))"
    | (counted) "tag = 7" "length body = 35" "c = Requeue (from_be_bytes (?s 1 9)) (from_be_bytes (?s 9 17))
          (i64_from_be_bytes (?s 17 25)) (from_be_bytes (?s 25 27)) (Some (from_be_bytes (?s 27 35)))"
    using assms Cons by (auto simp: decode_command_def split: if_splits)
  then show ?thesis
  proof cases
    case finish
    have "?s 1 17 = ?s 1 9 @ ?s 9 17" by (rule slice_split) simp_all
    then show ?thesis using b finish w
      by (simp add: encode_command_def to_from_be_bytes_u64)
  next
    case requeue
    have "?s 1 27 = ?s 1 9 @ ?s 9 17 @ ?s 17 25 @ ?s 25 27" by (simp add: slice_split [symmetric])
    then show ?thesis using b requeue w
      by (simp add: encode_command_def to_from_be_bytes_u64 to_from_be_bytes_i64 to_from_be_bytes_u16 in_i64_from_be_bytes)
  next
    case pause
    have "body ! 1 = 0 \<or> body ! 1 = 1" using pause(3) by (auto simp: word_le_nat_alt word_unat_eq_iff)
    moreover have "body = [tag, body ! 1]" using pause(2) Cons by (cases rest) auto
    ultimately show ?thesis using pause by (auto simp: encode_command_def)
  next
    case counted
    have "?s 1 35 = ?s 1 9 @ ?s 9 17 @ ?s 17 25 @ ?s 25 27 @ ?s 27 35" by (simp add: slice_split [symmetric])
    then show ?thesis using b counted w
      by (simp add: encode_command_def to_from_be_bytes_u64 to_from_be_bytes_i64 to_from_be_bytes_u16 in_i64_from_be_bytes)
  qed (use b w in \<open>simp_all add: encode_command_def to_from_be_bytes_u64\<close>)
qed

text \<open>
  C16: the command codec of the Channel log is exact: a body decodes to a command if and only
  if it is that command's encoding, so every command whose delay is a 64-bit integer
  survives encoding and no two bodies mean the same command.
\<close>

theorem command_codec_exact:
  "decode_command body = Inr c \<longleftrightarrow> body = encode_command c \<and> command_valid c"
  using decode_command_sound decode_encode_command by blast

section \<open>Recovery of arbitrary bytes\<close>

lemma frame_command_slice:
  assumes "offset + 12 + n \<le> length wal" and "slice offset (offset + 4) wal = wal_magic"
    and "n = unat (from_be_bytes (slice (offset + 4) (offset + 8) wal) :: u32)"
    and "slice (offset + 12) (offset + 12 + n) wal = encode_command c"
    and "crc32c (encode_command c) = from_be_bytes (slice (offset + 8) (offset + 12) wal)"
  shows "slice offset (offset + 12 + n) wal = frame_command crc32c c"
proof -
  have "length (encode_command c) = n" using assms(1,4) by (metis add_diff_cancel_left' length_slice)
  then have "to_be_bytes (word_of_nat (length (encode_command c)) :: u32) = slice (offset + 4) (offset + 8) wal"
    using assms(1,3) by (simp add: to_from_be_bytes_u32)
  moreover have "to_be_bytes (crc32c (encode_command c)) = slice (offset + 8) (offset + 12) wal"
    using assms(1,5) by (simp add: to_from_be_bytes_u32)
  ultimately have "frame_command crc32c c = slice offset (offset + 4) wal @ slice (offset + 4) (offset + 8) wal
      @ slice (offset + 8) (offset + 12) wal @ slice (offset + 12) (offset + 12 + n) wal"
    using assms(2,4) by (simp add: frame_command_def Let_def)
  also have "\<dots> = slice offset (offset + 12 + n) wal"
    using slice_split [of offset "offset + 4" "offset + 12 + n" wal]
      slice_split [of "offset + 4" "offset + 8" "offset + 12 + n" wal]
      slice_split [of "offset + 8" "offset + 12" "offset + 12 + n" wal] by simp
  finally show ?thesis by simp
qed

interpretation channel_wal_parser: frame_parser "\<lambda>bytes. wal_step crc32c io (f\<lparr>fi_bytes := bytes\<rparr>)" "frame_command crc32c"
  "\<lambda>commands c. command_valid c \<and> length commands < max_recovery_commands" "\<lambda>c commands. commands @ [c]"
  for crc32c io f
proof
  fix wal offset offset' and cs cs' :: "channel_command list"
  assume step: "wal_step crc32c io (f\<lparr>fi_bytes := wal\<rparr>) (offset, cs) = Inr (offset', cs')"
  define n where "n = unat (from_be_bytes (slice (offset + 4) (offset + 8) wal) :: u32)"
  define body where "body = slice (offset + 12) (offset + 12 + n) wal"
  obtain c where c: "offset + 12 + n \<le> length wal" "slice offset (offset + 4) wal = wal_magic"
      "crc32c body = from_be_bytes (slice (offset + 8) (offset + 12) wal)"
      "decode_command body = Inr c" "length cs < max_recovery_commands" "offset' = offset + 12 + n" "cs' = cs @ [c]"
    using step unfolding wal_step_def body_def n_def
    by (auto simp: Let_def slice_slice split: if_splits sum.splits option.splits)
  have body: "body = encode_command c" "command_valid c" using decode_command_sound [OF c(4)] by simp_all
  have "slice offset (offset + 12 + n) wal = frame_command crc32c c"
    using frame_command_slice [of offset n wal c crc32c] c(1-3) body n_def by (simp add: body_def)
  then show "\<exists>c. (command_valid c \<and> length cs < max_recovery_commands) \<and> cs' = cs @ [c] \<and> offset < offset'
      \<and> offset' \<le> length wal \<and> slice offset offset' wal = frame_command crc32c c"
    using c body by auto
qed

lemma decode_command_error: "decode_command body = Inl e \<Longrightarrow> \<exists>m. e = InvalidRecord m"
  by (auto simp: decode_command_def split: list.splits if_splits)

lemma wal_chain_valid:
  "chain (\<lambda>commands c. command_valid c \<and> length commands < max_recovery_commands) (\<lambda>c commands. commands @ [c]) acc cs
   \<Longrightarrow> length acc \<le> max_recovery_commands
   \<Longrightarrow> list_all command_valid cs \<and> length acc + length cs \<le> max_recovery_commands"
  by (induction cs arbitrary: acc) fastforce+

text \<open>The failing system call whose error recovery reports, other than the sync of the cut.\<close>

definition call_failed :: "open_io \<Rightarrow> broker_error \<Rightarrow> bool" where
  "call_failed io e \<longleftrightarrow>
     (\<exists>error. e = BrIo error
        \<and> (oi_open io = Some error \<or> oi_length io = Some error \<or> oi_set_len io = Some error
           \<or> (\<exists>n. oi_seek io n = Some error \<or> oi_header io n = Some error \<or> oi_body io n = Some error)))"

definition cut_failed :: "(byte list \<Rightarrow> u32) \<Rightarrow> open_io \<Rightarrow> broker_error \<Rightarrow> disk_file \<Rightarrow> disk_file \<Rightarrow> bool" where
  "cut_failed crc32c io e f kept \<longleftrightarrow>
     (\<exists>error cs. e = BrIo error \<and> oi_sync io = Some error
        \<and> kept = set_len (length (frames (frame_command crc32c) cs)) f
        \<and> fi_bytes kept = frames (frame_command crc32c) cs
        \<and> recover_wal crc32c open_succeeds kept = Some (Inr cs, kept))"

lemma recover_complete:
  assumes "fi_bytes f = frames (frame_command crc32c) cs" and "list_all command_valid cs"
    and "length cs \<le> max_recovery_commands"
  shows "recover_wal crc32c open_succeeds f = Some (Inr cs, f)"
proof -
  have "f\<lparr>fi_bytes := frames (frame_command crc32c) cs\<rparr> = f" using assms(1) by simp
  then show ?thesis
    using channel_wal.recover_exact [OF wal_chain [OF assms(2), of "[]"] TrueI, of crc32c f] assms(3)
    by (simp add: recover_wal_def fold_snoc recovered_wal_def)
qed

lemma cut_wal_outcome:
  assumes "take offset (fi_bytes f) = frames (frame_command crc32c) cs" and "offset \<le> length (fi_bytes f)"
    and "list_all command_valid cs" and "length cs \<le> max_recovery_commands" and "cut_wal io offset cs f = (r, kept)"
  shows "case r of
      Inl e \<Rightarrow> kept = f \<and> call_failed io e \<or> cut_failed crc32c io e f kept
    | Inr ds \<Rightarrow> ds = cs \<and> kept = \<lparr>fi_bytes = frames (frame_command crc32c) cs, fi_durable = offset, fi_shadows = []\<rparr>"
proof -
  have len: "length (frames (frame_command crc32c) cs) = offset" using assms(1,2) by (metis length_take min_absorb2)
  have bytes: "fi_bytes (set_len offset f) = frames (frame_command crc32c) cs" using assms(1) by (simp add: set_len_def)
  have "cut_failed crc32c io (BrIo e) f (set_len offset f)" if "oi_sync io = Some e" for e
    unfolding cut_failed_def using that bytes recover_complete [OF bytes assms(3,4)] len by blast
  then show ?thesis
    using assms(5) len bytes
    by (cases "oi_set_len io"; cases "oi_sync io") (auto simp: cut_wal_def sync_file_def call_failed_def set_len_def)
qed

text \<open>
  C12: recovering a Channel log ends, on every file and whichever of its system calls fail. When
  it succeeds, the commands are valid, at most \<open>MAX_RECOVERY_COMMANDS\<close> of them, and the file is
  left with exactly their frames, a prefix of what it held; it is untouched, or its torn tail
  has been cut off and the cut is durable. When it fails, it reports a record that is invalid or
  the call that failed, and the file is untouched, but for one case: the tail has been cut off
  and the sync of the cut failed. The file then holds complete frames, and recovering it again
  returns their commands.
\<close>

theorem recover_wal_exact:
  "\<exists>r kept. recover_wal crc32c io f = Some (r, kept)
     \<and> (case r of
          Inl e \<Rightarrow> kept = f \<and> ((\<exists>m. e = InvalidRecord m) \<or> call_failed io e) \<or> cut_failed crc32c io e f kept
        | Inr cs \<Rightarrow> fi_bytes kept = frames (frame_command crc32c) cs \<and> prefix (fi_bytes kept) (fi_bytes f)
            \<and> (kept = f \<or> fi_durable kept = length (fi_bytes kept) \<and> fi_shadows kept = [])
            \<and> list_all command_valid cs \<and> length cs \<le> max_recovery_commands)"
proof (cases "oi_open io = None \<and> oi_length io = None")
  case False
  then have "\<exists>e. recover_wal crc32c io f = Some (Inl (BrIo e), f) \<and> call_failed io (BrIo e)"
    by (cases "oi_open io"; cases "oi_length io") (auto simp: recover_wal_def call_failed_def)
  then show ?thesis by auto
next
  case True
  obtain r offset cs where r: "recover_wal crc32c io f = Some r" "wal_step crc32c io f (offset, cs) = Inl r"
      "offset \<le> length (fi_bytes f)" "take offset (fi_bytes f) = frames (frame_command crc32c) cs"
      "list_all command_valid cs" "length cs \<le> max_recovery_commands"
    using channel_wal_parser.parse_exact [of crc32c io "fi_bytes f" f "[]"] wal_chain_valid [of "[]"] True
    by (fastforce simp: recover_wal_def fold_snoc)
  have len: "length (frames (frame_command crc32c) cs) = offset" using r(3,4) by (metis length_take min_absorb2)
  have "(\<exists>e. r = (Inl e, f) \<and> ((\<exists>m. e = InvalidRecord m) \<or> call_failed io e))
      \<or> r = (Inr cs, f) \<and> \<not> offset < length (fi_bytes f) \<or> r = cut_wal io offset cs f"
    using r(2) decode_command_error
    by (auto simp: wal_step_def call_failed_def Let_def split: if_splits sum.splits option.splits)
  then consider e where "r = (Inl e, f)" "(\<exists>m. e = InvalidRecord m) \<or> call_failed io e"
    | "r = (Inr cs, f)" "\<not> offset < length (fi_bytes f)" | "r = cut_wal io offset cs f" by blast
  then show ?thesis
  proof cases
    case 1
    then show ?thesis using r(1) by auto
  next
    case 2
    then show ?thesis using r by auto
  next
    case 3
    obtain r1 kept where k: "r = (r1, kept)" by fastforce
    have "case r1 of
        Inl e \<Rightarrow> kept = f \<and> call_failed io e \<or> cut_failed crc32c io e f kept
      | Inr ds \<Rightarrow> ds = cs \<and> kept = \<lparr>fi_bytes = frames (frame_command crc32c) cs, fi_durable = offset, fi_shadows = []\<rparr>"
      by (rule cut_wal_outcome [OF r(4,3,5,6)]) (use 3 k in simp)
    then show ?thesis using r k len take_is_prefix [of offset "fi_bytes f"] by (auto split: sum.splits)
  qed
qed

section \<open>Checkpoints\<close>

lemma parse_checkpoint_bytes:
  assumes "length body \<le> max_checkpoint_bytes"
  shows "parse_checkpoint crc32c from_json (checkpoint_bytes crc32c body)
       = (case from_json body of Inl e \<Rightarrow> Inl (InvalidRecord e) | Inr cp \<Rightarrow> Inr cp)"
proof -
  have "unat (word_of_nat (length body) :: u32) = length body"
    using assms by (simp add: max_checkpoint_bytes_def unat_of_nat)
  then show ?thesis
    using assms by (simp add: parse_checkpoint_def checkpoint_bytes_def checkpoint_magic_def codec_simps Let_def slice_def)
qed

text \<open>A checkpoint file that holds the checkpoint of a state.\<close>

definition holds_checkpoint ::
  "(byte list \<Rightarrow> u32) \<Rightarrow> (byte list \<Rightarrow> string + channel_checkpoint) \<Rightarrow> byte list option \<Rightarrow> channel_state \<Rightarrow> bool" where
  "holds_checkpoint crc32c from_json ck state \<longleftrightarrow>
     (\<exists>body. ck = Some (checkpoint_bytes crc32c body) \<and> length body \<le> max_checkpoint_bytes
             \<and> from_json body = Inr (checkpoint state))"

lemma read_holds: "holds_checkpoint crc32c from_json ck state \<Longrightarrow> read_checkpoint crc32c from_json open_succeeds ck = Inr (checkpoint state)"
  by (auto simp: holds_checkpoint_def read_checkpoint_def parse_checkpoint_bytes)
    (simp add: checkpoint_bytes_def checkpoint_magic_def)

lemma write_checkpoint_outcome:
  assumes "write_checkpoint crc32c to_json fault (checkpoint state) old = (r, new)"
    and "\<And>body. to_json (checkpoint state) = Inr body \<Longrightarrow> from_json body = Inr (checkpoint state)"
  shows "(new = old \<and> r \<noteq> Inr ()) \<or> holds_checkpoint crc32c from_json new state"
proof (cases "to_json (checkpoint state)")
  case (Inl e)
  then show ?thesis using assms(1) by (auto simp: write_checkpoint_def)
next
  case (Inr body)
  then show ?thesis using assms
    by (auto simp: write_checkpoint_def store_bytes_atomic_def holds_checkpoint_def
        split: if_splits replace_fault.splits)
qed

lemma restore_succeeds:
  assumes "book_inv s"
  obtains r where "from_checkpoint (checkpoint s) gap = Inr r" "ch_absent_ranges r = []"
    "settled r \<union> ranges_set (ch_absent_ranges s) = settled s"
  using book_invD(7,8) [OF assms]
  by (auto simp: from_checkpoint_def checkpoint_def settled_def Let_def not_less Un_assoc)

lemma open_settles:
  assumes "holds_checkpoint crc32c from_json ck x" and "book_inv x"
    and "validate_name (ch_name x) = Inr ()" and "stem = hex_encode (ch_name x)"
    and "recover_wal crc32c open_succeeds f = Some (Inr ds, kept)"
  shows "\<exists>st store kept. open_store crc32c from_json hex_encode open_succeeds stem ck f gap = Some (Inr (st, store), kept)
     \<and> settled st \<union> ranges_set (ch_absent_ranges x) = settled x \<union> (\<Union>c \<in> set ds. command_effect c)"
proof -
  obtain r where r: "from_checkpoint (checkpoint x) gap = Inr r" "ch_absent_ranges r = []"
    "settled r \<union> ranges_set (ch_absent_ranges x) = settled x"
    using restore_succeeds [OF assms(2)] by blast
  have "settled (fold apply_command ds r) = settled r \<union> (\<Union>c \<in> set ds. command_effect c)"
    using channel_log.replay_done [of r ds] r(2) by simp
  then have "settled (fold apply_command ds r) \<union> ranges_set (ch_absent_ranges x)
      = settled x \<union> (\<Union>c \<in> set ds. command_effect c)"
    using r(3) by blast
  moreover have "cp_name (checkpoint x) = ch_name x" by (simp add: checkpoint_def)
  ultimately show ?thesis
    using assms r(1) read_holds [OF assms(1)] by (simp add: open_store_def)
qed

lemma recover_prefix:
  assumes "prefix (fi_bytes f) (frames (frame_command crc32c) cs)" and "list_all command_valid cs"
    and "length cs \<le> max_recovery_commands"
  shows "\<exists>m kept. recover_wal crc32c open_succeeds f = Some (Inr (take m cs), kept)
           \<and> (fi_bytes f = frames (frame_command crc32c) cs \<longrightarrow> take m cs = cs)"
proof -
  have "chain (\<lambda>commands c. command_valid c \<and> length commands < max_recovery_commands) (\<lambda>c commands. commands @ [c]) [] cs"
    using wal_chain [of cs "[]"] assms(2,3) by simp
  from channel_wal.recover_crashed [OF this assms(1) TrueI, of f] obtain m where "m \<le> length cs"
      "loop (wal_step crc32c open_succeeds (f\<lparr>fi_bytes := fi_bytes f\<rparr>)) (0, [])
        = Some (Inr (fold (\<lambda>c cs. cs @ [c]) (take m cs) []), recovered_wal f (frames (frame_command crc32c) (take m cs))
            (length (fi_bytes f) - length (frames (frame_command crc32c) (take m cs))))"
      "\<forall>j \<le> length cs. length (frames (frame_command crc32c) (take j cs)) \<le> length (fi_bytes f) \<longrightarrow> j \<le> m"
    by auto
  then show ?thesis by (intro exI [of _ m] exI) (auto simp: recover_wal_def fold_snoc)
qed

lemma reset_trace:
  assumes "write_checkpoint_and_reset crc32c to_json fault io state s = (r, t, trace)"
    and "write_checkpoint crc32c to_json fault (checkpoint state) (cd_checkpoint (cs_disk s)) = (wr, new)"
  shows "d \<in> set trace \<Longrightarrow> cd_checkpoint d = new
     \<and> (wr \<noteq> Inr () \<longrightarrow> cd_wal d = cd_wal (cs_disk s))
     \<and> (cd_wal d = cd_wal (cs_disk s) \<or> cd_wal d = set_len 0 (cd_wal (cs_disk s))
        \<or> cd_wal d = \<lparr>fi_bytes = [], fi_durable = 0, fi_shadows = []\<rparr>)"
proof (cases wr)
  case (Inl e)
  assume "d \<in> set trace"
  then show ?thesis using assms Inl by (auto simp: write_checkpoint_and_reset_def Let_def)
next
  case (Inr u)
  assume d: "d \<in> set trace"
  have "set trace \<subseteq> {(cs_disk s)\<lparr>cd_checkpoint := new\<rparr>,
      (cs_disk s)\<lparr>cd_checkpoint := new, cd_wal := set_len 0 (cd_wal (cs_disk s))\<rparr>,
      (cs_disk s)\<lparr>cd_checkpoint := new, cd_wal := \<lparr>fi_bytes = [], fi_durable = 0, fi_shadows = []\<rparr>\<rparr>}"
    using assms Inr
    by (simp add: write_checkpoint_and_reset_def sync_file_def set_len_def io_call_def Let_def
        split: option.splits) auto
  then show ?thesis using d Inr by auto
qed

lemma checkpoint_trace:
  assumes "checkpoint_store crc32c to_json fault io state s = (r, t, trace)"
    and "\<And>body. to_json (checkpoint state) = Inr body \<Longrightarrow> from_json body = Inr (checkpoint state)"
    and "d \<in> set (cs_disk s # trace)"
  shows "(cd_checkpoint d = cd_checkpoint (cs_disk s) \<and> cd_wal d = cd_wal (cs_disk s))
     \<or> (holds_checkpoint crc32c from_json (cd_checkpoint d) state
        \<and> (cd_wal d = cd_wal (cs_disk s) \<or> cd_wal d = set_len 0 (cd_wal (cs_disk s))
           \<or> cd_wal d = \<lparr>fi_bytes = [], fi_durable = 0, fi_shadows = []\<rparr>))"
proof (cases "d = cs_disk s")
  case False
  then have d: "d \<in> set trace" using assms(3) by simp
  then have iso: "\<not> cs_isolated s" using assms(1) by (auto simp: checkpoint_store_def ensure_available_def)
  obtain wr new where w: "write_checkpoint crc32c to_json fault (checkpoint state) (cd_checkpoint (cs_disk s)) = (wr, new)"
    by fastforce
  obtain r1 t1 trace1 where rs: "write_checkpoint_and_reset crc32c to_json fault io state s = (r1, t1, trace1)"
    by (rule prod_cases3)
  have "trace1 = trace"
    using assms(1) rs iso by (cases r1) (auto simp: checkpoint_store_def ensure_available_def)
  moreover have "(new = cd_checkpoint (cs_disk s) \<and> wr \<noteq> Inr ()) \<or> holds_checkpoint crc32c from_json new state"
    by (rule write_checkpoint_outcome [OF w]) (rule assms(2))
  ultimately show ?thesis using reset_trace [OF rs w, of d] d by auto
qed simp

text \<open>
  C13: taking a checkpoint is crash safe at every step. Whichever file operation fails or is
  cut short by a crash, and whatever part of the old log is still on the disk, opening the
  Channel succeeds, if the system calls of opening it do, and settles exactly the positions the checkpointed state has settled,
  up to the absent positions that recovery fences again.
\<close>

theorem channel_checkpoint_crash_safe:
  assumes "chan_reach due base" and "chan_reach due state"
    and "ch_absent_ranges state = ch_absent_ranges base"
    and "settled state = settled base \<union> (\<Union>c \<in> set cs. command_effect c)"
    and "validate_name (ch_name base) = Inr ()" and "ch_name state = ch_name base"
    and "stem = hex_encode (ch_name base)"
    and "holds_checkpoint crc32c from_json (cd_checkpoint (cs_disk s)) base"
    and "store_inv crc32c cs (length cs) s" and "list_all command_valid cs"
    and "length cs \<le> max_recovery_commands"
    and "\<And>body. to_json (checkpoint state) = Inr body \<Longrightarrow> from_json body = Inr (checkpoint state)"
    and "checkpoint_store crc32c to_json fault io state s = (r, t, trace)"
    and "d \<in> set (cs_disk s # trace)" and "fi_bytes f \<in> crash_images (cd_wal d)"
  shows "\<exists>st store kept. open_store crc32c from_json hex_encode open_succeeds stem (cd_checkpoint d) f gap = Some (Inr (st, store), kept)
           \<and> settled st \<union> ranges_set (ch_absent_ranges state) = settled state"
proof -
  let ?F = "frames (frame_command crc32c) cs" and ?w = "cd_wal (cs_disk s)"
  have books: "book_inv base" "book_inv state"
    using chan_reach_inv [OF assms(1)] chan_reach_inv [OF assms(2)] by (simp_all add: chan_inv_def)
  have wal: "fi_shadows ?w = []" "prefix (fi_bytes ?w) ?F" "length ?F \<le> fi_durable ?w" "fi_durable ?w \<le> length (fi_bytes ?w)"
    using assms(9) by (auto simp: store_inv_def Let_def)
  have full: "fi_bytes ?w = ?F"
    using wal prefix_length_le [OF wal(2)] by (metis le_antisym order_trans prefix_order.order_refl
        append_eq_conv_conj prefix_def take_all)
  have same: "x = ?F" if "x \<in> crash_images ?w" for x
    using crash_image_prefix [OF wal(1) that] wal full by (metis append_take_drop_id le_antisym prefix_def
        prefix_length_le append_eq_conv_conj take_all order_trans)
  from checkpoint_trace [OF assms(13,12,14)] show ?thesis
  proof
    assume old: "cd_checkpoint d = cd_checkpoint (cs_disk s) \<and> cd_wal d = ?w"
    then obtain m kept where "recover_wal crc32c open_succeeds f = Some (Inr (take m cs), kept)" "take m cs = cs"
      using recover_prefix [of f crc32c cs] same [of "fi_bytes f"] assms(10,11,15) by auto
    then show ?thesis
      using open_settles [OF assms(8) books(1) assms(5), of stem hex_encode f cs kept gap] old assms(3,4,7) by auto
  next
    assume new: "holds_checkpoint crc32c from_json (cd_checkpoint d) state
        \<and> (cd_wal d = ?w \<or> cd_wal d = set_len 0 ?w \<or> cd_wal d = \<lparr>fi_bytes = [], fi_durable = 0, fi_shadows = []\<rparr>)"
    have "prefix (fi_bytes f) ?F"
    proof (cases "cd_wal d = ?w")
      case True
      then show ?thesis using same [of "fi_bytes f"] assms(15) by simp
    next
      case False
      then have "cd_wal d = set_len 0 ?w \<or> fi_bytes f = []"
        using new assms(15) by (auto simp: crash_images_def)
      then show ?thesis
        using assms(15) full wal(1) by (auto simp: set_len_def crash_images_def take_is_prefix)
    qed
    then obtain m kept where m: "recover_wal crc32c open_succeeds f = Some (Inr (take m cs), kept)"
      using recover_prefix assms(10,11) by blast
    have "stem = hex_encode (ch_name state)" "validate_name (ch_name state) = Inr ()"
      using assms(5-7) by simp_all
    from open_settles [where hex_encode = hex_encode, OF conjunct1 [OF new] books(2) this(2,1) m, of gap]
    obtain st store kept' where st: "open_store crc32c from_json hex_encode open_succeeds stem (cd_checkpoint d) f gap = Some (Inr (st, store), kept')"
        "settled st \<union> ranges_set (ch_absent_ranges state) = settled state \<union> (\<Union>c \<in> set (take m cs). command_effect c)"
      by blast
    have "(\<Union>c \<in> set (take m cs). command_effect c) \<subseteq> settled state"
      using assms(4) set_take_subset [of m cs] by blast
    then show ?thesis using st by (simp only: Un_absorb2) blast
  qed
qed

definition sample_finished :: channel_state where
  "sample_finished = apply_command (Finish 5 77) sample_channel"

definition sample_from_json :: "byte list \<Rightarrow> string + channel_checkpoint" where
  "sample_from_json body = Inr (checkpoint (if body = [] then sample_channel else sample_finished))"

definition sample_logged :: channel_store where
  "sample_logged = \<lparr>cs_stem = ''orders'', cs_disk = \<lparr>cd_checkpoint = Some (checkpoint_bytes (\<lambda>_. 0) []),
      cd_wal = \<lparr>fi_bytes = frame_command (\<lambda>_. 0) (Finish 5 77),
                fi_durable = length (frame_command (\<lambda>_. 0) (Finish 5 77)), fi_shadows = []\<rparr>\<rparr>,
      cs_pending_wal = [], cs_commands_since_checkpoint = 1, cs_isolated = False\<rparr>"

text \<open>The disk between the rename of the new checkpoint and the truncation of the old log.\<close>

definition sample_between :: channel_disk where
  "sample_between = (cs_disk sample_logged)\<lparr>cd_checkpoint := Some (checkpoint_bytes (\<lambda>_. 0) [1])\<rparr>"

theorem channel_checkpoint_crash_safe_witness:
  "\<exists>st store kept. open_store (\<lambda>_. 0) sample_from_json id open_succeeds ''orders'' (cd_checkpoint sample_between)
       (cd_wal sample_between) 8 = Some (Inr (st, store), kept)
     \<and> settled st \<union> ranges_set (ch_absent_ranges sample_finished) = settled sample_finished"
proof -
  let ?out = "checkpoint_store (\<lambda>_. 0) (\<lambda>_. Inr [1]) NoFault (\<lambda>_. None) sample_finished sample_logged"
  have ranges: "ch_absent_ranges sample_finished = ch_absent_ranges sample_channel"
    by (simp add: sample_finished_def apply_ranges del: apply_command.simps)
  have none: "ch_absent_ranges sample_channel = []" "ch_name sample_channel = ''orders''"
    by (simp_all add: sample_channel_def new_channel_def)
  have name: "ch_name sample_finished = ch_name sample_channel"
    by (simp add: sample_finished_def acknowledge_def Let_def)
  have reach: "chan_reach (\<lambda>_. 0) sample_finished"
    unfolding sample_finished_def
    by (rule chan_reach.command [OF sample_reach]) (simp add: is_absent_no_ranges none)
  show ?thesis
  proof (rule channel_checkpoint_crash_safe [where due = "\<lambda>_. 0" and base = sample_channel and cs = "[Finish 5 77]"
        and s = sample_logged and to_json = "\<lambda>_. Inr [1]" and fault = NoFault and io = "\<lambda>_. None"
        and r = "fst ?out" and t = "fst (snd ?out)" and trace = "snd (snd ?out)", OF sample_reach reach ranges])
    show "settled sample_finished = settled sample_channel \<union> (\<Union>c \<in> set [Finish 5 77]. command_effect c)"
      unfolding sample_finished_def by (subst settled_apply) (simp_all add: none)
    show "validate_name (ch_name sample_channel) = Inr ()"
      by (simp add: none validate_name_def strip_suffix_def name_char_def is_ascii_alphanumeric_def)
    show "holds_checkpoint (\<lambda>_. 0) sample_from_json (cd_checkpoint (cs_disk sample_logged)) sample_channel"
      by (auto simp: holds_checkpoint_def sample_logged_def sample_from_json_def max_checkpoint_bytes_def)
    show "store_inv (\<lambda>_. 0) [Finish 5 77] (length [Finish 5 77]) sample_logged"
      by (simp add: store_inv_def sample_logged_def)
    show "sample_between \<in> set (cs_disk sample_logged # snd (snd ?out))"
      by (simp add: checkpoint_store_def ensure_available_def write_checkpoint_and_reset_def write_checkpoint_def
          store_bytes_atomic_def io_call_def sync_file_def sample_logged_def sample_between_def Let_def
          max_checkpoint_bytes_def max_metadata_bytes_def checkpoint_bytes_def checkpoint_magic_def)
    show "fi_bytes (cd_wal sample_between) \<in> crash_images (cd_wal sample_between)"
      by (auto simp: crash_images_def sample_between_def sample_logged_def
          intro!: exI [of _ "length (frame_command (\<lambda>_. 0) (Finish 5 77))"])
  qed (use none name in \<open>simp_all add: sample_from_json_def max_recovery_commands_def checkpoint_interval_def\<close>)
qed

section \<open>Creation\<close>

text \<open>
  C14: a Channel that reuses a name never replays commands of its former life. Whatever files
  a store is created over and wherever a crash or an error stops the creation, a disk
  that shows a new checkpoint has a log that can only be empty; a created store starts with
  an empty log on exactly that disk.
\<close>

theorem channel_create_no_stale:
  assumes "create_store crc32c to_json hex_encode io fault state disk = (r, trace)"
  shows "(d \<in> set trace \<longrightarrow> cd_checkpoint d \<noteq> cd_checkpoint disk \<longrightarrow> crash_images (cd_wal d) = {[]})
     \<and> (\<forall>s. r = Inr s \<longrightarrow> fresh_store s \<and> cs_disk s \<in> set trace \<and> cs_stem s = hex_encode (ch_name state))"
proof -
  have img: "crash_images \<lparr>fi_bytes = [], fi_durable = 0, fi_shadows = []\<rparr> = {[]}"
    by (auto simp: crash_images_def)
  show ?thesis
    using assms
    by (auto simp: create_store_def io_call_def sync_file_def set_len_def fresh_store_def img Let_def
        split: option.splits prod.splits sum.splits)
qed

theorem channel_create_no_stale_witness:
  "\<exists>s trace. create_store (\<lambda>_. 0) (\<lambda>_. Inr []) id (\<lambda>_. None) NoFault sample_channel (cs_disk sample_logged) = (Inr s, trace)
     \<and> fresh_store s"
proof -
  obtain r trace where c: "create_store (\<lambda>_. 0) (\<lambda>_. Inr []) id (\<lambda>_. None) NoFault sample_channel (cs_disk sample_logged) = (r, trace)"
    by fastforce
  then obtain s where "r = Inr s"
    by (auto simp: create_store_def io_call_def sync_file_def write_checkpoint_def store_bytes_atomic_def Let_def
        max_checkpoint_bytes_def max_metadata_bytes_def checkpoint_bytes_def checkpoint_magic_def)
  with c channel_create_no_stale [OF c] show ?thesis by blast
qed

section \<open>Expiry with the store\<close>

lemma sat_add_ge: "a \<le> sat_add a (b :: u64)"
  using unat_le_u64_max [of a] by (simp add: word_le_nat_alt unat_sat_add_u64)

lemma fold_give_back_timeouts: "ch_timeout_count (fold give_back ps s) = ch_timeout_count s"
  by (induction ps arbitrary: s) (simp_all add: give_back_def Let_def)

lemma checkpoint_failed_isolates:
  "checkpoint_if_needed crc32c to_json fault io state s = (Inl e, t, trace) \<Longrightarrow> cs_isolated t"
  by (auto simp: checkpoint_if_needed_def checkpoint_store_def ensure_available_def
      split: if_splits prod.splits sum.splits)

definition expired_state :: "bool \<Rightarrow> instant \<Rightarrow> channel_state \<Rightarrow> channel_state" where
  "expired_state durable now s =
     (let n = sat_add (ch_timeout_count s) (word_of_nat (length (expired_positions s now)));
          t = expire_positions (expired_positions s now) s
      in if durable then apply_command (Timeout n) t else t\<lparr>ch_timeout_count := n\<rparr>)"

definition overdue :: "instant \<Rightarrow> channel_state \<Rightarrow> u64 set" where
  "overdue now s = {p. \<exists>fl. fmlookup (ch_in_flight s) p = Some fl \<and> fl_deadline fl \<le> now}"

lemma expired_positions_overdue:
  assumes "chan_reach due s"
  shows "set (expired_positions s now) = overdue now s" and "length (expired_positions s now) = card (overdue now s)"
proof -
  have inv: "index_inv s" using chan_reach_inv [OF assms] by (simp add: chan_inv_def)
  show eq: "set (expired_positions s now) = overdue now s"
    using expired_positions_in_flight [OF inv, of _ now] expired_positions_complete [OF inv, of _ _ now]
    by (auto simp: overdue_def)
  show "length (expired_positions s now) = card (overdue now s)"
    using distinct_card [OF distinct_expired_positions [OF inv, of now]] eq by simp
qed

text \<open>
  What expiry is to do: the overdue deliveries leave the flight and wait for redelivery, the
  timeouts are counted, and nothing else of the Channel changes but the indexes of the flight.
\<close>

definition expiry_of :: "instant \<Rightarrow> channel_state \<Rightarrow> channel_state \<Rightarrow> bool" where
  "expiry_of now s t \<longleftrightarrow>
     (\<forall>p. fmlookup (ch_in_flight t) p = (if p \<in> overdue now s then None else fmlookup (ch_in_flight s) p))
     \<and> fset (ch_redelivery t) = fset (ch_redelivery s) \<union> overdue now s
     \<and> ch_timeout_count t = sat_add (ch_timeout_count s) (word_of_nat (card (overdue now s)))
     \<and> t = s\<lparr>ch_in_flight := ch_in_flight t, ch_in_flight_ids := ch_in_flight_ids t,
             ch_in_flight_deadlines := ch_in_flight_deadlines t, ch_redelivery := ch_redelivery t,
             ch_timeout_count := ch_timeout_count t\<rparr>"

lemma fold_give_back_frame:
  "fold give_back ps s = s\<lparr>ch_in_flight := ch_in_flight (fold give_back ps s), ch_in_flight_ids := ch_in_flight_ids (fold give_back ps s),
     ch_in_flight_deadlines := ch_in_flight_deadlines (fold give_back ps s), ch_redelivery := ch_redelivery (fold give_back ps s)\<rparr>"
proof -
  have "\<exists>fl ids dl rd. fold give_back ps s
      = s\<lparr>ch_in_flight := fl, ch_in_flight_ids := ids, ch_in_flight_deadlines := dl, ch_redelivery := rd\<rparr>"
  proof (induction ps arbitrary: s)
    case Nil
    show ?case by (rule exI [of _ "ch_in_flight s"], rule exI [of _ "ch_in_flight_ids s"],
        rule exI [of _ "ch_in_flight_deadlines s"], rule exI [of _ "ch_redelivery s"]) simp
  next
    case (Cons p ps)
    then show ?case using Cons [of "give_back p s"]
      by (auto simp: give_back_def remove_in_flight_def Let_def split: option.splits)
  qed
  then show ?thesis by auto
qed

lemma expired_state_facts:
  assumes "chan_reach due s"
  shows "expiry_of now s (expired_state durable now s)" and "chan_reach due (expired_state durable now s)"
proof -
  let ?ps = "expired_positions s now"
  let ?n = "sat_add (ch_timeout_count s) (word_of_nat (length ?ps))"
  note over = expired_positions_overdue [OF assms, of now]
  have ge: "ch_timeout_count s \<le> ?n" by (rule sat_add_ge)
  then have eq: "expired_state durable now s = (expire_positions ?ps s)\<lparr>ch_timeout_count := ?n\<rparr>"
    by (simp add: expired_state_def Let_def expire_positions_fold fold_give_back_timeouts max_absorb2)
  show "expiry_of now s (expired_state durable now s)"
    unfolding expiry_of_def eq expire_positions_fold over(2) [symmetric]
    using fold_give_back_frame [of ?ps s]
    by (simp add: fold_give_back_fields over(1) fset_of_list.rep_eq)
  have "expired_state durable now s = apply_command (Timeout ?n) (expire_positions ?ps s)"
    using ge by (simp add: eq expire_positions_fold fold_give_back_timeouts max_absorb2)
  then show "chan_reach due (expired_state durable now s)"
    using chan_reach.command [OF chan_reach.expired [OF assms], of "Timeout ?n"] by simp
qed

lemma nothing_overdue:
  assumes "overdue now s = {}"
  shows "expiry_of now s s"
  using assms unat_le_u64_max [of "ch_timeout_count s"]
  by (simp add: expiry_of_def word_unat_eq_iff unat_sat_add_u64)

text \<open>
  C15: expiry does what it should and is logged before it is visible. On success the number
  returned is the number of overdue deliveries; exactly these have left the flight and wait for
  redelivery, the timeout counter has grown by their number, saturating, and the rest of the
  Channel is as it was. If the timeout command cannot be made durable, its error is returned and
  the Channel is unchanged; once it is durable, exactly the overdue deliveries have expired, even
  if the checkpoint that may follow fails. Every failure leaves the store isolated, and the
  Channel is always in a state it can reach.
\<close>

theorem channel_expire_logged_first:
  assumes "chan_reach due (cr_state rt)"
    and "expire_in_flight crc32c to_json wr sy fault io now rt = (r, rt')"
  shows "(case r of
            Inl e \<Rightarrow> (\<exists>s. cr_store rt' = Some s \<and> cs_isolated s)
              \<and> (cr_state rt' = cr_state rt \<or> expiry_of now (cr_state rt) (cr_state rt'))
          | Inr n \<Rightarrow> n = card (overdue now (cr_state rt)) \<and> expiry_of now (cr_state rt) (cr_state rt'))
     \<and> (cr_durable_counters rt \<and> overdue now (cr_state rt) \<noteq> {} \<and> cr_store rt = Some store
        \<longrightarrow> (case append_command crc32c wr sy (Timeout (sat_add (ch_timeout_count (cr_state rt))
                  (word_of_nat (card (overdue now (cr_state rt)))))) store of
              (Inl e, s1) \<Rightarrow> r = Inl e \<and> rt' = rt\<lparr>cr_store := Some s1\<rparr>
            | (Inr _, s1) \<Rightarrow> expiry_of now (cr_state rt) (cr_state rt')))
     \<and> chan_reach due (cr_state rt')"
proof (cases "expired_positions (cr_state rt) now = []")
  case True
  then have "overdue now (cr_state rt) = {}" using expired_positions_overdue(1) [OF assms(1), of now] by simp
  moreover have "r = Inr 0" "rt' = rt" using assms(2) True by (simp_all add: expire_in_flight_def)
  ultimately show ?thesis using nothing_overdue assms(1) by simp
next
  case False
  note over = expired_positions_overdue(2) [OF assms(1), of now, symmetric]
  let ?n = "sat_add (ch_timeout_count (cr_state rt)) (word_of_nat (length (expired_positions (cr_state rt) now)))"
  let ?st = "expired_state (cr_durable_counters rt) now (cr_state rt)"
  define logged where "logged = (if cr_durable_counters rt
      then (case cr_store rt of None \<Rightarrow> (Inr (), None)
            | Some store \<Rightarrow> (case append_command crc32c wr sy (Timeout ?n) store of (r, s1) \<Rightarrow> (r, Some s1)))
      else (Inr (), cr_store rt))"
  have eq: "(r, rt') = (case fst logged of
      Inl e \<Rightarrow> (Inl e, rt\<lparr>cr_store := snd logged\<rparr>)
    | Inr _ \<Rightarrow> (case snd logged of
        None \<Rightarrow> (Inr (length (expired_positions (cr_state rt) now)), rt\<lparr>cr_state := ?st, cr_store := None\<rparr>)
      | Some store \<Rightarrow> (case checkpoint_if_needed crc32c to_json fault io ?st store of
          (Inl e, s2, _) \<Rightarrow> (Inl e, rt\<lparr>cr_state := ?st, cr_store := Some s2\<rparr>)
        | (Inr _, s2, _) \<Rightarrow>
            (Inr (length (expired_positions (cr_state rt) now)), rt\<lparr>cr_state := ?st, cr_store := Some s2\<rparr>))))"
    using assms(2) False
    unfolding expire_in_flight_def Let_def logged_def [symmetric] expired_state_def by simp
  note facts = expired_state_facts [OF assms(1), where now = now and durable = "cr_durable_counters rt"]
  show ?thesis
  proof (cases "fst logged")
    case (Inl e)
    then obtain st0 s1 where st: "cr_durable_counters rt" "cr_store rt = Some st0"
        "append_command crc32c wr sy (Timeout ?n) st0 = (Inl e, s1)" "snd logged = Some s1"
      by (auto simp: logged_def split: if_splits option.splits prod.splits)
    then show ?thesis using eq Inl assms(1) append_failed_isolates [OF st(3)] by (auto simp: over)
  next
    case (Inr u)
    then have "cr_durable_counters rt \<and> cr_store rt = Some store
        \<longrightarrow> (\<exists>s1. append_command crc32c wr sy (Timeout ?n) store = (Inr u, s1))"
      by (auto simp: logged_def split: prod.splits)
    moreover have "cr_state rt' = ?st" using eq Inr by (auto split: option.splits prod.splits sum.splits)
    moreover have "case r of Inl e \<Rightarrow> \<exists>s. cr_store rt' = Some s \<and> cs_isolated s | Inr n \<Rightarrow> n = card (overdue now (cr_state rt))"
      using eq Inr checkpoint_failed_isolates [of crc32c to_json fault io ?st]
      by (fastforce simp: over split: option.splits prod.splits sum.splits)
    ultimately show ?thesis using facts by (auto simp: over split: sum.splits)
  qed
qed

definition sample_runtime :: channel_runtime where
  "sample_runtime = \<lparr>cr_state = sample_flight, cr_store = Some sample_store, cr_durable_counters = True\<rparr>"

theorem channel_expire_logged_first_witness:
  "\<exists>rt'. expire_in_flight (\<lambda>_. 0) (\<lambda>_. Inr []) None None NoFault (\<lambda>_. None) 130 sample_runtime = (Inr 1, rt')
     \<and> fmlookup (ch_in_flight (cr_state rt')) 5 = None \<and> 5 |\<in>| ch_redelivery (cr_state rt')"
proof -
  have ps: "expired_positions sample_flight 130 = [5]"
    by (simp add: expired_positions_def expired_entries_def sample_defs sorted_list_of_fset.rep_eq Let_def
        less_eq_prod_def)
  obtain r rt' where e: "expire_in_flight (\<lambda>_. 0) (\<lambda>_. Inr []) None None NoFault (\<lambda>_. None) 130 sample_runtime = (r, rt')"
    by fastforce
  have "chan_reach (\<lambda>_. 0) (cr_state sample_runtime)" by (simp add: sample_runtime_def sample_flight_reach)
  note result = channel_expire_logged_first [OF this e]
  define logged where "logged c = snd (append_command (\<lambda>_. 0) None None c sample_store)" for c
  have "append_command (\<lambda>_. 0) None None c sample_store = (Inr (), logged c)"
    and "cs_commands_since_checkpoint (logged c) = 1" for c
    by (simp_all add: logged_def append_command_def append_buffered_def ensure_available_def sync_store_def
        flush_pending_def write_all_def sync_file_def sample_store_def frame_command_def wal_magic_def Let_def)
  then have "r = Inr 1"
    using e ps by (simp add: expire_in_flight_def sample_runtime_def checkpoint_if_needed_def
        checkpoint_interval_def Let_def)
  moreover have "5 \<in> overdue 130 (cr_state sample_runtime)"
    using expired_positions_overdue(1) [OF sample_flight_reach, of 130] ps by (auto simp: sample_runtime_def)
  ultimately show ?thesis using result e by (auto simp: expiry_of_def)
qed

end
