(* ===== verification/Protocol_Props.thy ===== *)
theory Protocol_Props
  imports Protocol
begin

text \<open>
  The codecs of the wire protocol against reference descriptions: which names are valid,
  which bodies a multi-publish accepts, that a client reads from a message frame what the
  server put in, and that every command a client prints is parsed back.
\<close>

unbundle bit_operations_syntax

section \<open>Names\<close>

lemma name_char_hash: "\<not> name_char CHR ''#''"
  by (simp add: name_char_def is_ascii_alphanumeric_def)

text \<open>
  C20: a name is accepted if and only if it has at most 64 bytes and is a non-empty run of
  ASCII letters, digits, dots, underscores and dashes, optionally followed by
  \<open>#ephemeral\<close>.
\<close>

theorem validate_name_iff:
  "validate_name name = Inr ()
     \<longleftrightarrow> length name \<le> 64
         \<and> (\<exists>base. base \<noteq> [] \<and> list_all name_char base \<and> (name = base \<or> name = base @ ''#ephemeral''))"
proof (cases "strip_suffix ''#ephemeral'' name")
  case None
  then have "name \<noteq> base @ ''#ephemeral''" for base by auto
  then show ?thesis using None by (auto simp: validate_name_def Let_def)
next
  case (Some b)
  then have "name = b @ ''#ephemeral''" by (rule strip_suffix_Some)
  then show ?thesis using Some name_char_hash by (auto simp: validate_name_def Let_def)
qed

section \<open>Hexadecimal ids\<close>

lemma as_str_append [simp]: "as_str (xs @ ys) = as_str xs @ as_str ys"
  by (simp add: as_str_def)

lemma length_as_str [simp]: "length (as_str xs) = length xs"
  by (simp add: as_str_def)

lemma as_str_Nil [simp]: "as_str [] = []"
  by (simp add: as_str_def)

lemma length_encode_hex_id [simp]: "length (encode_hex_id k i) = k"
  by (induction k arbitrary: i) auto

lemma unat_low_nibble: "unat ((i :: u64) AND 0xf) = unat i mod 16"
proof -
  have "(0xf :: u64) = mask 4" by (simp add: mask_eq_exp_minus_1)
  then have "i AND 0xf = take_bit 4 i" by (simp only: take_bit_eq_mask)
  then show ?thesis by (simp add: take_bit_eq_mod unat_mod_distrib)
qed

lemma unat_shift_nibble: "unat (drop_bit 4 (i :: u64)) = unat i div 16"
  by (simp add: drop_bit_eq_div unat_div_distrib)

lemma nibble_cases: "n < 16 \<Longrightarrow> (n :: nat) \<in> {0, 1, 2, 3, 4, 5, 6, 7, 8, 9, 10, 11, 12, 13, 14, 15}"
  by (simp, presburger)

lemma to_digit_nibble:
  assumes "n < 16"
  shows "to_digit 16 (char_of (if n < 10 then 48 + n else 87 + n)) = Some n"
  using nibble_cases [OF assms] by (auto simp: to_digit_def)

lemma to_digit_hex_digit: "to_digit 16 (char_of (unat (hex_digit (i AND 0xf)))) = Some (unat i mod 16)"
proof -
  let ?n = "unat i mod 16"
  have "unat (hex_digit (i AND 0xf)) = (if ?n < 10 then 48 + ?n else 87 + ?n)"
    by (simp add: hex_digit_def unat_low_nibble Let_def unat_of_nat)
  then show ?thesis using to_digit_nibble [of ?n] by simp
qed

lemma digits_value_hex:
  "digits_value 16 0 (as_str (encode_hex_id k i)) = Some (unat i mod 16 ^ k)"
proof (induction k arbitrary: i)
  case (Suc k)
  have "unat i div 16 mod 16 ^ k * 16 + unat i mod 16 = unat i mod 16 ^ Suc k"
    by (simp add: mod_mult2_eq mult.commute)
  then show ?case
    using Suc [of "drop_bit 4 i"]
    by (simp add: digits_value_append unat_shift_nibble as_str_def to_digit_hex_digit)
qed simp

lemma encode_hex_id_head: "hd (as_str (encode_hex_id (Suc k) i)) \<noteq> CHR ''+''"
proof -
  have plus: "to_digit 16 CHR ''+'' = None" by (simp add: to_digit_def)
  obtain c cs where e: "as_str (encode_hex_id (Suc k) i) = c # cs"
    by (metis length_as_str length_encode_hex_id length_Suc_conv)
  then have "to_digit 16 c \<noteq> None" using digits_value_hex [of "Suc k" i] by (auto split: option.splits)
  then show ?thesis using e plus by auto
qed

lemma parse_id_hex: "parse_id (as_str (encode_hex_id 16 i)) = Inr i"
proof -
  let ?s = "as_str (encode_hex_id 16 i)"
  have h: "hd ?s \<noteq> CHR ''+''" using encode_hex_id_head [of 15 i] by simp
  have ne: "?s \<noteq> []" by (metis length_as_str length_encode_hex_id list.size(3) zero_neq_numeral)
  have "u64_from_str_radix 16 ?s = Some i"
    using h ne digits_value_hex [of 16 i] unsigned_less [of i, where ?'a = nat]
    by (cases ?s) (simp_all add: u64_from_str_radix_def Let_def)
  then show ?thesis by (simp add: parse_id_def)
qed

section \<open>Message frames\<close>

text \<open>How a client reads a message frame behind its size prefix.\<close>

definition read_message :: "byte list \<Rightarrow> (i64 \<times> u16 \<times> u64 \<times> byte list) option" where
  "read_message frame =
     (if length frame < 34 \<or> length frame \<noteq> 4 + unat (from_be_bytes (slice 0 4 frame) :: u32)
         \<or> from_be_bytes (slice 4 8 frame) \<noteq> (2 :: u32) then None
      else (case parse_id (as_str (slice 18 34 frame)) of
              Inl _ \<Rightarrow> None
            | Inr msg_id \<Rightarrow> Some (i64_from_be_bytes (slice 8 16 frame),
                                from_be_bytes (slice 16 18 frame), msg_id, drop 34 frame)))"

lemma length_encode_message_header [simp]: "length (encode_message_header ts a i n) = 34"
  by (simp add: encode_message_header_def Let_def)

text \<open>
  C19: a client recovers from a message frame exactly the timestamp, attempt count, id and
  body the server encoded, and the size prefix counts the bytes behind it, as long as the
  frame's size fits its 32-bit prefix.
\<close>

theorem message_frame_roundtrip:
  assumes "in_i64 timestamp_ns" and "length body + 30 < 2 ^ 32"
  shows "read_message (encode_message timestamp_ns attempts msg_id body)
         = Some (timestamp_ns, attempts, msg_id, body)"
proof -
  define n where "n = 30 + length body"
  have size: "unat (word_of_nat n :: u32) = 30 + length body"
  proof -
    have "n < 2 ^ 32" using assms(2) by (simp add: n_def)
    then show ?thesis by (simp add: unat_of_nat n_def [symmetric])
  qed
  have sat: "sat_usize 26 (length body) = 26 + length body"
    using assms(2) by (simp add: sat_usize_def)
  have hd: "encode_message timestamp_ns attempts msg_id body
      = to_be_bytes (word_of_nat n :: u32) @ to_be_bytes (2 :: u32)
        @ i64_to_be_bytes timestamp_ns @ to_be_bytes attempts @ encode_hex_id 16 msg_id @ body"
    by (simp add: encode_message_def encode_message_header_def Let_def sat n_def)
  show ?thesis
    unfolding read_message_def hd
    using size assms(1) by (simp add: codec_simps parse_id_hex)
qed

theorem message_frame_roundtrip_witness:
  "read_message (encode_message 7 2 0x0123abcd [98, 111, 100, 121]) = Some (7, 2, 0x0123abcd, [98, 111, 100, 121])"
  using message_frame_roundtrip [of 7 "[98, 111, 100, 121]" 2 "0x0123abcd"] by (simp add: in_i64_def)

section \<open>Multi-publish bodies\<close>

definition mpub_frame :: "byte list \<Rightarrow> byte list" where
  "mpub_frame m = to_be_bytes (word_of_nat (length m) :: u32) @ m"

lemma length_mpub_frame [simp]: "length (mpub_frame m) = 4 + length m"
  by (simp add: mpub_frame_def)

definition mpub_body :: "byte list list \<Rightarrow> byte list" where
  "mpub_body ms = to_be_bytes (word_of_nat (length ms) :: u32) @ concat (map mpub_frame ms)"

definition mpub_message_ok :: "nat \<Rightarrow> byte list \<Rightarrow> bool" where
  "mpub_message_ok max_message_bytes m \<longleftrightarrow> 0 < length m \<and> length m \<le> max_message_bytes \<and> length m < 2 ^ 32"

lemma mpub_messages_complete:
  assumes "list_all (mpub_message_ok max_b) ms" and "length (pre @ concat (map mpub_frame ms) @ post) < 2 ^ 63"
  shows "mpub_messages max_b (pre @ concat (map mpub_frame ms) @ post) (length ms) (length pre)
         = Inr (length pre + length (concat (map mpub_frame ms)), ms)"
  using assms
proof (induction ms arbitrary: pre)
  case (Cons m ms)
  let ?body = "pre @ concat (map mpub_frame (m # ms)) @ post"
  let ?w = "word_of_nat (length m) :: u32"
  have m: "0 < length m" "length m \<le> max_b" "unat ?w = length m"
    using Cons.prems(1) by (auto simp: mpub_message_ok_def unat_of_nat)
  have len: "slice (length pre) (length pre + 4) ?body = to_be_bytes ?w"
    by (simp add: slice_def mpub_frame_def [of m])
  have "slice (length pre + 4) (length pre + 4 + length m) ?body = m"
    by (simp add: slice_def mpub_frame_def [of m])
  moreover have "sat_usize (length pre + 4) (length m) = length pre + 4 + length m"
    using Cons.prems(2) by (simp add: sat_usize_def)
  moreover have "mpub_messages max_b ?body (length ms) (length pre + 4 + length m)
      = Inr (length pre + 4 + length m + length (concat (map mpub_frame ms)), ms)"
    using Cons.IH [of "pre @ mpub_frame m"] Cons.prems by (simp add: add.assoc)
  ultimately show ?case using m len by (simp add: Let_def)
qed simp

lemma mpub_messages_sound:
  assumes "mpub_messages max_b body n offset = Inr (stop, ms)" and "offset \<le> length body" and "length body < 2 ^ 63"
  shows "length ms = n \<and> list_all (mpub_message_ok max_b) ms \<and> stop \<le> length body
         \<and> offset \<le> stop \<and> slice offset stop body = concat (map mpub_frame ms)"
  using assms
proof (induction n arbitrary: offset stop ms)
  case 0
  then show ?case by (simp add: slice_def)
next
  case (Suc n)
  let ?w = "from_be_bytes (slice offset (offset + 4) body) :: u32"
  let ?stop = "sat_usize (offset + 4) (unat ?w)"
  have h: "4 \<le> length body - offset" using Suc.prems(1) by (auto split: if_splits)
  have e: "0 < unat ?w" "unat ?w \<le> max_b" "?stop \<le> length body"
    and "\<exists>ms'. mpub_messages max_b body n ?stop = Inr (stop, ms') \<and> ms = slice (offset + 4) ?stop body # ms'"
    using Suc.prems(1) h by (auto simp: Let_def and_then_Inr_iff split: if_splits)
  then obtain ms' where ms': "mpub_messages max_b body n ?stop = Inr (stop, ms')"
      "ms = slice (offset + 4) ?stop body # ms'" by blast
  have end_eq: "?stop = offset + 4 + unat ?w"
    using e(3) Suc.prems(3) by (simp add: sat_usize_def min_def split: if_splits)
  let ?m = "slice (offset + 4) ?stop body"
  have lm: "length ?m = unat ?w" using e(3) by (simp add: end_eq)
  have "to_be_bytes ?w = slice offset (offset + 4) body"
    using h by (intro to_from_be_bytes_u32) simp
  moreover have "slice offset ?stop body = slice offset (offset + 4) body @ ?m"
    by (rule slice_split) (simp_all add: end_eq)
  ultimately have frame: "mpub_frame ?m = slice offset ?stop body"
    unfolding mpub_frame_def lm by simp
  have ok: "mpub_message_ok max_b ?m"
    using e lm unsigned_less [of ?w, where ?'a = nat] by (simp add: mpub_message_ok_def)
  note rest = Suc.IH [OF ms'(1) e(3) Suc.prems(3)]
  have "slice offset stop body = slice offset ?stop body @ slice ?stop stop body"
    using rest end_eq by (intro slice_split) auto
  then show ?case using rest ms'(2) frame ok end_eq by simp
qed

text \<open>
  C17: a multi-publish body is accepted with messages \<open>ms\<close> if and only if it is the count of
  \<open>ms\<close> followed by each message behind its 32-bit length, there are between 1 and 65536
  messages, and every message is non-empty and within the size limit: nothing else is
  accepted, nothing is accepted in part.
\<close>

theorem parse_mpub_iff:
  assumes "length body < 2 ^ 63"
  shows "parse_mpub_body body max_message_bytes = Inr ms
     \<longleftrightarrow> body = mpub_body ms \<and> 0 < length ms \<and> length ms \<le> max_mpub_messages
         \<and> list_all (mpub_message_ok max_message_bytes) ms"
proof
  assume parse: "parse_mpub_body body max_message_bytes = Inr ms"
  let ?w = "from_be_bytes (slice 0 4 body) :: u32"
  have c: "4 \<le> length body" "0 < unat ?w" "unat ?w \<le> max_mpub_messages"
    "mpub_messages max_message_bytes body (unat ?w) 4 = Inr (length body, ms)"
    using parse by (auto simp: parse_mpub_body_def parse_mpub_bytes_def Let_def and_then_Inr_iff split: if_splits)
  note s = mpub_messages_sound [OF c(4,1) assms]
  have "to_be_bytes (word_of_nat (length ms) :: u32) = slice 0 4 body"
    using s c(1) to_from_be_bytes_u32 [of "slice 0 4 body"] by simp
  moreover have "body = slice 0 4 body @ slice 4 (length body) body"
    using slice_split [of 0 4 "length body" body] c(1) by (simp add: slice_def)
  ultimately show "body = mpub_body ms \<and> 0 < length ms \<and> length ms \<le> max_mpub_messages
         \<and> list_all (mpub_message_ok max_message_bytes) ms"
    using s c by (simp add: mpub_body_def)
next
  assume a: "body = mpub_body ms \<and> 0 < length ms \<and> length ms \<le> max_mpub_messages
         \<and> list_all (mpub_message_ok max_message_bytes) ms"
  let ?pre = "to_be_bytes (word_of_nat (length ms) :: u32)"
  have body: "body = ?pre @ concat (map mpub_frame ms)" using a by (simp add: mpub_body_def)
  have n: "unat (word_of_nat (length ms) :: u32) = length ms"
    using a by (simp add: unat_of_nat max_mpub_messages_def)
  have "mpub_messages max_message_bytes body (length ms) 4 = Inr (length body, ms)"
    using mpub_messages_complete [of max_message_bytes ms ?pre "[]"] conjunct2 [OF conjunct2 [OF conjunct2 [OF a]]] assms
    unfolding body by simp
  moreover have "slice 0 4 body = ?pre" "\<not> length body < 4" by (simp_all add: body slice_def)
  ultimately show "parse_mpub_body body max_message_bytes = Inr ms"
    using conjunct2 [OF a] n by (simp add: parse_mpub_body_def parse_mpub_bytes_def Let_def)
qed

theorem parse_mpub_iff_witness:
  "parse_mpub_body (mpub_body [[1, 2, 3], [4]]) 10 = Inr [[1, 2, 3], [4]]"
proof -
  have "length (mpub_body [[1, 2, 3], [4]]) < 2 ^ 63" by (simp add: mpub_body_def mpub_frame_def)
  from parse_mpub_iff [OF this, of 10 "[[1, 2, 3], [4]]"] show ?thesis
    by (simp add: max_mpub_messages_def mpub_message_ok_def)
qed

section \<open>Command lines\<close>

text \<open>The text a client sends for a command.\<close>

definition show_i64 :: "i64 \<Rightarrow> string" where
  "show_i64 v = (if v < 0 then CHR ''-'' # decimal (nat (- v)) else decimal (nat v))"

fun command_words :: "client_command \<Rightarrow> string list" where
  "command_words Identify = [''IDENTIFY'']"
| "command_words Auth = [''AUTH'']"
| "command_words (Subscribe topic channel) = [''SUB'', topic, channel]"
| "command_words (Publish topic) = [''PUB'', topic]"
| "command_words (MultiPublish topic) = [''MPUB'', topic]"
| "command_words (DeferredPublish topic delay) = [''DPUB'', topic, decimal (unat delay)]"
| "command_words (ReadyCount n) = [''RDY'', decimal (unat n)]"
| "command_words (FinishMessage i) = [''FIN'', as_str (encode_hex_id 16 i)]"
| "command_words (RequeueMessage i delay) = [''REQ'', as_str (encode_hex_id 16 i), show_i64 delay]"
| "command_words (TouchMessage i) = [''TOUCH'', as_str (encode_hex_id 16 i)]"
| "command_words CloseClient = [''CLS'']"
| "command_words Noop = [''NOP'']"

fun join_words :: "string list \<Rightarrow> string" where
  "join_words [] = []"
| "join_words [w] = w"
| "join_words (w # ws) = w @ CHR '' '' # join_words ws"

definition to_bytes :: "string \<Rightarrow> byte list" where
  "to_bytes s = map (\<lambda>c. word_of_nat (of_char c)) s"

definition command_line :: "client_command \<Rightarrow> byte list" where
  "command_line c = to_bytes (join_words (command_words c) @ [CHR 0x0A])"

fun sendable :: "client_command \<Rightarrow> bool" where
  "sendable (Subscribe topic channel) = (validate_name topic = Inr () \<and> validate_name channel = Inr ())"
| "sendable (Publish topic) = (validate_name topic = Inr ())"
| "sendable (MultiPublish topic) = (validate_name topic = Inr ())"
| "sendable (DeferredPublish topic delay) = (validate_name topic = Inr ())"
| "sendable (RequeueMessage i delay) = in_i64 delay"
| "sendable _ = True"

text \<open>The characters of the words of a command: printable ASCII, no space.\<close>

definition plain :: "char \<Rightarrow> bool" where
  "plain c \<longleftrightarrow> 32 < (of_char c :: nat) \<and> (of_char c :: nat) < 128"

lemma split_words_plain:
  "list_all plain w \<Longrightarrow> split_words acc (w @ rest) = split_words (acc @ w) rest"
proof (induction w arbitrary: acc)
  case (Cons c w)
  then have "\<not> is_ascii_whitespace c" by (auto simp: plain_def is_ascii_whitespace_def)
  then show ?case using Cons by simp
qed simp

lemma split_join_words:
  "list_all (\<lambda>w. w \<noteq> [] \<and> list_all plain w) ws \<Longrightarrow> split_ascii_whitespace (join_words ws) = ws"
  unfolding split_ascii_whitespace_def
proof (induction ws rule: join_words.induct)
  case (2 w)
  then show ?case using split_words_plain [of w "[]" "[]"] by simp
next
  case (3 w v ws)
  have "is_ascii_whitespace CHR '' ''" by (simp add: is_ascii_whitespace_def)
  then show ?case using 3 split_words_plain [of w "[]" "CHR '' '' # join_words (v # ws)"] by simp
qed simp

lemma join_words_ascii:
  "list_all (\<lambda>w. w \<noteq> [] \<and> list_all plain w) ws \<Longrightarrow> list_all (\<lambda>c. plain c \<or> c = CHR '' '') (join_words ws)"
  by (induction ws rule: join_words.induct) (auto simp: list_all_iff)

lemma join_words_last:
  "list_all (\<lambda>w. w \<noteq> [] \<and> list_all plain w) ws \<Longrightarrow> ws \<noteq> [] \<Longrightarrow> join_words ws \<noteq> [] \<and> plain (last (join_words ws))"
proof (induction ws rule: join_words.induct)
  case (2 w)
  then show ?case by (cases w rule: rev_cases) auto
qed auto

lemma trim_line:
  assumes "s \<noteq> []" and "plain (last s)" shows "trim_end_crlf (s @ [CHR 0x0A]) = s"
  using assms by (cases s rule: rev_cases) (auto simp: trim_end_crlf_def plain_def)

lemma as_str_to_bytes: "list_all (\<lambda>c. (of_char c :: nat) < 128) s \<Longrightarrow> as_str (to_bytes s) = s"
  by (induction s) (auto simp: as_str_def to_bytes_def unat_of_nat)

lemma utf8_ascii: "list_all (\<lambda>c. (of_char c :: nat) < 128) s \<Longrightarrow> utf8_valid (to_bytes s)"
  by (induction s) (auto simp: to_bytes_def within_def unat_of_nat)

lemma parse_line:
  assumes "list_all (\<lambda>w. w \<noteq> [] \<and> list_all plain w) ws" and "ws \<noteq> []"
  shows "parse_command (to_bytes (join_words ws @ [CHR 0x0A])) = parse_parts ws"
proof -
  have "list_all (\<lambda>c. (of_char c :: nat) < 128) (join_words ws)"
    using join_words_ascii [OF assms(1)] by (rule list.pred_mono_strong) (auto simp: plain_def)
  then have ascii: "list_all (\<lambda>c. (of_char c :: nat) < 128) (join_words ws @ [CHR 0x0A])" by simp
  have "trim_end_crlf (join_words ws @ [CHR 0x0A]) = join_words ws"
    using join_words_last [OF assms] by (intro trim_line) auto
  then show ?thesis
    unfolding parse_command_def
    by (simp only: utf8_ascii [OF ascii] as_str_to_bytes [OF ascii] split_join_words [OF assms(1)]
        not_True_eq_False if_False)
qed

lemma digit_char:
  assumes "(d :: nat) < 10"
  shows "plain (char_of (48 + d)) \<and> char_of (48 + d) \<noteq> CHR ''+'' \<and> char_of (48 + d) \<noteq> CHR ''-''"
proof -
  have "to_digit 10 CHR ''+'' = None" "to_digit 10 CHR ''-'' = None" by (simp_all add: to_digit_def)
  moreover have "plain (char_of (48 + d))" using assms by (simp add: plain_def)
  ultimately show ?thesis using to_digit_decimal [OF assms] by force
qed

lemma decimal_chars:
  "decimal n \<noteq> [] \<and> list_all plain (decimal n) \<and> hd (decimal n) \<noteq> CHR ''+'' \<and> hd (decimal n) \<noteq> CHR ''-''"
proof (induction n rule: decimal.induct)
  case (1 n)
  then show ?case
    using digit_char [of n] digit_char [of "n mod 10"]
    by (subst (1 2 3 4) decimal.simps) auto
qed

lemma parse_u64_decimal: "parse_u64 (decimal (unat n)) = Inr n"
proof -
  have "u64_from_str_radix 10 (decimal (unat n)) = Some n"
    using decimal_chars [of "unat n"] digits_value_decimal [of "unat n"] unsigned_less [of n, where ?'a = nat]
    by (cases "decimal (unat n)") (simp_all add: u64_from_str_radix_def Let_def)
  then show ?thesis by (simp add: parse_u64_def)
qed

lemma parse_i64_show:
  assumes "in_i64 v" shows "parse_i64 (show_i64 v) = Inr v"
proof -
  have "i64_from_str (show_i64 v) = Some v"
  proof (cases "v < 0")
    case True
    then show ?thesis
      using assms decimal_chars [of "nat (- v)"] digits_value_decimal [of "nat (- v)"]
      by (simp add: i64_from_str_def show_i64_def Let_def)
  next
    case False
    then show ?thesis
      using assms decimal_chars [of "nat v"] digits_value_decimal [of "nat v"]
      by (cases "decimal (nat v)") (simp_all add: i64_from_str_def show_i64_def Let_def)
  qed
  then show ?thesis by (simp add: parse_i64_def)
qed

lemma name_char_plain: "name_char c \<Longrightarrow> plain c"
  by (auto simp: name_char_def is_ascii_alphanumeric_def plain_def Let_def)

lemma valid_name_plain:
  assumes "validate_name name = Inr ()" shows "name \<noteq> [] \<and> list_all plain name"
proof -
  have e: "list_all plain ''#ephemeral''" by (simp add: plain_def)
  obtain base where "base \<noteq> []" "list_all name_char base" "name = base \<or> name = base @ ''#ephemeral''"
    using assms by (auto simp: validate_name_def Let_def dest!: strip_suffix_Some split: if_splits option.splits)
  moreover from this(2) have "list_all plain base" by (rule list.pred_mono_strong) (rule name_char_plain)
  ultimately show ?thesis using e by auto
qed

lemma hex_plain: "list_all plain (as_str (encode_hex_id k i))"
proof (induction k arbitrary: i)
  case (Suc k)
  let ?n = "unat i mod 16"
  have "unat (hex_digit (i AND 0xf)) = (if ?n < 10 then 48 + ?n else 87 + ?n)"
    by (simp add: hex_digit_def unat_low_nibble Let_def unat_of_nat)
  moreover have "?n < 16" by simp
  ultimately have "plain (char_of (unat (hex_digit (i AND 0xf))))"
    using nibble_cases [of ?n] by (auto simp: plain_def)
  then show ?case using Suc by (simp add: as_str_def)
qed simp

lemma hex_nonempty: "as_str (encode_hex_id 16 i) \<noteq> []"
  by (metis length_as_str length_encode_hex_id list.size(3) zero_neq_numeral)

lemma show_i64_plain: "show_i64 v \<noteq> [] \<and> list_all plain (show_i64 v)"
  using decimal_chars [of "nat v"] decimal_chars [of "nat (- v)"] by (auto simp: show_i64_def plain_def)

text \<open>
  C18: every command a client can send is understood: the parser turns the line printed for a
  command, with valid names and a delay in range, back into that command.
\<close>

theorem command_roundtrip:
  assumes "sendable c" shows "parse_command (command_line c) = Inr c"
proof -
  have "list_all (\<lambda>w. w \<noteq> [] \<and> list_all plain w) (command_words c)"
    using assms valid_name_plain decimal_chars hex_plain hex_nonempty show_i64_plain
    by (cases c) (simp_all add: plain_def)
  moreover have "command_words c \<noteq> []" by (cases c) simp_all
  ultimately have "parse_command (command_line c) = parse_parts (command_words c)"
    unfolding command_line_def by (rule parse_line)
  also have "\<dots> = Inr c"
    using assms
    by (cases c) (simp_all add: parse_parts_def checked_name_def parse_u64_decimal parse_id_hex parse_i64_show)
  finally show ?thesis .
qed

theorem command_roundtrip_witness: "parse_command (command_line (RequeueMessage 255 (-1))) = Inr (RequeueMessage 255 (-1))"
  by (rule command_roundtrip) (simp add: in_i64_def)

text \<open>
  The message id field is not held to sixteen hexadecimal digits: a plus sign followed by
  fifteen digits is accepted as well, so two different fields name the same message.
\<close>

lemma parse_id_accepts_sign:
  "parse_id ''+0000000000000ff'' = Inr 255 \<and> parse_id ''00000000000000ff'' = Inr 255"
  by (simp add: parse_id_def u64_from_str_radix_def to_digit_def Let_def)

end
