(* ===== verification/Record_Codec.thy ===== *)
theory Record_Codec
  imports Errors
begin

text \<open>
  The durable record of the storage crate, \<open>crates/storage/src/record.rs\<close>, the vectored
  writer of \<open>segment/append.rs\<close> and the payload references of \<open>payload.rs\<close>. The checksum
  functions \<open>crc32c\<close> and \<open>crc32c_append\<close> of the crc32c crate are parameters;
  \<open>crc_laws\<close> is what their documentation promises.
\<close>

definition crc_laws :: "(byte list \<Rightarrow> u32) \<Rightarrow> (u32 \<Rightarrow> byte list \<Rightarrow> u32) \<Rightarrow> bool" where
  "crc_laws crc32c crc32c_append \<longleftrightarrow>
     (\<forall>a. crc32c a = crc32c_append 0 a)
     \<and> (\<forall>c. crc32c_append c [] = c)
     \<and> (\<forall>c a b. crc32c_append (crc32c_append c a) b = crc32c_append c (a @ b))"

section \<open>Records\<close>

definition header_len :: nat where "header_len = 48"
definition legacy_max_record_bytes :: nat where "legacy_max_record_bytes = 72 * 1024 * 1024"
definition max_record_bytes :: nat where "max_record_bytes = 160 * 1024 * 1024"

definition record_magic :: "byte list" where
  "record_magic = [0x52, 0x51, 0x56, 0x37]"

definition record_version :: u8 where "record_version = 7"

datatype record_kind = PublishBatch | EvictionGap | Noop

fun kind_code :: "record_kind \<Rightarrow> u8" where
  "kind_code PublishBatch = 1"
| "kind_code EvictionGap = 2"
| "kind_code Noop = 3"

definition kind_try_from :: "u8 \<Rightarrow> io_error + record_kind" where
  "kind_try_from value =
     (if value = 1 then Inr PublishBatch
      else if value = 2 then Inr EvictionGap
      else if value = 3 then Inr Noop
      else Inl (IoError InvalidData (''unknown record kind '' @ decimal (unat value))))"

definition required_writer_feature_level :: "record_kind \<Rightarrow> nat \<Rightarrow> u32" where
  "required_writer_feature_level kind payload_len =
     (case kind of
        PublishBatch \<Rightarrow> if payload_len > legacy_max_record_bytes then 2 else 1
      | EvictionGap \<Rightarrow> 1
      | Noop \<Rightarrow> 1)"

record record_header =
  r_kind :: record_kind
  r_flags :: u16
  r_index :: u64
  r_timestamp_ns :: i64
  r_message_id :: u64
  r_available_at_ms :: i64

record log_record = record_header +
  r_payload :: "byte list"

definition record_header_of :: "log_record \<Rightarrow> record_header" where
  "record_header_of r = \<lparr>r_kind = r_kind r, r_flags = r_flags r, r_index = r_index r,
     r_timestamp_ns = r_timestamp_ns r, r_message_id = r_message_id r,
     r_available_at_ms = r_available_at_ms r\<rparr>"

definition record_of :: "record_header \<Rightarrow> byte list \<Rightarrow> log_record" where
  "record_of h payload = \<lparr>r_kind = r_kind h, r_flags = r_flags h, r_index = r_index h,
     r_timestamp_ns = r_timestamp_ns h, r_message_id = r_message_id h,
     r_available_at_ms = r_available_at_ms h, r_payload = payload\<rparr>"

definition encoded_len :: "log_record \<Rightarrow> nat" where
  "encoded_len r = header_len + length (r_payload r)"

text \<open>\<open>try_fold(0usize, checked_add)\<close> over the lengths of the parts, with 64-bit \<open>usize\<close>.\<close>

definition parts_len :: "byte list list \<Rightarrow> nat option" where
  "parts_len parts =
     foldl (\<lambda>total part. case total of
              None \<Rightarrow> None
            | Some n \<Rightarrow> if n + length part < 2 ^ 64 then Some (n + length part) else None)
       (Some 0) parts"

text \<open>The first 44 bytes of a header: everything the checksum covers before the payload.\<close>

definition header_fields :: "record_header \<Rightarrow> u32 \<Rightarrow> byte list" where
  "header_fields h payload_len =
     record_magic @ [record_version] @ [kind_code (r_kind h)] @ to_be_bytes (r_flags h)
     @ to_be_bytes (r_index h) @ i64_to_be_bytes (r_timestamp_ns h) @ to_be_bytes (r_message_id h)
     @ i64_to_be_bytes (r_available_at_ms h) @ to_be_bytes payload_len"

definition encode_header ::
  "(byte list \<Rightarrow> u32) \<Rightarrow> (u32 \<Rightarrow> byte list \<Rightarrow> u32) \<Rightarrow> record_header \<Rightarrow> byte list list
   \<Rightarrow> io_error + byte list" where
  "encode_header crc32c crc32c_append h payload =
     (case parts_len payload of
        None \<Rightarrow> Inl (IoError InvalidInput ''record payload exceeds storage limit'')
      | Some n \<Rightarrow>
          if n > max_record_bytes
          then Inl (IoError InvalidInput ''record payload exceeds storage limit'')
          else if n \<ge> 2 ^ 32 then Inl (IoError InvalidInput ''record payload is too large'')
          else
            let fields = header_fields h (word_of_nat n);
                checksum = foldl crc32c_append (crc32c fields) payload
            in Inr (fields @ to_be_bytes checksum))"

definition encode_record ::
  "(byte list \<Rightarrow> u32) \<Rightarrow> (u32 \<Rightarrow> byte list \<Rightarrow> u32) \<Rightarrow> log_record \<Rightarrow> io_error + byte list" where
  "encode_record crc32c crc32c_append r =
     and_then (encode_header crc32c crc32c_append (record_header_of r) [r_payload r])
       (\<lambda>header. Inr (header @ r_payload r))"

definition decode_header :: "byte list \<Rightarrow> io_error + record_header" where
  "decode_header header =
     (if slice 0 4 header \<noteq> record_magic \<or> header ! 4 \<noteq> record_version
      then Inl (IoError InvalidData ''invalid record magic or version'')
      else and_then (kind_try_from (header ! 5))
             (\<lambda>kind. Inr \<lparr>r_kind = kind, r_flags = from_be_bytes (slice 6 8 header),
                r_index = from_be_bytes (slice 8 16 header),
                r_timestamp_ns = i64_from_be_bytes (slice 16 24 header),
                r_message_id = from_be_bytes (slice 24 32 header),
                r_available_at_ms = i64_from_be_bytes (slice 32 40 header)\<rparr>))"

definition payload_len :: "byte list \<Rightarrow> io_error + nat" where
  "payload_len header =
     (if slice 0 4 header \<noteq> record_magic \<or> header ! 4 \<noteq> record_version
      then Inl (IoError InvalidData ''invalid record magic or version'')
      else
        let len = unat (from_be_bytes (slice 40 44 header) :: u32)
        in if len > max_record_bytes
           then Inl (IoError InvalidData ''record payload exceeds storage limit'')
           else Inr len)"

definition decode_record ::
  "(byte list \<Rightarrow> u32) \<Rightarrow> (u32 \<Rightarrow> byte list \<Rightarrow> u32) \<Rightarrow> byte list \<Rightarrow> byte list
   \<Rightarrow> io_error + log_record" where
  "decode_record crc32c crc32c_append header payload =
     and_then (decode_header header) (\<lambda>decoded.
       let expected_len = unat (from_be_bytes (slice 40 44 header) :: u32)
       in if expected_len \<noteq> length payload \<or> expected_len > max_record_bytes
          then Inl (IoError InvalidData ''invalid record payload length'')
          else if crc32c_append (crc32c (slice 0 44 header)) payload
                  \<noteq> from_be_bytes (slice 44 48 header)
          then Inl (IoError InvalidData ''record checksum mismatch'')
          else Inr (record_of decoded payload))"

section \<open>Writing a record\<close>

text \<open>
  What one \<open>write_vectored\<close> call does: it takes some of the offered bytes or fails. The list
  holds the outcomes of the first calls; every later call takes all it is offered.
\<close>

datatype write_outcome = Wrote nat | WriteFailed io_error

definition max_vectors :: nat where "max_vectors = 128"

text \<open>The inner loop: move the part index and offset over the bytes written.\<close>

function advance_parts :: "byte list list \<Rightarrow> nat \<Rightarrow> nat \<Rightarrow> nat \<Rightarrow> nat \<times> nat" where
  "advance_parts parts part_index part_offset remaining =
     (if remaining > 0 \<and> part_index < length parts then
        let available = length (parts ! part_index) - part_offset
        in if remaining < available then (part_index, part_offset + remaining)
           else advance_parts parts (part_index + 1) 0 (remaining - available)
      else (part_index, part_offset))"
  by pat_completeness auto
termination by (relation "measure (\<lambda>(parts, i, _, _). length parts - i)") auto

declare advance_parts.simps [simp del]

lemma advance_parts_index: "fst (advance_parts parts i off n) \<ge> i"
proof (induction parts i off n rule: advance_parts.induct)
  case (1 parts i off n)
  then show ?case by (subst advance_parts.simps) (auto simp: Let_def)
qed

lemma advance_parts_first:
  assumes "i < length parts" and "0 < n" and "length (parts ! i) - off \<le> n"
  shows "i < fst (advance_parts parts i off n)"
  using assms advance_parts_index [of "i + 1" parts 0 "n - (length (parts ! i) - off)"]
  by (subst advance_parts.simps) (auto simp: Let_def)

definition offered :: "byte list list \<Rightarrow> nat \<Rightarrow> nat \<Rightarrow> byte list list" where
  "offered parts part_index part_offset =
     drop part_offset (parts ! part_index) # take (max_vectors - 1) (drop (part_index + 1) parts)"

function write_vectors ::
  "byte list list \<Rightarrow> nat \<Rightarrow> nat \<Rightarrow> write_outcome list \<Rightarrow> byte list \<Rightarrow> (io_error + unit) \<times> byte list" where
  "write_vectors parts part_index part_offset outcomes out =
     (if part_index < length parts then
        let vectors = concat (offered parts part_index part_offset) in
        case (case outcomes of [] \<Rightarrow> Wrote (length vectors) | w # _ \<Rightarrow> w) of
          WriteFailed (IoError kind message) \<Rightarrow>
            if kind = Interrupted \<and> outcomes \<noteq> []
            then write_vectors parts part_index part_offset (tl outcomes) out
            else (Inl (IoError kind message), out)
        | Wrote n \<Rightarrow>
            let written = min n (length vectors) in
            if written = 0
            then (Inl (IoError WriteZero ''failed to write record parts''), out)
            else
              write_vectors parts (fst (advance_parts parts part_index part_offset written))
                (snd (advance_parts parts part_index part_offset written)) (tl outcomes)
                (out @ take written vectors)
      else (Inr (), out))"
  by pat_completeness auto
termination
proof (relation "measures [\<lambda>(_, _, _, outcomes, _). length outcomes, \<lambda>(parts, i, _, _, _). length parts - i]",
    goal_cases)
  case (2 parts i off outcomes out vectors n written)
  show ?case
  proof (cases outcomes)
    case Nil
    then have "written = length vectors" using 2 by simp
    then have "i < fst (advance_parts parts i off written)"
      using 2 by (intro advance_parts_first) (auto simp: offered_def)
    then show ?thesis using 2 Nil by auto
  qed (use 2 in auto)
qed auto

declare write_vectors.simps [simp del]

definition write_parts ::
  "write_outcome list \<Rightarrow> byte list \<Rightarrow> byte list list \<Rightarrow> byte list \<Rightarrow> (io_error + unit) \<times> byte list" where
  "write_parts outcomes header payload out =
     write_vectors (filter (\<lambda>part. part \<noteq> []) (header # payload)) 0 0 outcomes out"

section \<open>Payload references\<close>

record payload_ref =
  pr_path :: string
  pr_offset :: nat
  pr_len :: u32
  pr_crc32c :: u32

text \<open>\<open>read_exact_at\<close> on a file content: all the bytes or \<open>UnexpectedEof\<close>.\<close>

definition read_exact_at :: "nat \<Rightarrow> nat \<Rightarrow> byte list \<Rightarrow> io_error + byte list" where
  "read_exact_at len offset bytes =
     (if len = 0 \<or> offset + len \<le> length bytes then Inr (slice offset (offset + len) bytes)
      else Inl (IoError UnexpectedEof ''failed to fill whole buffer''))"

definition read_verified_from :: "(byte list \<Rightarrow> u32) \<Rightarrow> payload_ref \<Rightarrow> byte list \<Rightarrow> io_error + byte list" where
  "read_verified_from crc32c p bytes =
     and_then (read_exact_at (unat (pr_len p)) (pr_offset p) bytes) (\<lambda>body.
       if crc32c body \<noteq> pr_crc32c p
       then Inl (IoError InvalidData (''payload checksum mismatch at '' @ pr_path p))
       else Inr body)"

section \<open>The record codec\<close>

lemma crc_lawsD:
  assumes "crc_laws crc32c crc32c_append"
  shows "crc32c a = crc32c_append 0 a" "crc32c_append c [] = c"
    "crc32c_append (crc32c_append c a) b = crc32c_append c (a @ b)"
  using assms unfolding crc_laws_def by blast+

lemma foldl_crc_append:
  "crc_laws crc32c crc32c_append \<Longrightarrow> foldl crc32c_append c parts = crc32c_append c (concat parts)"
  by (induction parts arbitrary: c) (simp_all add: crc_lawsD)

lemma parts_len_Some: "length (concat parts) < 2 ^ 64 \<Longrightarrow> parts_len parts = Some (length (concat parts))"
  by (induction parts rule: rev_induct) (simp_all add: parts_len_def)

lemma length_record_magic [simp, codec_simps]: "length record_magic = 4"
  by (simp add: record_magic_def)

lemma length_header_fields [simp]: "length (header_fields h n) = 44"
  by (simp add: header_fields_def)

lemma kind_try_from_code [simp]: "kind_try_from (kind_code k) = Inr k"
  by (cases k) (simp_all add: kind_try_from_def)

lemma kind_try_from_Inr: "kind_try_from b = Inr k \<Longrightarrow> kind_code k = b"
  by (auto simp: kind_try_from_def split: if_splits)

lemma header_fields_parts:
  fixes n :: u32
  assumes "bytes = header_fields h n @ rest"
  shows "slice 0 4 bytes = record_magic" "bytes ! 4 = record_version" "bytes ! 5 = kind_code (r_kind h)"
    "slice 6 8 bytes = to_be_bytes (r_flags h)" "slice 8 16 bytes = to_be_bytes (r_index h)"
    "slice 16 24 bytes = i64_to_be_bytes (r_timestamp_ns h)" "slice 24 32 bytes = to_be_bytes (r_message_id h)"
    "slice 32 40 bytes = i64_to_be_bytes (r_available_at_ms h)" "slice 40 44 bytes = to_be_bytes n"
    "slice 0 44 bytes = header_fields h n"
  unfolding assms header_fields_def
  by (simp_all add: codec_simps nth_append)

definition record_valid :: "log_record \<Rightarrow> bool" where
  "record_valid r \<longleftrightarrow> in_i64 (r_timestamp_ns r) \<and> in_i64 (r_available_at_ms r)
     \<and> length (r_payload r) \<le> max_record_bytes"

text \<open>The bytes of a record that is within the limits.\<close>

definition record_bytes ::
  "(byte list \<Rightarrow> u32) \<Rightarrow> (u32 \<Rightarrow> byte list \<Rightarrow> u32) \<Rightarrow> log_record \<Rightarrow> byte list" where
  "record_bytes crc32c crc32c_append r =
     (let fields = header_fields (record_header_of r) (word_of_nat (length (r_payload r)))
      in fields @ to_be_bytes (crc32c_append (crc32c fields) (r_payload r)) @ r_payload r)"

lemma length_record_bytes [simp]:
  "length (record_bytes crc32c crc32c_append r) = 48 + length (r_payload r)"
  by (simp add: record_bytes_def Let_def)

lemma encode_header_parts:
  assumes "crc_laws crc32c crc32c_append" and "length (concat parts) \<le> max_record_bytes"
  shows "\<exists>header. encode_header crc32c crc32c_append h parts = Inr header
           \<and> header @ concat parts = record_bytes crc32c crc32c_append (record_of h (concat parts))"
proof -
  have "record_header_of (record_of h p) = h" for p by (simp add: record_header_of_def record_of_def)
  moreover have "r_payload (record_of h p) = p" for p by (simp add: record_of_def)
  ultimately show ?thesis using assms
    by (simp add: encode_header_def parts_len_Some max_record_bytes_def Let_def foldl_crc_append
        record_bytes_def)
qed

lemma encode_record_valid:
  "length (r_payload r) \<le> max_record_bytes \<Longrightarrow>
   encode_record crc32c crc32c_append r = Inr (record_bytes crc32c crc32c_append r)"
  by (simp add: encode_record_def encode_header_def parts_len_def max_record_bytes_def record_bytes_def Let_def)

lemma encode_record_too_large:
  "length (r_payload r) > max_record_bytes \<Longrightarrow>
   encode_record crc32c crc32c_append r = Inl (IoError InvalidInput ''record payload exceeds storage limit'')"
  by (simp add: encode_record_def encode_header_def parts_len_def)

lemma record_of_header_of [simp]: "record_of (record_header_of r) (r_payload r) = r"
  by (simp add: record_of_def record_header_of_def)

lemma unat_payload_len: "n \<le> max_record_bytes \<Longrightarrow> unat (word_of_nat n :: u32) = n"
  by (simp add: unat_of_nat max_record_bytes_def)

lemma record_header_bytes:
  assumes "record_valid r" and "header = take 48 (record_bytes crc32c crc32c_append r @ rest)"
  shows "payload_len header = Inr (length (r_payload r))"
    and "decode_header header = Inr (record_header_of r)"
    and "slice 0 44 header = header_fields (record_header_of r) (word_of_nat (length (r_payload r)))"
    and "from_be_bytes (slice 44 48 header)
         = crc32c_append (crc32c (header_fields (record_header_of r) (word_of_nat (length (r_payload r))))) (r_payload r)"
proof -
  let ?f = "header_fields (record_header_of r) (word_of_nat (length (r_payload r)))"
  let ?c = "crc32c_append (crc32c ?f) (r_payload r)"
  have h: "header = ?f @ to_be_bytes ?c" using assms(2) by (simp add: record_bytes_def Let_def)
  note parts = header_fields_parts [OF h]
  show "payload_len header = Inr (length (r_payload r))" "decode_header header = Inr (record_header_of r)"
    using assms(1) by (simp_all add: payload_len_def decode_header_def parts Let_def unat_payload_len
        record_valid_def record_header_of_def)
  show "slice 0 44 header = ?f" by (rule parts(10))
  show "from_be_bytes (slice 44 48 header) = ?c"
    unfolding h by (simp add: codec_simps)
qed

lemma header_bytes_exact:
  assumes "length header = 48" and "decode_header header = Inr h"
  shows "header = header_fields h (from_be_bytes (slice 40 44 header)) @ slice 44 48 header"
    and "in_i64 (r_timestamp_ns h)" "in_i64 (r_available_at_ms h)"
proof -
  obtain k where k: "slice 0 4 header = record_magic" "header ! 4 = record_version"
      "kind_try_from (header ! 5) = Inr k"
      "h = \<lparr>r_kind = k, r_flags = from_be_bytes (slice 6 8 header),
                r_index = from_be_bytes (slice 8 16 header),
                r_timestamp_ns = i64_from_be_bytes (slice 16 24 header),
                r_message_id = from_be_bytes (slice 24 32 header),
                r_available_at_ms = i64_from_be_bytes (slice 32 40 header)\<rparr>"
    using assms(2) by (auto simp: decode_header_def and_then_Inr_iff split: if_splits)
  have "slice 4 5 header = [header ! 4]" "slice 5 6 header = [header ! 5]"
    using assms(1) by (simp_all add: slice_def take_Suc_conv_app_nth hd_drop_conv_nth take_Suc)
  then have "header_fields h (from_be_bytes (slice 40 44 header)) @ slice 44 48 header
      = slice 0 4 header @ slice 4 5 header @ slice 5 6 header @ slice 6 8 header @ slice 8 16 header
        @ slice 16 24 header @ slice 24 32 header @ slice 32 40 header @ slice 40 44 header @ slice 44 48 header"
    using k assms(1)
    by (simp add: header_fields_def kind_try_from_Inr to_from_be_bytes_u16 to_from_be_bytes_u64
        to_from_be_bytes_i64 to_from_be_bytes_u32)
  also have "\<dots> = slice 0 48 header"
    using slice_split [of 0 4 48 header] slice_split [of 4 5 48 header] slice_split [of 5 6 48 header]
      slice_split [of 6 8 48 header] slice_split [of 8 16 48 header] slice_split [of 16 24 48 header]
      slice_split [of 24 32 48 header] slice_split [of 32 40 48 header] slice_split [of 40 44 48 header]
    by simp
  finally show "header = header_fields h (from_be_bytes (slice 40 44 header)) @ slice 44 48 header"
    using assms(1) by (simp add: slice_def)
  show "in_i64 (r_timestamp_ns h)" "in_i64 (r_available_at_ms h)"
    using k(4) by (simp_all add: in_i64_from_be_bytes)
qed

text \<open>
  C25: the record codec is exact: a 48-byte header and a payload decode to a record if and
  only if they are that record's encoding. Every record within the size limit whose times
  are 64-bit integers survives the disk, and nothing else is accepted as a record.
\<close>

theorem record_codec_exact:
  assumes "length header = 48"
  shows "decode_record crc32c crc32c_append header payload = Inr r
         \<longleftrightarrow> encode_record crc32c crc32c_append r = Inr (header @ payload) \<and> record_valid r"
proof
  assume d: "decode_record crc32c crc32c_append header payload = Inr r"
  then obtain h where h: "decode_header header = Inr h" "r = record_of h payload"
      "unat (from_be_bytes (slice 40 44 header) :: u32) = length payload" "length payload \<le> max_record_bytes"
      "crc32c_append (crc32c (slice 0 44 header)) payload = from_be_bytes (slice 44 48 header)"
    by (auto simp: decode_record_def and_then_Inr_iff Let_def split: if_splits)
  note e = header_bytes_exact [OF assms h(1)]
  have n: "from_be_bytes (slice 40 44 header) = (word_of_nat (length payload) :: u32)"
    using h(3,4) unat_payload_len [of "length payload"] by (simp add: word_unat_eq_iff)
  have r: "record_header_of r = h" "r_payload r = payload"
    using h(2) by (simp_all add: record_header_of_def record_of_def)
  have "slice 0 44 header = header_fields h (from_be_bytes (slice 40 44 header))"
    using header_fields_parts(10) [OF e(1)] .
  then have "to_be_bytes (crc32c_append (crc32c (header_fields h (word_of_nat (length payload)))) payload) = slice 44 48 header"
    using h(5) n assms by (simp add: to_from_be_bytes_u32)
  then have "record_bytes crc32c crc32c_append r = header @ payload"
    using e(1) n by (simp add: record_bytes_def r Let_def)
  then show "encode_record crc32c crc32c_append r = Inr (header @ payload) \<and> record_valid r"
    using encode_record_valid [of r] h(2,4) e(2,3) r by (simp add: record_valid_def record_of_def)
next
  assume "encode_record crc32c crc32c_append r = Inr (header @ payload) \<and> record_valid r"
  then have v: "record_valid r" and b: "header @ payload = record_bytes crc32c crc32c_append r"
    using encode_record_valid [of r] by (auto simp: record_valid_def)
  have h: "header = take 48 (record_bytes crc32c crc32c_append r @ [])" using assms b by (metis append_eq_conv_conj append_Nil2)
  have "payload = drop 48 (header @ payload)" using assms by simp
  then have p: "payload = r_payload r" unfolding b by (simp add: record_bytes_def Let_def)
  note f = record_header_bytes [OF v h]
  have "unat (from_be_bytes (slice 40 44 header) :: u32) = length payload"
    using f(1) p by (auto simp: payload_len_def Let_def split: if_splits)
  then show "decode_record crc32c crc32c_append header payload = Inr r"
    using f(2-4) p v by (simp add: decode_record_def Let_def record_valid_def)
qed

definition sample_record :: log_record where
  "sample_record = \<lparr>r_kind = PublishBatch, r_flags = 0, r_index = 7, r_timestamp_ns = -5, r_message_id = 9,
     r_available_at_ms = 0, r_payload = [1, 2]\<rparr>"

text \<open>A concrete pair of checksum functions that satisfies the laws.\<close>

definition sum_append :: "u32 \<Rightarrow> byte list \<Rightarrow> u32" where
  "sum_append c bs = foldl (\<lambda>a b. a + ucast b) c bs"

lemma sum_append_laws: "crc_laws (sum_append 0) sum_append"
  by (simp add: crc_laws_def sum_append_def)

lemma sample_record_valid: "record_valid sample_record"
  by (simp add: record_valid_def sample_record_def in_i64_def max_record_bytes_def)

theorem record_codec_exact_witness:
  "\<exists>header payload. length header = 48 \<and> decode_record (sum_append 0) sum_append header payload = Inr sample_record"
proof (intro exI conjI)
  let ?b = "record_bytes (sum_append 0) sum_append sample_record"
  show l: "length (take 48 ?b) = 48" by simp
  show "decode_record (sum_append 0) sum_append (take 48 ?b) (drop 48 ?b) = Inr sample_record"
    using record_codec_exact [OF l, of "sum_append 0" sum_append "drop 48 ?b" sample_record]
      sample_record_valid encode_record_valid [of sample_record "sum_append 0" sum_append]
    by (simp add: record_valid_def)
qed

section \<open>The vectored writer\<close>

definition parts_rest :: "byte list list \<Rightarrow> nat \<Rightarrow> nat \<Rightarrow> byte list" where
  "parts_rest parts i off = drop off (concat (drop i parts))"

definition parts_pos :: "byte list list \<Rightarrow> nat \<Rightarrow> nat \<Rightarrow> bool" where
  "parts_pos parts i off \<longleftrightarrow> (i < length parts \<and> off < length (parts ! i)) \<or> (i = length parts \<and> off = 0)"

lemma parts_rest_Cons:
  "i < length parts \<Longrightarrow> off \<le> length (parts ! i) \<Longrightarrow>
   parts_rest parts i off = drop off (parts ! i) @ concat (drop (Suc i) parts)"
  by (simp add: parts_rest_def Cons_nth_drop_Suc [symmetric])

lemma parts_rest_empty: "parts_pos parts i off \<Longrightarrow> parts_rest parts i off = [] \<longleftrightarrow> i = length parts"
  by (auto simp: parts_pos_def parts_rest_Cons) (simp add: parts_rest_def)

lemma advance_parts_rest:
  assumes "list_all (\<lambda>p. p \<noteq> []) parts" and "parts_pos parts i off" and "n \<le> length (parts_rest parts i off)"
  shows "parts_pos parts (fst (advance_parts parts i off n)) (snd (advance_parts parts i off n))
    \<and> parts_rest parts (fst (advance_parts parts i off n)) (snd (advance_parts parts i off n))
      = drop n (parts_rest parts i off)"
  using assms
proof (induction parts i off n rule: advance_parts.induct)
  case (1 parts i off n)
  show ?case
  proof (cases "0 < n \<and> i < length parts")
    case False
    then show ?thesis using 1(3,4) by (subst (1 2 3 4) advance_parts.simps) (auto simp: parts_pos_def parts_rest_def)
  next
    case True
    let ?a = "length (parts ! i) - off"
    have off: "off < length (parts ! i)" using True 1(3) by (auto simp: parts_pos_def)
    have r: "parts_rest parts i off = drop off (parts ! i) @ concat (drop (Suc i) parts)"
      using True off by (simp add: parts_rest_Cons)
    show ?thesis
    proof (cases "n < ?a")
      case less: True
      then have "advance_parts parts i off n = (i, off + n)"
        using True by (subst advance_parts.simps) (simp add: Let_def)
      then show ?thesis using True less off by (simp add: parts_pos_def parts_rest_Cons r add.commute)
    next
      case False
      have eq: "advance_parts parts i off n = advance_parts parts (i + 1) 0 (n - ?a)"
        using True False by (subst advance_parts.simps) (simp add: Let_def)
      have pos: "parts_pos parts (i + 1) 0"
        using True 1(2) by (auto simp: parts_pos_def list_all_length)
      have "parts_rest parts (i + 1) 0 = concat (drop (Suc i) parts)" by (simp add: parts_rest_def)
      then show ?thesis
        using 1(1) [OF True refl False 1(2) pos] 1(4) False unfolding eq r by simp
    qed
  qed
qed

lemma offered_prefix:
  assumes "i < length parts" and "off < length (parts ! i)"
  shows "concat (offered parts i off) = take (length (concat (offered parts i off))) (parts_rest parts i off)"
    and "concat (offered parts i off) \<noteq> []"
proof -
  have "concat (drop (Suc i) parts) = concat (take 127 (drop (Suc i) parts)) @ concat (drop 127 (drop (Suc i) parts))"
    by (metis append_take_drop_id concat_append)
  then have "parts_rest parts i off = concat (offered parts i off) @ concat (drop 127 (drop (Suc i) parts))"
    using assms by (simp add: parts_rest_Cons offered_def max_vectors_def)
  then show "concat (offered parts i off) = take (length (concat (offered parts i off))) (parts_rest parts i off)"
    by simp
  show "concat (offered parts i off) \<noteq> []" using assms by (simp add: offered_def)
qed

text \<open>A short write or an interruption, which the loop carries on from.\<close>

fun transient :: "write_outcome \<Rightarrow> bool" where
  "transient (Wrote n) = (0 < n)"
| "transient (WriteFailed (IoError kind m)) = (kind = Interrupted)"

text \<open>Bytes \<open>rest\<close> were to be written; a prefix was, all of it exactly on success.\<close>

definition wrote_prefix :: "(io_error + unit) \<times> byte list \<Rightarrow> byte list \<Rightarrow> byte list \<Rightarrow> bool" where
  "wrote_prefix result out rest \<longleftrightarrow>
     (\<exists>k \<le> length rest. snd result = out @ take k rest \<and> (fst result = Inr () \<longleftrightarrow> k = length rest))"

lemma wrote_prefix_none: "rest \<noteq> [] \<Longrightarrow> wrote_prefix (Inl e, out) out rest"
  by (auto simp: wrote_prefix_def intro!: exI [of _ 0])

lemma wrote_prefix_more:
  assumes "wrote_prefix result (out @ take n rest) (drop n rest)" and "n \<le> length rest"
  shows "wrote_prefix result out rest"
proof -
  obtain k where "k \<le> length rest - n" "snd result = out @ take (n + k) rest"
      "fst result = Inr () \<longleftrightarrow> k = length rest - n"
    using assms(1) by (auto simp: wrote_prefix_def take_add)
  then show ?thesis using assms(2) by (auto simp: wrote_prefix_def intro!: exI [of _ "n + k"])
qed

lemma write_vectors_exact:
  assumes "list_all (\<lambda>p. p \<noteq> []) parts" and "parts_pos parts i off"
  shows "wrote_prefix (write_vectors parts i off ws out) out (parts_rest parts i off)
         \<and> (list_all transient ws \<longrightarrow> fst (write_vectors parts i off ws out) = Inr ())"
  using assms
proof (induction parts i off ws out rule: write_vectors.induct)
  case (1 parts i off ws out)
  let ?rest = "parts_rest parts i off" and ?v = "concat (offered parts i off)"
  show ?case
  proof (cases "i < length parts")
    case False
    then have "?rest = []" using parts_rest_empty [OF 1(4)] 1(4) by (auto simp: parts_pos_def)
    then show ?thesis using False by (simp add: write_vectors.simps [of parts i] wrote_prefix_def)
  next
    case True
    then have off: "off < length (parts ! i)" using 1(4) by (auto simp: parts_pos_def)
    note v = offered_prefix [OF True off]
    have ne: "?rest \<noteq> []" using v by (metis take_Nil)
    define w where "w = (case ws of [] \<Rightarrow> Wrote (length ?v) | w # _ \<Rightarrow> w)"
    note step = write_vectors.simps [of parts i off ws out, unfolded Let_def, folded w_def]
    have tl: "list_all transient (tl ws)" if "list_all transient ws" using that by (cases ws) simp_all
    show ?thesis
    proof (cases w)
      case (WriteFailed e)
      obtain kind m where e: "e = IoError kind m" by (cases e)
      have ws: "ws \<noteq> []" using WriteFailed by (auto simp: w_def)
      show ?thesis
      proof (cases "kind = Interrupted")
        case intr: True
        have "write_vectors parts i off ws out = write_vectors parts i off (tl ws) out"
          using True WriteFailed e ws intr by (simp add: step)
        then show ?thesis
          using 1(2) [OF True refl WriteFailed [unfolded w_def] e _ 1(3,4)] ws intr tl by simp
      next
        case False
        have "write_vectors parts i off ws out = (Inl (IoError kind m), out)"
          using True WriteFailed e False by (simp add: step)
        moreover have "\<not> list_all transient ws" using WriteFailed e False by (auto simp: w_def split: list.splits)
        ultimately show ?thesis using wrote_prefix_none [OF ne] by simp
      qed
    next
      case (Wrote n)
      define written where "written = min n (length ?v)"
      show ?thesis
      proof (cases "written = 0")
        case z: True
        have "write_vectors parts i off ws out = (Inl (IoError WriteZero ''failed to write record parts''), out)"
          using True Wrote z by (simp add: step written_def)
        moreover have "\<not> list_all transient ws"
        proof -
          have "0 < length ?v" using v(2) by (simp only: length_greater_0_conv not_False_eq_True)
          then have "n = 0" using z by (simp only: written_def min_def split: if_splits)
          then show ?thesis using Wrote v(2) by (auto simp: w_def split: list.splits)
        qed
        ultimately show ?thesis using wrote_prefix_none [OF ne] by simp
      next
        case False
        define i' off' where "i' = fst (advance_parts parts i off written)" and "off' = snd (advance_parts parts i off written)"
        have eq: "write_vectors parts i off ws out = write_vectors parts i' off' (tl ws) (out @ take written ?v)"
          by (simp only: step True Wrote write_outcome.case if_True written_def [symmetric] False if_False
              i'_def off'_def)
        have le: "written \<le> length ?v" by (simp add: written_def)
        then have le': "written \<le> length ?rest" using arg_cong [OF v(1), of length] by simp
        have tk: "take written ?v = take written ?rest" using v(1) le by (metis min.absorb1 take_take)
        note adv = advance_parts_rest [OF 1(3,4) le', folded i'_def off'_def]
        have "wrote_prefix (write_vectors parts i off ws out) (out @ take written ?rest) (drop written ?rest)
            \<and> (list_all transient (tl ws) \<longrightarrow> fst (write_vectors parts i off ws out) = Inr ())"
          using 1(1) [OF True refl Wrote [unfolded w_def] written_def False 1(3)] adv
          unfolding i'_def [symmetric] off'_def [symmetric] eq tk by simp
        then show ?thesis using wrote_prefix_more [OF _ le'] tl by blast
      qed
    qed
  qed
qed

lemma concat_filter_nonempty: "concat (filter (\<lambda>p. p \<noteq> []) ps) = concat ps"
  by (induction ps) auto

lemma write_parts_wrote:
  "wrote_prefix (write_parts ws header payload out) out (header @ concat payload)
   \<and> (list_all transient ws \<longrightarrow> fst (write_parts ws header payload out) = Inr ())"
proof -
  let ?parts = "filter (\<lambda>part. part \<noteq> []) (header # payload)"
  have ne: "list_all (\<lambda>p. p \<noteq> []) ?parts" by (simp add: list_all_iff)
  have "parts_pos ?parts 0 0" using ne by (cases ?parts) (auto simp: parts_pos_def)
  note ex = write_vectors_exact [OF ne this, of ws out, folded write_parts_def]
  have "parts_rest ?parts 0 0 = header @ concat payload"
    using concat_filter_nonempty [of "header # payload"] by (simp add: parts_rest_def)
  then show ?thesis using ex by simp
qed

text \<open>
  C26: the vectored writer is equivalent to appending the header and the payload parts in one
  piece. It writes a prefix of those bytes, all of them exactly when it reports success;
  short writes and interruptions never make it fail, skip a byte or write one twice.
\<close>

theorem write_parts_equiv:
  "wrote_prefix (write_parts ws header payload out) out (header @ concat payload)
   \<and> (list_all transient ws \<longrightarrow> write_parts ws header payload out = (Inr (), out @ header @ concat payload))"
  using write_parts_wrote [of ws header payload out] by (auto simp: wrote_prefix_def prod_eq_iff)

theorem write_parts_equiv_witness:
  "write_parts [Wrote 1, WriteFailed (IoError Interrupted ''retry''), Wrote 2] [1, 2] [[], [3]] [0] = (Inr (), [0, 1, 2, 3])"
  using write_parts_equiv [of "[Wrote 1, WriteFailed (IoError Interrupted ''retry''), Wrote 2]" "[1, 2]" "[[], [3]]" "[0]"]
  by simp

end
