(* ===== verification/Segment_Files.thy ===== *)
theory Segment_Files
  imports Record_Codec Text Files Framing "HOL-Library.List_Lexorder" "HOL-Library.Char_ord"
begin

text \<open>
  The files of a segment log: names and records of a segment
  (\<open>crates/storage/src/segment/files.rs\<close>), its rebuildable sidecar
  (\<open>segment/recovery_index.rs\<close>, \<open>segment/metadata.rs\<close>) and the background scrubber
  (\<open>segment/scrub.rs\<close>). Offsets and lengths of files are natural numbers: a file is shorter
  than \<open>2 ^ 63\<close> bytes. A directory holds log segments by file name and sidecars by the name
  of their segment. Errors of calls that only read are not modelled.
\<close>

record segment_disk =
  sd_segments :: "(string, disk_file) fmap"
  sd_indexes :: "(string, byte list) fmap"

record record_location =
  loc_index :: u64
  loc_segment :: string
  loc_offset :: nat
  loc_encoded_len :: nat

fun io_message :: "io_error \<Rightarrow> string" where
  "io_message (IoError kind message) = message"

definition corrupt :: "string \<Rightarrow> nat \<Rightarrow> string \<Rightarrow> storage_error" where
  "corrupt path offset reason = Corrupt path (word_of_nat offset) reason"

definition not_found :: io_error where
  "not_found = IoError NotFound ''No such file or directory''"

section \<open>Names\<close>

definition segment_prefix :: string where "segment_prefix = ''segment-''"
definition segment_suffix :: string where "segment_suffix = ''.rqlog''"

definition segment_path :: "u64 \<Rightarrow> string" where
  "segment_path base_index = segment_prefix @ padded_decimal 20 (unat base_index) @ segment_suffix"

definition strip_prefix :: "string \<Rightarrow> string \<Rightarrow> string option" where
  "strip_prefix pre s = (if prefix pre s then Some (drop (length pre) s) else None)"

definition is_ascii_digit :: "char \<Rightarrow> bool" where
  "is_ascii_digit c \<longleftrightarrow> 48 \<le> (of_char c :: nat) \<and> (of_char c :: nat) \<le> 57"

definition segment_base_index :: "string \<Rightarrow> u64 option" where
  "segment_base_index name =
     (case strip_prefix segment_prefix name of
        None \<Rightarrow> None
      | Some rest \<Rightarrow>
          (case strip_suffix segment_suffix rest of
             None \<Rightarrow> None
           | Some index \<Rightarrow>
               if length index \<noteq> 20 \<or> \<not> list_all is_ascii_digit index then None
               else u64_from_str_radix 10 index))"

text \<open>The directory is listed in no particular order; a bad name is reported in any case.\<close>

definition segment_paths :: "segment_disk \<Rightarrow> io_error + string list" where
  "segment_paths disk =
     (let names = filter (\<lambda>name. prefix segment_prefix name \<and> suffix segment_suffix name)
                    (sorted_list_of_fset (fmdom (sd_segments disk)))
      in case find (\<lambda>name. segment_base_index name = None) names of
           Some name \<Rightarrow> Inl (IoError InvalidData (''invalid segment filename '' @ name))
         | None \<Rightarrow> Inr names)"

section \<open>Reading and scanning\<close>

text \<open>
  The visitor reads from a stream of at most \<open>payload_len\<close> bytes. What it leaves unread is
  drained afterwards, so the checksum always covers the whole stream.
\<close>

definition visit_record ::
  "(byte list \<Rightarrow> u32) \<Rightarrow> (u32 \<Rightarrow> byte list \<Rightarrow> u32) \<Rightarrow> segment_disk \<Rightarrow> record_location
   \<Rightarrow> (record_header \<Rightarrow> nat \<Rightarrow> byte list \<Rightarrow> io_error + 'a) \<Rightarrow> storage_error + 'a" where
  "visit_record crc32c crc32c_append disk location visitor =
     (case fmlookup (sd_segments disk) (loc_segment location) of
        None \<Rightarrow> Inl (StIo not_found)
      | Some f \<Rightarrow>
          (case read_exact_at 48 (loc_offset location) (fi_bytes f) of
             Inl e \<Rightarrow> Inl (StIo e)
           | Inr header \<Rightarrow>
               (case payload_len header of
                  Inl e \<Rightarrow> Inl (StIo e)
                | Inr len \<Rightarrow>
                    if loc_encoded_len location \<noteq> 48 + len then
                      Inl (corrupt (loc_segment location) (loc_offset location)
                            ''record location length does not match its header'')
                    else (case decode_header header of
                            Inl e \<Rightarrow> Inl (StIo e)
                          | Inr decoded \<Rightarrow>
                              if r_index decoded \<noteq> loc_index location then
                                Inl (corrupt (loc_segment location) (loc_offset location)
                                      ''recovery index points at a different record'')
                              else
                                let stream = take len (drop (loc_offset location + 48) (fi_bytes f))
                                in (case visitor decoded len stream of
                                      Inl e \<Rightarrow> Inl (corrupt (loc_segment location) (loc_offset location) (io_message e))
                                    | Inr value \<Rightarrow>
                                        if length stream < len then
                                          Inl (corrupt (loc_segment location) (loc_offset location)
                                                ''partial record payload'')
                                        else if crc32c_append (crc32c (slice 0 44 header)) stream
                                                \<noteq> from_be_bytes (slice 44 48 header) then
                                          Inl (corrupt (loc_segment location) (loc_offset location)
                                                ''record checksum mismatch'')
                                        else Inr value)))))"

definition read_record ::
  "(byte list \<Rightarrow> u32) \<Rightarrow> (u32 \<Rightarrow> byte list \<Rightarrow> u32) \<Rightarrow> segment_disk \<Rightarrow> record_location
   \<Rightarrow> storage_error + log_record" where
  "read_record crc32c crc32c_append disk location =
     visit_record crc32c crc32c_append disk location
       (\<lambda>header payload_len stream. Inr (record_of header stream))"

text \<open>The checksum of a payload read through a 64 KiB buffer.\<close>

function crc_chunks :: "(u32 \<Rightarrow> byte list \<Rightarrow> u32) \<Rightarrow> u32 \<Rightarrow> byte list \<Rightarrow> u32" where
  "crc_chunks crc32c_append crc bytes =
     (if bytes = [] then crc
      else crc_chunks crc32c_append (crc32c_append crc (take 65536 bytes)) (drop 65536 bytes))"
  by pat_completeness auto
termination by (relation "measure (\<lambda>(_, _, bytes). length bytes)") auto

declare crc_chunks.simps [simp del]

text \<open>
  One iteration of \<open>scan_segment\<close> on the file content: at an offset, with the locations and
  the checksum so far. The result comes with the content the file is left with.
\<close>

definition segment_scan_step ::
  "(byte list \<Rightarrow> u32) \<Rightarrow> (u32 \<Rightarrow> byte list \<Rightarrow> u32) \<Rightarrow> string \<Rightarrow> bool \<Rightarrow> byte list
   \<Rightarrow> nat \<times> record_location list \<times> u32
   \<Rightarrow> ((storage_error + record_location list \<times> nat \<times> nat \<times> u32) \<times> byte list)
      + nat \<times> record_location list \<times> u32" where
  "segment_scan_step crc32c crc32c_append path allow_tail_repair bytes st =
     (let offset = fst st; locations = fst (snd st); checksum = snd (snd st);
          original_len = length bytes; remaining = original_len - offset;
          torn = (\<lambda>reason. if allow_tail_repair
                    then (Inr (locations, original_len - offset, offset, checksum), take offset bytes)
                    else (Inl (corrupt path offset reason), bytes))
      in if \<not> offset < original_len then Inl (Inr (locations, 0, offset, checksum), bytes)
         else if remaining < 48 then Inl (torn ''partial record header'')
         else
           let header = slice offset (offset + 48) bytes
           in case payload_len header of
                Inl e \<Rightarrow> Inl (Inl (corrupt path offset (io_message e)), bytes)
              | Inr len \<Rightarrow>
                  if remaining < 48 + len then Inl (torn ''partial record payload'')
                  else (case decode_header header of
                          Inl e \<Rightarrow> Inl (Inl (corrupt path offset (io_message e)), bytes)
                        | Inr decoded \<Rightarrow>
                            let payload = slice (offset + 48) (offset + 48 + len) bytes;
                                checksum' = crc_chunks crc32c_append (crc32c_append checksum header) payload;
                                record_crc = crc_chunks crc32c_append (crc32c (slice 0 44 header)) payload
                            in if record_crc \<noteq> from_be_bytes (slice 44 48 header) then
                                 Inl (Inl (corrupt path offset ''record checksum mismatch''), bytes)
                               else
                                 Inr (offset + (48 + len),
                                      locations @ [\<lparr>loc_index = r_index decoded, loc_segment = path,
                                                    loc_offset = offset, loc_encoded_len = 48 + len\<rparr>],
                                      checksum')))"

definition scan_segment ::
  "(byte list \<Rightarrow> u32) \<Rightarrow> (u32 \<Rightarrow> byte list \<Rightarrow> u32) \<Rightarrow> string \<Rightarrow> bool \<Rightarrow> byte list
   \<Rightarrow> ((storage_error + record_location list \<times> nat \<times> nat \<times> u32) \<times> byte list) option" where
  "scan_segment crc32c crc32c_append path allow_tail_repair bytes =
     loop (segment_scan_step crc32c crc32c_append path allow_tail_repair bytes) (0, [], 0)"

section \<open>Sidecars\<close>

record index_summary =
  is_segment_len :: nat
  is_segment_crc32c :: u32
  is_body_crc32c :: u32
  is_location_count :: nat
  is_first_index :: u64
  is_last_index :: u64
  is_metadata_offset :: nat
  is_metadata_len :: nat

definition index_magic :: "byte list" where "index_magic = [0x52, 0x51, 0x49, 0x37]"
definition index_version :: u8 where "index_version = 2"
definition index_header_len :: nat where "index_header_len = 64"
definition location_len :: nat where "location_len = 24"
definition max_index_bytes :: nat where "max_index_bytes = 512 * 1024 * 1024"

definition index_invalid :: "string \<Rightarrow> storage_error" where
  "index_invalid reason = StIo (IoError InvalidData reason)"

text \<open>
  A sidecar's summary. The products and sums that the source checks for overflow are below
  \<open>2 ^ 64\<close>: both counts are 32-bit.
\<close>

definition load_summary :: "(byte list \<Rightarrow> u32) \<Rightarrow> byte list option \<Rightarrow> storage_error + index_summary option" where
  "load_summary crc32c content =
     (case content of
        None \<Rightarrow> Inr None
      | Some bytes \<Rightarrow>
          if \<not> (index_header_len \<le> length bytes \<and> length bytes \<le> max_index_bytes)
          then Inl (index_invalid ''recovery index size is invalid'')
          else
            let header = take index_header_len bytes
            in if slice 0 4 header \<noteq> index_magic \<or> header ! 4 \<noteq> index_version
               then Inl (index_invalid ''invalid recovery index header'')
               else
                 let segment_len = unat (from_be_bytes (slice 8 16 header) :: u64);
                     segment_crc32c = from_be_bytes (slice 16 20 header);
                     location_count = unat (from_be_bytes (slice 20 24 header) :: u32);
                     metadata_len = unat (from_be_bytes (slice 24 28 header) :: u32);
                     body_crc32c = from_be_bytes (slice 28 32 header);
                     first_index = from_be_bytes (slice 32 40 header) :: u64;
                     last_index = from_be_bytes (slice 40 48 header) :: u64;
                     expected_body_len = unat (from_be_bytes (slice 48 56 header) :: u64);
                     metadata_offset = index_header_len + location_count * location_len
                 in if crc32c (slice 0 56 header) \<noteq> from_be_bytes (slice 56 60 header)
                    then Inl (index_invalid ''recovery index header checksum mismatch'')
                    else if metadata_offset + metadata_len \<noteq> length bytes
                    then Inl (index_invalid ''recovery index length mismatch'')
                    else if expected_body_len \<noteq> length bytes - index_header_len
                            \<or> location_count = 0 \<and> (first_index \<noteq> 0 \<or> last_index \<noteq> 0)
                            \<or> location_count > 0
                               \<and> last_index \<noteq> sat_add first_index (word_of_nat (location_count - 1))
                    then Inl (index_invalid ''recovery index range is invalid'')
                    else Inr (Some
                      \<lparr>is_segment_len = segment_len, is_segment_crc32c = segment_crc32c,
                       is_body_crc32c = body_crc32c, is_location_count = location_count,
                       is_first_index = first_index, is_last_index = last_index,
                       is_metadata_offset = metadata_offset, is_metadata_len = metadata_len\<rparr>))"

text \<open>
  A location of 24 bytes. \<open>offset.checked_add(encoded_len).is_none_or(|end| end > segment_len)\<close>
  is a comparison of natural numbers: an overflowing sum exceeds every segment length.
\<close>

definition parse_location :: "string \<Rightarrow> nat \<Rightarrow> u64 \<Rightarrow> byte list \<Rightarrow> record_location option" where
  "parse_location segment segment_len expected bytes =
     (let index = from_be_bytes (slice 0 8 bytes) :: u64;
          offset = unat (from_be_bytes (slice 8 16 bytes) :: u64);
          len = unat (from_be_bytes (slice 16 24 bytes) :: u64)
      in if index \<noteq> expected \<or> len = 0 \<or> offset + len > segment_len then None
         else Some \<lparr>loc_index = index, loc_segment = segment, loc_offset = offset, loc_encoded_len = len\<rparr>)"

fun load_locations_from ::
  "string \<Rightarrow> index_summary \<Rightarrow> byte list \<Rightarrow> nat \<Rightarrow> nat \<Rightarrow> storage_error + record_location list" where
  "load_locations_from segment summary content ordinal 0 = Inr []"
| "load_locations_from segment summary content ordinal (Suc n) =
     (case read_exact_at location_len (index_header_len + ordinal * location_len) content of
        Inl e \<Rightarrow> Inl (StIo e)
      | Inr bytes \<Rightarrow>
          (case parse_location segment (is_segment_len summary)
                  (is_first_index summary + word_of_nat ordinal) bytes of
             None \<Rightarrow> Inl (index_invalid ''recovery index location is invalid'')
           | Some location \<Rightarrow>
               and_then (load_locations_from segment summary content (Suc ordinal) n)
                 (\<lambda>locations. Inr (location # locations))))"

definition load_locations ::
  "segment_disk \<Rightarrow> string \<Rightarrow> index_summary \<Rightarrow> storage_error + record_location list" where
  "load_locations disk segment summary =
     (case fmlookup (sd_indexes disk) segment of
        None \<Rightarrow> Inl (StIo not_found)
      | Some content \<Rightarrow> load_locations_from segment summary content 0 (is_location_count summary))"

definition load_location ::
  "segment_disk \<Rightarrow> string \<Rightarrow> index_summary \<Rightarrow> u64 \<Rightarrow> storage_error + record_location option" where
  "load_location disk segment summary index =
     (if is_location_count summary = 0 \<or> index < is_first_index summary \<or> index > is_last_index summary
      then Inr None
      else
        let ordinal = unat (index - is_first_index summary)
        in if index_header_len + min (ordinal * location_len) (2 ^ 64 - 1) \<ge> 2 ^ 64
           then Inl (index_invalid ''recovery index location offset overflow'')
           else (case fmlookup (sd_indexes disk) segment of
                   None \<Rightarrow> Inl (StIo not_found)
                 | Some content \<Rightarrow>
                     (case read_exact_at location_len (index_header_len + ordinal * location_len) content of
                        Inl e \<Rightarrow> Inl (StIo e)
                      | Inr bytes \<Rightarrow>
                          (case parse_location segment (is_segment_len summary) index bytes of
                             None \<Rightarrow> Inl (index_invalid ''recovery index location mismatch'')
                           | Some location \<Rightarrow> Inr (Some location)))))"

definition load_metadata :: "segment_disk \<Rightarrow> string \<Rightarrow> index_summary \<Rightarrow> storage_error + byte list" where
  "load_metadata disk segment summary =
     (case fmlookup (sd_indexes disk) segment of
        None \<Rightarrow> Inl (StIo not_found)
      | Some content \<Rightarrow>
          (case read_exact_at (is_metadata_len summary) (is_metadata_offset summary) content of
             Inl e \<Rightarrow> Inl (StIo e)
           | Inr bytes \<Rightarrow> Inr bytes))"

definition location_bytes :: "record_location \<Rightarrow> byte list" where
  "location_bytes l = to_be_bytes (loc_index l) @ to_be_bytes (word_of_nat (loc_offset l) :: u64)
     @ to_be_bytes (word_of_nat (loc_encoded_len l) :: u64)"

definition location_crc :: "(u32 \<Rightarrow> byte list \<Rightarrow> u32) \<Rightarrow> u32 \<Rightarrow> record_location \<Rightarrow> u32" where
  "location_crc crc32c_append crc l =
     crc32c_append (crc32c_append (crc32c_append crc (to_be_bytes (loc_index l)))
       (to_be_bytes (word_of_nat (loc_offset l) :: u64)))
       (to_be_bytes (word_of_nat (loc_encoded_len l) :: u64))"

definition index_header ::
  "(byte list \<Rightarrow> u32) \<Rightarrow> (u32 \<Rightarrow> byte list \<Rightarrow> u32) \<Rightarrow> nat \<Rightarrow> u32 \<Rightarrow> record_location list \<Rightarrow> byte list
   \<Rightarrow> byte list" where
  "index_header crc32c crc32c_append segment_len segment_crc32c locations metadata =
     (let body_crc32c = crc32c_append (foldl (location_crc crc32c_append) 0 locations) metadata;
          body_len = length locations * location_len + length metadata;
          first_index = (case locations of [] \<Rightarrow> 0 | l # _ \<Rightarrow> loc_index l);
          last_index = (if locations = [] then 0 else loc_index (last locations));
          fields = index_magic @ [index_version] @ [0, 0, 0]
            @ to_be_bytes (word_of_nat segment_len :: u64) @ to_be_bytes segment_crc32c
            @ to_be_bytes (word_of_nat (length locations) :: u32)
            @ to_be_bytes (word_of_nat (length metadata) :: u32) @ to_be_bytes body_crc32c
            @ to_be_bytes first_index @ to_be_bytes last_index
            @ to_be_bytes (word_of_nat body_len :: u64)
      in fields @ to_be_bytes (crc32c fields) @ [0, 0, 0, 0])"

definition index_bytes ::
  "(byte list \<Rightarrow> u32) \<Rightarrow> (u32 \<Rightarrow> byte list \<Rightarrow> u32) \<Rightarrow> nat \<Rightarrow> u32 \<Rightarrow> record_location list \<Rightarrow> byte list
   \<Rightarrow> byte list" where
  "index_bytes crc32c crc32c_append segment_len segment_crc32c locations metadata =
     index_header crc32c crc32c_append segment_len segment_crc32c locations metadata
     @ concat (map location_bytes locations) @ metadata"

text \<open>
  Writing a sidecar: to a temporary file, synced, then renamed. A fault before the rename
  leaves the old sidecar, one after it the new one.
\<close>

definition store_index ::
  "(byte list \<Rightarrow> u32) \<Rightarrow> (u32 \<Rightarrow> byte list \<Rightarrow> u32) \<Rightarrow> replace_fault \<Rightarrow> string \<Rightarrow> nat \<Rightarrow> u32
   \<Rightarrow> record_location list \<Rightarrow> byte list \<Rightarrow> segment_disk \<Rightarrow> (storage_error + unit) \<times> segment_disk" where
  "store_index crc32c crc32c_append fault segment segment_len segment_crc32c locations metadata disk =
     (if length locations \<ge> 2 ^ 32 then (Inl (index_invalid ''too many recovery index locations''), disk)
      else if length metadata \<ge> 2 ^ 32 then (Inl (index_invalid ''recovery index metadata is too large''), disk)
      else
        let disk' = disk\<lparr>sd_indexes := fmupd segment
              (index_bytes crc32c crc32c_append segment_len segment_crc32c locations metadata) (sd_indexes disk)\<rparr>
        in (case fault of
              NoFault \<Rightarrow> (Inr (), disk')
            | BeforeRename e \<Rightarrow> (Inl (StIo e), disk)
            | AfterRename e \<Rightarrow> (Inl (StIo e), disk')))"

definition remove_index :: "io_error option \<Rightarrow> string \<Rightarrow> segment_disk \<Rightarrow> (storage_error + unit) \<times> segment_disk" where
  "remove_index fault segment disk =
     (case fault of
        Some e \<Rightarrow> (Inl (StIo e), disk)
      | None \<Rightarrow> (Inr (), disk\<lparr>sd_indexes := fmdrop segment (sd_indexes disk)\<rparr>))"

section \<open>Metadata references\<close>

record recovery_metadata_ref =
  rm_segment :: string
  rm_offset :: nat
  rm_len :: nat
  rm_segment_len :: nat

definition read_range ::
  "segment_disk \<Rightarrow> recovery_metadata_ref \<Rightarrow> nat \<Rightarrow> nat \<Rightarrow> storage_error + byte list" where
  "read_range disk r offset len =
     (if offset + len > rm_len r
      then Inl (StIo (IoError InvalidInput ''metadata read exceeds sidecar boundary''))
      else (case fmlookup (sd_indexes disk) (rm_segment r) of
              None \<Rightarrow> Inl (StIo not_found)
            | Some content \<Rightarrow>
                (case read_exact_at len (rm_offset r + offset) content of
                   Inl e \<Rightarrow> Inl (StIo e)
                 | Inr bytes \<Rightarrow> Inr bytes)))"

section \<open>Scrubbing\<close>

datatype scrub_kind = ScrubSegment | ScrubRecoveryIndex nat

record scrub_target =
  st_path :: string
  st_expected_len :: nat
  st_expected_crc32c :: u32
  st_kind :: scrub_kind

definition target_corrupt :: "scrub_target \<Rightarrow> nat \<Rightarrow> string \<Rightarrow> storage_error" where
  "target_corrupt target offset reason = Corrupt (st_path target) (word_of_nat offset) reason"

definition verify_bytes ::
  "(u32 \<Rightarrow> byte list \<Rightarrow> u32) \<Rightarrow> scrub_target \<Rightarrow> nat \<Rightarrow> byte list \<Rightarrow> storage_error + nat" where
  "verify_bytes crc32c_append target offset bytes =
     (if offset > st_expected_len target
      then Inl (target_corrupt target 0 ''recovery index body offset is invalid'')
      else if crc_chunks crc32c_append 0 (drop offset bytes) \<noteq> st_expected_crc32c target
      then Inl (target_corrupt target offset ''recovery index checksum mismatch'')
      else Inr 0)"

definition verify_step ::
  "(byte list \<Rightarrow> u32) \<Rightarrow> (u32 \<Rightarrow> byte list \<Rightarrow> u32) \<Rightarrow> scrub_target \<Rightarrow> byte list \<Rightarrow> nat \<times> nat \<times> u32
   \<Rightarrow> (storage_error + nat) + nat \<times> nat \<times> u32" where
  "verify_step crc32c crc32c_append target bytes st =
     (let offset = fst st; records = fst (snd st); segment_crc = snd (snd st); actual_len = length bytes
      in if \<not> offset < actual_len then
           Inl (if segment_crc \<noteq> st_expected_crc32c target
                then Inl (target_corrupt target 0 ''segment checksum mismatch'') else Inr records)
         else if actual_len - offset < 48 then Inl (Inl (target_corrupt target offset ''partial record header''))
         else
           let header = slice offset (offset + 48) bytes
           in case payload_len header of
                Inl e \<Rightarrow> Inl (Inl (target_corrupt target offset (io_message e)))
              | Inr len \<Rightarrow>
                  (case kind_try_from (header ! 5) of
                     Inl e \<Rightarrow> Inl (Inl (target_corrupt target offset (io_message e)))
                   | Inr kind \<Rightarrow>
                       if actual_len - offset < 48 + len
                       then Inl (Inl (target_corrupt target offset ''partial record payload''))
                       else
                         let payload = slice (offset + 48) (offset + 48 + len) bytes
                         in if crc_chunks crc32c_append (crc32c (slice 0 44 header)) payload
                               \<noteq> from_be_bytes (slice 44 48 header)
                            then Inl (Inl (target_corrupt target offset ''record checksum mismatch''))
                            else Inr (offset + (48 + len), records + 1,
                                      crc_chunks crc32c_append (crc32c_append segment_crc header) payload)))"

definition verify_target ::
  "(byte list \<Rightarrow> u32) \<Rightarrow> (u32 \<Rightarrow> byte list \<Rightarrow> u32) \<Rightarrow> scrub_target \<Rightarrow> byte list option
   \<Rightarrow> (storage_error + nat) option" where
  "verify_target crc32c crc32c_append target content =
     (case content of
        None \<Rightarrow> Some (Inl (StIo not_found))
      | Some bytes \<Rightarrow>
          if length bytes \<noteq> st_expected_len target then
            Some (Inl (target_corrupt target 0
              (''segment length changed: expected '' @ decimal (st_expected_len target) @ '', got ''
               @ decimal (length bytes))))
          else (case st_kind target of
                  ScrubRecoveryIndex body_offset \<Rightarrow> Some (verify_bytes crc32c_append target body_offset bytes)
                | ScrubSegment \<Rightarrow> loop (verify_step crc32c crc32c_append target bytes) (0, 0, 0)))"

end
