(* ===== verification/Segment.thy ===== *)
theory Segment
  imports Segment_Files
begin

text \<open>
  \<open>SegmentLog\<close> of the storage crate: \<open>crates/storage/src/segment.rs\<close> and
  \<open>segment/maintenance.rs\<close>. The log owns its directory. Each operation returns its result
  together with the log it leaves behind; the calls of opening the log and those that change the
  disk take their outcome as an argument. Reading an open log is taken to succeed on the bytes
  that are there.
\<close>

record recovery_report =
  rr_records :: nat
  rr_truncated_bytes :: nat
  rr_last_index :: u64
  rr_indexed_records :: nat
  rr_scanned_records :: nat

record segment_log =
  sl_disk :: segment_disk
  sl_max_segment_bytes :: nat
  sl_resident_records :: "record_location list"
  sl_sealed_indexes :: "(string, index_summary) fmap"
  sl_current_path :: string
  sl_current_len :: nat
  sl_recovery :: recovery_report
  sl_start_index :: u64
  sl_first_index :: "u64 option"
  sl_last_index :: "u64 option"
  sl_storage_bytes :: u64
  sl_checksums :: "(string, nat \<times> u32) fmap"
  sl_isolated :: bool
  sl_active_writer_feature_level :: u32

definition empty_file :: disk_file where
  "empty_file = \<lparr>fi_bytes = [], fi_durable = 0, fi_shadows = []\<rparr>"

text \<open>
  The outcome of a system call, and of removing a sidecar (\<open>recovery_index::remove\<close>), which may
  already be gone.
\<close>

definition seg_call :: "io_error option \<Rightarrow> storage_error + unit" where
  "seg_call fault = (case fault of None \<Rightarrow> Inr () | Some e \<Rightarrow> Inl (StIo e))"

definition remove_index_call :: "io_error option \<Rightarrow> storage_error + unit" where
  "remove_index_call fault =
     (case fault of
        None \<Rightarrow> Inr ()
      | Some (IoError kind m) \<Rightarrow> if kind = NotFound then Inr () else Inl (StIo (IoError kind m)))"

section \<open>Opening\<close>

text \<open>
  The outcomes of the system calls of \<open>open_with_feature_level\<close>: of creating and listing the
  directory; of creating and syncing a first segment, and of opening and syncing the directory
  after that; of reading the sidecar of a segment, which is then scanned instead; of opening and
  reading a segment to scan it, wherever that fails; of cutting off the torn tail and syncing
  the cut; and of opening the last segment for appending. A call that fails leaves no log.
\<close>

record log_open_io =
  lo_directory :: "io_error option"
  lo_list :: "io_error option"
  lo_create :: "io_error option"
  lo_create_sync :: "io_error option"
  lo_open_directory :: "io_error option"
  lo_sync_directory :: "io_error option"
  lo_sidecar :: "string \<Rightarrow> io_error option"
  lo_scan :: "string \<Rightarrow> io_error option"
  lo_set_len :: "io_error option"
  lo_sync :: "io_error option"
  lo_append :: "io_error option"

definition log_opens :: log_open_io where
  "log_opens = \<lparr>lo_directory = None, lo_list = None, lo_create = None, lo_create_sync = None, lo_open_directory = None,
      lo_sync_directory = None, lo_sidecar = (\<lambda>_. None), lo_scan = (\<lambda>_. None), lo_set_len = None, lo_sync = None,
      lo_append = None\<rparr>"

text \<open>The variables of the recovery loop.\<close>

record open_state =
  os_disk :: segment_disk
  os_resident :: "record_location list"
  os_sealed :: "(string, index_summary) fmap"
  os_checksums :: "(string, nat \<times> u32) fmap"
  os_recovery :: recovery_report
  os_expected :: "u64 option"
  os_first_index :: "u64 option"
  os_storage_bytes :: u64

definition usable_index :: "(byte list \<Rightarrow> u32) \<Rightarrow> segment_disk \<Rightarrow> string \<Rightarrow> index_summary option" where
  "usable_index crc32c disk path =
     (case load_summary crc32c (fmlookup (sd_indexes disk) path) of
        Inr (Some index) \<Rightarrow>
          (case fmlookup (sd_segments disk) path of
             Some f \<Rightarrow> if length (fi_bytes f) = is_segment_len index then Some index else None
           | None \<Rightarrow> None)
      | _ \<Rightarrow> None)"

text \<open>What the loop does with the range, length and checksum of one segment.\<close>

definition account_segment ::
  "string \<Rightarrow> u64 option \<times> u64 option \<times> nat \<times> nat \<times> nat \<times> u32 \<Rightarrow> open_state \<Rightarrow> storage_error + open_state" where
  "account_segment path entry st =
     (case entry of
        (first_entry, last_entry, count, truncated, bytes, crc) \<Rightarrow>
          let st = st\<lparr>os_checksums := fmupd path (bytes, crc) (os_checksums st),
                      os_storage_bytes := sat_add (os_storage_bytes st) (word_of_nat bytes),
                      os_recovery := (os_recovery st)\<lparr>rr_truncated_bytes := rr_truncated_bytes (os_recovery st) + truncated,
                                                      rr_records := rr_records (os_recovery st) + count\<rparr>\<rparr>
          in (case (first_entry, last_entry) of
                (Some first, Some last_index) \<Rightarrow>
                  let expected_last = sat_sub (sat_add first (word_of_nat count)) 1
                  in if count = 0 then Inr st
                     else and_then
                            (case os_expected st of
                               Some expected_index \<Rightarrow>
                                 if first \<noteq> expected_index then Inl (NonContiguous expected_index first) else Inr ()
                             | None \<Rightarrow> Inr ())
                            (\<lambda>_. if last_index \<noteq> expected_last then Inl (NonContiguous expected_last last_index)
                               else Inr (st\<lparr>os_first_index := Some (case os_first_index st of None \<Rightarrow> first | Some i \<Rightarrow> i),
                                       os_expected := Some (sat_inc last_index),
                                       os_recovery := (os_recovery st)\<lparr>rr_last_index := last_index\<rparr>\<rparr>))
              | _ \<Rightarrow> Inr st))"

definition open_segment ::
  "log_open_io \<Rightarrow> (byte list \<Rightarrow> u32) \<Rightarrow> (u32 \<Rightarrow> byte list \<Rightarrow> u32) \<Rightarrow> string \<Rightarrow> string \<Rightarrow> open_state
   \<Rightarrow> (storage_error + open_state) option" where
  "open_segment io crc32c crc32c_append last_path path st =
     (let is_last = (path = last_path)
      in case (if is_last \<or> lo_sidecar io path \<noteq> None then None else usable_index crc32c (os_disk st) path) of
           Some index \<Rightarrow>
             let count = is_location_count index
             in Some (account_segment path
                  (if count > 0 then Some (is_first_index index) else None,
                   if count > 0 then Some (is_last_index index) else None,
                   count, 0, is_segment_len index, is_segment_crc32c index)
                  (st\<lparr>os_recovery := (os_recovery st)\<lparr>rr_indexed_records := rr_indexed_records (os_recovery st) + count\<rparr>,
                      os_sealed := fmupd path index (os_sealed st)\<rparr>))
         | None \<Rightarrow>
             (case fmlookup (sd_segments (os_disk st)) path of
                None \<Rightarrow> Some (Inl (StIo not_found))
              | Some f \<Rightarrow>
                  (case seg_call (lo_scan io path) of
                     Inl e \<Rightarrow> Some (Inl e)
                   | Inr _ \<Rightarrow>
                  (case scan_segment crc32c crc32c_append path is_last (fi_bytes f) of
                     None \<Rightarrow> None
                   | Some (Inl e, kept) \<Rightarrow> Some (Inl e)
                   | Some (Inr (locations, truncated, bytes, crc), kept) \<Rightarrow>
                       let repaired = (kept \<noteq> fi_bytes f)
                       in (case (if repaired then and_then (seg_call (lo_set_len io)) (\<lambda>_. seg_call (lo_sync io)) else Inr ()) of
                             Inl e \<Rightarrow> Some (Inl e)
                           | Inr _ \<Rightarrow>
                       let f' = (if repaired then \<lparr>fi_bytes = kept, fi_durable = length kept, fi_shadows = []\<rparr> else f);
                           count = length locations
                       in Some (account_segment path
                            (map_option loc_index (get_at locations 0),
                             if locations = [] then None else Some (loc_index (last locations)),
                             count, truncated, bytes, crc)
                            (st\<lparr>os_disk := (os_disk st)\<lparr>sd_segments := fmupd path f' (sd_segments (os_disk st))\<rparr>,
                                os_recovery := (os_recovery st)\<lparr>rr_scanned_records := rr_scanned_records (os_recovery st) + count\<rparr>,
                                os_resident := os_resident st @ locations\<rparr>)))))))"

fun open_segments ::
  "log_open_io \<Rightarrow> (byte list \<Rightarrow> u32) \<Rightarrow> (u32 \<Rightarrow> byte list \<Rightarrow> u32) \<Rightarrow> string \<Rightarrow> string list \<Rightarrow> open_state
   \<Rightarrow> (storage_error + open_state) option" where
  "open_segments io crc32c crc32c_append last_path [] st = Some (Inr st)"
| "open_segments io crc32c crc32c_append last_path (path # paths) st =
     (case open_segment io crc32c crc32c_append last_path path st of
        Some (Inr st') \<Rightarrow> open_segments io crc32c crc32c_append last_path paths st'
      | r \<Rightarrow> r)"

definition new_open_state :: "segment_disk \<Rightarrow> open_state" where
  "new_open_state disk =
     \<lparr>os_disk = disk, os_resident = [], os_sealed = fmempty, os_checksums = fmempty,
      os_recovery = \<lparr>rr_records = 0, rr_truncated_bytes = 0, rr_last_index = 0, rr_indexed_records = 0,
                     rr_scanned_records = 0\<rparr>,
      os_expected = None, os_first_index = None, os_storage_bytes = 0\<rparr>"

text \<open>The calls before the scan: the directory, and the first segment when there is none.\<close>

definition prepare_log :: "log_open_io \<Rightarrow> segment_disk \<Rightarrow> u64 \<Rightarrow> storage_error + string list \<times> segment_disk" where
  "prepare_log io disk start_index =
     and_then (seg_call (lo_directory io)) (\<lambda>_.
     and_then (seg_call (lo_list io)) (\<lambda>_.
       case segment_paths disk of
         Inl e \<Rightarrow> Inl (StIo e)
       | Inr found \<Rightarrow>
           if found \<noteq> [] then Inr (found, disk)
           else
             and_then (seg_call (lo_create io)) (\<lambda>_.
             and_then (seg_call (lo_create_sync io)) (\<lambda>_.
             and_then (seg_call (lo_open_directory io)) (\<lambda>_.
             and_then (seg_call (lo_sync_directory io)) (\<lambda>_.
               Inr ([segment_path start_index],
                    disk\<lparr>sd_segments := fmupd (segment_path start_index) empty_file (sd_segments disk)\<rparr>)))))))"

definition open_log ::
  "log_open_io \<Rightarrow> (byte list \<Rightarrow> u32) \<Rightarrow> (u32 \<Rightarrow> byte list \<Rightarrow> u32) \<Rightarrow> segment_disk \<Rightarrow> nat \<Rightarrow> u64 \<Rightarrow> u32
   \<Rightarrow> (storage_error + segment_log) option" where
  "open_log io crc32c crc32c_append disk max_segment_bytes start_index active_writer_feature_level =
     (case prepare_log io disk start_index of
        Inl e \<Rightarrow> Some (Inl e)
      | Inr (paths, disk) \<Rightarrow>
          let last_path = last paths
          in case open_segments io crc32c crc32c_append last_path paths (new_open_state disk) of
               None \<Rightarrow> None
             | Some (Inl e) \<Rightarrow> Some (Inl e)
             | Some (Inr st) \<Rightarrow>
                 let empty = (rr_records (os_recovery st) = 0);
                     expected = (if empty then (case segment_base_index last_path of
                                                  Some base \<Rightarrow> Some base | None \<Rightarrow> os_expected st)
                                 else os_expected st);
                     current_len = (case fmlookup (sd_segments (os_disk st)) last_path of
                                      Some f \<Rightarrow> length (fi_bytes f) | None \<Rightarrow> 0)
                 in Some (and_then (seg_call (lo_append io)) (\<lambda>_. Inr
                      \<lparr>sl_disk = os_disk st, sl_max_segment_bytes = max max_segment_bytes (48 + 1),
                       sl_resident_records = os_resident st, sl_sealed_indexes = os_sealed st,
                       sl_current_path = last_path, sl_current_len = current_len,
                       sl_recovery = os_recovery st,
                       sl_start_index = (case expected of Some i \<Rightarrow> i | None \<Rightarrow> start_index),
                       sl_first_index = os_first_index st,
                       sl_last_index = (if empty then None else Some (rr_last_index (os_recovery st))),
                       sl_storage_bytes = os_storage_bytes st, sl_checksums = os_checksums st,
                       sl_isolated = False,
                       sl_active_writer_feature_level = active_writer_feature_level\<rparr>)))"

section \<open>Appending\<close>

definition next_index :: "segment_log \<Rightarrow> u64" where
  "next_index log = (case sl_last_index log of None \<Rightarrow> sl_start_index log | Some index \<Rightarrow> index + 1)"

definition log_available :: "segment_log \<Rightarrow> storage_error + unit" where
  "log_available log = (if sl_isolated log then Inl Isolated else Inr ())"

definition isolate :: "segment_log \<Rightarrow> segment_log" where
  "isolate log = log\<lparr>sl_isolated := True\<rparr>"

definition isolate_on_error :: "(storage_error + 'a) \<times> segment_log \<Rightarrow> (storage_error + 'a) \<times> segment_log" where
  "isolate_on_error r = (case fst r of Inl e \<Rightarrow> (Inl e, isolate (snd r)) | Inr x \<Rightarrow> r)"

definition file_at :: "segment_log \<Rightarrow> string \<Rightarrow> disk_file" where
  "file_at log path = (case fmlookup (sd_segments (sl_disk log)) path of Some f \<Rightarrow> f | None \<Rightarrow> empty_file)"

definition put_file :: "string \<Rightarrow> disk_file \<Rightarrow> segment_log \<Rightarrow> segment_log" where
  "put_file path f log =
     log\<lparr>sl_disk := (sl_disk log)\<lparr>sd_segments := fmupd path f (sd_segments (sl_disk log))\<rparr>\<rparr>"

text \<open>The outcomes of the system calls an append may make, in the order it makes them.\<close>

record append_io =
  ai_seal :: "io_error option"
  ai_create :: "io_error option"
  ai_directory :: "io_error option"
  ai_writes :: "write_outcome list"
  ai_sync :: "io_error option"

definition sync_current :: "io_error option \<Rightarrow> segment_log \<Rightarrow> (storage_error + unit) \<times> segment_log" where
  "sync_current fault log =
     (case sync_file fault (file_at log (sl_current_path log)) of
        (Inl e, f) \<Rightarrow> (Inl (StIo e), log)
      | (Inr _, f) \<Rightarrow> (Inr (), put_file (sl_current_path log) f log))"

definition rotate :: "append_io \<Rightarrow> u64 \<Rightarrow> segment_log \<Rightarrow> (storage_error + unit) \<times> segment_log" where
  "rotate io next log =
     (case sync_current (ai_seal io) log of
        (Inl e, log) \<Rightarrow> (Inl e, log)
      | (Inr _, log) \<Rightarrow>
          let path = segment_path next
          in case ai_create io of
               Some e \<Rightarrow> (Inl (StIo e), log)
             | None \<Rightarrow>
                 if fmlookup (sd_segments (sl_disk log)) path \<noteq> None
                 then (Inl (StIo (IoError OtherKind ''File exists'')), log)
                 else
                   let log = put_file path empty_file log
                   in (case ai_directory io of
                         Some e \<Rightarrow> (Inl (StIo e), log)
                       | None \<Rightarrow>
                           (Inr (), log\<lparr>sl_current_path := path, sl_current_len := 0,
                              sl_checksums := fmupd path (0, 0) (sl_checksums log)\<rparr>)))"

definition append_parts ::
  "(u32 \<Rightarrow> byte list \<Rightarrow> u32) \<Rightarrow> append_io \<Rightarrow> record_header \<Rightarrow> byte list \<Rightarrow> byte list list \<Rightarrow> nat \<Rightarrow> bool
   \<Rightarrow> segment_log \<Rightarrow> (storage_error + record_location) \<times> segment_log" where
  "append_parts crc32c_append io h header payload encoded durable log =
     (case (if sl_current_len log > 0 \<and> sl_current_len log + encoded > sl_max_segment_bytes log
            then rotate io (r_index h) log else (Inr (), log)) of
        (Inl e, log) \<Rightarrow> (Inl e, log)
      | (Inr _, log) \<Rightarrow>
          let offset = sl_current_len log;
              path = sl_current_path log;
              f = file_at log path;
              wrote = write_parts (ai_writes io) header payload (fi_bytes f);
              log = put_file path (f\<lparr>fi_bytes := snd wrote\<rparr>) log
          in case fst wrote of
               Inl e \<Rightarrow> (Inl (StIo e), log)
             | Inr _ \<Rightarrow>
                 (case (if durable then sync_current (ai_sync io) log else (Inr (), log)) of
                    (Inl e, log) \<Rightarrow> (Inl e, log)
                  | (Inr _, log) \<Rightarrow>
                      let checksum = (case fmlookup (sl_checksums log) path of Some c \<Rightarrow> c | None \<Rightarrow> (offset, 0));
                          crc = foldl crc32c_append (crc32c_append (snd checksum) header) payload;
                          location = \<lparr>loc_index = r_index h, loc_segment = path, loc_offset = offset,
                                      loc_encoded_len = encoded\<rparr>
                      in (Inr location,
                          log\<lparr>sl_current_len := sl_current_len log + encoded,
                              sl_storage_bytes := sat_add (sl_storage_bytes log) (word_of_nat encoded),
                              sl_checksums := fmupd path (sl_current_len log + encoded, crc) (sl_checksums log),
                              sl_resident_records := sl_resident_records log @ [location],
                              sl_first_index := Some (case sl_first_index log of None \<Rightarrow> r_index h | Some i \<Rightarrow> i),
                              sl_last_index := Some (r_index h)\<rparr>)))"

fun kind_debug :: "record_kind \<Rightarrow> string" where
  "kind_debug PublishBatch = ''PublishBatch''"
| "kind_debug EvictionGap = ''EvictionGap''"
| "kind_debug Noop = ''Noop''"

definition append_parts_at_with_location ::
  "(byte list \<Rightarrow> u32) \<Rightarrow> (u32 \<Rightarrow> byte list \<Rightarrow> u32) \<Rightarrow> append_io \<Rightarrow> record_header \<Rightarrow> byte list list \<Rightarrow> bool
   \<Rightarrow> segment_log \<Rightarrow> (storage_error + record_location) \<times> segment_log" where
  "append_parts_at_with_location crc32c crc32c_append io h payload durable log =
     (case log_available log of
        Inl e \<Rightarrow> (Inl e, log)
      | Inr _ \<Rightarrow>
          (case parts_len payload of
             None \<Rightarrow> (Inl (StIo (IoError InvalidInput ''record payload length overflow'')), log)
           | Some payload_bytes \<Rightarrow>
               let required = required_writer_feature_level (r_kind h) payload_bytes
               in if required > sl_active_writer_feature_level log then
                    (Inl (StIo (IoError InvalidInput
                       (''record kind '' @ kind_debug (r_kind h) @ '' with '' @ decimal payload_bytes
                        @ '' payload bytes requires writer feature level '' @ decimal (unat required)
                        @ '', active level is '' @ decimal (unat (sl_active_writer_feature_level log))))), log)
                  else
                    let log = (if sl_last_index log = None \<and> sl_current_len log = 0 \<and> r_index h \<ge> sl_start_index log
                               then log\<lparr>sl_start_index := r_index h\<rparr> else log);
                        expected = next_index log
                    in if r_index h \<noteq> expected then (Inl (NonContiguous expected (r_index h)), log)
                       else (case encode_header crc32c crc32c_append h payload of
                               Inl e \<Rightarrow> (Inl (StIo e), log)
                             | Inr header \<Rightarrow>
                                 isolate_on_error
                                   (append_parts crc32c_append io h header payload (48 + payload_bytes) durable log))))"

definition append_at_with_location ::
  "(byte list \<Rightarrow> u32) \<Rightarrow> (u32 \<Rightarrow> byte list \<Rightarrow> u32) \<Rightarrow> append_io \<Rightarrow> log_record \<Rightarrow> bool
   \<Rightarrow> segment_log \<Rightarrow> (storage_error + record_location) \<times> segment_log" where
  "append_at_with_location crc32c crc32c_append io r durable log =
     append_parts_at_with_location crc32c crc32c_append io (record_header_of r) [r_payload r] durable log"

definition log_append ::
  "(byte list \<Rightarrow> u32) \<Rightarrow> (u32 \<Rightarrow> byte list \<Rightarrow> u32) \<Rightarrow> append_io \<Rightarrow> log_record \<Rightarrow> bool
   \<Rightarrow> segment_log \<Rightarrow> (storage_error + u64) \<times> segment_log" where
  "log_append crc32c crc32c_append io r durable log =
     (case append_at_with_location crc32c crc32c_append io (r\<lparr>r_index := next_index log\<rparr>) durable log of
        (Inl e, log) \<Rightarrow> (Inl e, log)
      | (Inr location, log) \<Rightarrow> (Inr (loc_index location), log))"

definition sync_log :: "io_error option \<Rightarrow> segment_log \<Rightarrow> (storage_error + unit) \<times> segment_log" where
  "sync_log fault log =
     (case log_available log of
        Inl e \<Rightarrow> (Inl e, log)
      | Inr _ \<Rightarrow> isolate_on_error (sync_current fault log))"

definition log_mark_sync_failed :: "segment_log \<Rightarrow> segment_log" where
  "log_mark_sync_failed log = isolate log"

section \<open>Reading\<close>

text \<open>Iterating over a \<open>BTreeMap\<close> keyed by path goes through its keys in order.\<close>

definition sealed_paths :: "segment_log \<Rightarrow> string list" where
  "sealed_paths log = sorted_list_of_fset (fmdom (sl_sealed_indexes log))"

definition find_location :: "segment_log \<Rightarrow> u64 \<Rightarrow> storage_error + record_location option" where
  "find_location log index =
     (case find (\<lambda>location. loc_index location = index) (sl_resident_records log) of
        Some location \<Rightarrow> Inr (Some location)
      | None \<Rightarrow>
          (case find (\<lambda>path. case fmlookup (sl_sealed_indexes log) path of
                        Some summary \<Rightarrow> index \<ge> is_first_index summary \<and> index \<le> is_last_index summary
                      | None \<Rightarrow> False) (sealed_paths log) of
             None \<Rightarrow> Inr None
           | Some path \<Rightarrow>
               (case fmlookup (sl_sealed_indexes log) path of
                  Some summary \<Rightarrow> load_location (sl_disk log) path summary index
                | None \<Rightarrow> Inr None)))"

definition read_location ::
  "(byte list \<Rightarrow> u32) \<Rightarrow> (u32 \<Rightarrow> byte list \<Rightarrow> u32) \<Rightarrow> record_location \<Rightarrow> segment_log
   \<Rightarrow> (storage_error + log_record) \<times> segment_log" where
  "read_location crc32c crc32c_append location log =
     isolate_on_error (read_record crc32c crc32c_append (sl_disk log) location, log)"

definition read_log ::
  "(byte list \<Rightarrow> u32) \<Rightarrow> (u32 \<Rightarrow> byte list \<Rightarrow> u32) \<Rightarrow> u64 \<Rightarrow> segment_log
   \<Rightarrow> (storage_error + log_record option) \<times> segment_log" where
  "read_log crc32c crc32c_append index log =
     (case find_location log index of
        Inl e \<Rightarrow> (Inl e, log)
      | Inr None \<Rightarrow> (Inr None, log)
      | Inr (Some location) \<Rightarrow>
          (case read_location crc32c crc32c_append location log of
             (Inl e, log) \<Rightarrow> (Inl e, log)
           | (Inr r, log) \<Rightarrow> (Inr (Some r), log)))"

definition locations_for_segment :: "segment_log \<Rightarrow> string \<Rightarrow> storage_error + record_location list" where
  "locations_for_segment log path =
     (case fmlookup (sl_sealed_indexes log) path of
        Some summary \<Rightarrow> load_locations (sl_disk log) path summary
      | None \<Rightarrow> Inr (filter (\<lambda>location. loc_segment location = path) (sl_resident_records log)))"

definition record_index_range :: "segment_log \<Rightarrow> string \<Rightarrow> (u64 \<times> u64) option" where
  "record_index_range log path =
     (case fmlookup (sl_sealed_indexes log) path of
        Some index \<Rightarrow> if is_location_count index > 0 then Some (is_first_index index, is_last_index index) else None
      | None \<Rightarrow>
          (case filter (\<lambda>location. loc_segment location = path) (sl_resident_records log) of
             [] \<Rightarrow> None
           | first # rest \<Rightarrow> Some (loc_index first, loc_index (last (first # rest)))))"

fun all_locations_of :: "segment_log \<Rightarrow> string list \<Rightarrow> storage_error + record_location list" where
  "all_locations_of log [] = Inr []"
| "all_locations_of log (path # paths) =
     and_then (locations_for_segment log path) (\<lambda>here.
       and_then (all_locations_of log paths) (\<lambda>rest. Inr (here @ rest)))"

definition all_locations :: "segment_log \<Rightarrow> storage_error + record_location list" where
  "all_locations log =
     (case segment_paths (sl_disk log) of
        Inl e \<Rightarrow> Inl (StIo e)
      | Inr paths \<Rightarrow> and_then (all_locations_of log paths) (\<lambda>output. Inr (sort_key loc_index output)))"

definition recovery_metadata :: "segment_log \<Rightarrow> string \<Rightarrow> recovery_metadata_ref option" where
  "recovery_metadata log path =
     (case fmlookup (sl_sealed_indexes log) path of
        None \<Rightarrow> None
      | Some summary \<Rightarrow>
          Some \<lparr>rm_segment = path, rm_offset = is_metadata_offset summary, rm_len = is_metadata_len summary,
                rm_segment_len = is_segment_len summary\<rparr>)"

definition load_recovery_metadata :: "segment_log \<Rightarrow> string \<Rightarrow> storage_error + byte list option" where
  "load_recovery_metadata log path =
     (case fmlookup (sl_sealed_indexes log) path of
        None \<Rightarrow> Inr None
      | Some summary \<Rightarrow> and_then (load_metadata (sl_disk log) path summary) (\<lambda>bytes. Inr (Some bytes)))"

definition storage_usage :: "segment_log \<Rightarrow> u64 \<times> u64" where
  "storage_usage log =
     (let sidecar_bytes = foldl (\<lambda>sum path. case fmlookup (sl_sealed_indexes log) path of
             Some index \<Rightarrow> sat_add sum (sat_add (word_of_nat (is_metadata_offset index)) (word_of_nat (is_metadata_len index)))
           | None \<Rightarrow> sum) 0 (sealed_paths log)
      in (word_of_nat (fcard (fmdom (sl_checksums log))), sat_add (sl_storage_bytes log) sidecar_bytes))"

section \<open>Sidecars of sealed segments\<close>

definition persist_recovery_index ::
  "(byte list \<Rightarrow> u32) \<Rightarrow> (u32 \<Rightarrow> byte list \<Rightarrow> u32) \<Rightarrow> replace_fault \<Rightarrow> string \<Rightarrow> byte list \<Rightarrow> segment_log
   \<Rightarrow> (storage_error + unit) \<times> segment_log" where
  "persist_recovery_index crc32c crc32c_append fault path metadata log =
     (case log_available log of
        Inl e \<Rightarrow> (Inl e, log)
      | Inr _ \<Rightarrow>
          if path = sl_current_path log
          then (Inl (StIo (IoError InvalidInput ''cannot index the active segment'')), log)
          else (case fmlookup (sl_checksums log) path of
                  None \<Rightarrow> (Inl (StIo (IoError NotFound ''segment checksum is unavailable'')), log)
                | Some (segment_len, segment_crc32c) \<Rightarrow>
                    (case locations_for_segment log path of
                       Inl e \<Rightarrow> (Inl e, log)
                     | Inr locations \<Rightarrow>
                         (case store_index crc32c crc32c_append fault path segment_len segment_crc32c locations
                                 metadata (sl_disk log) of
                            (Inl e, disk) \<Rightarrow> (Inl e, log\<lparr>sl_disk := disk\<rparr>)
                          | (Inr _, disk) \<Rightarrow>
                              let log = log\<lparr>sl_disk := disk\<rparr>
                              in (case load_summary crc32c (fmlookup (sd_indexes disk) path) of
                                    Inl e \<Rightarrow> (Inl e, log)
                                  | Inr None \<Rightarrow>
                                      (Inl (StIo (IoError InvalidData ''persisted recovery index disappeared'')), log)
                                  | Inr (Some summary) \<Rightarrow>
                                      (Inr (), log\<lparr>sl_sealed_indexes := fmupd path summary (sl_sealed_indexes log),
                                         sl_resident_records := filter (\<lambda>location. loc_segment location \<noteq> path)
                                           (sl_resident_records log)\<rparr>))))))"

section \<open>Maintenance\<close>

definition min_option :: "u64 list \<Rightarrow> u64 option" where
  "min_option xs = (if xs = [] then None else Some (fold min (tl xs) (hd xs)))"

definition max_option :: "u64 list \<Rightarrow> u64 option" where
  "max_option xs = (if xs = [] then None else Some (fold max (tl xs) (hd xs)))"

definition nonempty_summaries :: "segment_log \<Rightarrow> index_summary list" where
  "nonempty_summaries log =
     filter (\<lambda>index. is_location_count index > 0)
       (map (\<lambda>path. the (fmlookup (sl_sealed_indexes log) path)) (sealed_paths log))"

definition refresh_aggregates :: "segment_log \<Rightarrow> segment_log" where
  "refresh_aggregates log =
     log\<lparr>sl_first_index := min_option (map is_first_index (nonempty_summaries log) @ map loc_index (sl_resident_records log)),
         sl_last_index := max_option (map is_last_index (nonempty_summaries log) @ map loc_index (sl_resident_records log)),
         sl_storage_bytes := foldl (\<lambda>sum path. case fmlookup (sl_checksums log) path of
             Some (bytes, _) \<Rightarrow> sat_add sum (word_of_nat bytes) | None \<Rightarrow> sum) 0
           (sorted_list_of_fset (fmdom (sl_checksums log)))\<rparr>"

text \<open>
  Purging: the outcome of the \<open>k\<close>-th system call is \<open>io k\<close>. \<open>remove_segments\<close> is the deletion
  loop; the trace lists the directories a crash may find. Unlinking is durable only once the
  directory is synced, and the segment and its sidecar may be gone in either order.
\<close>

definition drop_segment :: "string \<Rightarrow> segment_disk \<Rightarrow> segment_disk" where
  "drop_segment path disk = disk\<lparr>sd_segments := fmdrop path (sd_segments disk)\<rparr>"

definition drop_index :: "string \<Rightarrow> segment_disk \<Rightarrow> segment_disk" where
  "drop_index path disk = disk\<lparr>sd_indexes := fmdrop path (sd_indexes disk)\<rparr>"

fun remove_segments ::
  "(nat \<Rightarrow> io_error option) \<Rightarrow> nat \<Rightarrow> string list \<Rightarrow> segment_log
   \<Rightarrow> (storage_error + unit) \<times> segment_log \<times> segment_disk list" where
  "remove_segments io k [] log = (Inr (), log, [])"
| "remove_segments io k (path # paths) log =
     (case seg_call (io k) of
        Inl e \<Rightarrow> (Inl e, log, [])
      | Inr _ \<Rightarrow>
          let d0 = sl_disk log; d1 = drop_segment path d0; log = log\<lparr>sl_disk := d1\<rparr>
          in case remove_index_call (io (k + 1)) of
               Inl e \<Rightarrow> (Inl e, log, [d0, d1])
             | Inr _ \<Rightarrow>
                 let d2 = drop_index path d1; log = log\<lparr>sl_disk := d2\<rparr>; found = [d0, d1, drop_index path d0, d2]
                 in (case seg_call (io (k + 2)) of
                       Inl e \<Rightarrow> (Inl e, log, found)
                     | Inr _ \<Rightarrow>
                         (case remove_segments io (k + 3) paths
                                 (log\<lparr>sl_checksums := fmdrop path (sl_checksums log),
                                      sl_sealed_indexes := fmdrop path (sl_sealed_indexes log)\<rparr>) of
                            (r, log, trace) \<Rightarrow> (r, log, found @ trace))))"

fun removable :: "segment_log \<Rightarrow> u64 \<Rightarrow> string fset \<Rightarrow> string list \<Rightarrow> string list" where
  "removable log through_index retained [] = []"
| "removable log through_index retained (path # paths) =
     (if path = sl_current_path log \<or> path |\<in>| retained then []
      else (case record_index_range log path of
              None \<Rightarrow> []
            | Some (_, last_index) \<Rightarrow>
                if last_index > through_index then []
                else path # removable log through_index retained paths))"

definition purge_inner ::
  "(nat \<Rightarrow> io_error option) \<Rightarrow> u64 \<Rightarrow> string fset \<Rightarrow> segment_log
   \<Rightarrow> (storage_error + nat) \<times> segment_log \<times> segment_disk list" where
  "purge_inner io through_index retained log =
     (case segment_paths (sl_disk log) of
        Inl e \<Rightarrow> (Inl (StIo e), log, [])
      | Inr paths \<Rightarrow>
          let removed = removable log through_index retained paths
          in if removed = [] then (Inr 0, log, [])
             else (case sync_current (io 0) log of
                     (Inl e, log) \<Rightarrow> (Inl e, log, [])
                   | (Inr _, log) \<Rightarrow>
                       (case seg_call (io 1) of
                          Inl e \<Rightarrow> (Inl e, log, [])
                        | Inr _ \<Rightarrow>
                       let removed_through = (case record_index_range log (last removed) of
                                                Some (_, l) \<Rightarrow> l | None \<Rightarrow> through_index)
                       in (case remove_segments io 2 removed log of
                             (Inl e, log, trace) \<Rightarrow> (Inl e, log, trace)
                           | (Inr _, log, trace) \<Rightarrow>
                               let log = refresh_aggregates (log\<lparr>sl_resident_records :=
                                     filter (\<lambda>record. loc_index record > removed_through) (sl_resident_records log)\<rparr>);
                                   log = log\<lparr>sl_start_index := (case sl_first_index log of
                                              Some i \<Rightarrow> i | None \<Rightarrow> sat_inc through_index)\<rparr>
                               in (case seg_call (io (2 + 3 * length removed)) of
                                     Inl e \<Rightarrow> (Inl e, log, trace)
                                   | Inr _ \<Rightarrow> (Inr (length removed), log, trace))))))"

definition purge_prefix_retaining ::
  "(nat \<Rightarrow> io_error option) \<Rightarrow> u64 \<Rightarrow> string fset \<Rightarrow> segment_log
   \<Rightarrow> (storage_error + nat) \<times> segment_log \<times> segment_disk list" where
  "purge_prefix_retaining io through_index retained log =
     (case log_available log of
        Inl e \<Rightarrow> (Inl e, log, [])
      | Inr _ \<Rightarrow>
          (case purge_inner io through_index retained log of
             (Inl e, log, trace) \<Rightarrow> (Inl e, isolate log, trace)
           | r \<Rightarrow> r))"

definition seal_log :: "append_io \<Rightarrow> io_error option \<Rightarrow> segment_log \<Rightarrow> (storage_error + unit) \<times> segment_log" where
  "seal_log io fault log =
     (case log_available log of
        Inl e \<Rightarrow> (Inl e, log)
      | Inr _ \<Rightarrow>
          isolate_on_error
            (case sync_current fault log of
               (Inl e, log) \<Rightarrow> (Inl e, log)
             | (Inr _, log) \<Rightarrow>
                 if sl_current_len log > 0 then rotate io (next_index log) log else (Inr (), log)))"

definition immutable_file :: "segment_log \<Rightarrow> string \<Rightarrow> (nat \<times> u32) option" where
  "immutable_file log path =
     (if path \<noteq> sl_current_path log then fmlookup (sl_checksums log) path else None)"

fun oldest_boundary :: "segment_log \<Rightarrow> string fset \<Rightarrow> string list \<Rightarrow> (string \<times> u64) option" where
  "oldest_boundary log retained [] = None"
| "oldest_boundary log retained (path # paths) =
     (if path = sl_current_path log \<or> path |\<in>| retained then None
      else (case record_index_range log path of
              Some (_, last_index) \<Rightarrow> Some (path, last_index)
            | None \<Rightarrow> oldest_boundary log retained paths))"

definition oldest_inactive_boundary_retaining ::
  "segment_log \<Rightarrow> string fset \<Rightarrow> storage_error + (string \<times> u64) option" where
  "oldest_inactive_boundary_retaining log retained =
     (case segment_paths (sl_disk log) of
        Inl e \<Rightarrow> Inl (StIo e)
      | Inr paths \<Rightarrow> Inr (oldest_boundary log retained paths))"

text \<open>
  Cutting a suffix off. \<open>truncate_segments\<close> deletes the segments behind the target, newest
  first. \<open>truncate_target\<close> cuts the target: its calls are those of opening it, cutting and
  syncing it, removing its sidecar, syncing the directory, reading it again, opening it for
  appending, and the two final syncs. The rescan of the target is the source's own check of what
  it left.
\<close>

fun truncate_segments ::
  "(nat \<Rightarrow> io_error option) \<Rightarrow> nat \<Rightarrow> string list \<Rightarrow> segment_log \<Rightarrow> (storage_error + nat) \<times> segment_log" where
  "truncate_segments io k [] log = (Inr k, log)"
| "truncate_segments io k (path # paths) log =
     (case seg_call (io k) of
        Inl e \<Rightarrow> (Inl e, log)
      | Inr _ \<Rightarrow>
          let log = log\<lparr>sl_disk := drop_segment path (sl_disk log)\<rparr>
          in case remove_index_call (io (k + 1)) of
               Inl e \<Rightarrow> (Inl e, log)
             | Inr _ \<Rightarrow>
                 let log = log\<lparr>sl_disk := drop_index path (sl_disk log),
                               sl_checksums := fmdrop path (sl_checksums log),
                               sl_sealed_indexes := fmdrop path (sl_sealed_indexes log)\<rparr>
                 in (case seg_call (io (k + 2)) of
                       Inl e \<Rightarrow> (Inl e, log)
                     | Inr _ \<Rightarrow> truncate_segments io (k + 3) paths log))"

definition truncate_target ::
  "(byte list \<Rightarrow> u32) \<Rightarrow> (u32 \<Rightarrow> byte list \<Rightarrow> u32) \<Rightarrow> (nat \<Rightarrow> io_error option) \<Rightarrow> nat \<Rightarrow> u64
   \<Rightarrow> record_location \<Rightarrow> segment_log \<Rightarrow> ((storage_error + unit) \<times> segment_log) option" where
  "truncate_target crc32c crc32c_append io k from_index location log =
     (case and_then (seg_call (io k)) (\<lambda>_. seg_call (io (k + 1))) of
        Inl e \<Rightarrow> Some (Inl e, log)
      | Inr _ \<Rightarrow>
     let path = loc_segment location;
         cut = set_len (loc_offset location) (file_at log path);
         log1 = put_file path cut log
     in case sync_file (io (k + 2)) cut of
          (Inl e, _) \<Rightarrow> Some (Inl (StIo e), log1)
        | (Inr _, f) \<Rightarrow>
            let log2 = put_file path f log1
            in (case remove_index_call (io (k + 3)) of
                  Inl e \<Rightarrow> Some (Inl e, log2)
                | Inr _ \<Rightarrow>
                    let log3 = log2\<lparr>sl_disk := drop_index path (sl_disk log2)\<rparr>
                    in (case seg_call (io (k + 4)) of
                          Inl e \<Rightarrow> Some (Inl e, log3)
                        | Inr _ \<Rightarrow>
                            let log4 = log3\<lparr>sl_sealed_indexes := fmdrop path (sl_sealed_indexes log3),
                                  sl_resident_records := filter (\<lambda>record. loc_index record < from_index)
                                    (sl_resident_records log3)\<rparr>
                            in (case seg_call (io (k + 5)) of
                                  Inl e \<Rightarrow> Some (Inl e, log4)
                                | Inr _ \<Rightarrow>
                               (case scan_segment crc32c crc32c_append path True (fi_bytes f) of
                                  None \<Rightarrow> None
                                | Some (Inl e, _) \<Rightarrow> Some (Inl e, log4)
                                | Some (Inr (locations, _, bytes, crc), kept) \<Rightarrow>
                                    let log5 = put_file path (f\<lparr>fi_bytes := kept, fi_durable := length kept\<rparr>) log4
                                         \<lparr>sl_resident_records := filter (\<lambda>record. loc_segment record \<noteq> path)
                                             (sl_resident_records log4) @ locations,
                                           sl_checksums := fmupd path (bytes, crc) (sl_checksums log4),
                                           sl_current_path := path\<rparr>
                                    in (case seg_call (io (k + 6)) of
                                          Inl e \<Rightarrow> Some (Inl e, log5)
                                        | Inr _ \<Rightarrow>
                                    let log6 = refresh_aggregates (log5\<lparr>sl_current_len := length kept\<rparr>);
                                        log7 = log6\<lparr>sl_start_index := (case sl_first_index log6 of
                                                       Some i \<Rightarrow> i | None \<Rightarrow> from_index)\<rparr>
                                    in (case sync_current (io (k + 7)) log7 of
                                          (Inl e, log8) \<Rightarrow> Some (Inl e, log8)
                                        | (Inr _, log8) \<Rightarrow> Some (seg_call (io (k + 8)), log8))))))))"

definition truncate_inner ::
  "(byte list \<Rightarrow> u32) \<Rightarrow> (u32 \<Rightarrow> byte list \<Rightarrow> u32) \<Rightarrow> (nat \<Rightarrow> io_error option) \<Rightarrow> u64 \<Rightarrow> segment_log
   \<Rightarrow> ((storage_error + unit) \<times> segment_log) option" where
  "truncate_inner crc32c crc32c_append io from_index log =
     (case find_location log from_index of
        Inl e \<Rightarrow> Some (Inl e, log)
      | Inr None \<Rightarrow> Some (Inr (), log)
      | Inr (Some location) \<Rightarrow>
          (case sync_current (io 0) log of
             (Inl e, log) \<Rightarrow> Some (Inl e, log)
           | (Inr _, log) \<Rightarrow>
               (case and_then (seg_call (io 1)) (\<lambda>_. case segment_paths (sl_disk log) of Inl e \<Rightarrow> Inl (StIo e) | Inr paths \<Rightarrow> Inr paths) of
                  Inl e \<Rightarrow> Some (Inl e, log)
                | Inr paths \<Rightarrow>
                    if loc_segment location \<notin> set paths
                    then Some (Inl (StIo (IoError NotFound ''truncate target segment disappeared'')), log)
                    else
                      let behind = tl (dropWhile (\<lambda>path. path \<noteq> loc_segment location) paths)
                      in (case truncate_segments io 2 (rev behind) log of
                            (Inl e, log) \<Rightarrow> Some (Inl e, log)
                          | (Inr k, log) \<Rightarrow> truncate_target crc32c crc32c_append io k from_index location log))))"

definition truncate_suffix ::
  "(byte list \<Rightarrow> u32) \<Rightarrow> (u32 \<Rightarrow> byte list \<Rightarrow> u32) \<Rightarrow> (nat \<Rightarrow> io_error option) \<Rightarrow> u64 \<Rightarrow> segment_log
   \<Rightarrow> ((storage_error + unit) \<times> segment_log) option" where
  "truncate_suffix crc32c crc32c_append io from_index log =
     (case log_available log of
        Inl e \<Rightarrow> Some (Inl e, log)
      | Inr _ \<Rightarrow> map_option isolate_on_error (truncate_inner crc32c crc32c_append io from_index log))"

section \<open>Scrubbing\<close>

definition scrub_targets :: "segment_log \<Rightarrow> bool \<Rightarrow> storage_error + (scrub_target \<times> byte list option) list" where
  "scrub_targets log include_active =
     and_then (log_available log) (\<lambda>_. Inr
       (map (\<lambda>path. (\<lparr>st_path = path, st_expected_len = fst (the (fmlookup (sl_checksums log) path)),
                      st_expected_crc32c = snd (the (fmlookup (sl_checksums log) path)), st_kind = ScrubSegment\<rparr>,
                     map_option fi_bytes (fmlookup (sd_segments (sl_disk log)) path)))
          (filter (\<lambda>path. include_active \<or> path \<noteq> sl_current_path log) (sorted_list_of_fset (fmdom (sl_checksums log))))
        @ map (\<lambda>path. let index = the (fmlookup (sl_sealed_indexes log) path)
                       in (\<lparr>st_path = path, st_expected_len = is_metadata_offset index + is_metadata_len index,
                            st_expected_crc32c = is_body_crc32c index, st_kind = ScrubRecoveryIndex index_header_len\<rparr>,
                           fmlookup (sd_indexes (sl_disk log)) path))
            (sealed_paths log)))"

fun scrub_all ::
  "(byte list \<Rightarrow> u32) \<Rightarrow> (u32 \<Rightarrow> byte list \<Rightarrow> u32) \<Rightarrow> nat \<Rightarrow> (scrub_target \<times> byte list option) list \<Rightarrow> segment_log
   \<Rightarrow> ((storage_error + nat) \<times> segment_log) option" where
  "scrub_all crc32c crc32c_append count [] log = Some (Inr count, log)"
| "scrub_all crc32c crc32c_append count ((target, content) # targets) log =
     (case verify_target crc32c crc32c_append target content of
        None \<Rightarrow> None
      | Some (Inl e) \<Rightarrow> Some (Inl e, isolate log)
      | Some (Inr records) \<Rightarrow> scrub_all crc32c crc32c_append (count + records) targets log)"

definition scrub_log ::
  "(byte list \<Rightarrow> u32) \<Rightarrow> (u32 \<Rightarrow> byte list \<Rightarrow> u32) \<Rightarrow> segment_log \<Rightarrow> ((storage_error + nat) \<times> segment_log) option" where
  "scrub_log crc32c crc32c_append log =
     (case log_available log of
        Inl e \<Rightarrow> Some (Inl e, log)
      | Inr _ \<Rightarrow>
          (case scrub_targets log True of
             Inl e \<Rightarrow> Some (Inl e, log)
           | Inr targets \<Rightarrow> scrub_all crc32c crc32c_append 0 targets log))"

section \<open>Calls that succeed\<close>

lemma seg_call_None [simp]: "seg_call None = Inr ()" "remove_index_call None = Inr ()"
  by (simp_all add: seg_call_def remove_index_call_def)

lemma log_opens_fields [simp]:
  "lo_directory log_opens = None" "lo_list log_opens = None" "lo_create log_opens = None" "lo_create_sync log_opens = None"
  "lo_open_directory log_opens = None" "lo_sync_directory log_opens = None" "lo_sidecar log_opens path = None"
  "lo_scan log_opens path = None" "lo_set_len log_opens = None" "lo_sync log_opens = None" "lo_append log_opens = None"
  by (simp_all add: log_opens_def)

end
