(* ===== verification/Segment_Scan.thy ===== *)
theory Segment_Scan
  imports Segment
begin

text \<open>
  Facts about the files of a segment log: names sort like the indexes in them, scanning
  and scrubbing read exactly the records written, and a sidecar returns the locations it
  was built from.
\<close>

section \<open>Names\<close>

lemma decimal_digit_char: "(d :: nat) < 10 \<Longrightarrow> is_ascii_digit (char_of (48 + d))"
  by (simp add: is_ascii_digit_def)

lemma decimal_digits: "list_all is_ascii_digit (decimal n)"
proof (induction n rule: decimal.induct)
  case (1 n)
  then show ?case using decimal_digit_char [of n] decimal_digit_char [of "n mod 10"]
    by (subst decimal.simps) auto
qed

lemma length_decimal_le: "n < 10 ^ k \<Longrightarrow> 0 < k \<Longrightarrow> length (decimal n) \<le> k"
proof (induction n arbitrary: k rule: decimal.induct)
  case (1 n)
  show ?case
  proof (cases "n < 10")
    case False
    then have "1 < k" using 1(2,3) by (cases "k = 1") auto
    then obtain j where j: "k = Suc j" "0 < j" by (cases k) auto
    then have "n div 10 < 10 ^ j" using 1(2) by (simp add: less_mult_imp_div_less)
    then have "length (decimal (n div 10)) \<le> j" using 1(1) False j(2) by blast
    then show ?thesis using False j by (simp add: decimal.simps [of n])
  qed (use 1 in \<open>simp add: decimal.simps [of n]\<close>)
qed

lemma digits_value_zeros: "digits_value 10 0 (replicate k CHR ''0'' @ s) = digits_value 10 0 s"
  by (induction k) (simp_all add: to_digit_def)

lemma padded_decimal_u64:
  "length (padded_decimal 20 (unat (b :: u64))) = 20"
  "list_all is_ascii_digit (padded_decimal 20 (unat b))"
  "digits_value 10 0 (padded_decimal 20 (unat b)) = Some (unat b)"
proof -
  have "unat b < 10 ^ 20" using unsigned_less [of b, where ?'a = nat] by simp
  then have "length (decimal (unat b)) \<le> 20" by (rule length_decimal_le) simp
  then show "length (padded_decimal 20 (unat b)) = 20" by (simp add: padded_decimal_def)
  have "is_ascii_digit CHR ''0''" by (simp add: is_ascii_digit_def)
  then show "list_all is_ascii_digit (padded_decimal 20 (unat b))"
    using decimal_digits by (auto simp: padded_decimal_def list_all_iff)
  show "digits_value 10 0 (padded_decimal 20 (unat b)) = Some (unat b)"
    by (simp add: padded_decimal_def digits_value_zeros digits_value_decimal)
qed

lemma digit_not_plus: "is_ascii_digit c \<Longrightarrow> c \<noteq> CHR ''+''"
  by (auto simp: is_ascii_digit_def)

lemma u64_from_digits:
  assumes "list_all is_ascii_digit s" and "s \<noteq> []"
  shows "u64_from_str_radix 10 s
       = (case digits_value 10 0 s of None \<Rightarrow> None | Some n \<Rightarrow> if n < 2 ^ 64 then Some (word_of_nat n) else None)"
  using assms digit_not_plus by (cases s) (auto simp: u64_from_str_radix_def Let_def)

lemma segment_base_index_path [simp]: "segment_base_index (segment_path b) = Some b"
proof -
  have "u64_from_str_radix 10 (padded_decimal 20 (unat b)) = Some b"
    using padded_decimal_u64 [of b] unsigned_less [of b, where ?'a = nat]
    by (subst u64_from_digits) auto
  then show ?thesis
    using padded_decimal_u64 [of b]
    by (simp add: segment_base_index_def segment_path_def strip_prefix_def)
qed

lemma segment_path_shape: "prefix segment_prefix (segment_path b)" "suffix segment_suffix (segment_path b)"
  by (simp_all add: segment_path_def suffix_def)

lemma inj_segment_path [simp]: "segment_path a = segment_path b \<longleftrightarrow> a = b"
  by (metis option.inject segment_base_index_path)

lemma to_digit_of_digit:
  assumes "is_ascii_digit c" shows "to_digit 10 c = Some (of_char c - 48)" "of_char c - 48 < (10 :: nat)"
  using assms by (auto simp: is_ascii_digit_def to_digit_def Let_def)

lemma digits_value_bounds:
  "list_all is_ascii_digit s \<Longrightarrow> digits_value 10 a s = Some n \<Longrightarrow>
   a * 10 ^ length s \<le> n \<and> n < (a + 1) * 10 ^ length s"
proof (induction s arbitrary: a)
  case (Cons c s)
  let ?d = "of_char c - 48 :: nat"
  have d: "to_digit 10 c = Some ?d" "?d < 10" using to_digit_of_digit Cons.prems(1) by simp_all
  then have IH: "(a * 10 + ?d) * 10 ^ length s \<le> n" "n < (a * 10 + ?d + 1) * 10 ^ length s"
    using Cons by simp_all
  have "(a * 10 + ?d + 1) * 10 ^ length s \<le> (a + 1) * 10 * 10 ^ length s"
    using d(2) by (intro mult_right_mono) simp_all
  moreover have "a * 10 * 10 ^ length s \<le> (a * 10 + ?d) * 10 ^ length s"
    by (intro mult_right_mono) simp_all
  ultimately have "n < (a + 1) * 10 * 10 ^ length s" "a * 10 * 10 ^ length s \<le> n"
    using IH by (linarith, linarith)
  then show ?case by (simp add: algebra_simps)
qed simp

lemma digits_value_less:
  "list_all is_ascii_digit s \<Longrightarrow> list_all is_ascii_digit t \<Longrightarrow> length s = length t \<Longrightarrow>
   digits_value 10 a s = Some m \<Longrightarrow> digits_value 10 a t = Some n \<Longrightarrow> s < t \<Longrightarrow> m < n"
proof (induction s arbitrary: t a)
  case (Cons c s)
  then obtain d t' where t: "t = d # t'" by (cases t) auto
  let ?c = "of_char c - 48 :: nat" and ?d = "of_char d - 48 :: nat"
  have cd: "to_digit 10 c = Some ?c" "to_digit 10 d = Some ?d" "is_ascii_digit c" "is_ascii_digit d"
    using to_digit_of_digit Cons.prems t by simp_all
  have v: "digits_value 10 (a * 10 + ?c) s = Some m" "digits_value 10 (a * 10 + ?d) t' = Some n"
    using Cons.prems t cd by simp_all
  show ?case
  proof (cases "c = d")
    case True
    then show ?thesis using Cons t v by (simp add: Cons.IH)
  next
    case False
    then have "c < d" using Cons.prems t by auto
    then have "?c < ?d" using cd(3,4) by (simp add: is_ascii_digit_def less_char_def)
    then have "(a * 10 + ?c + 1) * 10 ^ length s \<le> (a * 10 + ?d) * 10 ^ length s"
      by (intro mult_right_mono) simp_all
    moreover have "m < (a * 10 + ?c + 1) * 10 ^ length s" "(a * 10 + ?d) * 10 ^ length t' \<le> n"
      using digits_value_bounds [OF _ v(1)] digits_value_bounds [OF _ v(2)] Cons.prems t by simp_all
    ultimately show ?thesis using Cons.prems t by simp
  qed
qed simp

lemma append_less_append: "(p @ x < p @ y) = (x < (y :: 'a::order list))"
  by (induction p) simp_all

lemma less_append_same: "length x = length y \<Longrightarrow> x < (y :: 'a::order list) \<Longrightarrow> x @ s < y @ s"
  by (induction x y rule: list_induct2) auto

lemma segment_path_less [simp]: "segment_path a < segment_path b \<longleftrightarrow> a < b"
proof -
  have mono: "a < b" if "segment_path a < segment_path b" for a b
  proof (rule ccontr)
    assume n: "\<not> a < b"
    let ?a = "padded_decimal 20 (unat a)" and ?b = "padded_decimal 20 (unat b)"
    have "a \<noteq> b" using that by auto
    have "?a < ?b"
    proof (rule ccontr)
      assume "\<not> ?a < ?b"
      moreover have "?a \<noteq> ?b" using \<open>a \<noteq> b\<close> by (metis inj_segment_path segment_path_def)
      ultimately have "?b < ?a" by auto
      then have "segment_path b < segment_path a"
        by (simp add: segment_path_def append_less_append less_append_same padded_decimal_u64)
      then show False using that by simp
    qed
    then have "unat a < unat b"
      using digits_value_less [OF padded_decimal_u64(2) padded_decimal_u64(2)] padded_decimal_u64 by metis
    then show False using n by (simp add: word_less_nat_alt)
  qed
  show ?thesis using mono [of a b] mono [of b a] inj_segment_path [of a b] by (metis linorder_less_linear order_less_asym)
qed

section \<open>Scanning\<close>

definition location_of :: "string \<Rightarrow> nat \<Rightarrow> log_record \<Rightarrow> record_location" where
  "location_of path offset r =
     \<lparr>loc_index = r_index r, loc_segment = path, loc_offset = offset, loc_encoded_len = encoded_len r\<rparr>"

fun locations_from :: "string \<Rightarrow> nat \<Rightarrow> log_record list \<Rightarrow> record_location list" where
  "locations_from path offset [] = []"
| "locations_from path offset (r # rs) =
     location_of path offset r # locations_from path (offset + encoded_len r) rs"

abbreviation locations :: "string \<Rightarrow> log_record list \<Rightarrow> record_location list" where
  "locations path rs \<equiv> locations_from path 0 rs"

definition scanned :: "record_location list \<Rightarrow> nat" where
  "scanned ls = sum_list (map loc_encoded_len ls)"

definition absorb_record ::
  "(byte list \<Rightarrow> u32) \<Rightarrow> (u32 \<Rightarrow> byte list \<Rightarrow> u32) \<Rightarrow> string \<Rightarrow> log_record
   \<Rightarrow> record_location list \<times> u32 \<Rightarrow> record_location list \<times> u32" where
  "absorb_record crc32c crc32c_append path r st =
     (fst st @ [location_of path (scanned (fst st)) r], crc32c_append (snd st) (record_bytes crc32c crc32c_append r))"

lemma encoded_len_record_bytes: "length (record_bytes crc32c crc32c_append r) = encoded_len r"
  by (simp add: encoded_len_def header_len_def)

lemma crc_chunks_append: "crc_laws crc32c crc32c_append \<Longrightarrow> crc_chunks crc32c_append c bytes = crc32c_append c bytes"
proof (induction "length bytes" arbitrary: c bytes rule: less_induct)
  case less
  show ?case
  proof (cases "bytes = []")
    case True
    then show ?thesis using crc_lawsD [OF less.prems] by (simp add: crc_chunks.simps)
  next
    case False
    then have "crc_chunks crc32c_append c bytes = crc32c_append (crc32c_append c (take 65536 bytes)) (drop 65536 bytes)"
      using less by (subst crc_chunks.simps) simp
    also have "\<dots> = crc32c_append c bytes" by (simp add: crc_lawsD(3) [OF less.prems])
    finally show ?thesis .
  qed
qed

lemma record_slices:
  assumes "record_valid r" and "bytes = pre @ record_bytes crc32c crc32c_append r @ rest"
  shows "slice (length pre) (length pre + 48) bytes = take 48 (record_bytes crc32c crc32c_append r)"
    and "slice (length pre + 48) (length pre + 48 + length (r_payload r)) bytes = r_payload r"
  unfolding assms(2) record_bytes_def Let_def by (simp_all add: slice_def)

lemma record_header_payload:
  "take 48 (record_bytes crc32c crc32c_append r) @ r_payload r = record_bytes crc32c crc32c_append r"
  by (simp add: record_bytes_def Let_def)

lemma record_bytes_nonempty [simp]: "record_bytes crc32c crc32c_append r \<noteq> []"
  using length_record_bytes [of crc32c crc32c_append r] by fastforce

lemma scan_step_frame:
  assumes v: "record_valid r" and laws: "crc_laws crc32c crc32c_append" and "length pre = scanned (fst st)"
  shows "segment_scan_step crc32c crc32c_append path allow (pre @ record_bytes crc32c crc32c_append r @ rest) (length pre, st)
       = Inr (length pre + length (record_bytes crc32c crc32c_append r), absorb_record crc32c crc32c_append path r st)"
proof -
  let ?b = "record_bytes crc32c crc32c_append r"
  let ?h = "take 48 ?b"
  have h: "?h = take 48 (?b @ [])" by simp
  note parts = record_header_bytes [OF v h]
  note sl = record_slices [OF v refl, of pre crc32c crc32c_append rest]
  have "crc32c_append (crc32c_append (snd st) ?h) (r_payload r) = crc32c_append (snd st) ?b"
    using crc_lawsD(3) [OF laws] record_header_payload by simp
  then show ?thesis
    by (simp add: assms(3) [symmetric] segment_scan_step_def Let_def sl parts crc_chunks_append [OF laws] absorb_record_def location_of_def
        encoded_len_def header_len_def record_header_of_def)
qed

lemma scan_step_end:
  "segment_scan_step crc32c crc32c_append path allow pre (length pre, st) = Inl (Inr (fst st, 0, length pre, snd st), pre)"
  by (simp add: segment_scan_step_def Let_def)

lemma scan_step_torn:
  assumes v: "record_valid r" and "0 < k" and "k < length (record_bytes crc32c crc32c_append r)"
  shows "segment_scan_step crc32c crc32c_append path True (pre @ take k (record_bytes crc32c crc32c_append r)) (length pre, st)
       = Inl (Inr (fst st, k, length pre, snd st), pre)"
proof (cases "k < 48")
  case True
  then show ?thesis using assms(2,3) by (simp add: segment_scan_step_def Let_def min_def)
next
  case False
  let ?b = "record_bytes crc32c crc32c_append r"
  have h: "slice (length pre) (length pre + 48) (pre @ take k ?b) = take 48 (?b @ [])"
    using False by (simp add: slice_def min_def)
  then show ?thesis
    using False assms(2,3) record_header_bytes(1) [OF v refl, of crc32c crc32c_append "[]"]
    by (simp add: segment_scan_step_def Let_def min_def)
qed

interpretation segment_reader: frame_reader "segment_scan_step crc32c crc32c_append path allow" "record_bytes crc32c crc32c_append"
  "\<lambda>st r. record_valid r \<and> crc_laws crc32c crc32c_append" "absorb_record crc32c crc32c_append path"
  "\<lambda>pre torn st. (Inr (fst st, torn, length pre, snd st), pre)" "\<lambda>n st. n = scanned (fst st)"
  for crc32c crc32c_append path allow
proof (standard, goal_cases)
  case (1 st r pre rest)
  then show ?case by (intro scan_step_frame) simp_all
next
  case (2 pre st)
  show ?case by (rule scan_step_end)
next
  case (3 st r n)
  then show ?case by (simp add: absorb_record_def scanned_def location_of_def encoded_len_def header_len_def)
qed simp

interpretation segment_scanner: frame_scanner "segment_scan_step crc32c crc32c_append path True" "record_bytes crc32c crc32c_append"
  "\<lambda>st r. record_valid r \<and> crc_laws crc32c crc32c_append" "absorb_record crc32c crc32c_append path"
  "\<lambda>pre torn st. (Inr (fst st, torn, length pre, snd st), pre)" "\<lambda>n st. n = scanned (fst st)"
  for crc32c crc32c_append path
proof (standard, goal_cases)
  case (1 st r pre k)
  then show ?case by (intro scan_step_torn) simp_all
qed

lemma locations_from_append:
  "locations_from path n (rs @ [r])
   = locations_from path n rs @ [location_of path (n + scanned (locations_from path n rs)) r]"
  by (induction rs arbitrary: n) (simp_all add: scanned_def location_of_def add.assoc)

lemma absorb_records:
  assumes "crc_laws crc32c crc32c_append"
  shows "fold (absorb_record crc32c crc32c_append path) rs ([], c)
       = (locations path rs, crc32c_append c (frames (record_bytes crc32c crc32c_append) rs))"
proof (induction rs rule: rev_induct)
  case (snoc r rs)
  then show ?case
    using crc_lawsD(3) [OF assms] by (simp add: absorb_record_def locations_from_append)
qed (simp add: crc_lawsD(2) [OF assms])

lemma record_chain:
  "list_all record_valid rs \<Longrightarrow> crc_laws crc32c crc32c_append \<Longrightarrow>
   chain (\<lambda>st r. record_valid r \<and> crc_laws crc32c crc32c_append) (absorb_record crc32c crc32c_append path) st rs"
  by (induction rs arbitrary: st) auto

lemma scan_segment_complete:
  assumes "list_all record_valid rs" and "crc_laws crc32c crc32c_append"
  shows "scan_segment crc32c crc32c_append path allow (frames (record_bytes crc32c crc32c_append) rs)
    = Some (Inr (locations path rs, 0, length (frames (record_bytes crc32c crc32c_append) rs),
                 crc32c_append 0 (frames (record_bytes crc32c crc32c_append) rs)),
            frames (record_bytes crc32c crc32c_append) rs)"
  using segment_reader.recover_exact [OF record_chain [OF assms]] absorb_records [OF assms(2), of path rs 0]
  by (simp add: scan_segment_def scanned_def)

lemma scan_segment_crashed:
  assumes "list_all record_valid rs" and "crc_laws crc32c crc32c_append"
    and "prefix b (frames (record_bytes crc32c crc32c_append) rs)"
  shows "\<exists>m \<le> length rs. let kept = frames (record_bytes crc32c crc32c_append) (take m rs) in
     scan_segment crc32c crc32c_append path True b
       = Some (Inr (locations path (take m rs), length b - length kept, length kept, crc32c_append 0 kept), kept)
     \<and> prefix kept b
     \<and> (\<forall>j \<le> length rs. length (frames (record_bytes crc32c crc32c_append) (take j rs)) \<le> length b \<longrightarrow> j \<le> m)"
  using segment_scanner.recover_crashed [OF record_chain [OF assms(1,2), where path = path and st = "([], 0)"] assms(3)] absorb_records [OF assms(2), of path _ 0]
  by (simp add: scan_segment_def scanned_def Let_def)

section \<open>Scrubbing\<close>

lemma verify_step_frame:
  assumes v: "record_valid r" and laws: "crc_laws crc32c crc32c_append"
  shows "verify_step crc32c crc32c_append target (pre @ record_bytes crc32c crc32c_append r @ rest) (length pre, st)
       = Inr (length pre + length (record_bytes crc32c crc32c_append r),
              fst st + 1, crc32c_append (snd st) (record_bytes crc32c crc32c_append r))"
proof -
  let ?b = "record_bytes crc32c crc32c_append r"
  let ?h = "take 48 ?b"
  have h: "?h = take 48 (?b @ [])" by simp
  note parts = record_header_bytes [OF v h]
  note sl = record_slices [OF v refl, of pre crc32c crc32c_append rest]
  have "\<exists>k. kind_try_from (?h ! 5) = Inr k"
    using parts(2) by (auto simp: decode_header_def and_then_Inr_iff split: if_splits)
  then obtain k where k: "kind_try_from (?h ! 5) = Inr k" ..
  have "crc32c_append (crc32c_append (snd st) ?h) (r_payload r) = crc32c_append (snd st) ?b"
    using crc_lawsD(3) [OF laws] record_header_payload by simp
  then show ?thesis
    using k by (simp add: verify_step_def Let_def sl parts crc_chunks_append [OF laws])
qed

interpretation segment_verifier: frame_reader "verify_step crc32c crc32c_append target"
  "record_bytes crc32c crc32c_append" "\<lambda>st r. record_valid r \<and> crc_laws crc32c crc32c_append"
  "\<lambda>r st. (fst st + 1, crc32c_append (snd st) (record_bytes crc32c crc32c_append r))"
  "\<lambda>pre torn st. if snd st \<noteq> st_expected_crc32c target
     then Inl (target_corrupt target 0 ''segment checksum mismatch'') else Inr (fst st)" "\<lambda>n st. True"
  for crc32c crc32c_append target
proof
  fix pre :: "byte list" and st
  show "verify_step crc32c crc32c_append target pre (length pre, st)
      = Inl (if snd st \<noteq> st_expected_crc32c target
             then Inl (target_corrupt target 0 ''segment checksum mismatch'') else Inr (fst st))"
    by (simp add: verify_step_def Let_def)
qed (simp_all add: verify_step_frame)

section \<open>Sidecars\<close>

lemma word_add_nat:
  assumes "unat (x :: u64) = unat y + k" shows "y + word_of_nat k = x"
proof -
  have "k < 2 ^ 64" using assms unsigned_less [of x, where ?'a = nat] by simp
  then show ?thesis
    using assms unsigned_less [of x, where ?'a = nat]
    by (simp add: word_unat_eq_iff unat_word_ariths unat_of_nat)
qed

definition summary_of ::
  "(u32 \<Rightarrow> byte list \<Rightarrow> u32) \<Rightarrow> nat \<Rightarrow> u32 \<Rightarrow> record_location list \<Rightarrow> byte list \<Rightarrow> index_summary" where
  "summary_of crc32c_append segment_len segment_crc32c ls metadata =
     \<lparr>is_segment_len = segment_len, is_segment_crc32c = segment_crc32c,
      is_body_crc32c = crc32c_append (foldl (location_crc crc32c_append) 0 ls) metadata,
      is_location_count = length ls, is_first_index = (case ls of [] \<Rightarrow> 0 | l # _ \<Rightarrow> loc_index l),
      is_last_index = (if ls = [] then 0 else loc_index (last ls)),
      is_metadata_offset = index_header_len + length ls * location_len, is_metadata_len = length metadata\<rparr>"

text \<open>The locations a sidecar can hold: consecutive indexes, inside the segment.\<close>

definition indexable :: "string \<Rightarrow> nat \<Rightarrow> record_location list \<Rightarrow> bool" where
  "indexable path segment_len ls \<longleftrightarrow>
     segment_len < 2 ^ 64
     \<and> (\<forall>k < length ls. loc_segment (ls ! k) = path \<and> 0 < loc_encoded_len (ls ! k)
          \<and> loc_offset (ls ! k) + loc_encoded_len (ls ! k) \<le> segment_len
          \<and> unat (loc_index (ls ! k)) = unat (loc_index (hd ls)) + k)"

lemma length_index_header [simp]: "length (index_header crc32c crc32c_append n c ls md) = 64"
  by (simp add: index_header_def Let_def index_magic_def)

lemma length_location_bytes [simp]: "length (location_bytes l) = 24"
  by (simp add: location_bytes_def)

lemma length_index_bytes:
  "length (index_bytes crc32c crc32c_append n c ls md) = 64 + 24 * length ls + length md"
proof -
  have "length (concat (map location_bytes ls)) = 24 * length ls" by (induction ls) simp_all
  then show ?thesis by (simp add: index_bytes_def)
qed

lemma location_slice:
  assumes "k < length ls"
  shows "slice (64 + k * 24) (64 + k * 24 + 24) (index_bytes crc32c crc32c_append n c ls md) = location_bytes (ls ! k)"
proof -
  have len: "length (concat (map location_bytes xs)) = length xs * 24" for xs by (induction xs) simp_all
  have "ls = take k ls @ ls ! k # drop (Suc k) ls" using assms by (rule id_take_nth_drop)
  then have "concat (map location_bytes ls)
      = concat (map location_bytes (take k ls)) @ location_bytes (ls ! k) @ concat (map location_bytes (drop (Suc k) ls))"
    by (metis (no_types, lifting) concat.simps(2) concat_append list.simps(9) map_append)
  then have "index_bytes crc32c crc32c_append n c ls md
      = (index_header crc32c crc32c_append n c ls md @ concat (map location_bytes (take k ls)))
        @ location_bytes (ls ! k) @ concat (map location_bytes (drop (Suc k) ls)) @ md"
    by (simp add: index_bytes_def)
  moreover have "length (index_header crc32c crc32c_append n c ls md @ concat (map location_bytes (take k ls))) = 64 + k * 24"
    using assms by (simp only: length_append length_index_header len length_take min.absorb2 less_imp_le)
  ultimately show ?thesis by (simp add: slice_def)
qed

lemma index_header_slices:
  fixes body_crc :: u32 and first_index last_index :: u64
  assumes "body_crc = crc32c_append (foldl (location_crc crc32c_append) 0 ls) md"
    and "first_index = (case ls of [] \<Rightarrow> 0 | l # _ \<Rightarrow> loc_index l)"
    and "last_index = (if ls = [] then 0 else loc_index (last ls))"
    and "h = index_header crc32c crc32c_append n c ls md"
  shows "slice 0 4 h = index_magic" "h ! 4 = index_version" "slice 8 16 h = to_be_bytes (word_of_nat n :: u64)"
    "slice 16 20 h = to_be_bytes c" "slice 20 24 h = to_be_bytes (word_of_nat (length ls) :: u32)"
    "slice 24 28 h = to_be_bytes (word_of_nat (length md) :: u32)" "slice 28 32 h = to_be_bytes body_crc"
    "slice 32 40 h = to_be_bytes first_index" "slice 40 48 h = to_be_bytes last_index"
    "slice 48 56 h = to_be_bytes (word_of_nat (length ls * 24 + length md) :: u64)"
    "slice 56 60 h = to_be_bytes (crc32c (slice 0 56 h))"
  unfolding assms(4) index_header_def Let_def assms(1-3) [symmetric]
  by (simp_all add: codec_simps index_magic_def nth_append location_len_def) (simp_all add: slice_def)

lemma load_summary_index:
  assumes "indexable path n ls" and "length ls < 2 ^ 32" and "length md < 2 ^ 32"
  shows "load_summary crc32c (Some (index_bytes crc32c crc32c_append n c ls md))
       = (if 64 + 24 * length ls + length md > max_index_bytes
          then Inl (index_invalid ''recovery index size is invalid'')
          else Inr (Some (summary_of crc32c_append n c ls md)))"
proof -
  let ?h = "index_header crc32c crc32c_append n c ls md"
  have t: "take 64 (index_bytes crc32c crc32c_append n c ls md) = ?h" by (simp add: index_bytes_def)
  note sl = index_header_slices [OF refl refl refl, of ?h crc32c crc32c_append n c ls md, OF refl]
  have w: "unat (word_of_nat n :: u64) = n" "unat (word_of_nat (length ls) :: u32) = length ls"
      "unat (word_of_nat (length md) :: u32) = length md"
      "unat (word_of_nat (length ls * 24 + length md) :: u64) = length ls * 24 + length md"
    using assms by (simp_all add: unat_of_nat indexable_def del: of_nat_add of_nat_mult)
  have last: "loc_index (last ls) = sat_add (loc_index (hd ls)) (word_of_nat (length ls - 1))" if "ls \<noteq> []"
  proof -
    have l: "unat (loc_index (last ls)) = unat (loc_index (hd ls)) + (length ls - 1)"
      using assms(1) that by (simp add: indexable_def last_conv_nth)
    moreover have "unat (word_of_nat (length ls - 1) :: u64) = length ls - 1"
      using assms(2) by (simp add: unat_of_nat)
    ultimately show ?thesis
      using unat_le_u64_max [of "loc_index (last ls)"] by (simp add: word_unat_eq_iff unat_sat_add_u64)
  qed
  define a where "a = (case ls of [] \<Rightarrow> 0 | l # _ \<Rightarrow> loc_index l)"
  define b where "b = (if ls = [] then 0 else loc_index (last ls))"
  have ab: "ls = [] \<Longrightarrow> a = 0 \<and> b = 0" "ls \<noteq> [] \<Longrightarrow> b = sat_add a (word_of_nat (length ls - 1))"
    using last by (auto simp: a_def b_def split: list.split)
  show ?thesis
    unfolding load_summary_def
    using ab
    by (auto simp: Let_def length_index_bytes t sl [folded a_def b_def] w index_header_len_def
        location_len_def summary_of_def a_def [symmetric] b_def [symmetric] simp del: of_nat_add of_nat_mult)
qed

lemma parse_location_bytes:
  assumes "indexable path n ls" and "k < length ls"
  shows "parse_location path n (loc_index (ls ! k)) (location_bytes (ls ! k)) = Some (ls ! k)"
proof -
  let ?l = "ls ! k"
  have l: "loc_segment ?l = path" "0 < loc_encoded_len ?l" "loc_offset ?l + loc_encoded_len ?l \<le> n" "n < 2 ^ 64"
    using assms by (auto simp: indexable_def)
  have w: "unat (word_of_nat (loc_offset ?l) :: u64) = loc_offset ?l"
      "unat (word_of_nat (loc_encoded_len ?l) :: u64) = loc_encoded_len ?l"
    using l by (simp_all add: unat_of_nat)
  have "slice 0 8 (location_bytes ?l) = to_be_bytes (loc_index ?l)"
      "slice 8 16 (location_bytes ?l) = to_be_bytes (word_of_nat (loc_offset ?l) :: u64)"
      "slice 16 24 (location_bytes ?l) = to_be_bytes (word_of_nat (loc_encoded_len ?l) :: u64)"
    by (simp_all add: location_bytes_def slice_def)
  then show ?thesis using l w by (simp add: parse_location_def Let_def)
qed

lemma read_location_bytes:
  assumes "k < length ls"
  shows "read_exact_at location_len (index_header_len + k * location_len) (index_bytes crc32c crc32c_append n c ls md)
       = Inr (location_bytes (ls ! k))"
proof -
  have "64 + k * 24 + 24 \<le> 64 + 24 * length ls + length md" using assms by simp
  then show ?thesis
    using location_slice [OF assms, of crc32c crc32c_append n c md]
    by (simp add: read_exact_at_def location_len_def index_header_len_def length_index_bytes)
qed

lemma summary_index_at:
  assumes "indexable path n ls" and "k < length ls"
  shows "is_first_index (summary_of crc32c_append n c ls md) + word_of_nat k = loc_index (ls ! k)"
proof -
  have "ls \<noteq> []" using assms(2) by auto
  then have "is_first_index (summary_of crc32c_append n c ls md) = loc_index (hd ls)"
    by (cases ls) (simp_all add: summary_of_def)
  moreover have "unat (loc_index (ls ! k)) = unat (loc_index (hd ls)) + k"
    using assms by (simp add: indexable_def)
  ultimately show ?thesis by (simp add: word_add_nat)
qed

lemma load_locations_index:
  assumes "indexable path n ls" and "k + m = length ls" and "summary = summary_of crc32c_append n c ls md"
  shows "load_locations_from path summary (index_bytes crc32c crc32c_append n c ls md) k m = Inr (drop k ls)"
  using assms(2)
proof (induction m arbitrary: k)
  case (Suc m)
  then have k: "k < length ls" by simp
  have "is_segment_len summary = n" by (simp add: assms(3) summary_of_def)
  then show ?case
    using Suc.IH [of "Suc k"] Suc.prems k
    by (simp add: read_location_bytes summary_index_at [OF assms(1) k] assms(3) parse_location_bytes [OF assms(1) k]
        Cons_nth_drop_Suc)
qed simp

lemma load_location_index:
  assumes ls: "indexable path n ls" and "length ls < 2 ^ 32"
    and disk: "fmlookup (sd_indexes disk) path = Some (index_bytes crc32c crc32c_append n c ls md)"
  shows "load_location disk path (summary_of crc32c_append n c ls md) index
       = Inr (find (\<lambda>l. loc_index l = index) ls)"
proof (cases "\<exists>k < length ls. loc_index (ls ! k) = index")
  case True
  then obtain k where k: "k < length ls" "loc_index (ls ! k) = index" by blast
  let ?s = "summary_of crc32c_append n c ls md"
  have ne: "ls \<noteq> []" using k by auto
  have f: "is_first_index ?s = loc_index (hd ls)" "is_last_index ?s = loc_index (last ls)"
    using ne by (cases ls; simp add: summary_of_def)+
  have idx: "unat (loc_index (ls ! j)) = unat (loc_index (hd ls)) + j" if "j < length ls" for j
    using ls that by (simp add: indexable_def)
  have "unat (loc_index (last ls)) = unat (loc_index (hd ls)) + (length ls - 1)"
    using idx [of "length ls - 1"] ne by (simp add: last_conv_nth)
  then have range: "\<not> index < is_first_index ?s" "\<not> is_last_index ?s < index"
    using k idx [OF k(1)] unfolding f by (simp_all add: word_less_nat_alt)
  have ord: "unat (index - is_first_index ?s) = k"
    using k idx [OF k(1)] range(1) unfolding f by (simp add: unat_sub not_less)
  have "find (\<lambda>l. loc_index l = index) ls = Some (ls ! k)"
  proof -
    have "loc_index (ls ! j) \<noteq> index" if "j < k" for j
      using idx [of j] idx [OF k(1)] k that by auto
    then show ?thesis using k by (auto simp: find_Some_iff)
  qed
  moreover have "index_header_len + k * location_len < 2 ^ 64"
    using k(1) assms(2) by (simp add: index_header_len_def location_len_def)
  moreover have "is_location_count ?s = length ls" "is_segment_len ?s = n" by (simp_all add: summary_of_def)
  ultimately show ?thesis
    using k ne range by (simp add: load_location_def Let_def ord disk read_location_bytes parse_location_bytes [OF ls k(1), unfolded k(2)])
next
  case False
  then have none: "find (\<lambda>l. loc_index l = index) ls = None" by (auto simp: find_None_iff in_set_conv_nth)
  show ?thesis
  proof (cases "ls = []")
    case True
    then show ?thesis by (simp add: load_location_def summary_of_def)
  next
    case ne: False
    let ?s = "summary_of crc32c_append n c ls md"
    have f: "is_first_index ?s = loc_index (hd ls)" "is_last_index ?s = loc_index (last ls)"
      using ne by (cases ls; simp add: summary_of_def)+
    have idx: "unat (loc_index (ls ! j)) = unat (loc_index (hd ls)) + j" if "j < length ls" for j
      using ls that by (simp add: indexable_def)
    have last: "unat (loc_index (last ls)) = unat (loc_index (hd ls)) + (length ls - 1)"
      using idx [of "length ls - 1"] ne by (simp add: last_conv_nth)
    have "index < loc_index (hd ls) \<or> index > loc_index (last ls)"
    proof (rule ccontr)
      assume "\<not> ?thesis"
      then have i: "unat (loc_index (hd ls)) \<le> unat index" "unat index \<le> unat (loc_index (last ls))"
        by (simp_all add: not_less word_le_nat_alt)
      let ?j = "unat index - unat (loc_index (hd ls))"
      have "?j < length ls" using i last ne by (cases ls) auto
      then have "loc_index (ls ! ?j) = index" using idx [of ?j] i by (simp add: word_unat_eq_iff)
      then show False using False \<open>?j < length ls\<close> by blast
    qed
    then show ?thesis using none f by (simp add: load_location_def)
  qed
qed

end
