(* ===== verification/Batch.thy ===== *)
theory Batch
  imports Segment_Scan
begin

text \<open>
  Publish batches: \<open>crates/queue/src/batch.rs\<close>. A batch is one log record; its payload holds
  a count and, for each message, a header and the body. \<open>encode_batch\<close> builds it,
  \<open>metas_after_append\<close> derives the message metadata when it has been appended, and
  \<open>metas_from_reader\<close> derives it from the log during recovery.
\<close>

record message_meta =
  mm_position :: u64
  mm_id :: u64
  mm_timestamp_ns :: i64
  mm_available_at_ms :: i64
  mm_log_index :: u64
  mm_payload :: payload_ref

definition item_header :: nat where "item_header = 20"
definition max_messages :: nat where "max_messages = 65536"

record encoded_entry =
  en_header :: "byte list"
  en_position :: u64
  en_id :: u64
  en_body_offset :: nat
  en_len :: u32
  en_crc32c :: u32

record encoded_batch =
  eb_count :: "byte list"
  eb_bodies :: "byte list list"
  eb_entries :: "encoded_entry list"

fun encode_entries ::
  "(byte list \<Rightarrow> u32) \<Rightarrow> u64 \<Rightarrow> u64 \<Rightarrow> nat \<Rightarrow> nat \<Rightarrow> byte list list \<Rightarrow> broker_error + encoded_entry list" where
  "encode_entries crc32c first_position first_id ordinal payload_offset [] = Inr []"
| "encode_entries crc32c first_position first_id ordinal payload_offset (body # bodies) =
     (if length body \<ge> 2 ^ 32 then Inl MessageTooLarge
      else
        let len = word_of_nat (length body) :: u32;
            position = sat_add first_position (word_of_nat ordinal);
            msg_id = sat_add first_id (word_of_nat ordinal);
            header = to_be_bytes position @ to_be_bytes msg_id @ to_be_bytes len;
            body_offset = payload_offset + item_header
        in and_then (encode_entries crc32c first_position first_id (Suc ordinal) (body_offset + length body) bodies)
             (\<lambda>entries. Inr (\<lparr>en_header = header, en_position = position, en_id = msg_id,
                              en_body_offset = body_offset, en_len = len, en_crc32c = crc32c body\<rparr> # entries)))"

definition encode_batch ::
  "(byte list \<Rightarrow> u32) \<Rightarrow> u64 \<Rightarrow> u64 \<Rightarrow> byte list list \<Rightarrow> broker_error + encoded_batch" where
  "encode_batch crc32c first_position first_id bodies =
     and_then (encode_entries crc32c first_position first_id 0 4 bodies) (\<lambda>entries.
       Inr \<lparr>eb_count = to_be_bytes (word_of_nat (length bodies) :: u32), eb_bodies = bodies, eb_entries = entries\<rparr>)"

definition batch_parts :: "encoded_batch \<Rightarrow> byte list list" where
  "batch_parts batch =
     eb_count batch # concat (map (\<lambda>(entry, body). [en_header entry, body]) (zip (eb_entries batch) (eb_bodies batch)))"

definition meta_of_entry :: "i64 \<Rightarrow> i64 \<Rightarrow> record_location \<Rightarrow> encoded_entry \<Rightarrow> message_meta" where
  "meta_of_entry timestamp_ns available_at_ms location entry =
     \<lparr>mm_position = en_position entry, mm_id = en_id entry, mm_timestamp_ns = timestamp_ns,
      mm_available_at_ms = available_at_ms, mm_log_index = loc_index location,
      mm_payload = \<lparr>pr_path = loc_segment location, pr_offset = loc_offset location + header_len + en_body_offset entry,
                    pr_len = en_len entry, pr_crc32c = en_crc32c entry\<rparr>\<rparr>"

definition metas_after_append :: "i64 \<Rightarrow> i64 \<Rightarrow> record_location \<Rightarrow> encoded_batch \<Rightarrow> message_meta list" where
  "metas_after_append timestamp_ns available_at_ms location batch =
     map (meta_of_entry timestamp_ns available_at_ms location) (eb_entries batch)"

section \<open>Reading a batch back\<close>

definition invalid_data :: "string \<Rightarrow> io_error" where
  "invalid_data message = IoError InvalidData message"

text \<open>\<open>Read::read_exact\<close>: the bytes and the rest of the stream, or \<open>UnexpectedEof\<close>.\<close>

definition read_exact :: "nat \<Rightarrow> byte list \<Rightarrow> io_error + byte list \<times> byte list" where
  "read_exact len stream =
     (if len \<le> length stream then Inr (take len stream, drop len stream)
      else Inl (IoError UnexpectedEof ''failed to fill whole buffer''))"

text \<open>
  The loop over the items, with \<open>n\<close> items to go. A body is read in chunks; the loop over the
  chunks fails as one \<open>read_exact\<close> of the whole body does. Lengths fit \<open>usize\<close>.
\<close>

fun read_items ::
  "(u32 \<Rightarrow> byte list \<Rightarrow> u32) \<Rightarrow> record_header \<Rightarrow> nat \<Rightarrow> record_location \<Rightarrow> nat \<Rightarrow> u64 option \<Rightarrow> nat \<Rightarrow> nat
   \<Rightarrow> byte list \<Rightarrow> io_error + message_meta list \<times> nat" where
  "read_items crc32c_append header len location 0 first_position ordinal cursor stream = Inr ([], cursor)"
| "read_items crc32c_append header len location (Suc n) first_position ordinal cursor stream =
     and_then (read_exact item_header stream) (\<lambda>(item, stream).
       let cursor = cursor + item_header;
           position = from_be_bytes (slice 0 8 item);
           msg_id = from_be_bytes (slice 8 16 item);
           body_len = from_be_bytes (slice 16 20 item) :: u32;
           stop = cursor + unat body_len
       in if stop > len then Inl (invalid_data ''publish batch body is truncated'')
          else
            let base_position = (case first_position of Some p \<Rightarrow> p | None \<Rightarrow> position)
            in and_then (ok_or (checked_add base_position (word_of_nat ordinal))
                          (invalid_data ''publish batch position overflow'')) (\<lambda>expected_position.
               and_then (ok_or (checked_add (r_message_id header) (word_of_nat ordinal))
                          (invalid_data ''publish batch message ID overflow'')) (\<lambda>expected_id.
               if position \<noteq> expected_position \<or> msg_id \<noteq> expected_id then
                 Inl (invalid_data ''publish batch positions or message IDs are not contiguous'')
               else
                 and_then (read_exact (unat body_len) stream) (\<lambda>(body, stream).
                 and_then (read_items crc32c_append header len location n (Some base_position) (Suc ordinal) stop stream)
                   (\<lambda>(metas, cursor'). Inr
                     (\<lparr>mm_position = position, mm_id = msg_id, mm_timestamp_ns = r_timestamp_ns header,
                       mm_available_at_ms = r_available_at_ms header, mm_log_index = loc_index location,
                       mm_payload = \<lparr>pr_path = loc_segment location, pr_offset = loc_offset location + header_len + cursor,
                                     pr_len = body_len, pr_crc32c = crc_chunks crc32c_append 0 body\<rparr>\<rparr> # metas,
                      cursor'))))))"

definition metas_from_reader ::
  "(u32 \<Rightarrow> byte list \<Rightarrow> u32) \<Rightarrow> record_location \<Rightarrow> record_header \<Rightarrow> nat \<Rightarrow> byte list \<Rightarrow> io_error + message_meta list" where
  "metas_from_reader crc32c_append location header len stream =
     (if len < 4 then Inl (invalid_data ''publish batch is truncated'')
      else and_then (read_exact 4 stream) (\<lambda>(bytes, stream).
        let count = unat (from_be_bytes bytes :: u32);
            maximum_count = (len - 4) div item_header
        in if count = 0 \<or> count > max_messages \<or> count > maximum_count
           then Inl (invalid_data ''publish batch count is invalid'')
           else and_then (read_items crc32c_append header len location count None 0 4 stream) (\<lambda>(output, cursor).
             if cursor \<noteq> len then Inl (invalid_data ''publish batch has trailing bytes'') else Inr output)))"

section \<open>Exactness of the codec\<close>

definition entry_stream :: "encoded_entry list \<Rightarrow> byte list list \<Rightarrow> byte list" where
  "entry_stream entries bodies = concat (concat (map (\<lambda>(entry, body). [en_header entry, body]) (zip entries bodies)))"

lemma entry_stream_simps [simp]:
  "entry_stream [] bodies = []"
  "entry_stream (e # es) (b # bs) = en_header e @ b @ entry_stream es bs"
  by (simp_all add: entry_stream_def)

lemma concat_batch_parts: "concat (batch_parts batch) = eb_count batch @ entry_stream (eb_entries batch) (eb_bodies batch)"
  by (simp add: batch_parts_def entry_stream_def)

definition entry_of :: "(byte list \<Rightarrow> u32) \<Rightarrow> u64 \<Rightarrow> u64 \<Rightarrow> nat \<Rightarrow> nat \<Rightarrow> byte list \<Rightarrow> encoded_entry" where
  "entry_of crc32c first_position first_id ordinal payload_offset body =
     \<lparr>en_header = to_be_bytes (sat_add first_position (word_of_nat ordinal)) @ to_be_bytes (sat_add first_id (word_of_nat ordinal))
                  @ to_be_bytes (word_of_nat (length body) :: u32),
      en_position = sat_add first_position (word_of_nat ordinal), en_id = sat_add first_id (word_of_nat ordinal),
      en_body_offset = payload_offset + 20, en_len = word_of_nat (length body), en_crc32c = crc32c body\<rparr>"

lemma encode_entries_Cons:
  "encode_entries crc32c p i k off (body # bodies) = Inr entries \<longleftrightarrow>
     length body < 2 ^ 32
     \<and> (\<exists>es. encode_entries crc32c p i (Suc k) (off + 20 + length body) bodies = Inr es
            \<and> entries = entry_of crc32c p i k off body # es)"
  by (auto simp: Let_def and_then_Inr_iff entry_of_def item_header_def)

lemma length_en_header [simp]: "length (en_header (entry_of crc32c p i k off body)) = 20"
  by (simp add: entry_of_def)

lemma entry_slices:
  "slice 0 8 (en_header (entry_of crc32c p i k off body)) = to_be_bytes (sat_add p (word_of_nat k))"
  "slice 8 16 (en_header (entry_of crc32c p i k off body)) = to_be_bytes (sat_add i (word_of_nat k))"
  "slice 16 20 (en_header (entry_of crc32c p i k off body)) = to_be_bytes (word_of_nat (length body) :: u32)"
  by (simp_all add: entry_of_def codec_simps)

lemma checked_sat:
  fixes p :: u64
  assumes "unat p + k < 2 ^ 64"
  shows "checked_add p (word_of_nat k) = Some (p + word_of_nat k)" "sat_add p (word_of_nat k) = p + word_of_nat k"
proof -
  have "unat (word_of_nat k :: u64) = k" using assms by (simp add: unat_of_nat)
  then show "checked_add p (word_of_nat k) = Some (p + word_of_nat k)" "sat_add p (word_of_nat k) = p + word_of_nat k"
    using assms by (simp_all add: checked_add_def sat_add_def)
qed

lemma read_exact_append: "length xs = n \<Longrightarrow> read_exact n (xs @ ys) = Inr (xs, ys)"
  by (simp add: read_exact_def)

lemma read_items_encoded:
  assumes laws: "crc_laws crc32c crc32c_append"
  shows "encode_entries crc32c p (r_message_id h) k off bodies = Inr entries
    \<Longrightarrow> unat p + k + length bodies \<le> 2 ^ 64 \<Longrightarrow> unat (r_message_id h) + k + length bodies \<le> 2 ^ 64
    \<Longrightarrow> off + length (entry_stream entries bodies) \<le> len
    \<Longrightarrow> read_items crc32c_append h len location (length bodies) (Some p) k off (entry_stream entries bodies @ rest)
        = Inr (map (meta_of_entry (r_timestamp_ns h) (r_available_at_ms h) location) entries,
               off + length (entry_stream entries bodies))"
proof (induction bodies arbitrary: k off entries)
  case (Cons body bodies)
  let ?e = "entry_of crc32c p (r_message_id h) k off body"
  obtain es where es: "length body < 2 ^ 32" "encode_entries crc32c p (r_message_id h) (Suc k) (off + 20 + length body) bodies = Inr es"
      "entries = ?e # es"
    using Cons.prems(1) unfolding encode_entries_Cons by blast
  have len: "unat (word_of_nat (length body) :: u32) = length body" using es(1) by (simp add: unat_of_nat)
  have p: "unat p + k < 2 ^ 64" "unat (r_message_id h) + k < 2 ^ 64" using Cons.prems(2,3) by simp_all
  have step: "read_exact item_header (entry_stream entries (body # bodies) @ rest)
      = Inr (en_header ?e, body @ entry_stream es bodies @ rest)"
    by (simp add: es(3) item_header_def read_exact_append)
  have body: "read_exact (length body) (body @ entry_stream es bodies @ rest) = Inr (body, entry_stream es bodies @ rest)"
    by (simp add: read_exact_append)
  have meta: "meta_of_entry (r_timestamp_ns h) (r_available_at_ms h) location ?e
     = \<lparr>mm_position = p + word_of_nat k, mm_id = r_message_id h + word_of_nat k, mm_timestamp_ns = r_timestamp_ns h,
        mm_available_at_ms = r_available_at_ms h, mm_log_index = loc_index location,
        mm_payload = \<lparr>pr_path = loc_segment location, pr_offset = loc_offset location + header_len + (off + 20),
                      pr_len = word_of_nat (length body), pr_crc32c = crc32c body\<rparr>\<rparr>"
    by (simp add: meta_of_entry_def entry_of_def checked_sat [OF p(1)] checked_sat [OF p(2)])
  have crc: "crc_chunks crc32c_append 0 body = crc32c body"
    using crc_chunks_append [OF laws] crc_lawsD(1) [OF laws] by simp
  have small: "off + 20 + length body + length (entry_stream es bodies) \<le> len"
    using Cons.prems(4) es(3) by simp
  have IH: "read_items crc32c_append h len location (length bodies) (Some p) (Suc k) (off + 20 + length body) (entry_stream es bodies @ rest)
      = Inr (map (meta_of_entry (r_timestamp_ns h) (r_available_at_ms h) location) es,
             off + 20 + length body + length (entry_stream es bodies))"
    by (rule Cons.IH [OF es(2)]) (use Cons.prems(2,3) small in simp_all)
  show ?case
    using step body IH small
    by (simp add: es(3) Let_def entry_slices len checked_sat [OF p(1)] checked_sat [OF p(2)] item_header_def crc meta del: entry_stream_simps)
      simp
qed simp

lemma read_items_first:
  "read_items crc32c_append h len location (Suc n) None 0 off stream
   = read_items crc32c_append h len location (Suc n) (Some (from_be_bytes (slice 0 8 stream))) 0 off stream"
  by (simp add: read_exact_def item_header_def Let_def slice_def checked_add_def)

lemma read_exact_Inr: "read_exact n s = Inr (a, b) \<longleftrightarrow> length a = n \<and> s = a @ b"
  by (auto simp: read_exact_def append_eq_conv_conj)

lemma item_bytes:
  assumes "length item = 20"
  shows "item = to_be_bytes (from_be_bytes (slice 0 8 item) :: u64) @ to_be_bytes (from_be_bytes (slice 8 16 item) :: u64)
           @ to_be_bytes (from_be_bytes (slice 16 20 item) :: u32)"
proof -
  have "slice 0 20 item = slice 0 8 item @ slice 8 16 item @ slice 16 20 item"
    using slice_split [of 0 8 20 item] slice_split [of 8 16 20 item] by simp
  then show ?thesis using assms by (simp add: slice_all to_from_be_bytes_u64 to_from_be_bytes_u32)
qed

lemma read_items_exact:
  assumes laws: "crc_laws crc32c crc32c_append"
  shows "read_items crc32c_append h len location n (Some p) k off stream = Inr (metas, stop) \<Longrightarrow> k + n \<le> 2 ^ 32
    \<Longrightarrow> \<exists>bodies entries rest. length bodies = n \<and> encode_entries crc32c p (r_message_id h) k off bodies = Inr entries
          \<and> stream = entry_stream entries bodies @ rest
          \<and> metas = map (meta_of_entry (r_timestamp_ns h) (r_available_at_ms h) location) entries
          \<and> stop = off + length (entry_stream entries bodies)
          \<and> (n > 0 \<longrightarrow> unat p + k + n \<le> 2 ^ 64 \<and> unat (r_message_id h) + k + n \<le> 2 ^ 64)"
proof (induction n arbitrary: k off stream metas stop)
  case 0
  then show ?case by (intro exI [of _ "[]"] exI [of _ stream]) simp
next
  case (Suc n)
  obtain item s1 where item: "length item = 20" "stream = item @ s1"
    using Suc.prems(1) by (auto simp: and_then_Inr_iff read_exact_Inr item_header_def)
  let ?len = "from_be_bytes (slice 16 20 item) :: u32"
  obtain body s2 metas' where b:
      "checked_add p (word_of_nat k) = Some (from_be_bytes (slice 0 8 item))"
      "checked_add (r_message_id h) (word_of_nat k) = Some (from_be_bytes (slice 8 16 item))"
      "length body = unat ?len" "s1 = body @ s2"
      "read_items crc32c_append h len location n (Some p) (Suc k) (off + 20 + unat ?len) s2 = Inr (metas', stop)"
      "metas = \<lparr>mm_position = from_be_bytes (slice 0 8 item), mm_id = from_be_bytes (slice 8 16 item),
          mm_timestamp_ns = r_timestamp_ns h, mm_available_at_ms = r_available_at_ms h, mm_log_index = loc_index location,
          mm_payload = \<lparr>pr_path = loc_segment location, pr_offset = loc_offset location + header_len + (off + 20),
                        pr_len = ?len, pr_crc32c = crc_chunks crc32c_append 0 body\<rparr>\<rparr> # metas'"
    using Suc.prems(1) item
    by (auto simp: and_then_Inr_iff read_exact_Inr item_header_def Let_def read_exact_append split: if_splits)
  have kw: "unat (word_of_nat k :: u64) = k" using Suc.prems(2) by (simp add: unat_of_nat)
  have pk: "unat p + k < 2 ^ 64" "unat (r_message_id h) + k < 2 ^ 64"
      "from_be_bytes (slice 0 8 item) = p + word_of_nat k" "from_be_bytes (slice 8 16 item) = r_message_id h + word_of_nat k"
    using b(1,2) kw by (auto simp: checked_add_Some)
  have lb: "length body < 2 ^ 32" using b(3) unsigned_less [of ?len] by simp
  have len: "?len = word_of_nat (length body)" using b(3) by simp
  let ?e = "entry_of crc32c p (r_message_id h) k off body"
  have hdr: "item = en_header ?e"
    using item_bytes [OF item(1)] pk len by (simp add: entry_of_def checked_sat)
  obtain bodies entries rest where r: "length bodies = n"
      "encode_entries crc32c p (r_message_id h) (Suc k) (off + 20 + unat ?len) bodies = Inr entries"
      "s2 = entry_stream entries bodies @ rest"
      "metas' = map (meta_of_entry (r_timestamp_ns h) (r_available_at_ms h) location) entries"
      "stop = off + 20 + unat ?len + length (entry_stream entries bodies)"
      "n > 0 \<longrightarrow> unat p + Suc k + n \<le> 2 ^ 64 \<and> unat (r_message_id h) + Suc k + n \<le> 2 ^ 64"
    using Suc.IH [OF b(5)] Suc.prems(2) by auto
  have crc: "crc_chunks crc32c_append 0 body = crc32c body"
    using crc_chunks_append [OF laws] crc_lawsD(1) [OF laws] by simp
  have meta: "metas = map (meta_of_entry (r_timestamp_ns h) (r_available_at_ms h) location) (?e # entries)"
    using b(6) r(4) pk len crc by (simp add: meta_of_entry_def entry_of_def checked_sat)
  have enc: "encode_entries crc32c p (r_message_id h) k off (body # bodies) = Inr (?e # entries)"
    unfolding encode_entries_Cons using lb r(2) b(3) by simp
  have str: "stream = entry_stream (?e # entries) (body # bodies) @ rest" using item(2) b(4) r(3) hdr by simp
  have st: "stop = off + length (entry_stream (?e # entries) (body # bodies))" using r(5) b(3) by simp
  have bound: "unat p + k + Suc n \<le> 2 ^ 64 \<and> unat (r_message_id h) + k + Suc n \<le> 2 ^ 64" using r(6) pk(1,2) by (cases n) auto
  show ?case using r(1) enc str meta st bound by (intro exI [of _ "body # bodies"] exI [of _ "?e # entries"] exI [of _ rest]) simp
qed

lemma entry_stream_min:
  "encode_entries crc32c p i k off bodies = Inr entries \<Longrightarrow> 20 * length bodies \<le> length (entry_stream entries bodies)"
proof (induction bodies arbitrary: k off entries)
  case (Cons body bodies)
  then obtain es where "encode_entries crc32c p i (Suc k) (off + 20 + length body) bodies = Inr es"
      "entries = entry_of crc32c p i k off body # es"
    unfolding encode_entries_Cons by blast
  then show ?case using Cons.IH [of "Suc k" "off + 20 + length body" es] by simp
qed simp

lemma metas_from_encoded:
  assumes laws: "crc_laws crc32c crc32c_append" and "bodies \<noteq> []" and "length bodies \<le> max_messages"
    and "unat first_position + length bodies \<le> 2 ^ 64" and "unat (r_message_id h) + length bodies \<le> 2 ^ 64"
    and "encode_batch crc32c first_position (r_message_id h) bodies = Inr batch"
    and "payload = concat (batch_parts batch)"
  shows "metas_from_reader crc32c_append location h (length payload) payload
         = Inr (metas_after_append (r_timestamp_ns h) (r_available_at_ms h) location batch)"
proof -
  obtain entries where e: "encode_entries crc32c first_position (r_message_id h) 0 4 bodies = Inr entries"
      "batch = \<lparr>eb_count = to_be_bytes (word_of_nat (length bodies) :: u32), eb_bodies = bodies, eb_entries = entries\<rparr>"
    using assms(6) by (auto simp: encode_batch_def and_then_Inr_iff)
  have b: "bodies \<noteq> []" "length bodies \<le> max_messages"
      "unat first_position + length bodies \<le> 2 ^ 64" "unat (r_message_id h) + length bodies \<le> 2 ^ 64"
      "encode_entries crc32c first_position (r_message_id h) 0 4 bodies = Inr entries"
      "payload = to_be_bytes (word_of_nat (length bodies) :: u32) @ entry_stream entries bodies"
      "metas_after_append (r_timestamp_ns h) (r_available_at_ms h) location batch
       = map (meta_of_entry (r_timestamp_ns h) (r_available_at_ms h) location) entries"
    using assms(2-5,7) e by (simp_all add: concat_batch_parts metas_after_append_def)
  have count: "unat (word_of_nat (length bodies) :: u32) = length bodies" using b(2) by (simp add: unat_of_nat max_messages_def)
  obtain n where n: "length bodies = Suc n" using b(1) by (cases bodies) auto
  have "length bodies \<le> (length payload - 4) div item_header"
    using entry_stream_min [OF b(5)] b(6) by (simp add: item_header_def less_eq_div_iff_mult_less_eq)
  moreover have "from_be_bytes (slice 0 8 (entry_stream entries bodies)) = first_position"
  proof -
    obtain body bs where bs: "bodies = body # bs" using b(1) by (cases bodies) auto
    then obtain es where es: "entries = entry_of crc32c first_position (r_message_id h) 0 4 body # es"
      using b(5) unfolding bs encode_entries_Cons by blast
    have "slice 0 8 (entry_stream entries bodies) = slice 0 8 (en_header (entry_of crc32c first_position (r_message_id h) 0 4 body))"
      by (simp add: bs es slice_append)
    then show ?thesis using unsigned_less [of first_position, where ?'a = nat] by (simp add: entry_slices sat_add_def)
  qed
  moreover have "read_items crc32c_append h (length payload) location (length bodies) (Some first_position) 0 4 (entry_stream entries bodies @ [])
      = Inr (metas_after_append (r_timestamp_ns h) (r_available_at_ms h) location batch, 4 + length (entry_stream entries bodies))"
    unfolding b(7) by (rule read_items_encoded [OF laws b(5)]) (use b(3,4,6) in simp_all)
  ultimately have "length bodies \<le> (length payload - 4) div item_header"
      "read_items crc32c_append h (length payload) location (length bodies) None 0 4 (entry_stream entries bodies)
       = Inr (metas_after_append (r_timestamp_ns h) (r_available_at_ms h) location batch, 4 + length (entry_stream entries bodies))"
    using read_items_first [of crc32c_append h "length payload" location n 4 "entry_stream entries bodies"] unfolding n by simp_all
  then show ?thesis
    using b(1,2,6) count by (simp add: metas_from_reader_def read_exact_append Let_def del: read_items.simps)
qed

text \<open>
  C27: The batch codec is exact. Recovery accepts the payload of a publish record if and only if
  it is what \<open>encode_batch\<close> produced for some nonempty batch within the message limit whose
  positions and ids do not run over 64 bits; and the metadata it recovers is, field by field,
  what the publisher recorded when it appended the batch.\<close>

theorem batch_codec_exact:
  assumes laws: "crc_laws crc32c crc32c_append"
  shows "metas_from_reader crc32c_append location h (length payload) payload = Inr metas \<longleftrightarrow>
     (\<exists>bodies first_position batch.
        bodies \<noteq> [] \<and> length bodies \<le> max_messages
        \<and> unat first_position + length bodies \<le> 2 ^ 64 \<and> unat (r_message_id h) + length bodies \<le> 2 ^ 64
        \<and> encode_batch crc32c first_position (r_message_id h) bodies = Inr batch
        \<and> payload = concat (batch_parts batch)
        \<and> metas = metas_after_append (r_timestamp_ns h) (r_available_at_ms h) location batch)" (is "?read \<longleftrightarrow> ?encoded")
proof
  assume ?read
  then obtain count4 s n where c: "length payload \<ge> 4" "payload = count4 @ s" "length count4 = 4"
      "n = unat (from_be_bytes count4 :: u32)" "0 < n" "n \<le> max_messages"
      "read_items crc32c_append h (length payload) location n None 0 4 s = Inr (metas, length payload)"
    by (auto simp: metas_from_reader_def and_then_Inr_iff read_exact_Inr Let_def split: if_splits)
  define p where "p = (from_be_bytes (slice 0 8 s) :: u64)"
  have "read_items crc32c_append h (length payload) location n (Some p) 0 4 s = Inr (metas, length payload)"
    using c(5,7) read_items_first [of crc32c_append h "length payload" location "n - 1" 4 s] by (simp add: p_def)
  then obtain bodies entries rest where b: "length bodies = n" "encode_entries crc32c p (r_message_id h) 0 4 bodies = Inr entries"
      "s = entry_stream entries bodies @ rest"
      "metas = map (meta_of_entry (r_timestamp_ns h) (r_available_at_ms h) location) entries"
      "length payload = 4 + length (entry_stream entries bodies)"
      "unat p + n \<le> 2 ^ 64" "unat (r_message_id h) + n \<le> 2 ^ 64"
    using read_items_exact [OF laws, of h "length payload" location n p 0 4 s metas "length payload"] c(5,6)
    by (auto simp: max_messages_def)
  define batch where "batch = \<lparr>eb_count = to_be_bytes (word_of_nat (length bodies) :: u32), eb_bodies = bodies, eb_entries = entries\<rparr>"
  have "rest = []" using b(3,5) c(2,3) by simp
  moreover have "count4 = to_be_bytes (word_of_nat (length bodies) :: u32)" using c(3,4) b(1) by (simp add: to_from_be_bytes_u32)
  ultimately have "payload = concat (batch_parts batch)" using c(2) b(3) by (simp add: concat_batch_parts batch_def)
  moreover have "encode_batch crc32c p (r_message_id h) bodies = Inr batch" using b(2) by (simp add: encode_batch_def batch_def)
  ultimately show ?encoded using b c(5,6)
    by (intro exI [of _ bodies] exI [of _ p] exI [of _ batch]) (auto simp: metas_after_append_def batch_def)
next
  assume ?encoded
  then show ?read using metas_from_encoded [OF laws, of _ _ h _ payload location] by blast
qed

theorem batch_codec_exact_witness:
  "\<exists>batch payload. encode_batch (sum_append 0) 5 9 [[1, 2], []] = Inr batch \<and> payload = concat (batch_parts batch)
     \<and> metas_from_reader sum_append \<lparr>loc_index = 3, loc_segment = ''s'', loc_offset = 0, loc_encoded_len = 94\<rparr>
         (record_header_of sample_record) (length payload) payload
       = Inr (metas_after_append (-5) 0 \<lparr>loc_index = 3, loc_segment = ''s'', loc_offset = 0, loc_encoded_len = 94\<rparr> batch)"
proof -
  obtain batch where batch: "encode_batch (sum_append 0) 5 9 [[1, 2], []] = Inr batch"
    by (simp add: encode_batch_def Let_def)
  have h: "r_message_id (record_header_of sample_record) = 9" "r_timestamp_ns (record_header_of sample_record) = -5"
      "r_available_at_ms (record_header_of sample_record) = 0"
    by (simp_all add: record_header_of_def sample_record_def)
  show ?thesis
    using batch batch_codec_exact [OF sum_append_laws, of "\<lparr>loc_index = 3, loc_segment = ''s'', loc_offset = 0, loc_encoded_len = 94\<rparr>"
        "record_header_of sample_record" "concat (batch_parts batch)"] h
    by (auto simp: max_messages_def intro!: exI [of _ "[[1, 2], []]"] exI [of _ 5])
qed

section \<open>Reading the bodies\<close>

lemma entry_bodies:
  assumes "encode_entries crc32c p i k off bodies = Inr entries" and "j < length bodies"
    and "bytes = pre @ entry_stream entries bodies @ rest" and "length pre = base + off"
  shows "j < length entries \<and> slice (base + en_body_offset (entries ! j)) (base + en_body_offset (entries ! j) + length (bodies ! j)) bytes = bodies ! j
         \<and> base + en_body_offset (entries ! j) + length (bodies ! j) \<le> length bytes
         \<and> unat (en_len (entries ! j)) = length (bodies ! j) \<and> en_crc32c (entries ! j) = crc32c (bodies ! j)"
  using assms
proof (induction bodies arbitrary: k off entries j pre)
  case (Cons body bodies)
  let ?e = "entry_of crc32c p i k off body"
  obtain es where es: "length body < 2 ^ 32" "encode_entries crc32c p i (Suc k) (off + 20 + length body) bodies = Inr es"
      "entries = ?e # es"
    using Cons.prems(1) unfolding encode_entries_Cons by blast
  show ?case
  proof (cases j)
    case 0
    have off: "en_body_offset ?e = off + 20" by (simp add: entry_of_def)
    have "bytes = (pre @ en_header ?e) @ body @ (entry_stream es bodies @ rest)" using Cons.prems(3) es(3) by simp
    moreover have "length (pre @ en_header ?e) = base + (off + 20)" using Cons.prems(4) by simp
    ultimately have "slice (base + (off + 20)) (base + (off + 20) + length body) bytes = body"
        "base + (off + 20) + length body \<le> length bytes"
      by (simp_all add: slice_def)
    then show ?thesis using 0 es(1) off by (simp add: es(3) unat_of_nat) (simp add: entry_of_def unat_of_nat)
  next
    case (Suc j')
    have "bytes = (pre @ en_header ?e @ body) @ entry_stream es bodies @ rest" using Cons.prems(3) es(3) by simp
    then show ?thesis
      using Cons.IH [OF es(2), of j' "pre @ en_header ?e @ body"] Cons.prems(2,4) Suc es(3) by simp
  qed
qed simp

text \<open>
  C28: What a publisher appended is what a consumer reads. When the record of a batch lies at
  its location in the segment, the payload reference of every message of the batch passes its
  checksum and returns that message's body, whatever else the segment holds.\<close>

theorem batch_bodies_readable:
  assumes "encode_batch crc32c first_position first_id bodies = Inr batch" and "j < length bodies"
    and "segment = pre @ header @ concat (batch_parts batch) @ rest"
    and "length header = header_len" and "loc_offset location = length pre"
  shows "read_verified_from crc32c (mm_payload (metas_after_append timestamp_ns available_at_ms location batch ! j)) segment
         = Inr (bodies ! j)"
proof -
  obtain entries where e: "encode_entries crc32c first_position first_id 0 4 bodies = Inr entries"
      "batch = \<lparr>eb_count = to_be_bytes (word_of_nat (length bodies) :: u32), eb_bodies = bodies, eb_entries = entries\<rparr>"
    using assms(1) by (auto simp: encode_batch_def and_then_Inr_iff)
  have "segment = (pre @ header @ eb_count batch) @ entry_stream entries bodies @ rest"
    using assms(3) e(2) by (simp add: concat_batch_parts)
  moreover have "length (pre @ header @ eb_count batch) = loc_offset location + header_len + 4"
    using assms(4,5) e(2) by simp
  ultimately have b: "j < length entries
      \<and> slice (loc_offset location + header_len + en_body_offset (entries ! j))
          (loc_offset location + header_len + en_body_offset (entries ! j) + length (bodies ! j)) segment = bodies ! j
      \<and> loc_offset location + header_len + en_body_offset (entries ! j) + length (bodies ! j) \<le> length segment
      \<and> unat (en_len (entries ! j)) = length (bodies ! j) \<and> en_crc32c (entries ! j) = crc32c (bodies ! j)"
    by (rule entry_bodies [OF e(1) assms(2)])
  then show ?thesis
    by (simp add: e(2) metas_after_append_def meta_of_entry_def read_verified_from_def read_exact_at_def)
qed

theorem batch_bodies_readable_witness:
  "\<exists>batch segment. encode_batch (sum_append 0) 5 9 [[1, 2], [3]] = Inr batch
     \<and> segment = [7] @ replicate 48 0 @ concat (batch_parts batch) @ [8]
     \<and> read_verified_from (sum_append 0) (mm_payload (metas_after_append 0 0
           \<lparr>loc_index = 3, loc_segment = ''s'', loc_offset = 1, loc_encoded_len = 95\<rparr> batch ! 1)) segment = Inr [3]"
proof -
  obtain batch where batch: "encode_batch (sum_append 0) 5 9 [[1, 2], [3]] = Inr batch"
    by (simp add: encode_batch_def Let_def)
  show ?thesis
    using batch batch_bodies_readable [OF batch, of 1 _ "[7]" "replicate 48 0" "[8]"
        "\<lparr>loc_index = 3, loc_segment = ''s'', loc_offset = 1, loc_encoded_len = 95\<rparr>" 0 0]
    by (simp add: header_len_def)
qed

end
