(* ===== verification/Segment_Inv.thy ===== *)
theory Segment_Inv
  imports Segment_Scan
begin

text \<open>
  The invariant of a segment log. A ghost list of segments, each a base index with the
  records appended to it, describes the directory (\<open>disk_ok\<close>) and the fields of the log
  (\<open>log_ok\<close>). The log is an abstract list of records, \<open>all_records\<close>; the directory may
  end in a torn record and may have lost an unsynced tail in a crash.
\<close>

type_synonym segs = "(u64 \<times> log_record list) list"

definition all_records :: "segs \<Rightarrow> log_record list" where
  "all_records segs = concat (map snd segs)"

definition seg_names :: "segs \<Rightarrow> string list" where
  "seg_names segs = map (\<lambda>(b, rs). segment_path b) segs"

text \<open>Records carry consecutive indexes from \<open>n\<close> on.\<close>

definition indexed_from :: "nat \<Rightarrow> log_record list \<Rightarrow> bool" where
  "indexed_from n rs \<longleftrightarrow> (\<forall>k < length rs. unat (r_index (rs ! k)) = n + k)"

definition segs_ok ::
  "(byte list \<Rightarrow> u32) \<Rightarrow> (u32 \<Rightarrow> byte list \<Rightarrow> u32) \<Rightarrow> nat \<Rightarrow> segs \<Rightarrow> bool" where
  "segs_ok crc32c crc32c_append N segs \<longleftrightarrow>
     segs \<noteq> [] \<and> sorted_wrt (<) (map fst segs)
     \<and> (\<forall>(b, rs) \<in> set (butlast segs). rs \<noteq> [])
     \<and> (\<forall>(b, rs) \<in> set segs. length (frames (record_bytes crc32c crc32c_append) rs) < 2 ^ 63)
     \<and> list_all record_valid (all_records segs)
     \<and> N < 2 ^ 64 \<and> length (all_records segs) \<le> N \<and> indexed_from (N - length (all_records segs)) (all_records segs)
     \<and> unat (fst (last segs)) + length (snd (last segs)) \<le> N"

definition file_of :: "(byte list \<Rightarrow> u32) \<Rightarrow> (u32 \<Rightarrow> byte list \<Rightarrow> u32) \<Rightarrow> log_record list \<Rightarrow> disk_file" where
  "file_of crc32c crc32c_append rs =
     \<lparr>fi_bytes = frames (record_bytes crc32c crc32c_append) rs,
      fi_durable = length (frames (record_bytes crc32c crc32c_append) rs), fi_shadows = []\<rparr>"

definition sidecar ::
  "(byte list \<Rightarrow> u32) \<Rightarrow> (u32 \<Rightarrow> byte list \<Rightarrow> u32) \<Rightarrow> string \<Rightarrow> log_record list \<Rightarrow> byte list \<Rightarrow> byte list" where
  "sidecar crc32c crc32c_append path rs md =
     (let bytes = frames (record_bytes crc32c crc32c_append) rs
      in index_bytes crc32c crc32c_append (length bytes) (crc32c_append 0 bytes) (locations path rs) md)"

definition sidecar_summary ::
  "(byte list \<Rightarrow> u32) \<Rightarrow> (u32 \<Rightarrow> byte list \<Rightarrow> u32) \<Rightarrow> string \<Rightarrow> log_record list \<Rightarrow> byte list \<Rightarrow> index_summary" where
  "sidecar_summary crc32c crc32c_append path rs md =
     (let bytes = frames (record_bytes crc32c crc32c_append) rs
      in summary_of crc32c_append (length bytes) (crc32c_append 0 bytes) (locations path rs) md)"

text \<open>Sidecars describe sealed segments; those of purged segments may be left over.\<close>

definition sidecars_ok ::
  "(byte list \<Rightarrow> u32) \<Rightarrow> (u32 \<Rightarrow> byte list \<Rightarrow> u32) \<Rightarrow> segs \<Rightarrow> (string, byte list) fmap \<Rightarrow> bool" where
  "sidecars_ok crc32c crc32c_append segs indexes \<longleftrightarrow>
     (\<forall>path content. fmlookup indexes path = Some content \<longrightarrow>
        path < segment_path (fst (hd segs))
        \<or> (\<exists>b rs md. (b, rs) \<in> set (butlast segs) \<and> path = segment_path b
             \<and> content = sidecar crc32c crc32c_append path rs md \<and> length md < 2 ^ 32 \<and> length rs < 2 ^ 32))"

definition tail_ok ::
  "(byte list \<Rightarrow> u32) \<Rightarrow> (u32 \<Rightarrow> byte list \<Rightarrow> u32) \<Rightarrow> log_record list \<Rightarrow> nat \<Rightarrow> disk_file \<Rightarrow> bool" where
  "tail_ok crc32c crc32c_append rs k f \<longleftrightarrow>
     fi_shadows f = [] \<and> fi_durable f \<le> length (fi_bytes f)
     \<and> prefix (fi_bytes f) (frames (record_bytes crc32c crc32c_append) rs)
     \<and> k \<le> length rs \<and> length (frames (record_bytes crc32c crc32c_append) (take k rs)) \<le> fi_durable f"

text \<open>The first \<open>k\<close> records of the last segment, and all records before it, are durable.\<close>

definition disk_ok ::
  "(byte list \<Rightarrow> u32) \<Rightarrow> (u32 \<Rightarrow> byte list \<Rightarrow> u32) \<Rightarrow> segs \<Rightarrow> nat \<Rightarrow> segment_disk \<Rightarrow> bool" where
  "disk_ok crc32c crc32c_append segs k disk \<longleftrightarrow>
     fmdom (sd_segments disk) = fset_of_list (seg_names segs)
     \<and> (\<forall>(b, rs) \<in> set (butlast segs). fmlookup (sd_segments disk) (segment_path b) = Some (file_of crc32c crc32c_append rs))
     \<and> (\<exists>f. fmlookup (sd_segments disk) (segment_path (fst (last segs))) = Some f
            \<and> tail_ok crc32c crc32c_append (snd (last segs)) k f)
     \<and> sidecars_ok crc32c crc32c_append segs (sd_indexes disk)"

definition resident_of :: "(string, index_summary) fmap \<Rightarrow> segs \<Rightarrow> record_location list" where
  "resident_of sealed segs =
     concat (map (\<lambda>(b, rs). if segment_path b |\<in>| fmdom sealed then [] else locations (segment_path b) rs) segs)"

definition sealed_ok ::
  "(byte list \<Rightarrow> u32) \<Rightarrow> (u32 \<Rightarrow> byte list \<Rightarrow> u32) \<Rightarrow> segs \<Rightarrow> segment_disk \<Rightarrow> (string, index_summary) fmap \<Rightarrow> bool" where
  "sealed_ok crc32c crc32c_append closed disk sealed \<longleftrightarrow>
     (\<forall>path summary. fmlookup sealed path = Some summary \<longrightarrow>
        (\<exists>b rs md. (b, rs) \<in> set closed \<and> path = segment_path b
           \<and> fmlookup (sd_indexes disk) path = Some (sidecar crc32c crc32c_append path rs md)
           \<and> summary = sidecar_summary crc32c crc32c_append path rs md \<and> length rs < 2 ^ 32))"

definition checksums_ok ::
  "(byte list \<Rightarrow> u32) \<Rightarrow> (u32 \<Rightarrow> byte list \<Rightarrow> u32) \<Rightarrow> segs \<Rightarrow> (string, nat \<times> u32) fmap \<Rightarrow> bool" where
  "checksums_ok crc32c crc32c_append segs checksums \<longleftrightarrow>
     fmdom checksums = fset_of_list (seg_names segs)
     \<and> (\<forall>(b, rs) \<in> set segs. let bytes = frames (record_bytes crc32c crc32c_append) rs in
          fmlookup checksums (segment_path b) = Some (length bytes, crc32c_append 0 bytes))"

definition bounds_ok :: "nat \<Rightarrow> segs \<Rightarrow> segment_log \<Rightarrow> bool" where
  "bounds_ok N segs log \<longleftrightarrow>
     (let rs = all_records segs in
      sl_first_index log = (if rs = [] then None else Some (r_index (hd rs)))
      \<and> sl_last_index log = (if rs = [] then None else Some (r_index (last rs)))
      \<and> (rs = [] \<longrightarrow> unat (sl_start_index log) = N))"

definition log_ok ::
  "(byte list \<Rightarrow> u32) \<Rightarrow> (u32 \<Rightarrow> byte list \<Rightarrow> u32) \<Rightarrow> nat \<Rightarrow> segs \<Rightarrow> nat \<Rightarrow> segment_log \<Rightarrow> bool" where
  "log_ok crc32c crc32c_append N segs k log \<longleftrightarrow>
     segs_ok crc32c crc32c_append N segs
     \<and> disk_ok crc32c crc32c_append segs k (sl_disk log)
     \<and> sl_current_path log = segment_path (fst (last segs))
     \<and> fi_bytes (file_at log (segment_path (fst (last segs)))) = frames (record_bytes crc32c crc32c_append) (snd (last segs))
     \<and> sl_current_len log = length (frames (record_bytes crc32c crc32c_append) (snd (last segs)))
     \<and> sl_resident_records log = resident_of (sl_sealed_indexes log) segs
     \<and> sealed_ok crc32c crc32c_append (butlast segs) (sl_disk log) (sl_sealed_indexes log)
     \<and> checksums_ok crc32c crc32c_append segs (sl_checksums log)
     \<and> bounds_ok N segs log
     \<and> sl_max_segment_bytes log < 2 ^ 63"

section \<open>Basic facts\<close>

lemma all_records_simps [simp]:
  "all_records [] = []" "all_records ((b, rs) # segs) = rs @ all_records segs"
  "all_records (xs @ ys) = all_records xs @ all_records ys"
  by (simp_all add: all_records_def)

lemma seg_names_simps [simp]:
  "seg_names [] = []" "seg_names ((b, rs) # segs) = segment_path b # seg_names segs"
  "seg_names (xs @ ys) = seg_names xs @ seg_names ys"
  by (simp_all add: seg_names_def)

lemma seg_names_mem: "(b, rs) \<in> set segs \<Longrightarrow> segment_path b \<in> set (seg_names segs)"
  by (force simp: seg_names_def)

lemma indexed_from_append:
  "indexed_from n (xs @ ys) \<longleftrightarrow> indexed_from n xs \<and> indexed_from (n + length xs) ys"
proof
  assume "indexed_from n (xs @ ys)"
  then have a: "unat (r_index ((xs @ ys) ! k)) = n + k" if "k < length xs + length ys" for k
    using that by (simp add: indexed_from_def)
  have "unat (r_index (xs ! k)) = n + k" if "k < length xs" for k using a [of k] that by (simp add: nth_append)
  moreover have "unat (r_index (ys ! k)) = n + length xs + k" if "k < length ys" for k
    using a [of "length xs + k"] that by (simp add: nth_append)
  ultimately show "indexed_from n xs \<and> indexed_from (n + length xs) ys" by (simp add: indexed_from_def)
next
  assume "indexed_from n xs \<and> indexed_from (n + length xs) ys"
  then show "indexed_from n (xs @ ys)" by (auto simp: indexed_from_def nth_append)
qed

lemma indexed_from_Nil [simp]: "indexed_from n []"
  by (simp add: indexed_from_def)

lemma indexed_from_single [simp]: "indexed_from n [r] \<longleftrightarrow> unat (r_index r) = n"
  by (simp add: indexed_from_def)

lemma indexed_from_take: "indexed_from n rs \<Longrightarrow> indexed_from n (take m rs)"
  by (simp add: indexed_from_def)

lemma indexed_from_hd: "indexed_from n rs \<Longrightarrow> rs \<noteq> [] \<Longrightarrow> unat (r_index (hd rs)) = n"
  by (cases rs) (auto simp: indexed_from_def)

lemma indexed_from_last: "indexed_from n rs \<Longrightarrow> rs \<noteq> [] \<Longrightarrow> unat (r_index (last rs)) = n + length rs - 1"
  by (cases "length rs") (auto simp: indexed_from_def last_conv_nth)

lemma length_locations [simp]: "length (locations_from path off rs) = length rs"
  by (induction rs arbitrary: off) simp_all

lemma locations_nth:
  "k < length rs \<Longrightarrow> locations_from path off rs ! k
     = location_of path (off + length (frames (record_bytes crc32c crc32c_append) (take k rs))) (rs ! k)"
proof (induction rs arbitrary: off k)
  case (Cons r rs)
  then show ?case by (cases k) (simp_all add: encoded_len_def header_len_def add.assoc)
qed simp

lemma frames_take_Suc:
  "k < length rs \<Longrightarrow> length (frames (record_bytes crc32c crc32c_append) (take k rs)) + encoded_len (rs ! k)
     \<le> length (frames (record_bytes crc32c crc32c_append) rs)"
  using segment_reader.frames_take_less [of k "length rs" rs crc32c crc32c_append]
  by (simp add: encoded_len_def header_len_def)

lemma indexable_locations:
  assumes "indexed_from n rs" and "length (frames (record_bytes crc32c crc32c_append) rs) < 2 ^ 63"
  shows "indexable path (length (frames (record_bytes crc32c crc32c_append) rs)) (locations path rs)"
proof -
  have "loc_index (hd (locations path rs)) = r_index (hd rs)" if "rs \<noteq> []"
    using that by (cases rs) (simp_all add: location_of_def)
  then show ?thesis
    by (cases "rs = []")
      (use assms indexed_from_hd [OF assms(1)] frames_take_Suc [of _ rs crc32c crc32c_append]
      in \<open>auto simp: indexable_def locations_nth [where crc32c = crc32c and crc32c_append = crc32c_append]
        location_of_def indexed_from_def encoded_len_def header_len_def\<close>)
qed

lemma seg_names_sorted: "sorted_wrt (<) (map fst segs) \<Longrightarrow> sorted_wrt (<) (seg_names segs)"
  unfolding seg_names_def sorted_wrt_map by (rule sorted_wrt_mono_rel) auto

lemma segment_paths_names:
  assumes "fmdom (sd_segments disk) = fset_of_list (seg_names segs)" and "sorted_wrt (<) (map fst segs)"
  shows "segment_paths disk = Inr (seg_names segs)"
proof -
  have s: "sorted (seg_names segs)" "distinct (seg_names segs)"
    using seg_names_sorted [OF assms(2)] by (simp_all add: strict_sorted_iff)
  have "sorted_list_of_fset (fmdom (sd_segments disk)) = seg_names segs"
    unfolding assms(1) sorted_list_of_fset.rep_eq fset_of_list.rep_eq
    using s by (simp add: sorted_list_of_set.idem_if_sorted_distinct)
  moreover have "\<forall>name \<in> set (seg_names segs). \<exists>b. name = segment_path b" by (auto simp: seg_names_def)
  then have "filter (\<lambda>name. prefix segment_prefix name \<and> suffix segment_suffix name) (seg_names segs) = seg_names segs"
      "find (\<lambda>name. segment_base_index name = None) (seg_names segs) = None"
    using segment_path_shape by (fastforce simp: filter_id_conv, fastforce simp: find_None_iff)
  ultimately show ?thesis by (simp add: segment_paths_def Let_def)
qed

lemma segs_okD:
  assumes "segs_ok crc32c crc32c_append N segs"
  shows "segs \<noteq> []" "sorted_wrt (<) (map fst segs)" "\<forall>(b, rs) \<in> set (butlast segs). rs \<noteq> []"
    "\<forall>(b, rs) \<in> set segs. length (frames (record_bytes crc32c crc32c_append) rs) < 2 ^ 63"
    "list_all record_valid (all_records segs)" "length (all_records segs) \<le> N"
    "indexed_from (N - length (all_records segs)) (all_records segs)"
    "unat (fst (last segs)) + length (snd (last segs)) \<le> N" "N < 2 ^ 64"
  using assms by (simp_all add: segs_ok_def)

lemma segs_split: "segs \<noteq> [] \<Longrightarrow> segs = butlast segs @ [(fst (last segs), snd (last segs))]"
  by simp

lemma records_of_segment:
  assumes "segs_ok crc32c crc32c_append N segs" and "(b, rs) \<in> set segs"
  shows "\<exists>n. indexed_from n rs" "list_all record_valid rs"
proof -
  obtain xs ys where s: "segs = xs @ (b, rs) # ys" using assms(2) by (meson split_list)
  show "\<exists>n. indexed_from n rs" using segs_okD(7) [OF assms(1)] unfolding s by (auto simp: indexed_from_append)
  show "list_all record_valid rs" using segs_okD(5) [OF assms(1)] unfolding s by simp
qed

lemma base_unique:
  fixes segs :: segs
  assumes "sorted_wrt (<) (map fst segs)" and "(b, rs) \<in> set segs" and "(b, rs') \<in> set segs"
  shows "rs = rs'"
proof -
  have "distinct (map fst segs)" using iffD1 [OF strict_sorted_iff assms(1)] by (rule conjunct2)
  then show ?thesis using assms(2,3) by (metis eq_key_imp_eq_value)
qed

lemma last_not_butlast:
  fixes segs :: segs
  assumes "sorted_wrt (<) (map fst segs)" and "segs \<noteq> []" and "(b, rs) \<in> set (butlast segs)"
  shows "b < fst (last segs)"
proof -
  have "sorted_wrt (<) (map fst (butlast segs) @ [fst (last segs)])"
    using assms(1,2) by (metis append_butlast_last_id list.simps(8,9) map_append)
  then show ?thesis using assms(3) by (auto simp: sorted_wrt_append)
qed

section \<open>Opening a directory\<close>

text \<open>
  A crash leaves, of every file, one of its possible images; the directory itself is kept.
\<close>

definition crash_disk :: "segment_disk \<Rightarrow> segment_disk \<Rightarrow> bool" where
  "crash_disk disk disk' \<longleftrightarrow>
     fmdom (sd_segments disk') = fmdom (sd_segments disk) \<and> sd_indexes disk' = sd_indexes disk
     \<and> (\<forall>path f'. fmlookup (sd_segments disk') path = Some f' \<longrightarrow>
          (\<exists>f. fmlookup (sd_segments disk) path = Some f \<and> fi_bytes f' \<in> crash_images f
               \<and> fi_durable f' = length (fi_bytes f') \<and> fi_shadows f' = []))"

lemma crash_image_complete:
  "b \<in> crash_images (file_of crc32c crc32c_append rs) \<Longrightarrow> b = frames (record_bytes crc32c crc32c_append) rs"
  by (auto simp: crash_images_def file_of_def)

lemma disk_ok_crash:
  assumes "disk_ok crc32c crc32c_append segs k disk" and "crash_disk disk disk'" and "segs \<noteq> []"
  shows "disk_ok crc32c crc32c_append segs k disk'"
proof -
  have look: "\<exists>f'. fmlookup (sd_segments disk') path = Some f' \<and> fi_bytes f' \<in> crash_images f
       \<and> fi_durable f' = length (fi_bytes f') \<and> fi_shadows f' = []"
    if "fmlookup (sd_segments disk) path = Some f" for path f
  proof -
    have "path |\<in>| fmdom (sd_segments disk')" using that assms(2) by (auto simp: crash_disk_def fmdomI)
    then obtain f' where "fmlookup (sd_segments disk') path = Some f'" by (auto simp: fmlookup_dom_iff)
    moreover from this assms(2) obtain g where "fmlookup (sd_segments disk) path = Some g"
        "fi_bytes f' \<in> crash_images g" "fi_durable f' = length (fi_bytes f')" "fi_shadows f' = []"
      unfolding crash_disk_def by blast
    ultimately show ?thesis using that by simp
  qed
  have "fmlookup (sd_segments disk') (segment_path b) = Some (file_of crc32c crc32c_append rs)"
    if in_butlast: "(b, rs) \<in> set (butlast segs)" for b rs
  proof -
    have "fmlookup (sd_segments disk) (segment_path b) = Some (file_of crc32c crc32c_append rs)"
      using assms(1) in_butlast by (auto simp: disk_ok_def)
    from look [OF this] show ?thesis
      using crash_image_complete by (metis (full_types) disk_file.surjective file_of_def old.unit.exhaust)
  qed
  moreover obtain f where f: "fmlookup (sd_segments disk) (segment_path (fst (last segs))) = Some f"
      "tail_ok crc32c crc32c_append (snd (last segs)) k f"
    using assms(1) by (auto simp: disk_ok_def)
  from look [OF f(1)] obtain f' where f': "fmlookup (sd_segments disk') (segment_path (fst (last segs))) = Some f'"
      "fi_bytes f' \<in> crash_images f" "fi_durable f' = length (fi_bytes f')" "fi_shadows f' = []" by blast
  have "prefix (fi_bytes f') (fi_bytes f) \<and> fi_durable f \<le> length (fi_bytes f')"
    using crash_image_prefix [OF _ f'(2)] f(2) by (simp add: tail_ok_def)
  then have "tail_ok crc32c crc32c_append (snd (last segs)) k f'"
    using f(2) f'(3,4) by (auto simp: tail_ok_def intro: prefix_order.trans)
  ultimately show ?thesis using assms(1,2) f'(1) by (auto simp: disk_ok_def crash_disk_def)
qed

text \<open>The state of the recovery loop after the segments \<open>closed\<close>.\<close>

definition open_counts ::
  "(byte list \<Rightarrow> u32) \<Rightarrow> (u32 \<Rightarrow> byte list \<Rightarrow> u32) \<Rightarrow> segs \<Rightarrow> open_state \<Rightarrow> bool" where
  "open_counts crc32c crc32c_append closed st \<longleftrightarrow>
     (let rs = all_records closed in
      checksums_ok crc32c crc32c_append closed (os_checksums st)
      \<and> rr_records (os_recovery st) = length rs
      \<and> os_expected st = (if rs = [] then None else Some (sat_inc (r_index (last rs))))
      \<and> os_first_index st = (if rs = [] then None else Some (r_index (hd rs)))
      \<and> (rs \<noteq> [] \<longrightarrow> rr_last_index (os_recovery st) = r_index (last rs)))"

definition open_ok ::
  "(byte list \<Rightarrow> u32) \<Rightarrow> (u32 \<Rightarrow> byte list \<Rightarrow> u32) \<Rightarrow> segs \<Rightarrow> open_state \<Rightarrow> bool" where
  "open_ok crc32c crc32c_append closed st \<longleftrightarrow>
     os_resident st = resident_of (os_sealed st) closed
     \<and> sealed_ok crc32c crc32c_append closed (os_disk st) (os_sealed st)
     \<and> open_counts crc32c crc32c_append closed st"

definition segment_entry :: "log_record list \<Rightarrow> nat \<Rightarrow> nat \<Rightarrow> u32
    \<Rightarrow> u64 option \<times> u64 option \<times> nat \<times> nat \<times> nat \<times> u32" where
  "segment_entry rs truncated bytes crc =
     (if rs = [] then None else Some (r_index (hd rs)), if rs = [] then None else Some (r_index (last rs)),
      length rs, truncated, bytes, crc)"

lemma checksums_ok_add:
  assumes "checksums_ok crc32c crc32c_append closed cs" and "segment_path b \<notin> set (seg_names closed)"
    and "bytes = frames (record_bytes crc32c crc32c_append) rs"
  shows "checksums_ok crc32c crc32c_append (closed @ [(b, rs)]) (fmupd (segment_path b) (length bytes, crc32c_append 0 bytes) cs)"
proof -
  have "segment_path b' \<noteq> segment_path b" if "(b', rs') \<in> set closed" for b' rs'
    using assms(2) seg_names_mem [OF that] by metis
  then show ?thesis using assms(1,3) by (fastforce simp: checksums_ok_def Let_def)
qed

lemma contiguous_step:
  assumes "indexed_from n (xs @ ys)" and "n + length (xs @ ys) < 2 ^ 64" and "ys \<noteq> []"
  shows "xs \<noteq> [] \<Longrightarrow> sat_inc (r_index (last xs)) = r_index (hd ys)"
    and "sat_sub (sat_add (r_index (hd ys)) (word_of_nat (length ys))) 1 = r_index (last ys)"
proof -
  have ix: "indexed_from n xs" "indexed_from (n + length xs) ys" using assms(1) by (simp_all add: indexed_from_append)
  have h: "unat (r_index (hd ys)) = n + length xs" "unat (r_index (last ys)) = n + length xs + length ys - 1"
    using indexed_from_hd indexed_from_last ix(2) assms(3) by blast+
  { assume "xs \<noteq> []"
    then have "unat (r_index (last xs)) = n + length xs - 1" "0 < length xs" using indexed_from_last ix(1) by blast+
    then show "sat_inc (r_index (last xs)) = r_index (hd ys)"
      using h(1) assms(2) by (simp add: word_unat_eq_iff unat_sat_inc) }
  have "unat (word_of_nat (length ys) :: u64) = length ys" using assms(2) by (simp add: unat_of_nat)
  then show "sat_sub (sat_add (r_index (hd ys)) (word_of_nat (length ys))) 1 = r_index (last ys)"
    using h assms(2,3) by (simp add: word_unat_eq_iff unat_sat_add_u64)
qed

lemma account_segment_ok:
  assumes "open_counts crc32c crc32c_append closed st" and "segment_path b \<notin> set (seg_names closed)"
    and "bytes = frames (record_bytes crc32c crc32c_append) rs"
    and "indexed_from n (all_records closed @ rs)" and "n + length (all_records closed @ rs) < 2 ^ 64"
    and "os_resident st = resident_of (os_sealed st) (closed @ [(b, rs)])"
    and "sealed_ok crc32c crc32c_append (closed @ [(b, rs)]) (os_disk st) (os_sealed st)"
  shows "\<exists>st'. account_segment (segment_path b) (segment_entry rs t (length bytes) (crc32c_append 0 bytes)) st = Inr st'
           \<and> open_ok crc32c crc32c_append (closed @ [(b, rs)]) st' \<and> os_disk st' = os_disk st \<and> os_sealed st' = os_sealed st"
proof -
  have cs: "checksums_ok crc32c crc32c_append (closed @ [(b, rs)])
      (fmupd (segment_path b) (length bytes, crc32c_append 0 bytes) (os_checksums st))"
    using assms(1-3) by (intro checksums_ok_add) (simp_all add: open_counts_def Let_def)
  have o: "rr_records (os_recovery st) = length (all_records closed)"
      "os_expected st = (if all_records closed = [] then None else Some (sat_inc (r_index (last (all_records closed)))))"
      "os_first_index st = (if all_records closed = [] then None else Some (r_index (hd (all_records closed))))"
      "all_records closed \<noteq> [] \<longrightarrow> rr_last_index (os_recovery st) = r_index (last (all_records closed))"
    using assms(1) by (simp_all add: open_counts_def Let_def)
  show ?thesis
  proof (cases "rs = []")
    case True
    then show ?thesis
      using o cs assms(6,7) by (simp add: account_segment_def segment_entry_def open_ok_def open_counts_def)
  next
    case False
    note step = contiguous_step [OF assms(4,5) False]
    show ?thesis
      using o cs assms(6,7) False step
      by (cases "all_records closed = []")
        (simp_all add: account_segment_def segment_entry_def open_ok_def open_counts_def Let_def)
  qed
qed

lemma fmupd_same: "fmlookup m p = Some v \<Longrightarrow> fmupd p v m = m"
  by (rule fmap_ext) auto

lemma sealed_okE:
  assumes "sealed_ok crc32c crc32c_append closed disk sealed" and "fmlookup sealed path = Some summary"
  obtains b rs md where "(b, rs) \<in> set closed" "path = segment_path b"
    "fmlookup (sd_indexes disk) path = Some (sidecar crc32c crc32c_append path rs md)"
    "summary = sidecar_summary crc32c crc32c_append path rs md" "length rs < 2 ^ 32"
  using assms unfolding sealed_ok_def by blast

lemma sealed_ok_mono:
  assumes "sealed_ok crc32c crc32c_append xs disk sealed" and "set xs \<subseteq> set ys" and "sd_indexes disk' = sd_indexes disk"
  shows "sealed_ok crc32c crc32c_append ys disk' sealed"
  unfolding sealed_ok_def
proof (intro allI impI)
  fix path summary assume "fmlookup sealed path = Some summary"
  with assms(1) show "\<exists>b rs md. (b, rs) \<in> set ys \<and> path = segment_path b
      \<and> fmlookup (sd_indexes disk') path = Some (sidecar crc32c crc32c_append path rs md)
      \<and> summary = sidecar_summary crc32c crc32c_append path rs md \<and> length rs < 2 ^ 32"
    using assms(2,3) by (elim sealed_okE) (auto simp: subset_iff)
qed

lemma sealed_ok_dom:
  assumes "sealed_ok crc32c crc32c_append closed disk sealed" and "path |\<in>| fmdom sealed"
  shows "path \<in> set (seg_names closed)"
proof -
  obtain summary where "fmlookup sealed path = Some summary" using assms(2) by (auto simp: fmlookup_dom_iff)
  with assms(1) show ?thesis by (elim sealed_okE) (auto intro: seg_names_mem)
qed

lemma sealed_ok_add:
  assumes "sealed_ok crc32c crc32c_append closed disk sealed" and "(b, rs) \<in> set closed'" and "set closed \<subseteq> set closed'"
    and "fmlookup (sd_indexes disk) (segment_path b) = Some (sidecar crc32c crc32c_append (segment_path b) rs md)"
    and "length rs < 2 ^ 32"
  shows "sealed_ok crc32c crc32c_append closed' disk
           (fmupd (segment_path b) (sidecar_summary crc32c crc32c_append (segment_path b) rs md) sealed)"
  unfolding sealed_ok_def
proof (intro allI impI)
  fix path summary
  assume l: "fmlookup (fmupd (segment_path b) (sidecar_summary crc32c crc32c_append (segment_path b) rs md) sealed) path = Some summary"
  show "\<exists>b rs md. (b, rs) \<in> set closed' \<and> path = segment_path b
      \<and> fmlookup (sd_indexes disk) path = Some (sidecar crc32c crc32c_append path rs md)
      \<and> summary = sidecar_summary crc32c crc32c_append path rs md \<and> length rs < 2 ^ 32"
  proof (cases "path = segment_path b")
    case True
    then show ?thesis using l assms(2,4,5) by auto
  next
    case False
    then have "fmlookup sealed path = Some summary" using l by simp
    with assms(1) show ?thesis by (rule sealed_okE) (use assms(3) in blast)
  qed
qed

lemma resident_of_cong:
  "(\<And>b rs. (b, rs) \<in> set segs \<Longrightarrow> segment_path b |\<in>| fmdom s1 \<longleftrightarrow> segment_path b |\<in>| fmdom s2)
   \<Longrightarrow> resident_of s1 segs = resident_of s2 segs"
  unfolding resident_of_def by (intro arg_cong [where f = concat] map_cong) auto

lemma resident_of_append: "resident_of s (xs @ ys) = resident_of s xs @ resident_of s ys"
  by (simp add: resident_of_def)

lemma locations_Nil [simp]: "locations_from path off rs = [] \<longleftrightarrow> rs = []"
  by (cases rs) simp_all

lemma locations_hd [simp]: "rs \<noteq> [] \<Longrightarrow> loc_index (hd (locations_from path off rs)) = r_index (hd rs)"
  by (cases rs) (simp_all add: location_of_def)

lemma locations_last [simp]: "rs \<noteq> [] \<Longrightarrow> loc_index (last (locations_from path off rs)) = r_index (last rs)"
  by (induction rs arbitrary: off) (simp_all add: location_of_def)

lemma scan_entry:
  "(map_option loc_index (get_at (locations path rs) 0),
    if locations path rs = [] then None else Some (loc_index (last (locations path rs))),
    length (locations path rs), t, n, c) = segment_entry rs t n c"
  by (cases "rs = []") (simp_all add: segment_entry_def get_at_def hd_conv_nth [symmetric])

lemma summary_entry:
  assumes "rs \<noteq> []" and "index = sidecar_summary crc32c crc32c_append path rs md"
    and "bytes = frames (record_bytes crc32c crc32c_append) rs"
  shows "(if is_location_count index > 0 then Some (is_first_index index) else None,
          if is_location_count index > 0 then Some (is_last_index index) else None,
          is_location_count index, t, is_segment_len index, is_segment_crc32c index)
       = segment_entry rs t (length bytes) (crc32c_append 0 bytes)"
proof -
  have "(case locations path rs of [] \<Rightarrow> 0 | l # _ \<Rightarrow> loc_index l) = r_index (hd rs)"
    using assms(1) locations_hd [OF assms(1), of path 0] by (cases "locations path rs") simp_all
  then show ?thesis using assms by (simp add: sidecar_summary_def summary_of_def Let_def segment_entry_def)
qed

lemma usable_index_sidecar:
  assumes "fmlookup (sd_indexes disk) path = None
           \<or> (\<exists>md. fmlookup (sd_indexes disk) path = Some (sidecar crc32c crc32c_append path rs md)
                   \<and> length md < 2 ^ 32 \<and> length rs < 2 ^ 32)"
    and "usable_index crc32c disk path = Some index"
    and "indexed_from n rs" and "length (frames (record_bytes crc32c crc32c_append) rs) < 2 ^ 63"
  shows "\<exists>md. fmlookup (sd_indexes disk) path = Some (sidecar crc32c crc32c_append path rs md)
              \<and> index = sidecar_summary crc32c crc32c_append path rs md \<and> length rs < 2 ^ 32"
proof -
  obtain md where md: "fmlookup (sd_indexes disk) path = Some (sidecar crc32c crc32c_append path rs md)"
      "length md < 2 ^ 32" "length rs < 2 ^ 32"
    using assms(1,2) by (auto simp: usable_index_def load_summary_def)
  note ls = load_summary_index [OF indexable_locations [OF assms(3,4)], where path = path and md = md and crc32c = crc32c
      and crc32c_append = crc32c_append and c = "crc32c_append 0 (frames (record_bytes crc32c crc32c_append) rs)"]
  have "index = sidecar_summary crc32c crc32c_append path rs md"
    using assms(2) md ls
    by (auto simp: usable_index_def sidecar_def sidecar_summary_def Let_def split: if_splits option.splits)
  then show ?thesis using md by blast
qed

lemma open_segment_closed:
  assumes "open_ok crc32c crc32c_append closed st" and "segment_path b \<notin> set (seg_names closed)"
    and "segment_path b \<noteq> last_path" and "rs \<noteq> []" and "list_all record_valid rs" and "crc_laws crc32c crc32c_append"
    and "fmlookup (sd_segments (os_disk st)) (segment_path b) = Some (file_of crc32c crc32c_append rs)"
    and "fmlookup (sd_indexes (os_disk st)) (segment_path b) = None
         \<or> (\<exists>md. fmlookup (sd_indexes (os_disk st)) (segment_path b) = Some (sidecar crc32c crc32c_append (segment_path b) rs md)
                 \<and> length md < 2 ^ 32 \<and> length rs < 2 ^ 32)"
    and "indexed_from n (all_records closed @ rs)" and "n + length (all_records closed @ rs) < 2 ^ 64"
    and "length (frames (record_bytes crc32c crc32c_append) rs) < 2 ^ 63"
  shows "\<exists>st'. open_segment log_opens crc32c crc32c_append last_path (segment_path b) st = Some (Inr st')
           \<and> open_ok crc32c crc32c_append (closed @ [(b, rs)]) st' \<and> os_disk st' = os_disk st"
proof -
  let ?p = "segment_path b" and ?bytes = "frames (record_bytes crc32c crc32c_append) rs"
  have so: "sealed_ok crc32c crc32c_append closed (os_disk st) (os_sealed st)"
      "os_resident st = resident_of (os_sealed st) closed" "open_counts crc32c crc32c_append closed st"
    using assms(1) by (simp_all add: open_ok_def)
  have notin: "?p |\<notin>| fmdom (os_sealed st)" using sealed_ok_dom [OF so(1)] assms(2) by blast
  show ?thesis
  proof (cases "usable_index crc32c (os_disk st) ?p")
    case None
    define st1 where "st1 = st\<lparr>os_recovery := (os_recovery st)\<lparr>rr_scanned_records := rr_scanned_records (os_recovery st) + length rs\<rparr>,
        os_resident := os_resident st @ locations ?p rs\<rparr>"
    have "os_resident st1 = resident_of (os_sealed st1) (closed @ [(b, rs)])"
      using notin by (simp add: st1_def so(2) resident_of_append) (simp add: resident_of_def)
    moreover have "sealed_ok crc32c crc32c_append (closed @ [(b, rs)]) (os_disk st1) (os_sealed st1)"
      using sealed_ok_mono [OF so(1), of "closed @ [(b, rs)]" "os_disk st"] by (auto simp: st1_def)
    moreover have "open_counts crc32c crc32c_append closed st1" using so(3) by (simp add: open_counts_def st1_def)
    ultimately obtain st' where st': "account_segment ?p (segment_entry rs 0 (length ?bytes) (crc32c_append 0 ?bytes)) st1 = Inr st'"
        "open_ok crc32c crc32c_append (closed @ [(b, rs)]) st'" "os_disk st' = os_disk st1"
      using account_segment_ok [OF _ assms(2) refl assms(9,10), where t = 0] by blast
    have "open_segment log_opens crc32c crc32c_append last_path ?p st
        = Some (account_segment ?p (segment_entry rs 0 (length ?bytes) (crc32c_append 0 ?bytes)) st1)"
      using None assms(3,7) scan_segment_complete [OF assms(5,6), of ?p False] scan_entry [of ?p rs]
        fmupd_same [OF assms(7)]
      by (simp add: open_segment_def file_of_def Let_def st1_def)
    then show ?thesis using st' by (simp add: st1_def)
  next
    case (Some index)
    have ixd: "indexed_from (n + length (all_records closed)) rs" using assms(9) by (simp add: indexed_from_append)
    obtain md where md: "fmlookup (sd_indexes (os_disk st)) ?p = Some (sidecar crc32c crc32c_append ?p rs md)"
        "index = sidecar_summary crc32c crc32c_append ?p rs md" "length rs < 2 ^ 32"
      using usable_index_sidecar [OF assms(8) Some ixd assms(11)] by blast
    define st1 where "st1 = st\<lparr>os_recovery := (os_recovery st)\<lparr>rr_indexed_records := rr_indexed_records (os_recovery st) + length rs\<rparr>,
        os_sealed := fmupd ?p index (os_sealed st)\<rparr>"
    have "segment_path b' |\<in>| fmdom (os_sealed st1) \<longleftrightarrow> segment_path b' |\<in>| fmdom (os_sealed st)" if "(b', rs') \<in> set closed" for b' rs'
      using assms(2) seg_names_mem [OF that] by (auto simp: st1_def)
    then have "os_resident st1 = resident_of (os_sealed st1) (closed @ [(b, rs)])"
      using resident_of_cong [of closed "os_sealed st1" "os_sealed st"]
      by (simp add: st1_def so(2) resident_of_append) (simp add: resident_of_def)
    moreover have "sealed_ok crc32c crc32c_append (closed @ [(b, rs)]) (os_disk st1) (os_sealed st1)"
      using sealed_ok_add [OF so(1) _ _ md(1,3), of "closed @ [(b, rs)]"] md(2) by (auto simp: st1_def)
    moreover have "open_counts crc32c crc32c_append closed st1" using so(3) by (simp add: open_counts_def st1_def)
    ultimately obtain st' where st': "account_segment ?p (segment_entry rs 0 (length ?bytes) (crc32c_append 0 ?bytes)) st1 = Inr st'"
        "open_ok crc32c crc32c_append (closed @ [(b, rs)]) st'" "os_disk st' = os_disk st1"
      using account_segment_ok [OF _ assms(2) refl assms(9,10), where t = 0] by blast
    have count: "is_location_count index = length rs" by (simp add: md(2) sidecar_summary_def summary_of_def Let_def)
    have "open_segment log_opens crc32c crc32c_append last_path ?p st
        = Some (account_segment ?p (segment_entry rs 0 (length ?bytes) (crc32c_append 0 ?bytes)) st1)"
      using Some assms(3) summary_entry [OF assms(4) md(2) refl, of 0]
      by (simp add: open_segment_def Let_def count st1_def)
    then show ?thesis using st' by (simp add: st1_def)
  qed
qed

lemma open_segments_closed:
  assumes "open_ok crc32c crc32c_append closed st" and "crc_laws crc32c crc32c_append"
    and "sorted_wrt (<) (map fst (closed @ todo))" and "last_path \<notin> set (seg_names todo)"
    and "\<forall>(b, rs) \<in> set todo. rs \<noteq> [] \<and> list_all record_valid rs
         \<and> length (frames (record_bytes crc32c crc32c_append) rs) < 2 ^ 63
         \<and> fmlookup (sd_segments (os_disk st)) (segment_path b) = Some (file_of crc32c crc32c_append rs)
         \<and> (fmlookup (sd_indexes (os_disk st)) (segment_path b) = None
            \<or> (\<exists>md. fmlookup (sd_indexes (os_disk st)) (segment_path b) = Some (sidecar crc32c crc32c_append (segment_path b) rs md)
                 \<and> length md < 2 ^ 32 \<and> length rs < 2 ^ 32))"
    and "indexed_from n (all_records (closed @ todo))" and "n + length (all_records (closed @ todo)) < 2 ^ 64"
  shows "\<exists>st'. open_segments log_opens crc32c crc32c_append last_path (seg_names todo @ rest) st
             = open_segments log_opens crc32c crc32c_append last_path rest st'
           \<and> open_ok crc32c crc32c_append (closed @ todo) st' \<and> os_disk st' = os_disk st"
  using assms
proof (induction todo arbitrary: closed st)
  case (Cons s todo)
  obtain b rs where s: "s = (b, rs)" by fastforce
  have "segment_path b \<notin> set (seg_names closed)"
    using Cons.prems(3) by (force simp: s seg_names_def sorted_wrt_append)
  moreover have "indexed_from n (all_records closed @ rs)" "n + length (all_records closed @ rs) < 2 ^ 64"
    using Cons.prems(6,7) by (simp_all add: s indexed_from_append)
  ultimately obtain st1 where st1: "open_segment log_opens crc32c crc32c_append last_path (segment_path b) st = Some (Inr st1)"
      "open_ok crc32c crc32c_append (closed @ [(b, rs)]) st1" "os_disk st1 = os_disk st"
    using open_segment_closed [OF Cons.prems(1), of b last_path rs n] Cons.prems(2,4,5) by (auto simp: s)
  have "\<exists>st'. open_segments log_opens crc32c crc32c_append last_path (seg_names todo @ rest) st1
             = open_segments log_opens crc32c crc32c_append last_path rest st'
           \<and> open_ok crc32c crc32c_append ((closed @ [(b, rs)]) @ todo) st' \<and> os_disk st' = os_disk st1"
    using Cons.prems s by (intro Cons.IH st1(2)) (simp_all add: st1(3))
  then show ?case using st1 by (simp add: s)
qed auto

lemma frames_prefix_take: "prefix (frames emit (take m xs)) (frames emit xs)"
  by (metis append_take_drop_id frames_simps(3) prefixI)

lemma tail_ok_take:
  assumes "tail_ok crc32c crc32c_append rs k f" and "k \<le> m"
    and "prefix (frames (record_bytes crc32c crc32c_append) (take m rs)) (fi_bytes f)"
    and "f' = (if frames (record_bytes crc32c crc32c_append) (take m rs) = fi_bytes f then f
               else \<lparr>fi_bytes = frames (record_bytes crc32c crc32c_append) (take m rs),
                     fi_durable = length (frames (record_bytes crc32c crc32c_append) (take m rs)), fi_shadows = []\<rparr>)"
  shows "tail_ok crc32c crc32c_append (take m rs) k f'"
    "fi_bytes f' = frames (record_bytes crc32c crc32c_append) (take m rs)"
proof -
  have "length (frames (record_bytes crc32c crc32c_append) (take k rs))
      \<le> length (frames (record_bytes crc32c crc32c_append) (take m rs))"
    by (rule segment_reader.frames_take_mono [OF assms(2)])
  then show "tail_ok crc32c crc32c_append (take m rs) k f'"
    using assms(1,2) unfolding assms(4) tail_ok_def by (auto simp: min_def)
  show "fi_bytes f' = frames (record_bytes crc32c crc32c_append) (take m rs)" by (simp add: assms(4))
qed

lemma open_segment_last:
  assumes "open_ok crc32c crc32c_append closed st" and "segment_path b \<notin> set (seg_names closed)"
    and "list_all record_valid rs" and "crc_laws crc32c crc32c_append"
    and "fmlookup (sd_segments (os_disk st)) (segment_path b) = Some f" and "tail_ok crc32c crc32c_append rs k f"
    and "indexed_from n (all_records closed @ rs)" and "n + length (all_records closed @ rs) < 2 ^ 64"
  shows "\<exists>m f' st'. open_segment log_opens crc32c crc32c_append (segment_path b) (segment_path b) st = Some (Inr st')
           \<and> k \<le> m \<and> m \<le> length rs \<and> open_ok crc32c crc32c_append (closed @ [(b, take m rs)]) st'
           \<and> os_disk st' = (os_disk st)\<lparr>sd_segments := fmupd (segment_path b) f' (sd_segments (os_disk st))\<rparr>
           \<and> tail_ok crc32c crc32c_append (take m rs) k f'
           \<and> fi_bytes f' = frames (record_bytes crc32c crc32c_append) (take m rs)
           \<and> sealed_ok crc32c crc32c_append closed (os_disk st') (os_sealed st')"
proof -
  let ?p = "segment_path b"
  have p: "prefix (fi_bytes f) (frames (record_bytes crc32c crc32c_append) rs)" using assms(6) by (simp add: tail_ok_def)
  obtain m where m: "m \<le> length rs"
      "scan_segment crc32c crc32c_append ?p True (fi_bytes f)
       = Some (Inr (locations ?p (take m rs), length (fi_bytes f) - length (frames (record_bytes crc32c crc32c_append) (take m rs)),
                    length (frames (record_bytes crc32c crc32c_append) (take m rs)),
                    crc32c_append 0 (frames (record_bytes crc32c crc32c_append) (take m rs))),
               frames (record_bytes crc32c crc32c_append) (take m rs))"
      "prefix (frames (record_bytes crc32c crc32c_append) (take m rs)) (fi_bytes f)"
      "\<forall>j \<le> length rs. length (frames (record_bytes crc32c crc32c_append) (take j rs)) \<le> length (fi_bytes f) \<longrightarrow> j \<le> m"
    using scan_segment_crashed [OF assms(3,4) p, of ?p] by (auto simp: Let_def)
  have km: "k \<le> m" using m(4) assms(6) by (auto simp: tail_ok_def)
  let ?kept = "frames (record_bytes crc32c crc32c_append) (take m rs)"
  define f' where "f' = (if ?kept = fi_bytes f then f
               else \<lparr>fi_bytes = ?kept, fi_durable = length ?kept, fi_shadows = []\<rparr>)"
  note tail = tail_ok_take [OF assms(6) km m(3) f'_def]
  have so: "sealed_ok crc32c crc32c_append closed (os_disk st) (os_sealed st)"
      "os_resident st = resident_of (os_sealed st) closed" "open_counts crc32c crc32c_append closed st"
    using assms(1) by (simp_all add: open_ok_def)
  have notin: "?p |\<notin>| fmdom (os_sealed st)" using sealed_ok_dom [OF so(1)] assms(2) by blast
  define st1 where "st1 = st\<lparr>os_disk := (os_disk st)\<lparr>sd_segments := fmupd ?p f' (sd_segments (os_disk st))\<rparr>,
      os_recovery := (os_recovery st)\<lparr>rr_scanned_records := rr_scanned_records (os_recovery st) + length (take m rs)\<rparr>,
      os_resident := os_resident st @ locations ?p (take m rs)\<rparr>"
  have "os_resident st1 = resident_of (os_sealed st1) (closed @ [(b, take m rs)])"
    using notin by (simp add: st1_def so(2) resident_of_append) (simp add: resident_of_def)
  moreover have "sealed_ok crc32c crc32c_append (closed @ [(b, take m rs)]) (os_disk st1) (os_sealed st1)"
    using sealed_ok_mono [OF so(1), of "closed @ [(b, take m rs)]" "os_disk st1"] by (auto simp: st1_def)
  moreover have "open_counts crc32c crc32c_append closed st1" using so(3) by (simp add: open_counts_def st1_def)
  moreover have "indexed_from n (all_records closed @ take m rs)" "n + length (all_records closed @ take m rs) < 2 ^ 64"
    using assms(7,8) indexed_from_take [of "n + length (all_records closed)" rs m] by (simp_all add: indexed_from_append)
  ultimately obtain st' where st': "account_segment ?p (segment_entry (take m rs)
        (length (fi_bytes f) - length ?kept) (length ?kept) (crc32c_append 0 ?kept)) st1 = Inr st'"
      "open_ok crc32c crc32c_append (closed @ [(b, take m rs)]) st'" "os_disk st' = os_disk st1" "os_sealed st' = os_sealed st1"
    using account_segment_ok [OF _ assms(2) refl, where t = "length (fi_bytes f) - length ?kept"] by blast
  have "open_segment log_opens crc32c crc32c_append ?p ?p st
      = Some (account_segment ?p (segment_entry (take m rs)
        (length (fi_bytes f) - length ?kept) (length ?kept) (crc32c_append 0 ?kept)) st1)"
    using assms(5) m(2) scan_entry [of ?p "take m rs"] f'_def
    by (simp add: open_segment_def Let_def st1_def)
  moreover have "sealed_ok crc32c crc32c_append closed (os_disk st') (os_sealed st')"
    using sealed_ok_mono [OF so(1), of closed "os_disk st1"] st'(3,4) by (simp add: st1_def)
  ultimately show ?thesis
    using st' tail km m(1) by (intro exI [of _ m] exI [of _ f'] exI [of _ st']) (simp add: st1_def)
qed

lemma open_ok_new: "open_ok crc32c crc32c_append [] (new_open_state disk)"
  by (simp add: open_ok_def open_counts_def new_open_state_def resident_of_def sealed_ok_def checksums_ok_def Let_def)

lemma sidecars_okE:
  assumes "sidecars_ok crc32c crc32c_append segs indexes" and "fmlookup indexes path = Some content"
  obtains "path < segment_path (fst (hd segs))"
  | b rs md where "(b, rs) \<in> set (butlast segs)" "path = segment_path b"
      "content = sidecar crc32c crc32c_append path rs md" "length md < 2 ^ 32" "length rs < 2 ^ 32"
  using assms unfolding sidecars_ok_def by blast

lemma sidecar_cases:
  assumes "sidecars_ok crc32c crc32c_append segs indexes" and "sorted_wrt (<) (map fst segs)"
    and "(b, rs) \<in> set (butlast segs)"
  shows "fmlookup indexes (segment_path b) = None
         \<or> (\<exists>md. fmlookup indexes (segment_path b) = Some (sidecar crc32c crc32c_append (segment_path b) rs md)
                 \<and> length md < 2 ^ 32 \<and> length rs < 2 ^ 32)"
proof (cases "fmlookup indexes (segment_path b)")
  case (Some content)
  have ne: "segs \<noteq> []" using assms(3) by auto
  have sorted: "sorted (map fst segs)" using iffD1 [OF strict_sorted_iff assms(2)] by (rule conjunct1)
  have "fst (hd segs) \<le> b"
    using sorted in_set_butlastD [OF assms(3)] by (cases segs) auto
  then have first: "\<not> segment_path b < segment_path (fst (hd segs))" by simp
  from assms(1) Some show ?thesis
  proof (cases rule: sidecars_okE)
    case (2 b' rs' md)
    then have "b' = b" by simp
    then have "(b, rs') \<in> set segs" using in_set_butlastD [OF 2(1)] by simp
    then have "rs' = rs" using base_unique [OF assms(2) _ in_set_butlastD [OF assms(3)]] by simp
    then show ?thesis using Some 2 by auto
  qed (use first in simp)
qed simp

text \<open>The last segment keeps its first \<open>m\<close> records.\<close>

definition cut_tail :: "nat \<Rightarrow> segs \<Rightarrow> segs" where
  "cut_tail m segs = butlast segs @ [(fst (last segs), take m (snd (last segs)))]"

lemma cut_tail_simps [simp]:
  "cut_tail m segs \<noteq> []" "butlast (cut_tail m segs) = butlast segs"
  "fst (last (cut_tail m segs)) = fst (last segs)" "snd (last (cut_tail m segs)) = take m (snd (last segs))"
  by (simp_all add: cut_tail_def)

lemma map_fst_cut_tail: "segs \<noteq> [] \<Longrightarrow> map fst (cut_tail m segs) = map fst segs"
  by (cases segs rule: rev_cases) (simp_all add: cut_tail_def)

lemma seg_names_cut_tail: "segs \<noteq> [] \<Longrightarrow> seg_names (cut_tail m segs) = seg_names segs"
  by (cases segs rule: rev_cases) (auto simp: cut_tail_def)

lemma all_records_last: "segs \<noteq> [] \<Longrightarrow> all_records segs = all_records (butlast segs) @ snd (last segs)"
  by (cases segs rule: rev_cases) (auto simp: all_records_def)

lemma all_records_cut_tail:
  assumes "segs \<noteq> []" and "m \<le> length (snd (last segs))"
  shows "all_records (cut_tail m segs) = take (length (all_records segs) - (length (snd (last segs)) - m)) (all_records segs)"
  using assms(2) by (simp add: cut_tail_def all_records_last [OF assms(1)])

definition cut_next :: "nat \<Rightarrow> nat \<Rightarrow> segs \<Rightarrow> nat" where
  "cut_next N m segs =
     (if all_records (cut_tail m segs) = [] then unat (fst (last segs)) else N - (length (snd (last segs)) - m))"

lemma segs_ok_cut_tail:
  assumes "segs_ok crc32c crc32c_append N segs" and "m \<le> length (snd (last segs))"
  shows "segs_ok crc32c crc32c_append (cut_next N m segs) (cut_tail m segs)"
proof -
  note ok = segs_okD [OF assms(1)]
  let ?all = "all_records segs" and ?lost = "length (snd (last segs)) - m"
  have cut: "all_records (cut_tail m segs) = take (length ?all - ?lost) ?all"
    by (rule all_records_cut_tail [OF ok(1) assms(2)])
  note all = all_records_last [OF ok(1)]
  have lost: "?lost \<le> length ?all" using all by simp
  have "length (frames (record_bytes crc32c crc32c_append) (take m (snd (last segs))))
      \<le> length (frames (record_bytes crc32c crc32c_append) (snd (last segs)))"
    using frames_prefix_take prefix_length_le by blast
  moreover have "last segs \<in> set segs" using ok(1) by simp
  ultimately have len: "length (frames (record_bytes crc32c crc32c_append) (take m (snd (last segs)))) < 2 ^ 63"
    using ok(4) by (auto simp: case_prod_beta)
  have lens: "\<forall>(b, rs) \<in> set (cut_tail m segs). length (frames (record_bytes crc32c crc32c_append) rs) < 2 ^ 63"
    using ok(4) len in_set_butlastD [of _ segs] by (auto simp: cut_tail_def)
  have valid: "list_all record_valid (all_records (cut_tail m segs))"
    using ok(5) by (simp add: cut list_all_iff) (meson in_set_takeD)
  have idx: "indexed_from (N - length ?all) (all_records (cut_tail m segs))"
    using ok(7) by (simp add: cut indexed_from_take)
  have "N - ?lost - length (all_records (cut_tail m segs)) = N - length ?all"
      "length (all_records (cut_tail m segs)) \<le> N - ?lost"
    using lost ok(6) by (simp_all add: cut)
  moreover have "all_records (cut_tail m segs) = [] \<Longrightarrow> m = 0"
    using assms(2) by (auto simp: cut_tail_def)
  ultimately show ?thesis
    using ok assms(2) lens valid idx
    by (auto simp: segs_ok_def map_fst_cut_tail cut_next_def)
qed

lemma disk_ok_cut_tail:
  assumes "disk_ok crc32c crc32c_append segs k disk" and "segs \<noteq> []" and "sorted_wrt (<) (map fst segs)"
    and "tail_ok crc32c crc32c_append (take m (snd (last segs))) k f'"
    and "disk' = disk\<lparr>sd_segments := fmupd (segment_path (fst (last segs))) f' (sd_segments disk)\<rparr>"
  shows "disk_ok crc32c crc32c_append (cut_tail m segs) k disk'"
proof -
  have "segment_path (fst (last segs)) |\<in>| fmdom (sd_segments disk)"
    using assms(1) by (auto simp: disk_ok_def fmdomI)
  then have "fmdom (sd_segments disk') = fset_of_list (seg_names (cut_tail m segs))"
    using assms(1,2) by (auto simp: disk_ok_def assms(5) seg_names_cut_tail)
  moreover have "fst (hd (cut_tail m segs)) = fst (hd segs)"
    using assms(2) map_fst_cut_tail [OF assms(2), of m] by (metis cut_tail_simps(1) hd_map)
  moreover have "segment_path b \<noteq> segment_path (fst (last segs))" if "(b, rs) \<in> set (butlast segs)" for b rs
    using last_not_butlast [OF assms(3,2) that] by auto
  ultimately show ?thesis
    using assms(1,4) by (fastforce simp: disk_ok_def assms(5) sidecars_ok_def)
qed

lemma open_log_ok:
  assumes ok: "segs_ok crc32c crc32c_append N segs" and disk: "disk_ok crc32c crc32c_append segs k disk"
    and laws: "crc_laws crc32c crc32c_append" and "max_bytes < 2 ^ 63"
  shows "\<exists>m log. open_log log_opens crc32c crc32c_append disk max_bytes start level = Some (Inr log)
           \<and> k \<le> m \<and> m \<le> length (snd (last segs))
           \<and> log_ok crc32c crc32c_append (cut_next N m segs) (cut_tail m segs) k log
           \<and> \<not> sl_isolated log \<and> sl_active_writer_feature_level log = level"
proof -
  note sd = segs_okD [OF ok]
  let ?b = "fst (last segs)" and ?rs = "snd (last segs)" and ?n = "N - length (all_records segs)"
  have names: "seg_names segs = seg_names (butlast segs) @ [segment_path ?b]"
    using segs_split [OF sd(1)] by (metis seg_names_simps(1-3))
  have dom: "fmdom (sd_segments disk) = fset_of_list (seg_names segs)"
    and files: "\<forall>(b, rs) \<in> set (butlast segs). fmlookup (sd_segments disk) (segment_path b) = Some (file_of crc32c crc32c_append rs)"
    and side: "sidecars_ok crc32c crc32c_append segs (sd_indexes disk)"
    using disk by (simp_all add: disk_ok_def)
  obtain f where f: "fmlookup (sd_segments disk) (segment_path ?b) = Some f" "tail_ok crc32c crc32c_append ?rs k f"
    using disk by (auto simp: disk_ok_def)
  note all = all_records_last [OF sd(1)]
  have below: "b < ?b" if "(b, rs) \<in> set (butlast segs)" for b rs using last_not_butlast [OF sd(2,1) that] .
  have last_new: "segment_path ?b \<notin> set (seg_names (butlast segs))"
    using below by (force simp: seg_names_def)
  have total: "?n + length (all_records segs) < 2 ^ 64" using sd(6,9) by simp
  have valid: "list_all record_valid rs" if "(b, rs) \<in> set segs" for b rs by (rule records_of_segment(2) [OF ok that])
  have sorted: "sorted_wrt (<) (map fst ([] @ butlast segs))"
    using sd(2) by (metis append_Nil map_butlast sorted_wrt_append append_butlast_last_id sorted_wrt.simps(1) butlast.simps(1))
  have closed: "\<forall>(b, rs) \<in> set (butlast segs). rs \<noteq> [] \<and> list_all record_valid rs
         \<and> length (frames (record_bytes crc32c crc32c_append) rs) < 2 ^ 63
         \<and> fmlookup (sd_segments (os_disk (new_open_state disk))) (segment_path b) = Some (file_of crc32c crc32c_append rs)
         \<and> (fmlookup (sd_indexes (os_disk (new_open_state disk))) (segment_path b) = None
            \<or> (\<exists>md. fmlookup (sd_indexes (os_disk (new_open_state disk))) (segment_path b)
                       = Some (sidecar crc32c crc32c_append (segment_path b) rs md)
                 \<and> length md < 2 ^ 32 \<and> length rs < 2 ^ 32))"
  proof (intro ballI, clarify)
    fix b rs assume here: "(b, rs) \<in> set (butlast segs)"
    show "rs \<noteq> [] \<and> list_all record_valid rs
         \<and> length (frames (record_bytes crc32c crc32c_append) rs) < 2 ^ 63
         \<and> fmlookup (sd_segments (os_disk (new_open_state disk))) (segment_path b) = Some (file_of crc32c crc32c_append rs)
         \<and> (fmlookup (sd_indexes (os_disk (new_open_state disk))) (segment_path b) = None
            \<or> (\<exists>md. fmlookup (sd_indexes (os_disk (new_open_state disk))) (segment_path b)
                       = Some (sidecar crc32c crc32c_append (segment_path b) rs md)
                 \<and> length md < 2 ^ 32 \<and> length rs < 2 ^ 32))"
      using bspec [OF sd(3) here] bspec [OF sd(4) in_set_butlastD [OF here]] bspec [OF files here]
        valid [OF in_set_butlastD [OF here]] sidecar_cases [OF side sd(2) here]
      by (simp add: new_open_state_def)
  qed
  have ix: "indexed_from ?n (all_records ([] @ butlast segs))" "?n + length (all_records ([] @ butlast segs)) < 2 ^ 64"
    using sd(7) total unfolding all by (simp_all add: indexed_from_append)
  obtain st1 where st1: "open_segments log_opens crc32c crc32c_append (segment_path ?b) (seg_names (butlast segs) @ [segment_path ?b]) (new_open_state disk)
        = open_segments log_opens crc32c crc32c_append (segment_path ?b) [segment_path ?b] st1"
      "open_ok crc32c crc32c_append (butlast segs) st1" "os_disk st1 = disk"
    using open_segments_closed [OF open_ok_new laws sorted last_new closed ix, of "[segment_path ?b]"]
    by (auto simp: new_open_state_def)
  obtain m f' st where st: "open_segment log_opens crc32c crc32c_append (segment_path ?b) (segment_path ?b) st1 = Some (Inr st)"
      "k \<le> m" "m \<le> length ?rs" "open_ok crc32c crc32c_append (cut_tail m segs) st"
      "os_disk st = disk\<lparr>sd_segments := fmupd (segment_path ?b) f' (sd_segments disk)\<rparr>"
      "tail_ok crc32c crc32c_append (take m ?rs) k f'"
      "fi_bytes f' = frames (record_bytes crc32c crc32c_append) (take m ?rs)"
      "sealed_ok crc32c crc32c_append (butlast segs) (os_disk st) (os_sealed st)"
    using open_segment_last [OF st1(2) last_new _ laws, of ?rs f k ?n] valid [of ?b ?rs] f st1(3) sd(1,7) total all
    by (auto simp: cut_tail_def)
  let ?all = "all_records (cut_tail m segs)"
  have paths: "segment_paths disk = Inr (seg_names segs)" by (rule segment_paths_names [OF dom sd(2)])
  have opened: "open_segments log_opens crc32c crc32c_append (segment_path ?b) (seg_names segs) (new_open_state disk) = Some (Inr st)"
    using st1(1) st(1) by (simp add: names)
  define log where "log = \<lparr>sl_disk = os_disk st, sl_max_segment_bytes = max max_bytes (48 + 1),
                       sl_resident_records = os_resident st, sl_sealed_indexes = os_sealed st,
                       sl_current_path = segment_path ?b, sl_current_len = length (fi_bytes f'),
                       sl_recovery = os_recovery st,
                       sl_start_index = (if ?all = [] then ?b else sat_inc (r_index (last ?all))),
                       sl_first_index = os_first_index st,
                       sl_last_index = (if ?all = [] then None else Some (rr_last_index (os_recovery st))),
                       sl_storage_bytes = os_storage_bytes st, sl_checksums = os_checksums st,
                       sl_isolated = False, sl_active_writer_feature_level = level\<rparr>"
  have counts: "rr_records (os_recovery st) = length ?all"
      "os_expected st = (if ?all = [] then None else Some (sat_inc (r_index (last ?all))))"
      "os_first_index st = (if ?all = [] then None else Some (r_index (hd ?all)))"
      "?all \<noteq> [] \<longrightarrow> rr_last_index (os_recovery st) = r_index (last ?all)"
      "checksums_ok crc32c crc32c_append (cut_tail m segs) (os_checksums st)"
      "os_resident st = resident_of (os_sealed st) (cut_tail m segs)"
    using st(4) by (simp_all add: open_ok_def open_counts_def Let_def)
  have "open_log log_opens crc32c crc32c_append disk max_bytes start level = Some (Inr log)"
    using paths opened counts(1,2) st(5) by (simp add: open_log_def prepare_log_def names Let_def log_def)
  moreover have "log_ok crc32c crc32c_append (cut_next N m segs) (cut_tail m segs) k log"
    unfolding log_ok_def
  proof (intro conjI)
    show "segs_ok crc32c crc32c_append (cut_next N m segs) (cut_tail m segs)" by (rule segs_ok_cut_tail [OF ok st(3)])
    show "disk_ok crc32c crc32c_append (cut_tail m segs) k (sl_disk log)"
      using disk_ok_cut_tail [OF disk sd(1,2) st(6)] st(5) by (simp add: log_def)
    show "bounds_ok (cut_next N m segs) (cut_tail m segs) log"
      using counts(3,4) by (simp add: bounds_ok_def log_def Let_def cut_next_def)
    show "sl_max_segment_bytes log < 2 ^ 63" using assms(4) by (simp add: log_def)
  qed (use st(5-8) counts(5,6) in \<open>simp_all add: log_def file_at_def\<close>)
  ultimately show ?thesis using st(2,3) by (intro exI [of _ m] exI [of _ log]) (simp add: log_def)
qed

end
