(* ===== verification/Segment_Ops.thy ===== *)
theory Segment_Ops
  imports Segment_Inv
begin

text \<open>
  Every operation of a segment log keeps the invariant, or fails, isolates the log, and
  leaves a directory that still opens.
\<close>

definition snoc_record :: "log_record \<Rightarrow> segs \<Rightarrow> segs" where
  "snoc_record r segs = butlast segs @ [(fst (last segs), snd (last segs) @ [r])]"

lemma snoc_record_simps [simp]:
  "snoc_record r segs \<noteq> []" "butlast (snoc_record r segs) = butlast segs"
  "fst (last (snoc_record r segs)) = fst (last segs)" "snd (last (snoc_record r segs)) = snd (last segs) @ [r]"
  by (simp_all add: snoc_record_def)

lemma snoc_record_maps:
  assumes "segs \<noteq> []"
  shows "map fst (snoc_record r segs) = map fst segs" "seg_names (snoc_record r segs) = seg_names segs"
    "all_records (snoc_record r segs) = all_records segs @ [r]" "fst (hd (snoc_record r segs)) = fst (hd segs)"
  using assms by (cases segs rule: rev_cases; auto simp: snoc_record_def hd_append)+

lemma set_butlast_last: "xs \<noteq> [] \<Longrightarrow> x \<in> set xs \<longleftrightarrow> x \<in> set (butlast xs) \<or> x = last xs"
  by (cases xs rule: rev_cases) auto

lemma log_okD:
  assumes "log_ok crc32c crc32c_append N segs k log"
  shows "segs_ok crc32c crc32c_append N segs" "disk_ok crc32c crc32c_append segs k (sl_disk log)"
    "sl_current_path log = segment_path (fst (last segs))"
    "fi_bytes (file_at log (segment_path (fst (last segs)))) = frames (record_bytes crc32c crc32c_append) (snd (last segs))"
    "sl_current_len log = length (frames (record_bytes crc32c crc32c_append) (snd (last segs)))"
    "sl_resident_records log = resident_of (sl_sealed_indexes log) segs"
    "sealed_ok crc32c crc32c_append (butlast segs) (sl_disk log) (sl_sealed_indexes log)"
    "checksums_ok crc32c crc32c_append segs (sl_checksums log)" "bounds_ok N segs log"
    "sl_max_segment_bytes log < 2 ^ 63"
  using assms unfolding log_ok_def by blast+

lemma next_index_ok:
  assumes "log_ok crc32c crc32c_append N segs k log"
  shows "unat (next_index log) = N"
proof -
  note sd = segs_okD [OF log_okD(1) [OF assms]] and b = log_okD(9) [OF assms]
  show ?thesis
  proof (cases "all_records segs = []")
    case True
    then show ?thesis using b by (simp add: bounds_ok_def next_index_def Let_def)
  next
    case False
    then have "unat (r_index (last (all_records segs))) = N - length (all_records segs) + length (all_records segs) - 1"
      by (rule indexed_from_last [OF sd(7)])
    moreover have "0 < length (all_records segs)" using False by simp
    ultimately have l: "unat (r_index (last (all_records segs))) = N - 1" "0 < N"
      using sd(6) by (simp_all del: length_greater_0_conv)
    have "unat (r_index (last (all_records segs)) + 1) = N"
      using l sd(9) by (simp add: unat_word_ariths)
    then show ?thesis using False b by (simp add: bounds_ok_def next_index_def Let_def)
  qed
qed

section \<open>Files\<close>

lemma disk_ok_tail:
  assumes "disk_ok crc32c crc32c_append segs k disk" and "segs \<noteq> []" and "sorted_wrt (<) (map fst segs)"
    and "tail_ok crc32c crc32c_append (snd (last segs)) k' f'"
    and "disk' = disk\<lparr>sd_segments := fmupd (segment_path (fst (last segs))) f' (sd_segments disk)\<rparr>"
  shows "disk_ok crc32c crc32c_append segs k' disk'"
proof -
  have "segment_path (fst (last segs)) |\<in>| fmdom (sd_segments disk)"
    using assms(1) by (auto simp: disk_ok_def fmdomI)
  then have "fmdom (sd_segments disk') = fset_of_list (seg_names segs)"
    using assms(1,2) by (auto simp: disk_ok_def assms(5))
  moreover have "segment_path b \<noteq> segment_path (fst (last segs))" if "(b, rs) \<in> set (butlast segs)" for b rs
    using last_not_butlast [OF assms(3,2) that] by auto
  ultimately show ?thesis
    using assms(1,4) by (fastforce simp: disk_ok_def assms(5))
qed

lemma current_file:
  assumes "log_ok crc32c crc32c_append N segs k log"
  shows "tail_ok crc32c crc32c_append (snd (last segs)) k (file_at log (sl_current_path log))"
  using log_okD(2,3) [OF assms] by (auto simp: disk_ok_def file_at_def)

lemma sync_current_ok:
  assumes ok: "log_ok crc32c crc32c_append N segs k log" and "sync_current fault log = (r, log')"
  shows "log_ok crc32c crc32c_append N segs k log'"
    and "r = Inr () \<Longrightarrow> log_ok crc32c crc32c_append N segs (length (snd (last segs))) log'"
    and "r = Inr () \<Longrightarrow> file_at log' (sl_current_path log') = file_of crc32c crc32c_append (snd (last segs))"
    and "sl_isolated log' = sl_isolated log" "sl_active_writer_feature_level log' = sl_active_writer_feature_level log"
    "sl_current_len log' = sl_current_len log" "sl_current_path log' = sl_current_path log"
    "sl_max_segment_bytes log' = sl_max_segment_bytes log"
proof -
  note lo = log_okD [OF ok] and sd = segs_okD [OF log_okD(1) [OF ok]] and tail = current_file [OF ok]
  let ?f = "file_at log (sl_current_path log)"
  have new: "log_ok crc32c crc32c_append N segs (length (snd (last segs)))
      (put_file (sl_current_path log) (file_of crc32c crc32c_append (snd (last segs))) log)"
  proof -
    have "tail_ok crc32c crc32c_append (snd (last segs)) (length (snd (last segs))) (file_of crc32c crc32c_append (snd (last segs)))"
      by (simp add: tail_ok_def file_of_def)
    from disk_ok_tail [OF lo(2) sd(1,2) this refl] show ?thesis
      using lo sealed_ok_mono [OF lo(7)]
      by (simp add: log_ok_def put_file_def file_at_def file_of_def bounds_ok_def)
  qed
  have weaken: "log_ok crc32c crc32c_append N segs k l" if "log_ok crc32c crc32c_append N segs (length (snd (last segs))) l" for l
  proof -
    have "tail_ok crc32c crc32c_append (snd (last segs)) k f" if "tail_ok crc32c crc32c_append (snd (last segs)) (length (snd (last segs))) f" for f
      using that tail frames_prefix_take [of "record_bytes crc32c crc32c_append" k "snd (last segs)"]
      by (auto simp: tail_ok_def dest!: prefix_length_le)
    then have "disk_ok crc32c crc32c_append segs k (sl_disk l)" using log_okD(2) [OF that] by (auto simp: disk_ok_def)
    then show ?thesis using that by (simp add: log_ok_def)
  qed
  have synced: "?f\<lparr>fi_durable := length (fi_bytes ?f), fi_shadows := []\<rparr> = file_of crc32c crc32c_append (snd (last segs))"
    using lo(3,4) by (cases ?f) (simp add: file_of_def)
  have cases: "(\<exists>e. r = Inl e \<and> log' = log)
      \<or> r = Inr () \<and> log' = put_file (sl_current_path log) (file_of crc32c crc32c_append (snd (last segs))) log"
    using assms(2) synced by (auto simp: sync_current_def sync_file_def split: option.splits)
  then show "log_ok crc32c crc32c_append N segs k log'" using weaken [OF new] ok by auto
  show "r = Inr () \<Longrightarrow> log_ok crc32c crc32c_append N segs (length (snd (last segs))) log'" using new cases by auto
  show "r = Inr () \<Longrightarrow> file_at log' (sl_current_path log') = file_of crc32c crc32c_append (snd (last segs))"
    using cases by (auto simp: file_at_def put_file_def)
  show "sl_isolated log' = sl_isolated log" "sl_active_writer_feature_level log' = sl_active_writer_feature_level log"
    "sl_current_len log' = sl_current_len log" "sl_current_path log' = sl_current_path log"
    "sl_max_segment_bytes log' = sl_max_segment_bytes log"
    using cases by (auto simp: put_file_def)
qed

section \<open>Rotation\<close>

text \<open>
  \<open>durable_from\<close> counts the records that a crash cannot take: those of the closed segments
  and the first \<open>k\<close> of the last one.
\<close>

definition durable_from :: "segs \<Rightarrow> nat \<Rightarrow> nat" where
  "durable_from segs k = length (all_records (butlast segs)) + k"

definition disk_good ::
  "(byte list \<Rightarrow> u32) \<Rightarrow> (u32 \<Rightarrow> byte list \<Rightarrow> u32) \<Rightarrow> log_record list \<Rightarrow> nat \<Rightarrow> segment_disk \<Rightarrow> bool" where
  "disk_good crc32c crc32c_append rs d disk \<longleftrightarrow>
     (\<exists>N segs k. segs_ok crc32c crc32c_append N segs \<and> disk_ok crc32c crc32c_append segs k disk
        \<and> all_records segs = rs \<and> d \<le> durable_from segs k)"

definition log_good ::
  "(byte list \<Rightarrow> u32) \<Rightarrow> (u32 \<Rightarrow> byte list \<Rightarrow> u32) \<Rightarrow> nat \<Rightarrow> log_record list \<Rightarrow> nat \<Rightarrow> segment_log \<Rightarrow> bool" where
  "log_good crc32c crc32c_append N rs d log \<longleftrightarrow>
     (\<exists>segs k. log_ok crc32c crc32c_append N segs k log \<and> all_records segs = rs \<and> d \<le> durable_from segs k)"

lemma log_ok_good:
  "log_ok crc32c crc32c_append N segs k log \<Longrightarrow> log_good crc32c crc32c_append N (all_records segs) (durable_from segs k) log"
  by (auto simp: log_good_def)

lemma log_good_mono: "log_good crc32c crc32c_append N rs d log \<Longrightarrow> d' \<le> d \<Longrightarrow> log_good crc32c crc32c_append N rs d' log"
  by (auto simp: log_good_def intro: order_trans)

lemma disk_good_mono:
  assumes "disk_good crc32c crc32c_append rs d disk" and "d' \<le> d" shows "disk_good crc32c crc32c_append rs d' disk"
proof -
  obtain N segs k where "segs_ok crc32c crc32c_append N segs" "disk_ok crc32c crc32c_append segs k disk"
      "all_records segs = rs" "d \<le> durable_from segs k"
    using assms(1) unfolding disk_good_def by blast
  moreover from this(4) have "d' \<le> durable_from segs k" using assms(2) by simp
  ultimately show ?thesis unfolding disk_good_def by blast
qed

lemma disk_good_log: "log_good crc32c crc32c_append N rs d log \<Longrightarrow> disk_good crc32c crc32c_append rs d (sl_disk log)"
  unfolding log_good_def disk_good_def by (blast dest: log_okD(1,2))

text \<open>A disk with these segments, and at least \<open>d\<close> records durable.\<close>

definition disk_as ::
  "(byte list \<Rightarrow> u32) \<Rightarrow> (u32 \<Rightarrow> byte list \<Rightarrow> u32) \<Rightarrow> nat \<Rightarrow> segs \<Rightarrow> nat \<Rightarrow> segment_disk \<Rightarrow> bool" where
  "disk_as crc32c crc32c_append N segs d disk \<longleftrightarrow>
     segs_ok crc32c crc32c_append N segs \<and> (\<exists>k. disk_ok crc32c crc32c_append segs k disk \<and> d \<le> durable_from segs k)"

lemma disk_as_good: "disk_as crc32c crc32c_append N segs d disk \<Longrightarrow> disk_good crc32c crc32c_append (all_records segs) d disk"
  unfolding disk_as_def disk_good_def by blast

lemma log_ok_disk_as:
  "log_ok crc32c crc32c_append N segs k log \<Longrightarrow> d \<le> durable_from segs k \<Longrightarrow> disk_as crc32c crc32c_append N segs d (sl_disk log)"
  unfolding disk_as_def by (blast dest: log_okD(1,2))

lemma disk_ok_rotate:
  assumes "disk_ok crc32c crc32c_append segs (length (snd (last segs))) disk" and "segs \<noteq> []"
    and "fmlookup (sd_segments disk) (segment_path (fst (last segs))) = Some (file_of crc32c crc32c_append (snd (last segs)))"
    and "\<forall>(b', rs') \<in> set segs. b' < b"
  shows "disk_ok crc32c crc32c_append (segs @ [(b, [])]) 0
           (disk\<lparr>sd_segments := fmupd (segment_path b) empty_file (sd_segments disk)\<rparr>)"
proof -
  have other: "(b, rs') \<notin> set segs" for rs' using assms(4) by auto
  have files: "fmlookup (sd_segments disk) (segment_path b') = Some (file_of crc32c crc32c_append rs')"
    if "(b', rs') \<in> set segs" for b' rs'
  proof -
    have "(b', rs') \<in> set (butlast segs) \<or> (b', rs') = last segs"
      using that set_butlast_last [OF assms(2)] by blast
    then show ?thesis
    proof
      assume "(b', rs') = last segs"
      then show ?thesis using assms(3) by (metis fst_conv snd_conv)
    qed (use assms(1) in \<open>auto simp: disk_ok_def\<close>)
  qed
  have "sidecars_ok crc32c crc32c_append (segs @ [(b, [])]) (sd_indexes disk)"
    unfolding sidecars_ok_def
  proof (intro allI impI)
    fix path content assume "fmlookup (sd_indexes disk) path = Some content"
    moreover have "sidecars_ok crc32c crc32c_append segs (sd_indexes disk)" using assms(1) by (simp add: disk_ok_def)
    ultimately show "path < segment_path (fst (hd (segs @ [(b, [])])))
        \<or> (\<exists>b' rs md. (b', rs) \<in> set (butlast (segs @ [(b, [])])) \<and> path = segment_path b'
             \<and> content = sidecar crc32c crc32c_append path rs md \<and> length md < 2 ^ 32 \<and> length rs < 2 ^ 32)"
      using assms(2) in_set_butlastD [of _ segs] by (elim sidecars_okE) (auto simp: hd_append)
  qed
  then show ?thesis
    using assms(1) files other
    by (auto simp: disk_ok_def tail_ok_def empty_file_def)
qed

lemma segs_ok_rotate:
  assumes "segs_ok crc32c crc32c_append N segs" and "unat b = N" and "snd (last segs) \<noteq> []"
    and "\<forall>(b', rs') \<in> set segs. b' < b"
  shows "segs_ok crc32c crc32c_append N (segs @ [(b, [])])"
proof -
  note sd = segs_okD [OF assms(1)]
  have "\<forall>(b, rs) \<in> set segs. rs \<noteq> []"
  proof (intro ballI, clarify)
    fix b' assume "(b', []) \<in> set segs"
    then have "(b', []) \<in> set (butlast segs) \<or> (b', []) = last segs" using set_butlast_last [OF sd(1)] by blast
    then show False
    proof
      assume "(b', []) = last segs"
      then have "snd (last segs) = []" by (metis snd_conv)
      then show False using assms(3) by simp
    next
      assume "(b', []) \<in> set (butlast segs)"
      from bspec [OF sd(3) this] show False by simp
    qed
  qed
  then show ?thesis
    using sd assms(2,4) by (auto simp: segs_ok_def sorted_wrt_append)
qed

lemma bases_below:
  assumes "segs_ok crc32c crc32c_append N segs" and "unat b = N" and "snd (last segs) \<noteq> []"
  shows "\<forall>(b', rs') \<in> set segs. b' < b"
proof (intro ballI, clarify)
  fix b' rs' assume "(b', rs') \<in> set segs"
  note sd = segs_okD [OF assms(1)]
  have "unat (fst (last segs)) < N" using sd(8) assms(3) by (cases "snd (last segs)") auto
  then have "fst (last segs) < b" using assms(2) by (simp add: word_less_nat_alt)
  moreover have "b' \<le> fst (last segs)"
  proof (cases "(b', rs') \<in> set (butlast segs)")
    case True
    then show ?thesis using last_not_butlast [OF sd(2,1)] by fastforce
  next
    case False
    then have "(b', rs') = last segs"
      using \<open>(b', rs') \<in> set segs\<close> set_butlast_last [OF sd(1)] by blast
    then show ?thesis by (metis fst_conv order_refl)
  qed
  ultimately show "b' < b" by simp
qed

lemma resident_of_rotate: "resident_of sealed (segs @ [(b, [])]) = resident_of sealed segs"
  by (simp add: resident_of_def)

lemma rotate_ok:
  assumes ok: "log_ok crc32c crc32c_append N segs k log" and "snd (last segs) \<noteq> []" and b: "unat b = N"
    and rot: "rotate io b log = (r, log')" and laws: "crc_laws crc32c crc32c_append"
  shows "case r of
      Inl e \<Rightarrow> disk_as crc32c crc32c_append N segs (durable_from segs k) (sl_disk log')
          \<or> disk_as crc32c crc32c_append N (segs @ [(b, [])]) (durable_from segs k) (sl_disk log')
    | Inr _ \<Rightarrow> log_ok crc32c crc32c_append N (segs @ [(b, [])]) 0 log' \<and> sl_isolated log' = sl_isolated log
        \<and> sl_active_writer_feature_level log' = sl_active_writer_feature_level log"
proof -
  note sd = segs_okD [OF log_okD(1) [OF ok]]
  note below = bases_below [OF log_okD(1) [OF ok] b assms(2)]
  obtain r1 log1 where s1: "sync_current (ai_seal io) log = (r1, log1)" by fastforce
  note sync = sync_current_ok [OF ok s1]
  show ?thesis
  proof (cases r1)
    case (Inl e)
    then have "log' = log1" "\<exists>e. r = Inl e" using rot s1 by (auto simp: rotate_def)
    then show ?thesis using log_ok_disk_as [OF sync(1)] by auto
  next
    case (Inr u)
    then have ok1: "log_ok crc32c crc32c_append N segs (length (snd (last segs))) log1"
      and f: "file_at log1 (sl_current_path log1) = file_of crc32c crc32c_append (snd (last segs))"
      using sync by auto
    note lo = log_okD [OF ok1]
    have d1: "disk_as crc32c crc32c_append N segs (durable_from segs k) (sl_disk log1)"
      by (rule log_ok_disk_as [OF sync(1)]) simp
    have look: "fmlookup (sd_segments (sl_disk log1)) (segment_path (fst (last segs))) = Some (file_of crc32c crc32c_append (snd (last segs)))"
      using f lo(2,3) by (auto simp: file_at_def disk_ok_def)
    let ?log2 = "put_file (segment_path b) empty_file log1"
    have disk2: "disk_ok crc32c crc32c_append (segs @ [(b, [])]) 0 (sl_disk ?log2)"
      using disk_ok_rotate [OF lo(2) sd(1) look below] by (simp add: put_file_def)
    have segs2: "segs_ok crc32c crc32c_append N (segs @ [(b, [])])"
      by (rule segs_ok_rotate [OF log_okD(1) [OF ok] b assms(2) below])
    have k: "k \<le> length (snd (last segs))" using current_file [OF ok] by (simp add: tail_ok_def)
    have d2: "disk_as crc32c crc32c_append N (segs @ [(b, [])]) (durable_from segs k) (sl_disk ?log2)"
      unfolding disk_as_def using segs2 disk2 all_records_last [OF sd(1)] k by (auto simp: durable_from_def)
    have free: "fmlookup (sd_segments (sl_disk log1)) (segment_path b) = None"
    proof -
      have "segment_path b \<notin> set (seg_names segs)" using below by (force simp: seg_names_def)
      then have "segment_path b |\<notin>| fmdom (sd_segments (sl_disk log1))"
        using lo(2) by (simp add: disk_ok_def fset_of_list.rep_eq)
      then show ?thesis by (rule fmdom_notD)
    qed
    define log3 where "log3 = ?log2\<lparr>sl_current_path := segment_path b, sl_current_len := 0,
        sl_checksums := fmupd (segment_path b) (0, 0) (sl_checksums ?log2)\<rparr>"
    have cs: "checksums_ok crc32c crc32c_append (segs @ [(b, [])]) (sl_checksums log3)"
    proof -
      have "segment_path b \<notin> set (seg_names segs)" using below by (force simp: seg_names_def)
      moreover have "crc32c_append 0 [] = 0" by (rule crc_lawsD(2) [OF laws])
      ultimately show ?thesis
        using checksums_ok_add [OF lo(8), of b "[]" "[]"] by (simp add: log3_def put_file_def)
    qed
    have ok3: "log_ok crc32c crc32c_append N (segs @ [(b, [])]) 0 log3"
      unfolding log_ok_def
    proof (intro conjI)
      show "sealed_ok crc32c crc32c_append (butlast (segs @ [(b, [])])) (sl_disk log3) (sl_sealed_indexes log3)"
      proof -
        have "set (butlast segs) \<subseteq> set segs" by (auto dest: in_set_butlastD)
        then show ?thesis using sealed_ok_mono [OF lo(7), of segs "sl_disk log3"] by (simp add: log3_def put_file_def)
      qed
    qed (use segs2 disk2 lo cs in \<open>simp_all add: log3_def put_file_def file_at_def empty_file_def
          resident_of_rotate bounds_ok_def\<close>)
    show ?thesis
      using rot s1 Inr free d1 d2 ok3 sync(4,5)
      by (auto simp: rotate_def Let_def log3_def put_file_def split: option.splits)
  qed
qed

section \<open>Appending\<close>

lemma segs_ok_snoc:
  assumes "segs_ok crc32c crc32c_append N segs" and "record_valid r" and "unat (r_index r) = N" and "Suc N < 2 ^ 64"
    and "length (frames (record_bytes crc32c crc32c_append) (snd (last segs))) + encoded_len r < 2 ^ 63"
  shows "segs_ok crc32c crc32c_append (Suc N) (snoc_record r segs)"
proof -
  note sd = segs_okD [OF assms(1)]
  have "length (frames (record_bytes crc32c crc32c_append) rs) < 2 ^ 63" if "(b, rs) \<in> set (snoc_record r segs)" for b rs
  proof (cases "(b, rs) \<in> set (butlast segs)")
    case True
    then show ?thesis using bspec [OF sd(4) in_set_butlastD [OF True]] by simp
  next
    case False
    then have "rs = snd (last segs) @ [r]" using that by (simp add: snoc_record_def)
    then show ?thesis using assms(5) by (simp add: encoded_len_def header_len_def)
  qed
  then show ?thesis
    using sd assms(2-4) snoc_record_maps [OF sd(1), of r]
    by (auto simp: segs_ok_def indexed_from_append)
qed

lemma disk_ok_snoc:
  assumes "disk_ok crc32c crc32c_append segs k disk" and "segs \<noteq> []" and "sorted_wrt (<) (map fst segs)"
    and "tail_ok crc32c crc32c_append (snd (last segs) @ [r]) k' f'"
    and "disk' = disk\<lparr>sd_segments := fmupd (segment_path (fst (last segs))) f' (sd_segments disk)\<rparr>"
  shows "disk_ok crc32c crc32c_append (snoc_record r segs) k' disk'"
proof -
  have "segment_path (fst (last segs)) |\<in>| fmdom (sd_segments disk)"
    using assms(1) by (auto simp: disk_ok_def fmdomI)
  then have "fmdom (sd_segments disk') = fset_of_list (seg_names (snoc_record r segs))"
    using assms(1,2) by (auto simp: disk_ok_def assms(5) snoc_record_maps)
  moreover have "segment_path b \<noteq> segment_path (fst (last segs))" if "(b, rs) \<in> set (butlast segs)" for b rs
    using last_not_butlast [OF assms(3,2) that] by auto
  ultimately show ?thesis
    using assms(1,4) snoc_record_maps [OF assms(2), of r] by (fastforce simp: disk_ok_def assms(5) sidecars_ok_def)
qed

lemma resident_of_snoc:
  assumes "segs \<noteq> []" and "segment_path (fst (last segs)) |\<notin>| fmdom sealed"
    and "n = length (frames (record_bytes crc32c crc32c_append) (snd (last segs)))"
  shows "resident_of sealed (snoc_record r segs)
       = resident_of sealed segs @ [location_of (segment_path (fst (last segs))) n r]"
proof -
  have "scanned (locations path rs) = length (frames (record_bytes crc32c crc32c_append) rs)" for path rs
    by (induction rs rule: rev_induct)
      (simp_all add: scanned_def locations_from_append location_of_def encoded_len_def header_len_def)
  then have "locations path (snd (last segs) @ [r]) = locations path (snd (last segs)) @ [location_of path n r]" for path
    using assms(3) by (simp add: locations_from_append)
  moreover have "resident_of sealed segs = resident_of sealed (butlast segs) @ locations (segment_path (fst (last segs))) (snd (last segs))"
    using assms(1,2) by (cases segs rule: rev_cases) (auto simp: resident_of_def)
  ultimately show ?thesis using assms(2) by (simp add: snoc_record_def resident_of_append) (simp add: resident_of_def)
qed

lemma tail_ok_write:
  assumes "tail_ok crc32c crc32c_append rs k f" and "fi_bytes f = frames (record_bytes crc32c crc32c_append) rs"
    and "prefix more_bytes (record_bytes crc32c crc32c_append r)"
  shows "tail_ok crc32c crc32c_append (rs @ [r]) k (f\<lparr>fi_bytes := fi_bytes f @ more_bytes\<rparr>)"
  using assms by (auto simp: tail_ok_def prefix_def)

lemma checksums_ok_snoc:
  assumes "checksums_ok crc32c crc32c_append segs cs" and "segs \<noteq> []" and "sorted_wrt (<) (map fst segs)"
    and "bytes = frames (record_bytes crc32c crc32c_append) (snd (last segs) @ [r])"
  shows "checksums_ok crc32c crc32c_append (snoc_record r segs)
           (fmupd (segment_path (fst (last segs))) (length bytes, crc32c_append 0 bytes) cs)"
proof -
  have "segment_path (fst (last segs)) \<in> set (seg_names segs)"
    using seg_names_mem [of "fst (last segs)" "snd (last segs)" segs] assms(2) by simp
  then have "fmdom (fmupd (segment_path (fst (last segs))) (length bytes, crc32c_append 0 bytes) cs)
      = fset_of_list (seg_names (snoc_record r segs))"
    using assms(1) by (auto simp: checksums_ok_def snoc_record_maps [OF assms(2)] fset_of_list.rep_eq)
  moreover have "fmlookup (fmupd (segment_path (fst (last segs))) (length bytes, crc32c_append 0 bytes) cs) (segment_path b)
      = Some (length (frames (record_bytes crc32c crc32c_append) rs), crc32c_append 0 (frames (record_bytes crc32c crc32c_append) rs))"
    if "(b, rs) \<in> set (snoc_record r segs)" for b rs
  proof (cases "(b, rs) \<in> set (butlast segs)")
    case True
    then have "b \<noteq> fst (last segs)" using last_not_butlast [OF assms(3,2) True] by simp
    then show ?thesis using assms(1) in_set_butlastD [OF True] by (auto simp: checksums_ok_def Let_def)
  next
    case False
    then show ?thesis using that assms(4) by (simp add: snoc_record_def)
  qed
  ultimately show ?thesis by (auto simp: checksums_ok_def Let_def)
qed

lemma append_write_ok:
  assumes ok: "log_ok crc32c crc32c_append N segs k log" and laws: "crc_laws crc32c crc32c_append"
    and r: "record_valid r" "unat (r_index r) = N" "Suc N < 2 ^ 64"
    and room: "sl_current_len log + encoded_len r < 2 ^ 63"
    and hdr: "header @ concat payload = record_bytes crc32c crc32c_append r"
    and small: "\<not> (sl_current_len log > 0 \<and> sl_current_len log + encoded_len r > sl_max_segment_bytes log)"
    and app: "append_parts crc32c_append io (record_header_of r) header payload (encoded_len r) durable log = (res, log')"
  shows "case res of
      Inl e \<Rightarrow> disk_as crc32c crc32c_append (Suc N) (snoc_record r segs) (durable_from segs k) (sl_disk log')
    | Inr location \<Rightarrow> location = location_of (segment_path (fst (last segs))) (sl_current_len log) r
        \<and> log_ok crc32c crc32c_append (Suc N) (snoc_record r segs)
            (if durable then length (snd (last segs)) + 1 else k) log'
        \<and> sl_isolated log' = sl_isolated log
        \<and> sl_active_writer_feature_level log' = sl_active_writer_feature_level log"
proof -
  note lo = log_okD [OF ok] and sd = segs_okD [OF log_okD(1) [OF ok]]
  let ?p = "segment_path (fst (last segs))" and ?rb = "record_bytes crc32c crc32c_append"
  define f where "f = file_at log ?p"
  have f: "fi_bytes f = frames ?rb (snd (last segs))" "tail_ok crc32c crc32c_append (snd (last segs)) k f"
    using lo(4) current_file [OF ok] lo(3) by (simp_all add: f_def)
  have segs': "segs_ok crc32c crc32c_append (Suc N) (snoc_record r segs)"
    using segs_ok_snoc [OF lo(1) r] room lo(5) by simp
  note all' = snoc_record_maps(3) [OF sd(1), of r]
  obtain wr out where wrote: "write_parts (ai_writes io) header payload (fi_bytes f) = (wr, out)" by fastforce
  obtain j where j: "out = fi_bytes f @ take j (?rb r)" "wr = Inr () \<longleftrightarrow> j = length (?rb r)" "j \<le> length (?rb r)"
    using write_parts_wrote [of "ai_writes io" header payload "fi_bytes f"] wrote hdr
    by (auto simp: wrote_prefix_def)
  define log1 where "log1 = put_file ?p (f\<lparr>fi_bytes := out\<rparr>) log"
  have disk1: "disk_ok crc32c crc32c_append (snoc_record r segs) k (sl_disk log1)"
    using disk_ok_snoc [OF lo(2) sd(1,2) tail_ok_write [OF f(2,1) take_is_prefix [of j "?rb r"]]] j(1)
    by (simp add: log1_def put_file_def)
  have good1: "disk_as crc32c crc32c_append (Suc N) (snoc_record r segs) (durable_from segs k) (sl_disk log1)"
    unfolding disk_as_def using segs' disk1 by (auto simp: durable_from_def)
  show ?thesis
  proof (cases wr)
    case (Inl e)
    then have "\<exists>e. res = Inl e" "log' = log1"
      using app small wrote lo(3) by (auto simp: append_parts_def Let_def f_def log1_def)
    then show ?thesis using good1 by auto
  next
    case (Inr u)
    then have out: "out = frames ?rb (snd (last segs) @ [r])" using j f(1) by simp
    define crc where "crc = crc32c_append 0 out"
    have cs: "fmlookup (sl_checksums log) ?p = Some (length (fi_bytes f), crc32c_append 0 (fi_bytes f))"
      using lo(8) sd(1) f(1) by (auto simp: checksums_ok_def Let_def case_prod_beta dest: bspec [of _ _ "last segs"])
    have crc: "foldl crc32c_append (crc32c_append (crc32c_append 0 (fi_bytes f)) header) payload = crc"
      using j f(1) Inr hdr by (simp add: foldl_crc_append [OF laws] crc_lawsD(3) [OF laws] crc_def)
    define finish where "finish l = l\<lparr>sl_current_len := length out, sl_storage_bytes := sat_add (sl_storage_bytes l) (word_of_nat (encoded_len r)),
        sl_checksums := fmupd ?p (length out, crc) (sl_checksums l),
        sl_resident_records := sl_resident_records l @ [location_of ?p (length (fi_bytes f)) r],
        sl_first_index := Some (case sl_first_index l of None \<Rightarrow> r_index r | Some i \<Rightarrow> i),
        sl_last_index := Some (r_index r)\<rparr>" for l :: segment_log
    have fin: "log_ok crc32c crc32c_append (Suc N) (snoc_record r segs) k' (finish (log\<lparr>sl_disk := d\<rparr>))"
      if "disk_ok crc32c crc32c_append (snoc_record r segs) k' d" "sd_indexes d = sd_indexes (sl_disk log)"
        "fmlookup (sd_segments d) ?p = Some g" "fi_bytes g = out" for k' d g
      unfolding log_ok_def
    proof (intro conjI)
      have "?p |\<notin>| fmdom (sl_sealed_indexes log)"
        using sealed_ok_dom [OF lo(7)] last_not_butlast [OF sd(2,1)] by (fastforce simp: seg_names_def)
      then show "sl_resident_records (finish (log\<lparr>sl_disk := d\<rparr>))
          = resident_of (sl_sealed_indexes (finish (log\<lparr>sl_disk := d\<rparr>))) (snoc_record r segs)"
        using lo(6) resident_of_snoc [OF sd(1)] f(1) by (simp add: finish_def)
      show "checksums_ok crc32c crc32c_append (snoc_record r segs) (sl_checksums (finish (log\<lparr>sl_disk := d\<rparr>)))"
        using checksums_ok_snoc [OF lo(8) sd(1,2) out] by (simp add: finish_def crc_def)
      show "sealed_ok crc32c crc32c_append (butlast (snoc_record r segs)) (sl_disk (finish (log\<lparr>sl_disk := d\<rparr>)))
          (sl_sealed_indexes (finish (log\<lparr>sl_disk := d\<rparr>)))"
        using sealed_ok_mono [OF lo(7) order_refl, of d] that(2) by (simp add: finish_def)
      show "bounds_ok (Suc N) (snoc_record r segs) (finish (log\<lparr>sl_disk := d\<rparr>))"
        using lo(9) all' by (cases "all_records segs") (simp_all add: bounds_ok_def finish_def Let_def)
    qed (use segs' that lo out in \<open>simp_all add: finish_def file_at_def\<close>)
    have log1: "log1 = log\<lparr>sl_disk := sl_disk log1\<rparr>" by (simp add: log1_def put_file_def)
    have d1: "sd_indexes (sl_disk log1) = sd_indexes (sl_disk log)" "fmlookup (sd_segments (sl_disk log1)) ?p = Some (f\<lparr>fi_bytes := out\<rparr>)"
      by (simp_all add: log1_def put_file_def)
    define g where "g = f\<lparr>fi_bytes := out, fi_durable := length out, fi_shadows := []\<rparr>"
    define log2 where "log2 = put_file ?p g log1"
    have "tail_ok crc32c crc32c_append (snd (last segs) @ [r]) (length (snd (last segs)) + 1) g"
      using out by (simp add: tail_ok_def g_def)
    then have disk2: "disk_ok crc32c crc32c_append (snoc_record r segs) (length (snd (last segs)) + 1) (sl_disk log2)"
      using disk_ok_snoc [OF lo(2) sd(1,2)] by (simp add: log2_def log1_def put_file_def)
    have log2: "log2 = log\<lparr>sl_disk := sl_disk log2\<rparr>" "sd_indexes (sl_disk log2) = sd_indexes (sl_disk log)"
        "fmlookup (sd_segments (sl_disk log2)) ?p = Some g"
      by (simp_all add: log2_def log1_def put_file_def)
    have loc: "location_of ?p (length (fi_bytes f)) r
        = \<lparr>loc_index = r_index (record_header_of r), loc_segment = ?p, loc_offset = sl_current_len log, loc_encoded_len = encoded_len r\<rparr>"
      using lo(5) f(1) by (simp add: location_of_def record_header_of_def)
    have len: "sl_current_len log + encoded_len r = length out"
      using lo(5) out by (simp add: encoded_len_def header_len_def)
    have sync: "sync_current fault log1 = (case fault of None \<Rightarrow> (Inr (), log2) | Some e \<Rightarrow> (Inl (StIo e), log1))" for fault
      using lo(3) by (simp add: sync_current_def sync_file_def file_at_def log1_def log2_def put_file_def g_def split: option.split)
    consider (failed) e where "durable" "ai_sync io = Some e" | (synced) "durable" "ai_sync io = None" | (unsynced) "\<not> durable"
      by (cases durable; cases "ai_sync io") auto
    then show ?thesis
    proof cases
      case failed
      then have "\<exists>e. res = Inl e" "log' = log1"
        using app small wrote lo(3) Inr sync by (auto simp: append_parts_def Let_def f_def [symmetric] log1_def [symmetric])
      then show ?thesis using good1 by auto
    next
      case synced
      have fields: "sl_checksums log2 = sl_checksums log" "sl_current_len log2 = sl_current_len log"
          "sl_resident_records log2 = sl_resident_records log" "sl_first_index log2 = sl_first_index log"
        by (simp_all add: log2_def log1_def put_file_def)
      have "res = Inr (location_of ?p (length (fi_bytes f)) r)" "log' = finish log2"
        using app small wrote lo(3) Inr sync synced cs crc loc len
        by (auto simp: append_parts_def Let_def f_def [symmetric] log1_def [symmetric] fields finish_def record_header_of_def cong: option.case_cong)
      moreover have "log_ok crc32c crc32c_append (Suc N) (snoc_record r segs) (length (snd (last segs)) + 1) (finish log2)"
        using fin [OF disk2 log2(2,3)] log2(1) by (simp add: g_def)
      ultimately show ?thesis
        using synced f(1) lo(5) by (simp add: finish_def log2_def log1_def put_file_def)
    next
      case unsynced
      have fields: "sl_checksums log1 = sl_checksums log" "sl_current_len log1 = sl_current_len log"
        by (simp_all add: log1_def put_file_def)
      have "res = Inr (location_of ?p (length (fi_bytes f)) r)" "log' = finish log1"
        using app small wrote lo(3) Inr unsynced cs crc loc len
        by (auto simp: append_parts_def Let_def f_def [symmetric] log1_def [symmetric] fields finish_def record_header_of_def cong: option.case_cong)
      moreover have "log_ok crc32c crc32c_append (Suc N) (snoc_record r segs) k (finish log1)"
        using fin [OF disk1 d1] log1 by simp
      ultimately show ?thesis
        using unsynced f(1) lo(5) by (simp add: finish_def log1_def put_file_def)
    qed
  qed
qed

lemma append_parts_rotated:
  assumes "rotate io (r_index h) log = (Inr u, log1)" and "sl_current_len log1 = 0"
    and "sl_current_len log > 0 \<and> sl_current_len log + encoded > sl_max_segment_bytes log"
  shows "append_parts crc32c_append io h header payload encoded durable log
       = append_parts crc32c_append io h header payload encoded durable log1"
  unfolding append_parts_def using assms by simp

lemma durable_from_snoc: "durable_from (snoc_record r segs) k = durable_from segs k"
  by (simp add: durable_from_def)

text \<open>What an append leaves behind: the record \<open>r\<close> is in the log, or the log is isolated.\<close>

definition append_outcome ::
  "(byte list \<Rightarrow> u32) \<Rightarrow> (u32 \<Rightarrow> byte list \<Rightarrow> u32) \<Rightarrow> nat \<Rightarrow> log_record list \<Rightarrow> nat \<Rightarrow> log_record \<Rightarrow> bool
   \<Rightarrow> u32 \<Rightarrow> (storage_error + 'a) \<times> segment_log \<Rightarrow> bool" where
  "append_outcome crc32c crc32c_append N rs d r durable level outcome \<longleftrightarrow>
     (case fst outcome of
        Inl e \<Rightarrow> sl_isolated (snd outcome)
          \<and> (disk_good crc32c crc32c_append rs d (sl_disk (snd outcome))
             \<or> disk_good crc32c crc32c_append (rs @ [r]) d (sl_disk (snd outcome)))
      | Inr _ \<Rightarrow> \<not> sl_isolated (snd outcome) \<and> sl_active_writer_feature_level (snd outcome) = level
          \<and> log_good crc32c crc32c_append (Suc N) (rs @ [r]) (if durable then length rs + 1 else d) (snd outcome))"

lemma append_parts_ok:
  assumes ok: "log_ok crc32c crc32c_append N segs k log" and laws: "crc_laws crc32c crc32c_append"
    and r: "record_valid r" "unat (r_index r) = N" "Suc N < 2 ^ 64"
    and hdr: "header @ concat payload = record_bytes crc32c crc32c_append r" and "\<not> sl_isolated log"
    and app: "append_parts crc32c_append io (record_header_of r) header payload (encoded_len r) durable log = (res, log')"
  shows "append_outcome crc32c crc32c_append N (all_records segs) (durable_from segs k) r durable
           (sl_active_writer_feature_level log) (isolate_on_error (res, log'))
         \<and> (\<forall>l. res = Inr l \<longrightarrow> loc_index l = r_index r)"
proof -
  note lo = log_okD [OF ok] and sd = segs_okD [OF log_okD(1) [OF ok]]
  have len: "encoded_len r < 2 ^ 62" using r(1) by (simp add: record_valid_def encoded_len_def header_len_def max_record_bytes_def)
  have total: "length (all_records (butlast segs)) + length (snd (last segs)) = length (all_records segs)"
    using all_records_last [OF sd(1)] by simp
  have kl: "k \<le> length (snd (last segs))" using current_file [OF ok] by (simp add: tail_ok_def)
  show ?thesis
  proof (cases "sl_current_len log > 0 \<and> sl_current_len log + encoded_len r > sl_max_segment_bytes log")
    case False
    then have "sl_current_len log + encoded_len r < 2 ^ 63" using lo(10) len by auto
    note wr = append_write_ok [OF ok laws r this hdr False app]
    show ?thesis
    proof (cases res)
      case (Inl e)
      then show ?thesis
        using wr disk_as_good snoc_record_maps(3) [OF sd(1), of r] by (fastforce simp: append_outcome_def isolate_on_error_def isolate_def)
    next
      case (Inr l)
      let ?k = "if durable then length (snd (last segs)) + 1 else k"
      have "log_ok crc32c crc32c_append (Suc N) (snoc_record r segs) ?k log'" using wr Inr by simp
      from log_ok_good [OF this] have "log_good crc32c crc32c_append (Suc N) (all_records segs @ [r]) (durable_from segs ?k) log'"
        using snoc_record_maps(3) [OF sd(1), of r] by (simp add: durable_from_snoc)
      moreover have "durable_from segs ?k = (if durable then length (all_records segs) + 1 else durable_from segs k)"
        using total by (simp add: durable_from_def)
      ultimately have "log_good crc32c crc32c_append (Suc N) (all_records segs @ [r])
          (if durable then length (all_records segs) + 1 else durable_from segs k) log'" by simp
      then show ?thesis using wr Inr assms(7) by (auto simp: append_outcome_def isolate_on_error_def location_of_def)
    qed
  next
    case True
    then have ne: "snd (last segs) \<noteq> []" using lo(5) by auto
    obtain r1 log1 where rot: "rotate io (r_index r) log = (r1, log1)" by fastforce
    note ro = rotate_ok [OF ok ne r(2) rot laws]
    have ix: "r_index (record_header_of r) = r_index r" by (simp add: record_header_of_def)
    show ?thesis
    proof (cases r1)
      case (Inl e)
      then have "res = Inl e" "log' = log1"
        using app True rot ix by (auto simp: append_parts_def)
      then show ?thesis
        using ro Inl disk_as_good [of crc32c crc32c_append N segs] disk_as_good [of crc32c crc32c_append N "segs @ [(r_index r, [])]"]
        by (auto simp: append_outcome_def isolate_on_error_def isolate_def)
    next
      case (Inr u)
      let ?segs1 = "segs @ [(r_index r, [])]"
      have ok1: "log_ok crc32c crc32c_append N ?segs1 0 log1" and flags: "sl_isolated log1 = sl_isolated log"
          "sl_active_writer_feature_level log1 = sl_active_writer_feature_level log"
        using ro Inr by auto
      have zero: "sl_current_len log1 = 0" using log_okD(5) [OF ok1] by simp
      have app1: "append_parts crc32c_append io (record_header_of r) header payload (encoded_len r) durable log1 = (res, log')"
        using app append_parts_rotated [of io "record_header_of r" log u log1] rot Inr ix zero True by simp
      have "sl_current_len log1 + encoded_len r < 2 ^ 63" using zero len by simp
      note wr = append_write_ok [OF ok1 laws r this hdr _ app1]
      have d: "durable_from segs k \<le> durable_from ?segs1 0" "durable_from ?segs1 0 = length (all_records segs)"
        using kl total by (simp_all add: durable_from_def)
      show ?thesis
      proof (cases res)
        case (Inl e)
        then have "disk_good crc32c crc32c_append (all_records segs @ [r]) (durable_from segs k) (sl_disk log')"
          using wr zero d(1) disk_good_mono [OF disk_as_good] snoc_record_maps(3) [of ?segs1 r] by fastforce
        then show ?thesis using Inl by (simp add: append_outcome_def isolate_on_error_def isolate_def)
      next
        case (Inr l)
        then have w: "log_ok crc32c crc32c_append (Suc N) (snoc_record r ?segs1) (if durable then 1 else 0) log'"
            "sl_isolated log' = sl_isolated log1" "l = location_of (segment_path (r_index r)) 0 r"
            "sl_active_writer_feature_level log' = sl_active_writer_feature_level log1"
          using wr zero by auto
        have "log_good crc32c crc32c_append (Suc N) (all_records segs @ [r])
            (durable_from (snoc_record r ?segs1) (if durable then 1 else 0)) log'"
          using log_ok_good [OF w(1)] snoc_record_maps(3) [of ?segs1 r] by simp
        moreover have "durable_from (snoc_record r ?segs1) (if durable then 1 else 0)
            \<ge> (if durable then length (all_records segs) + 1 else durable_from segs k)"
          using d by (simp add: durable_from_snoc) (simp add: durable_from_def)
        ultimately have "log_good crc32c crc32c_append (Suc N) (all_records segs @ [r])
            (if durable then length (all_records segs) + 1 else durable_from segs k) log'"
          using log_good_mono by blast
        then show ?thesis using w Inr flags assms(7) by (simp add: append_outcome_def isolate_on_error_def location_of_def)
      qed
    qed
  qed
qed

definition writable :: "log_record \<Rightarrow> segment_log \<Rightarrow> bool" where
  "writable r log \<longleftrightarrow> record_valid r
     \<and> required_writer_feature_level (r_kind r) (length (r_payload r)) \<le> sl_active_writer_feature_level log"

lemma log_append_isolated:
  "sl_isolated log \<Longrightarrow> log_append crc32c crc32c_append io r durable log = (Inl Isolated, log)"
  by (simp add: log_append_def append_at_with_location_def append_parts_at_with_location_def log_available_def)

lemma log_append_ok:
  assumes "log_good crc32c crc32c_append N rs d log" and laws: "crc_laws crc32c crc32c_append"
    and "writable r log" and "Suc N < 2 ^ 64" and iso: "\<not> sl_isolated log"
  shows "append_outcome crc32c crc32c_append N rs d (r\<lparr>r_index := word_of_nat N\<rparr>) durable
           (sl_active_writer_feature_level log) (log_append crc32c crc32c_append io r durable log)
         \<and> (\<forall>i. fst (log_append crc32c crc32c_append io r durable log) = Inr i \<longrightarrow> i = word_of_nat N)"
proof -
  obtain segs k where ok: "log_ok crc32c crc32c_append N segs k log" and rs: "rs = all_records segs" "d \<le> durable_from segs k"
    using assms(1) by (auto simp: log_good_def)
  have nx: "next_index log = word_of_nat N" using next_index_ok [OF ok] assms(4)
    by (simp add: word_unat_eq_iff unat_of_nat)
  define r' where "r' = r\<lparr>r_index := word_of_nat N\<rparr>"
  have r': "record_valid r'" "unat (r_index r') = N" "r_payload r' = r_payload r" "r_kind r' = r_kind r"
    using assms(3,4) by (simp_all add: r'_def writable_def record_valid_def unat_of_nat)
  have lr: "length (r_payload r') \<le> max_record_bytes" using r'(1) by (simp add: record_valid_def)
  obtain header where h: "encode_header crc32c crc32c_append (record_header_of r') [r_payload r'] = Inr header"
      "header @ concat [r_payload r'] = record_bytes crc32c crc32c_append r'"
    using encode_header_parts [OF laws, of "[r_payload r']" "record_header_of r'"] lr by auto
  have ix: "r_index (record_header_of r') = next_index log" "r_kind (record_header_of r') = r_kind r"
    by (simp_all add: nx record_header_of_def r'_def)
  have plen: "parts_len [r_payload r'] = Some (length (r_payload r))"
    using parts_len_Some [of "[r_payload r']"] lr r'(3) by (simp add: max_record_bytes_def)
  have l0: "(if sl_last_index log = None \<and> sl_current_len log = 0 \<and> next_index log \<ge> sl_start_index log
      then log\<lparr>sl_start_index := next_index log\<rparr> else log) = log"
    by (auto simp: next_index_def)
  have enc: "48 + length (r_payload r) = encoded_len r'" by (simp add: r'(3) encoded_len_def header_len_def)
  have level: "\<not> sl_active_writer_feature_level log < required_writer_feature_level (r_kind r) (length (r_payload r))"
    using assms(3) by (simp add: writable_def not_less)
  obtain res log' where app: "append_parts crc32c_append io (record_header_of r') header [r_payload r'] (encoded_len r') durable log = (res, log')"
    by fastforce
  have run: "append_parts_at_with_location crc32c crc32c_append io (record_header_of r') [r_payload r'] durable log
      = isolate_on_error (res, log')"
    unfolding append_parts_at_with_location_def log_available_def
    by (simp only: iso if_False sum.case plen option.case Let_def l0 ix level h(1) not_True_eq_False simp_thms enc app)
  note ok' = append_parts_ok [OF ok laws r'(1,2) assms(4) h(2) iso app]
  have la: "log_append crc32c crc32c_append io r durable log
      = (case isolate_on_error (res, log') of (Inl e, l) \<Rightarrow> (Inl e, l) | (Inr location, l) \<Rightarrow> (Inr (loc_index location), l))"
    by (simp add: log_append_def append_at_with_location_def nx r'_def [symmetric] run)
  have weaken: "append_outcome crc32c crc32c_append N rs d r' durable (sl_active_writer_feature_level log) (isolate_on_error (res, log'))"
  proof -
    note d = rs(2)
    show ?thesis
      using ok' unfolding append_outcome_def rs(1) [symmetric]
      by (auto split: sum.splits intro: disk_good_mono [OF _ d] log_good_mono [OF _ d])
  qed
  then show ?thesis using ok' r'(2) unfolding la r'_def [symmetric]
    by (cases res) (auto simp: append_outcome_def isolate_on_error_def isolate_def r'_def)
qed

end
