(* ===== verification/Segment_Props.thy ===== *)
theory Segment_Props
  imports Segment_Ops
begin

text \<open>
  The properties of the segment log: durability of appends across crashes, reads, purging
  and the recovery index.
\<close>

section \<open>Reading\<close>

lemma log_file:
  assumes "log_ok crc32c crc32c_append N segs k log" and "(b, rs) \<in> set segs"
  shows "\<exists>f. fmlookup (sd_segments (sl_disk log)) (segment_path b) = Some f
             \<and> fi_bytes f = frames (record_bytes crc32c crc32c_append) rs"
proof -
  note lo = log_okD [OF assms(1)] and sd = segs_okD [OF log_okD(1) [OF assms(1)]]
  have "(b, rs) \<in> set (butlast segs) \<or> (b, rs) = last segs" using assms(2) set_butlast_last [OF sd(1)] by blast
  then show ?thesis
  proof
    assume "(b, rs) \<in> set (butlast segs)"
    then have "fmlookup (sd_segments (sl_disk log)) (segment_path b) = Some (file_of crc32c crc32c_append rs)"
      using lo(2) by (auto simp: disk_ok_def)
    then show ?thesis by (simp add: file_of_def)
  next
    assume "(b, rs) = last segs"
    then have "b = fst (last segs)" "rs = snd (last segs)" by (metis fst_conv, metis snd_conv)
    then show ?thesis using lo(2,4) by (auto simp: disk_ok_def file_at_def)
  qed
qed

lemma read_record_at:
  assumes "record_valid r" and "fmlookup (sd_segments disk) path = Some f"
    and "fi_bytes f = pre @ record_bytes crc32c crc32c_append r @ rest"
  shows "read_record crc32c crc32c_append disk (location_of path (length pre) r) = Inr r"
proof -
  let ?b = "record_bytes crc32c crc32c_append r"
  have h: "take 48 ?b = take 48 (?b @ [])" by simp
  note parts = record_header_bytes [OF assms(1) h] and sl = record_slices [OF assms(1,3)]
  have hdr: "read_exact_at 48 (length pre) (fi_bytes f) = Inr (take 48 ?b)"
    using sl(1) assms(3) by (simp add: read_exact_at_def)
  have stream: "take (length (r_payload r)) (drop (length pre + 48) (fi_bytes f)) = r_payload r"
    using sl(2) by (simp add: slice_def)
  show ?thesis
    using assms(2) hdr parts stream
    by (simp add: read_record_def visit_record_def location_of_def encoded_len_def header_len_def Let_def
        record_header_of_def [of r, symmetric])
      (simp add: record_header_of_def record_of_def)
qed

lemma read_location_ok:
  assumes ok: "log_ok crc32c crc32c_append N segs k log" and "(b, rs) \<in> set segs" and "j < length rs"
    and "l = locations (segment_path b) rs ! j"
  shows "read_location crc32c crc32c_append l log = (Inr (rs ! j), log)" and "loc_index l = r_index (rs ! j)"
proof -
  let ?rb = "record_bytes crc32c crc32c_append"
  obtain f where f: "fmlookup (sd_segments (sl_disk log)) (segment_path b) = Some f" "fi_bytes f = frames ?rb rs"
    using log_file [OF ok assms(2)] by blast
  have split: "frames ?rb rs = frames ?rb (take j rs) @ ?rb (rs ! j) @ frames ?rb (drop (Suc j) rs)"
    by (metis assms(3) frames_simps(2,3) id_take_nth_drop)
  have l: "l = location_of (segment_path b) (length (frames ?rb (take j rs))) (rs ! j)"
    using locations_nth [OF assms(3), of "segment_path b" 0 crc32c crc32c_append] assms(4) by simp
  have "record_valid (rs ! j)"
    using records_of_segment(2) [OF log_okD(1) [OF ok] assms(2)] assms(3) by (simp add: list_all_length)
  from read_record_at [OF this f(1) f(2) [unfolded split]]
  show "read_location crc32c crc32c_append l log = (Inr (rs ! j), log)"
    by (simp add: read_location_def isolate_on_error_def l)
  show "loc_index l = r_index (rs ! j)" by (simp add: l location_of_def)
qed

lemma record_position:
  assumes "r \<in> set (all_records segs)"
  obtains b rs j where "(b, rs) \<in> set segs" "j < length rs" "r = rs ! j"
  using assms by (auto simp: all_records_def in_set_conv_nth)

text \<open>Indexes identify records across the whole log.\<close>

lemma index_at:
  assumes "segs_ok crc32c crc32c_append N segs" and "i < length segs" and "j < length (snd (segs ! i))"
  shows "unat (r_index (snd (segs ! i) ! j)) = N - length (all_records segs) + length (all_records (take i segs)) + j"
proof -
  let ?n = "N - length (all_records segs)"
  have "segs = take i segs @ segs ! i # drop (Suc i) segs" using assms(2) by (rule id_take_nth_drop)
  then have "all_records segs = all_records (take i segs) @ snd (segs ! i) @ all_records (drop (Suc i) segs)"
    by (metis all_records_simps(2,3) prod.collapse)
  then have "indexed_from (?n + length (all_records (take i segs))) (snd (segs ! i))"
    using segs_okD(7) [OF assms(1)] by (metis indexed_from_append)
  then show ?thesis using assms(3) by (simp add: indexed_from_def)
qed

lemma starts_increase:
  assumes "i < i'" and "i' < length segs"
  shows "length (all_records (take i segs)) + length (snd (segs ! i)) \<le> length (all_records (take i' segs))"
proof -
  have "take (Suc i) segs = take i segs @ [(fst (segs ! i), snd (segs ! i))]" using assms by (simp add: take_Suc_conv_app_nth)
  moreover have "take i' segs = take (Suc i) segs @ drop (Suc i) (take i' segs)"
    using assms(1) by (metis Suc_leI append_take_drop_id min.absorb1 take_take)
  ultimately have "all_records (take i' segs) = all_records (take i segs) @ snd (segs ! i) @ all_records (drop (Suc i) (take i' segs))"
    by (metis all_records_simps(1-3) append.assoc append_Nil2)
  then show ?thesis by simp
qed

lemma index_unique:
  assumes ok: "segs_ok crc32c crc32c_append N segs" and "i < length segs" and "i' < length segs"
    and "j < length (snd (segs ! i))" and "j' < length (snd (segs ! i'))"
    and "r_index (snd (segs ! i) ! j) = r_index (snd (segs ! i') ! j')"
  shows "i = i' \<and> j = j'"
proof -
  have "length (all_records (take i segs)) + j = length (all_records (take i' segs)) + j'"
    using index_at [OF ok assms(2,4)] index_at [OF ok assms(3,5)] assms(6) by simp
  then show ?thesis
    using starts_increase [of i i' segs] starts_increase [of i' i segs] assms(2-5)
    by (cases i i' rule: linorder_cases) auto
qed

lemma find_record:
  assumes ok: "segs_ok crc32c crc32c_append N segs" and "i < length segs" and "j < length (snd (segs ! i))"
  shows "find (\<lambda>r. r_index r = r_index (snd (segs ! i) ! j)) (all_records segs) = Some (snd (segs ! i) ! j)"
proof -
  let ?r = "snd (segs ! i) ! j"
  have mem: "?r \<in> set (all_records segs)"
    using assms(2,3) by (auto simp: all_records_def) (metis nth_mem)
  have uniq: "r = ?r" if m: "r \<in> set (all_records segs)" and e: "r_index r = r_index ?r" for r
  proof -
    obtain b rs j' where r: "(b, rs) \<in> set segs" "j' < length rs" "r = rs ! j'" using m by (rule record_position)
    obtain i' where i': "i' < length segs" "segs ! i' = (b, rs)" using r(1) by (auto simp: in_set_conv_nth)
    have "i = i' \<and> j = j'"
      by (rule index_unique [OF ok assms(2) i'(1) assms(3)]) (use r i' e in simp_all)
    then show ?thesis using r i' by simp
  qed
  show ?thesis
  proof (cases "find (\<lambda>r. r_index r = r_index ?r) (all_records segs)")
    case None
    then show ?thesis using mem by (auto simp: find_None_iff)
  next
    case (Some r)
    then have "r \<in> set (all_records segs)" "r_index r = r_index ?r" by (auto simp: find_Some_iff)
    then show ?thesis using uniq Some by simp
  qed
qed

lemma nth_seg: "i < length segs \<Longrightarrow> (fst (segs ! i), snd (segs ! i)) \<in> set segs"
  by simp

lemma find_resident:
  assumes ok: "log_ok crc32c crc32c_append N segs k log" and i: "i < length segs" and j: "j < length (snd (segs ! i))"
    and "segment_path (fst (segs ! i)) |\<notin>| fmdom (sl_sealed_indexes log)"
  shows "find (\<lambda>l. loc_index l = r_index (snd (segs ! i) ! j)) (sl_resident_records log)
       = Some (locations (segment_path (fst (segs ! i))) (snd (segs ! i)) ! j)"
proof -
  note lo = log_okD [OF ok]
  let ?l = "locations (segment_path (fst (segs ! i))) (snd (segs ! i)) ! j" and ?x = "r_index (snd (segs ! i) ! j)"
  have "?l \<in> set (locations (segment_path (fst (segs ! i))) (snd (segs ! i)))" using j by simp
  then have mem: "?l \<in> set (sl_resident_records log)"
    using nth_seg [OF i] assms(4) unfolding lo(6) resident_of_def by (auto intro!: bexI [of _ "segs ! i"] simp: case_prod_beta)
  have lx: "loc_index ?l = ?x" by (rule read_location_ok(2) [OF ok nth_seg [OF i] j refl])
  have uniq: "l = ?l" if m: "l \<in> set (sl_resident_records log)" and e: "loc_index l = ?x" for l
  proof -
    obtain i' where i': "i' < length segs" "l \<in> set (locations (segment_path (fst (segs ! i'))) (snd (segs ! i')))"
      using m unfolding lo(6) resident_of_def by (auto simp: in_set_conv_nth [of _ segs] case_prod_beta split: if_splits)
    obtain j' where j': "j' < length (snd (segs ! i'))" "l = locations (segment_path (fst (segs ! i'))) (snd (segs ! i')) ! j'"
      using i'(2) by (auto simp: in_set_conv_nth)
    have "loc_index l = r_index (snd (segs ! i') ! j')" by (rule read_location_ok(2) [OF ok nth_seg [OF i'(1)] j'])
    then have "i = i' \<and> j = j'" using index_unique [OF lo(1) i i'(1) j j'(1)] e by simp
    then show ?thesis using j' by simp
  qed
  show ?thesis
  proof (cases "find (\<lambda>l. loc_index l = ?x) (sl_resident_records log)")
    case None
    then show ?thesis using mem lx by (auto simp: find_None_iff)
  next
    case (Some l)
    then have "l \<in> set (sl_resident_records log)" "loc_index l = ?x" by (auto simp: find_Some_iff)
    then show ?thesis using uniq Some by simp
  qed
qed

lemma resident_from:
  assumes ok: "log_ok crc32c crc32c_append N segs k log" and "l \<in> set (sl_resident_records log)"
  obtains i j where "i < length segs" "j < length (snd (segs ! i))" "loc_index l = r_index (snd (segs ! i) ! j)"
    "segment_path (fst (segs ! i)) |\<notin>| fmdom (sl_sealed_indexes log)"
proof -
  obtain i where i: "i < length segs" "l \<in> set (locations (segment_path (fst (segs ! i))) (snd (segs ! i)))"
      "segment_path (fst (segs ! i)) |\<notin>| fmdom (sl_sealed_indexes log)"
    using assms(2) unfolding log_okD(6) [OF ok] resident_of_def
    by (auto simp: in_set_conv_nth [of _ segs] case_prod_beta split: if_splits)
  obtain j where j: "j < length (snd (segs ! i))" "l = locations (segment_path (fst (segs ! i))) (snd (segs ! i)) ! j"
    using i(2) by (auto simp: in_set_conv_nth)
  have "loc_index l = r_index (snd (segs ! i) ! j)" by (rule read_location_ok(2) [OF ok nth_seg [OF i(1)] j])
  then show thesis using that i j by blast
qed

text \<open>The summary of a sealed segment names exactly the indexes of its records.\<close>

lemma sealed_range:
  assumes ok: "log_ok crc32c crc32c_append N segs k log" and "fmlookup (sl_sealed_indexes log) path = Some summary"
  obtains i md where "i < length segs" "path = segment_path (fst (segs ! i))" "snd (segs ! i) \<noteq> []"
    "fmlookup (sd_indexes (sl_disk log)) path = Some (sidecar crc32c crc32c_append path (snd (segs ! i)) md)"
    "summary = sidecar_summary crc32c crc32c_append path (snd (segs ! i)) md" "length (snd (segs ! i)) < 2 ^ 32"
    "is_first_index summary = r_index (hd (snd (segs ! i)))" "is_last_index summary = r_index (last (snd (segs ! i)))"
proof -
  note lo = log_okD [OF ok] and sd = segs_okD [OF log_okD(1) [OF ok]]
  obtain b rs md where s: "(b, rs) \<in> set (butlast segs)" "path = segment_path b"
      "fmlookup (sd_indexes (sl_disk log)) path = Some (sidecar crc32c crc32c_append path rs md)"
      "summary = sidecar_summary crc32c crc32c_append path rs md" "length rs < 2 ^ 32"
    using lo(7) assms(2) by (rule sealed_okE)
  obtain i where i: "i < length segs" "segs ! i = (b, rs)"
    using in_set_butlastD [OF s(1)] by (auto simp: in_set_conv_nth)
  have ne: "rs \<noteq> []" using bspec [OF sd(3) s(1)] by simp
  have "(case locations path rs of [] \<Rightarrow> 0 | l # _ \<Rightarrow> loc_index l) = r_index (hd rs)"
    using ne locations_hd [OF ne, of path 0] by (cases "locations path rs") simp_all
  then have "is_first_index summary = r_index (hd rs)" "is_last_index summary = r_index (last rs)"
    using ne by (simp_all add: s(4) sidecar_summary_def summary_of_def Let_def)
  then show thesis using that [of i md] i s ne by simp
qed

lemma index_in_range:
  assumes ok: "segs_ok crc32c crc32c_append N segs" and i: "i < length segs" and "snd (segs ! i) \<noteq> []"
  shows "r_index (hd (snd (segs ! i))) \<le> x \<and> x \<le> r_index (last (snd (segs ! i)))
     \<longleftrightarrow> (\<exists>j < length (snd (segs ! i)). r_index (snd (segs ! i) ! j) = x)"
proof -
  let ?rs = "snd (segs ! i)" and ?n = "N - length (all_records segs) + length (all_records (take i segs))"
  have ix: "unat (r_index (?rs ! j)) = ?n + j" if "j < length ?rs" for j by (rule index_at [OF ok i that])
  have h: "unat (r_index (hd ?rs)) = ?n" using ix [of 0] assms(3) by (simp add: hd_conv_nth)
  have l: "unat (r_index (last ?rs)) = ?n + (length ?rs - 1)" using ix [of "length ?rs - 1"] assms(3) by (simp add: last_conv_nth)
  show ?thesis
  proof
    assume a: "r_index (hd ?rs) \<le> x \<and> x \<le> r_index (last ?rs)"
    let ?j = "unat x - ?n"
    have "?n \<le> unat x" "unat x \<le> ?n + (length ?rs - 1)" using a h l by (simp_all add: word_le_nat_alt)
    moreover have "0 < length ?rs" using assms(3) by simp
    ultimately have "?j < length ?rs" "?n + ?j = unat x" by linarith+
    then show "\<exists>j < length ?rs. r_index (?rs ! j) = x" using ix [of ?j] by (auto simp: word_unat_eq_iff)
  next
    assume "\<exists>j < length ?rs. r_index (?rs ! j) = x"
    then obtain j where "j < length ?rs" "r_index (?rs ! j) = x" by blast
    then show "r_index (hd ?rs) \<le> x \<and> x \<le> r_index (last ?rs)" using ix [of j] h l by (simp add: word_le_nat_alt)
  qed
qed

lemma find_unique:
  assumes "x \<in> set xs" and "P x" and "\<And>y. P y \<Longrightarrow> y \<in> set xs \<Longrightarrow> y = x"
  shows "find P xs = Some x"
proof (cases "find P xs")
  case None
  then show ?thesis using assms(1,2) by (simp add: find_None_iff)
next
  case (Some y)
  then have "P y" "y \<in> set xs" by (auto simp: find_Some_iff)
  then show ?thesis using assms(3) Some by simp
qed

abbreviation in_sealed :: "segment_log \<Rightarrow> u64 \<Rightarrow> string \<Rightarrow> bool" where
  "in_sealed log index path \<equiv> (case fmlookup (sl_sealed_indexes log) path of
     Some summary \<Rightarrow> index \<ge> is_first_index summary \<and> index \<le> is_last_index summary | None \<Rightarrow> False)"

lemma in_sealed_position:
  assumes ok: "log_ok crc32c crc32c_append N segs k log" and "in_sealed log x path"
  obtains i j where "i < length segs" "j < length (snd (segs ! i))" "r_index (snd (segs ! i) ! j) = x"
    "path = segment_path (fst (segs ! i))"
proof -
  obtain summary where s: "fmlookup (sl_sealed_indexes log) path = Some summary"
      "is_first_index summary \<le> x \<and> x \<le> is_last_index summary"
    using assms(2) by (auto split: option.splits)
  obtain i md where i: "i < length segs" "path = segment_path (fst (segs ! i))" "snd (segs ! i) \<noteq> []"
      "is_first_index summary = r_index (hd (snd (segs ! i)))" "is_last_index summary = r_index (last (snd (segs ! i)))"
    using ok s(1) by (rule sealed_range)
  have "\<exists>j < length (snd (segs ! i)). r_index (snd (segs ! i) ! j) = x"
    using index_in_range [OF log_okD(1) [OF ok] i(1,3)] s(2) i(4,5) by simp
  then show thesis using that i(1,2) by blast
qed

lemma find_location_present:
  assumes ok: "log_ok crc32c crc32c_append N segs k log" and i: "i < length segs" and j: "j < length (snd (segs ! i))"
  shows "find_location log (r_index (snd (segs ! i) ! j))
       = Inr (Some (locations (segment_path (fst (segs ! i))) (snd (segs ! i)) ! j))"
proof (cases "segment_path (fst (segs ! i)) |\<in>| fmdom (sl_sealed_indexes log)")
  case False
  then show ?thesis using find_resident [OF ok i j] by (simp add: find_location_def)
next
  case True
  note lo = log_okD [OF ok] and sd = segs_okD [OF log_okD(1) [OF ok]]
  let ?p = "segment_path (fst (segs ! i))" and ?rs = "snd (segs ! i)" and ?x = "r_index (snd (segs ! i) ! j)"
  have none: "find (\<lambda>l. loc_index l = ?x) (sl_resident_records log) = None"
  proof -
    have "loc_index l \<noteq> ?x" if m: "l \<in> set (sl_resident_records log)" for l
    proof
      assume e: "loc_index l = ?x"
      obtain i' j' where l: "i' < length segs" "j' < length (snd (segs ! i'))" "loc_index l = r_index (snd (segs ! i') ! j')"
          "segment_path (fst (segs ! i')) |\<notin>| fmdom (sl_sealed_indexes log)"
        using ok m by (rule resident_from)
      then have "i = i'" using index_unique [OF lo(1) i l(1) j l(2)] e by simp
      then show False using l(4) True by simp
    qed
    then show ?thesis by (simp add: find_None_iff)
  qed
  obtain summary where summary: "fmlookup (sl_sealed_indexes log) ?p = Some summary" using True by (auto simp: fmlookup_dom_iff)
  obtain i' md where s: "i' < length segs" "?p = segment_path (fst (segs ! i'))" "snd (segs ! i') \<noteq> []"
    "fmlookup (sd_indexes (sl_disk log)) ?p = Some (sidecar crc32c crc32c_append ?p (snd (segs ! i')) md)"
    "summary = sidecar_summary crc32c crc32c_append ?p (snd (segs ! i')) md" "length (snd (segs ! i')) < 2 ^ 32"
    "is_first_index summary = r_index (hd (snd (segs ! i')))" "is_last_index summary = r_index (last (snd (segs ! i')))"
    using ok summary by (rule sealed_range)
  have "fst (segs ! i') = fst (segs ! i)" using s(2) by simp
  then have rs: "snd (segs ! i') = ?rs" using base_unique [OF sd(2) _ nth_seg [OF i]] nth_seg [OF s(1)] by simp
  have hit: "in_sealed log ?x ?p"
  proof -
    have "?rs \<noteq> []" using j by auto
    then have "r_index (hd ?rs) \<le> ?x \<and> ?x \<le> r_index (last ?rs)"
      using iffD2 [OF index_in_range [OF lo(1) i]] j by blast
    then show ?thesis using s(7,8) rs summary by simp
  qed
  have only: "path = ?p" if p: "in_sealed log ?x path" for path
  proof -
    obtain i2 j2 where q: "i2 < length segs" "j2 < length (snd (segs ! i2))" "r_index (snd (segs ! i2) ! j2) = ?x"
        "path = segment_path (fst (segs ! i2))"
      using ok p by (rule in_sealed_position)
    then show ?thesis using index_unique [OF lo(1) i q(1) j q(2)] by simp
  qed
  have "?p \<in> set (sealed_paths log)" using True by (simp add: sealed_paths_def)
  then have find_path: "find (in_sealed log ?x) (sealed_paths log) = Some ?p"
    using hit only by (rule find_unique)
  have "\<exists>n. indexed_from n ?rs" using records_of_segment(1) [OF lo(1) nth_seg [OF i]] .
  then obtain n where n: "indexed_from n ?rs" ..
  have len: "length (frames (record_bytes crc32c crc32c_append) ?rs) < 2 ^ 63" using bspec [OF sd(4) nth_seg [OF i]] by (simp add: case_prod_beta)
  have "load_location (sl_disk log) ?p summary ?x = Inr (find (\<lambda>l. loc_index l = ?x) (locations ?p ?rs))"
    using load_location_index [OF indexable_locations [OF n len, of ?p]] s(4,5,6) rs
    by (simp add: sidecar_def sidecar_summary_def Let_def)
  also have "find (\<lambda>l. loc_index l = ?x) (locations ?p ?rs) = Some (locations ?p ?rs ! j)"
  proof (rule find_unique)
    show "loc_index (locations ?p ?rs ! j) = ?x" by (rule read_location_ok(2) [OF ok nth_seg [OF i] j refl])
    fix y assume y: "loc_index y = ?x" "y \<in> set (locations ?p ?rs)"
    then obtain j2 where j2: "j2 < length ?rs" "y = locations ?p ?rs ! j2" by (auto simp: in_set_conv_nth)
    then have "r_index (?rs ! j2) = ?x" using read_location_ok(2) [OF ok nth_seg [OF i] j2] y(1) by simp
    then show "y = locations ?p ?rs ! j" using index_unique [OF lo(1) i i j2(1) j] j2 by simp
  qed (use j in simp)
  finally show ?thesis using none find_path summary by (simp add: find_location_def)
qed

lemma find_location_absent:
  assumes ok: "log_ok crc32c crc32c_append N segs k log" and "find (\<lambda>r. r_index r = x) (all_records segs) = None"
  shows "find_location log x = Inr None"
proof -
  have no: "r_index (snd (segs ! i) ! j) \<noteq> x" if "i < length segs" "j < length (snd (segs ! i))" for i j
  proof -
    have "snd (segs ! i) ! j \<in> set (all_records segs)"
      using nth_seg [OF that(1)] nth_mem [OF that(2)] by (auto simp: all_records_def case_prod_beta)
    then show ?thesis using assms(2) by (auto simp: find_None_iff)
  qed
  have "loc_index l \<noteq> x" if m: "l \<in> set (sl_resident_records log)" for l
    using ok m by (rule resident_from) (use no in simp)
  then have "find (\<lambda>l. loc_index l = x) (sl_resident_records log) = None" by (simp add: find_None_iff)
  moreover have "\<not> in_sealed log x path" for path
    using in_sealed_position [OF ok, of x path] no by blast
  then have "find (in_sealed log x) (sealed_paths log) = None" unfolding find_None_iff by blast
  ultimately show ?thesis by (simp add: find_location_def)
qed

lemma read_log_ok:
  assumes ok: "log_ok crc32c crc32c_append N segs k log"
  shows "read_log crc32c crc32c_append x log = (Inr (find (\<lambda>r. r_index r = x) (all_records segs)), log)"
proof (cases "find (\<lambda>r. r_index r = x) (all_records segs)")
  case None
  then show ?thesis using find_location_absent [OF ok None] by (simp add: read_log_def)
next
  case (Some r)
  then have r: "r \<in> set (all_records segs)" "r_index r = x" by (auto simp: find_Some_iff)
  obtain b rs j where p: "(b, rs) \<in> set segs" "j < length rs" "r = rs ! j" using r(1) by (rule record_position)
  obtain i where i: "i < length segs" "segs ! i = (b, rs)" using p(1) by (auto simp: in_set_conv_nth)
  have "find_location log x = Inr (Some (locations (segment_path b) rs ! j))"
    using find_location_present [OF ok i(1), of j] i(2) p r(2) by simp
  then show ?thesis using read_location_ok(1) [OF ok p(1,2) refl] Some p(3) by (simp add: read_log_def)
qed

section \<open>Durability\<close>

text \<open>Calls a writer makes on a log, and what it learns from them.\<close>

datatype log_call = Append append_io log_record bool | Sync "io_error option"

definition log_call_result :: "(byte list \<Rightarrow> u32) \<Rightarrow> (u32 \<Rightarrow> byte list \<Rightarrow> u32) \<Rightarrow> log_call \<Rightarrow> segment_log \<Rightarrow> bool \<times> segment_log" where
  "log_call_result crc32c crc32c_append call log =
     (case call of
        Append io r durable \<Rightarrow> (case log_append crc32c crc32c_append io r durable log of (result, log) \<Rightarrow> (\<not> isl result, log))
      | Sync fault \<Rightarrow> (case sync_log fault log of (result, log) \<Rightarrow> (\<not> isl result, log)))"

fun log_calls :: "(byte list \<Rightarrow> u32) \<Rightarrow> (u32 \<Rightarrow> byte list \<Rightarrow> u32) \<Rightarrow> log_call list \<Rightarrow> segment_log \<Rightarrow> bool list \<times> segment_log" where
  "log_calls crc32c crc32c_append [] log = ([], log)"
| "log_calls crc32c crc32c_append (call # calls) log =
     (case log_call_result crc32c crc32c_append call log of
        (ok, log) \<Rightarrow> (case log_calls crc32c crc32c_append calls log of (oks, log) \<Rightarrow> (ok # oks, log)))"

text \<open>The records the calls append, numbered from \<open>N\<close> on.\<close>

fun called :: "nat \<Rightarrow> log_call list \<Rightarrow> log_record list" where
  "called N [] = []"
| "called N (Append io r durable # calls) = r\<lparr>r_index := word_of_nat N\<rparr> # called (Suc N) calls"
| "called N (Sync fault # calls) = called N calls"

text \<open>
  How many records the log has promised to keep, from \<open>n\<close> records of which \<open>d\<close> are promised:
  a durable append that succeeded promises everything up to it, as does a successful sync.
\<close>

fun promised :: "nat \<Rightarrow> nat \<Rightarrow> log_call list \<Rightarrow> bool list \<Rightarrow> nat" where
  "promised n d (Append io r durable # calls) (True # oks) = promised (Suc n) (if durable then Suc n else d) calls oks"
| "promised n d (Sync fault # calls) (True # oks) = promised n n calls oks"
| "promised n d (call # calls) (False # oks) = promised n d calls oks"
| "promised n d calls oks = d"

fun call_writable :: "segment_log \<Rightarrow> log_call \<Rightarrow> bool" where
  "call_writable log (Append io r durable) = writable r log"
| "call_writable log (Sync fault) = True"

lemma call_writable_level:
  assumes "sl_active_writer_feature_level log' = sl_active_writer_feature_level log"
  shows "call_writable log' call = call_writable log call"
  using assms by (cases call) (simp_all add: writable_def)

lemma log_call_isolated:
  "sl_isolated log \<Longrightarrow> log_call_result crc32c crc32c_append call log = (False, log)"
  by (cases call) (simp_all add: log_call_result_def log_append_isolated sync_log_def log_available_def)

lemma log_calls_isolated:
  "sl_isolated log \<Longrightarrow> log_calls crc32c crc32c_append calls log = (replicate (length calls) False, log)"
  by (induction calls) (simp_all add: log_call_isolated)

lemma promised_failed: "promised n d calls (replicate (length calls) False) = d"
  by (induction calls) simp_all

lemma promised_mono: "d \<le> n \<Longrightarrow> d \<le> promised n d calls oks"
  by (induction n d calls oks rule: promised.induct) (auto split: if_splits)

lemma sync_log_ok:
  assumes "log_good crc32c crc32c_append N rs d log" and "\<not> sl_isolated log" and "sync_log fault log = (result, log')"
  shows "sl_active_writer_feature_level log' = sl_active_writer_feature_level log"
    and "log_good crc32c crc32c_append N rs (case result of Inl e \<Rightarrow> d | Inr _ \<Rightarrow> length rs) (log'\<lparr>sl_isolated := False\<rparr>)"
    and "sl_isolated log' = isl result"
proof -
  obtain segs k where ok: "log_ok crc32c crc32c_append N segs k log" and rs: "all_records segs = rs" "d \<le> durable_from segs k"
    using assms(1) by (auto simp: log_good_def)
  obtain log1 where sc: "sync_current fault log = (result, log1)" and log': "log' = (if isl result then isolate log1 else log1)"
    using assms(2,3) by (cases "sync_current fault log")
      (auto simp: sync_log_def log_available_def isolate_on_error_def split: sum.splits)
  note s = sync_current_ok [OF ok sc]
  have len: "durable_from segs (length (snd (last segs))) = length rs"
    using rs(1) all_records_last [OF segs_okD(1) [OF log_okD(1) [OF ok]]] unfolding durable_from_def
    by (metis length_append)
  have same: "log'\<lparr>sl_isolated := False\<rparr> = log1"
    using s(4) assms(2) by (cases log1) (simp add: log' isolate_def)
  show "sl_isolated log' = isl result" using s(4) assms(2) by (simp add: log' isolate_def)
  show "sl_active_writer_feature_level log' = sl_active_writer_feature_level log" using s(5) by (simp add: log' isolate_def)
  show "log_good crc32c crc32c_append N rs (case result of Inl e \<Rightarrow> d | Inr _ \<Rightarrow> length rs) (log'\<lparr>sl_isolated := False\<rparr>)"
  proof (cases result)
    case (Inl e)
    have "log_good crc32c crc32c_append N rs d log1" using log_ok_good [OF s(1)] rs log_good_mono by blast
    then show ?thesis by (simp add: same Inl)
  next
    case (Inr u)
    have "log_good crc32c crc32c_append N rs (length rs) log1" using log_ok_good [OF s(2)] Inr len rs(1) by simp
    then show ?thesis by (simp add: same Inr)
  qed
qed

lemma log_calls_good:
  assumes "log_good crc32c crc32c_append N rs d log" and "d \<le> length rs" and "\<not> sl_isolated log"
    and "crc_laws crc32c crc32c_append" and "\<forall>call \<in> set calls. call_writable log call" and "N + length calls < 2 ^ 64"
  shows "\<exists>m. disk_good crc32c crc32c_append (rs @ take m (called N calls))
           (promised (length rs) d calls (fst (log_calls crc32c crc32c_append calls log)))
           (sl_disk (snd (log_calls crc32c crc32c_append calls log)))"
  using assms
proof (induction calls arbitrary: N rs d log)
  case Nil
  then show ?case using disk_good_log by fastforce
next
  case (Cons call calls)
  note laws = Cons.prems(4)
  obtain ok log' where step: "log_call_result crc32c crc32c_append call log = (ok, log')" by fastforce
  have stop: ?case if "sl_isolated log'" "\<not> ok" "disk_good crc32c crc32c_append (rs @ take m (called N (call # calls))) d (sl_disk log')" for m
    using that step by (auto simp: log_calls_isolated promised_failed)
  show ?case
  proof (cases call)
    case (Append io r durable)
    have w: "writable r log" and N: "Suc N < 2 ^ 64" using Cons.prems(5,6) Append by simp_all
    obtain result where app: "log_append crc32c crc32c_append io r durable log = (result, log')" and okr: "ok = (\<not> isl result)"
      using step Append by (auto simp: log_call_result_def split: prod.splits)
    have o: "append_outcome crc32c crc32c_append N rs d (r\<lparr>r_index := word_of_nat N\<rparr>) durable
       (sl_active_writer_feature_level log) (result, log')"
      using log_append_ok [OF Cons.prems(1) laws w N Cons.prems(3), of durable io] app by simp
    show ?thesis
    proof (cases result)
      case (Inl e)
      then show ?thesis using o okr stop [of 0] stop [of 1] Append by (auto simp: append_outcome_def)
    next
      case (Inr i)
      let ?r = "r\<lparr>r_index := word_of_nat N\<rparr>" and ?d = "if durable then Suc (length rs) else d"
      have g: "log_good crc32c crc32c_append (Suc N) (rs @ [?r]) ?d log'" and iso: "\<not> sl_isolated log'"
        and level: "sl_active_writer_feature_level log' = sl_active_writer_feature_level log"
        using o Inr by (auto simp: append_outcome_def split: if_splits)
      have w': "\<forall>call \<in> set calls. call_writable log' call"
        using Cons.prems(5) call_writable_level [OF level] by simp
      have "\<exists>m. disk_good crc32c crc32c_append ((rs @ [?r]) @ take m (called (Suc N) calls))
           (promised (length (rs @ [?r])) ?d calls (fst (log_calls crc32c crc32c_append calls log')))
           (sl_disk (snd (log_calls crc32c crc32c_append calls log')))"
        by (rule Cons.IH [OF g _ iso laws w']) (use Cons.prems(2,6) in auto)
      then obtain m where "disk_good crc32c crc32c_append (rs @ take (Suc m) (called N (call # calls)))
           (promised (Suc (length rs)) ?d calls (fst (log_calls crc32c crc32c_append calls log')))
           (sl_disk (snd (log_calls crc32c crc32c_append calls log')))"
        using Append by auto
      moreover have "promised (length rs) d (call # calls) (True # fst (log_calls crc32c crc32c_append calls log'))
          = promised (Suc (length rs)) ?d calls (fst (log_calls crc32c crc32c_append calls log'))"
        by (simp add: Append)
      ultimately show ?thesis using step okr Inr by (auto simp: case_prod_beta)
    qed
  next
    case (Sync fault)
    obtain result where app: "sync_log fault log = (result, log')" and okr: "ok = (\<not> isl result)"
      using step Sync by (auto simp: log_call_result_def split: prod.splits)
    note s = sync_log_ok [OF Cons.prems(1,3) app]
    show ?thesis
    proof (cases result)
      case (Inl e)
      have "disk_good crc32c crc32c_append rs d (sl_disk log')" using disk_good_log [OF s(2)] Inl by simp
      then show ?thesis using s(3) okr stop [of 0] Inl by simp
    next
      case (Inr u)
      have g: "log_good crc32c crc32c_append N rs (length rs) log'" and iso: "\<not> sl_isolated log'"
        using s(2,3) Inr by (cases log', simp_all)
      have w': "\<forall>call \<in> set calls. call_writable log' call"
        using Cons.prems(5) call_writable_level [OF s(1)] by simp
      have "\<exists>m. disk_good crc32c crc32c_append (rs @ take m (called N calls))
           (promised (length rs) (length rs) calls (fst (log_calls crc32c crc32c_append calls log')))
           (sl_disk (snd (log_calls crc32c crc32c_append calls log')))"
        by (rule Cons.IH [OF g _ iso laws w']) (use Cons.prems(6) in auto)
      then show ?thesis using step okr Inr Sync by (auto simp: case_prod_beta)
    qed
  qed
qed

lemma open_log_good:
  assumes "disk_good crc32c crc32c_append rs d disk" and "crash_disk disk disk'" and "crc_laws crc32c crc32c_append"
    and "max_bytes < 2 ^ 63"
  shows "\<exists>m N log. open_log log_opens crc32c crc32c_append disk' max_bytes start level = Some (Inr log) \<and> d \<le> m \<and> m \<le> length rs
           \<and> log_good crc32c crc32c_append N (take m rs) d log \<and> \<not> sl_isolated log"
proof -
  obtain N segs k where ok: "segs_ok crc32c crc32c_append N segs" "disk_ok crc32c crc32c_append segs k disk"
      "all_records segs = rs" "d \<le> durable_from segs k"
    using assms(1) unfolding disk_good_def by blast
  note sd = segs_okD [OF ok(1)] and all = all_records_last [OF segs_okD(1) [OF ok(1)]]
  have disk': "disk_ok crc32c crc32c_append segs k disk'" by (rule disk_ok_crash [OF ok(2) assms(2) sd(1)])
  obtain m log where m: "open_log log_opens crc32c crc32c_append disk' max_bytes start level = Some (Inr log)"
      "k \<le> m" "m \<le> length (snd (last segs))"
      "log_ok crc32c crc32c_append (cut_next N m segs) (cut_tail m segs) k log" "\<not> sl_isolated log"
    using open_log_ok [OF ok(1) disk' assms(3,4), of start level] by blast
  let ?m = "length rs - (length (snd (last segs)) - m)"
  have cut: "all_records (cut_tail m segs) = take ?m rs" using all_records_cut_tail [OF sd(1) m(3)] ok(3) by simp
  have len: "length rs = length (all_records (butlast segs)) + length (snd (last segs))"
    using ok(3) all by (metis length_append)
  have d: "d \<le> ?m" using ok(4) m(2,3) len by (simp add: durable_from_def)
  have "durable_from (cut_tail m segs) k = durable_from segs k" by (simp add: durable_from_def)
  then have "log_good crc32c crc32c_append (cut_next N m segs) (take ?m rs) d log"
    using log_good_mono [OF log_ok_good [OF m(4)]] ok(4) cut by simp
  then show ?thesis using m(1,5) d by (meson diff_le_self)
qed

lemma read_log_good:
  "log_good crc32c crc32c_append N rs d log
   \<Longrightarrow> read_log crc32c crc32c_append x log = (Inr (find (\<lambda>r. r_index r = x) rs), log)"
  using read_log_ok by (auto simp: log_good_def)

lemma disk_good_promised:
  assumes "disk_good crc32c crc32c_append rs d disk" shows "d \<le> length rs"
proof -
  obtain N segs k where ok: "segs_ok crc32c crc32c_append N segs" "disk_ok crc32c crc32c_append segs k disk"
      "all_records segs = rs" "d \<le> durable_from segs k"
    using assms unfolding disk_good_def by blast
  have "k \<le> length (snd (last segs))" using ok(2) by (auto simp: disk_ok_def tail_ok_def)
  moreover have "length rs = length (all_records (butlast segs)) + length (snd (last segs))"
    using ok(3) all_records_last [OF segs_okD(1) [OF ok(1)]] by (metis length_append)
  ultimately show ?thesis using ok(4) by (simp add: durable_from_def)
qed

text \<open>A fresh directory, and the crash that loses nothing.\<close>

definition empty_disk :: segment_disk where
  "empty_disk = \<lparr>sd_segments = fmempty, sd_indexes = fmempty\<rparr>"

definition settled_disk :: "segment_disk \<Rightarrow> segment_disk" where
  "settled_disk disk = disk\<lparr>sd_segments :=
     fmmap (\<lambda>f. \<lparr>fi_bytes = fi_bytes f, fi_durable = length (fi_bytes f), fi_shadows = []\<rparr>) (sd_segments disk)\<rparr>"

lemma crash_settled:
  assumes "disk_good crc32c crc32c_append rs d disk" shows "crash_disk disk (settled_disk disk)"
proof -
  obtain N segs k where ok: "segs_ok crc32c crc32c_append N segs" "disk_ok crc32c crc32c_append segs k disk"
    using assms unfolding disk_good_def by blast
  note sd = segs_okD [OF ok(1)]
  have "fi_durable f \<le> length (fi_bytes f)" if f: "fmlookup (sd_segments disk) path = Some f" for path f
  proof -
    have "path \<in> set (seg_names segs)"
      using ok(2) fmdomI [OF f] by (simp add: disk_ok_def fset_of_list_elem)
    then obtain b rs where p: "(b, rs) \<in> set segs" "path = segment_path b" by (auto simp: seg_names_def)
    have "(b, rs) \<in> set (butlast segs) \<or> (b, rs) = last segs" using p(1) set_butlast_last [OF sd(1)] by blast
    then show ?thesis
    proof
      assume "(b, rs) \<in> set (butlast segs)"
      then have "f = file_of crc32c crc32c_append rs" using ok(2) f p(2) by (auto simp: disk_ok_def)
      then show ?thesis by (simp add: file_of_def)
    next
      assume "(b, rs) = last segs"
      then have "b = fst (last segs)" by (metis fst_conv)
      then show ?thesis using ok(2) f p(2) by (auto simp: disk_ok_def tail_ok_def)
    qed
  qed
  then have "fi_bytes f \<in> crash_images f" if "fmlookup (sd_segments disk) path = Some f" for path f
    using that by (auto simp: crash_images_def intro!: exI [of _ "length (fi_bytes f)"])
  then show ?thesis by (auto simp: crash_disk_def settled_disk_def)
qed

lemma open_log_fresh:
  assumes "crc_laws crc32c crc32c_append" and "max_bytes < 2 ^ 63"
  shows "\<exists>log. open_log log_opens crc32c crc32c_append empty_disk max_bytes start level = Some (Inr log)
           \<and> log_good crc32c crc32c_append (unat start) [] 0 log \<and> \<not> sl_isolated log
           \<and> sl_active_writer_feature_level log = level"
proof -
  let ?disk = "empty_disk\<lparr>sd_segments := fmupd (segment_path start) empty_file fmempty\<rparr>"
  have paths: "segment_paths ?disk = Inr [segment_path start]" "segment_paths empty_disk = Inr []"
    using segment_paths_names [of ?disk "[(start, [])]"]
    by (simp_all add: segment_paths_def empty_disk_def sorted_list_of_fset.rep_eq)
  have same: "open_log log_opens crc32c crc32c_append empty_disk max_bytes start level
      = open_log log_opens crc32c crc32c_append ?disk max_bytes start level"
    by (simp add: open_log_def prepare_log_def paths Let_def) (simp add: empty_disk_def)
  have ok: "segs_ok crc32c crc32c_append (unat start) [(start, [])]"
    using unsigned_less [of start] by (simp add: segs_ok_def)
  have disk: "disk_ok crc32c crc32c_append [(start, [])] 0 ?disk"
    by (simp add: disk_ok_def tail_ok_def sidecars_ok_def empty_disk_def empty_file_def)
  obtain m log where m: "open_log log_opens crc32c crc32c_append ?disk max_bytes start level = Some (Inr log)"
      "m \<le> length (snd (last [(start, [] :: log_record list)]))"
      "log_ok crc32c crc32c_append (cut_next (unat start) m [(start, [])]) (cut_tail m [(start, [])]) 0 log"
      "\<not> sl_isolated log" "sl_active_writer_feature_level log = level"
    using open_log_ok [OF ok disk assms, of start level] by blast
  have "log_good crc32c crc32c_append (unat start) [] 0 log"
    using log_ok_good [OF m(3)] by (simp add: cut_tail_def cut_next_def durable_from_def)
  then show ?thesis using m same by simp
qed

text \<open>
  C21: A segment log keeps its promises. Take any log that reads back the records \<open>rs\<close>, let a
  writer make any sequence of appends and syncs on it with any system call failing on the way,
  lose power at the end and keep any image of the directory the durable prefixes allow. Opening
  it again always succeeds. The reopened log is a prefix of \<open>rs\<close> followed by the appended
  records in order with consecutive indexes; the prefix covers every durable append and every
  append before a sync that was reported as successful; and the log is again in a state the
  same holds of, whose reads return exactly that prefix.\<close>

theorem segment_log_durable:
  assumes "log_good crc32c crc32c_append N rs d log" and "d \<le> length rs" and "\<not> sl_isolated log"
    and "crc_laws crc32c crc32c_append" and "\<forall>call \<in> set calls. call_writable log call" and "N + length calls < 2 ^ 64"
    and "log_calls crc32c crc32c_append calls log = (oks, log')"
    and "crash_disk (sl_disk log') disk" and "max_bytes < 2 ^ 63"
  shows "\<exists>N' kept reopened. open_log log_opens crc32c crc32c_append disk max_bytes start level = Some (Inr reopened)
           \<and> log_good crc32c crc32c_append N' kept (promised (length rs) d calls oks) reopened
           \<and> prefix kept (rs @ called N calls)
           \<and> promised (length rs) d calls oks \<le> length kept
           \<and> (\<forall>index. read_log crc32c crc32c_append index reopened = (Inr (find (\<lambda>r. r_index r = index) kept), reopened))"
proof -
  obtain m where m: "disk_good crc32c crc32c_append (rs @ take m (called N calls)) (promised (length rs) d calls oks) (sl_disk log')"
    using log_calls_good [OF assms(1-6)] assms(7) by auto
  obtain m' N' reopened where o: "open_log log_opens crc32c crc32c_append disk max_bytes start level = Some (Inr reopened)"
      "promised (length rs) d calls oks \<le> m'" "m' \<le> length (rs @ take m (called N calls))"
      "log_good crc32c crc32c_append N' (take m' (rs @ take m (called N calls))) (promised (length rs) d calls oks) reopened"
    using open_log_good [OF m assms(8,4,9), of start level] by blast
  let ?kept = "take m' (rs @ take m (called N calls))"
  have "prefix ?kept (rs @ take m (called N calls))" "prefix (rs @ take m (called N calls)) (rs @ called N calls)"
    by (simp_all only: take_is_prefix same_prefix_prefix)
  then have p: "prefix ?kept (rs @ called N calls)" by (rule prefix_order.trans)
  have l: "promised (length rs) d calls oks \<le> length ?kept" using o(2,3) by simp
  show ?thesis using o(1,4) p l read_log_good [OF o(4)] by blast
qed

definition sample_io :: append_io where
  "sample_io = \<lparr>ai_seal = None, ai_create = None, ai_directory = None, ai_writes = [Wrote 48, Wrote 100], ai_sync = None\<rparr>"

lemma sample_record_writable: "sl_active_writer_feature_level log = 5 \<Longrightarrow> writable sample_record log"
  using sample_record_valid by (simp add: writable_def sample_record_def required_writer_feature_level_def)

theorem segment_log_durable_witness:
  "\<exists>log oks log' disk N' kept reopened.
     open_log log_opens (sum_append 0) sum_append empty_disk 4096 7 5 = Some (Inr log)
     \<and> log_calls (sum_append 0) sum_append [Append sample_io sample_record True, Sync None] log = (oks, log')
     \<and> crash_disk (sl_disk log') disk
     \<and> open_log log_opens (sum_append 0) sum_append disk 4096 7 5 = Some (Inr reopened)
     \<and> log_good (sum_append 0) sum_append N' kept (promised 0 0 [Append sample_io sample_record True, Sync None] oks) reopened
     \<and> prefix kept ([] @ called 7 [Append sample_io sample_record True, Sync None])
     \<and> promised 0 0 [Append sample_io sample_record True, Sync None] oks \<le> length kept
     \<and> (\<forall>index. read_log (sum_append 0) sum_append index reopened = (Inr (find (\<lambda>r. r_index r = index) kept), reopened))"
proof -
  let ?calls = "[Append sample_io sample_record True, Sync None]"
  obtain log where log: "open_log log_opens (sum_append 0) sum_append empty_disk 4096 7 5 = Some (Inr log)"
      "log_good (sum_append 0) sum_append 7 [] 0 log" "\<not> sl_isolated log" "sl_active_writer_feature_level log = 5"
    using open_log_fresh [OF sum_append_laws, of 4096 7 5] by auto
  obtain oks log' where calls: "log_calls (sum_append 0) sum_append ?calls log = (oks, log')" by fastforce
  have w: "\<forall>call \<in> set ?calls. call_writable log call" using sample_record_writable [OF log(4)] by simp
  obtain m where "disk_good (sum_append 0) sum_append ([] @ take m (called 7 ?calls)) (promised (length []) 0 ?calls oks) (sl_disk log')"
    using log_calls_good [OF log(2) _ log(3) sum_append_laws w] calls by auto
  then have crash: "crash_disk (sl_disk log') (settled_disk (sl_disk log'))" by (rule crash_settled)
  show ?thesis
    using log(1) calls crash
      segment_log_durable [OF log(2) _ log(3) sum_append_laws w _ calls crash, of 4096 7 5]
    by simp blast
qed

text \<open>A directory written cleanly, for examples.\<close>

definition disk_of :: "(byte list \<Rightarrow> u32) \<Rightarrow> (u32 \<Rightarrow> byte list \<Rightarrow> u32) \<Rightarrow> segs \<Rightarrow> segment_disk" where
  "disk_of crc32c crc32c_append segs =
     \<lparr>sd_segments = fmap_of_list (map (\<lambda>(b, rs). (segment_path b, file_of crc32c crc32c_append rs)) segs),
      sd_indexes = fmempty\<rparr>"

lemma disk_of_ok:
  assumes "segs_ok crc32c crc32c_append N segs"
  shows "disk_ok crc32c crc32c_append segs (length (snd (last segs))) (disk_of crc32c crc32c_append segs)"
proof -
  note sd = segs_okD [OF assms]
  let ?kvs = "map (\<lambda>(b, rs). (segment_path b, file_of crc32c crc32c_append rs)) segs"
  have keys: "map fst ?kvs = seg_names segs" by (simp add: seg_names_def case_prod_beta comp_def)
  have dist: "distinct (map fst ?kvs)" unfolding keys using seg_names_sorted [OF sd(2)] by (simp add: strict_sorted_iff)
  have look: "fmlookup (fmap_of_list ?kvs) (segment_path b) = Some (file_of crc32c crc32c_append rs)" if "(b, rs) \<in> set segs" for b rs
    using that by (auto simp: fmlookup_of_list intro!: map_of_is_SomeI [OF dist] bexI [of _ "(b, rs)"])
  have last: "(fst (last segs), snd (last segs)) \<in> set segs" using last_in_set [OF sd(1)] by simp
  have "\<forall>(b, rs) \<in> set (butlast segs). fmlookup (fmap_of_list ?kvs) (segment_path b) = Some (file_of crc32c crc32c_append rs)"
    using look in_set_butlastD by fast
  moreover have "fmdom (fmap_of_list ?kvs) = fset_of_list (seg_names segs)" by (simp only: fmdom_fmap_of_list keys)
  ultimately show ?thesis using look [OF last]
    by (simp add: disk_ok_def disk_of_def sidecars_ok_def tail_ok_def file_of_def)
qed

lemma open_disk_of:
  assumes ok: "segs_ok crc32c crc32c_append N segs" and "crc_laws crc32c crc32c_append" and "max_bytes < 2 ^ 63"
    and "all_records segs \<noteq> []"
  shows "\<exists>log. open_log log_opens crc32c crc32c_append (disk_of crc32c crc32c_append segs) max_bytes start level = Some (Inr log)
           \<and> log_ok crc32c crc32c_append N segs (length (snd (last segs))) log \<and> \<not> sl_isolated log"
proof -
  obtain m log where m: "open_log log_opens crc32c crc32c_append (disk_of crc32c crc32c_append segs) max_bytes start level = Some (Inr log)"
      "length (snd (last segs)) \<le> m" "m \<le> length (snd (last segs))"
      "log_ok crc32c crc32c_append (cut_next N m segs) (cut_tail m segs) (length (snd (last segs))) log" "\<not> sl_isolated log"
    using open_log_ok [OF ok disk_of_ok [OF ok] assms(2,3), of start level] by blast
  have "cut_tail m segs = segs" using m(2) segs_okD(1) [OF ok] by (cases segs rule: rev_cases) (auto simp: cut_tail_def)
  moreover from this have "cut_next N m segs = N" using m(2,3) assms(4) by (simp add: cut_next_def)
  ultimately show ?thesis using m by auto
qed

definition sample_segs :: segs where
  "sample_segs = [(7, [sample_record, sample_record\<lparr>r_index := 8\<rparr>]), (9, [sample_record\<lparr>r_index := 9\<rparr>]), (10, [])]"

lemma sample_segs_ok: "segs_ok (sum_append 0) sum_append 10 sample_segs"
proof -
  have i: "r_index sample_record = 7" by (simp add: sample_record_def)
  have v: "record_valid (sample_record\<lparr>r_index := i\<rparr>)" for i using sample_record_valid by (simp add: record_valid_def)
  have l: "r_payload sample_record = [1, 2]" by (simp add: sample_record_def)
  have ix: "indexed_from 7 [sample_record, sample_record\<lparr>r_index := 8\<rparr>, sample_record\<lparr>r_index := 9\<rparr>]"
    using indexed_from_append [of 7 "[sample_record]" "[sample_record\<lparr>r_index := 8\<rparr>, sample_record\<lparr>r_index := 9\<rparr>]"]
      indexed_from_append [of 8 "[sample_record\<lparr>r_index := 8\<rparr>]" "[sample_record\<lparr>r_index := 9\<rparr>]"] i by simp
  show ?thesis
    using v sample_record_valid ix by (simp add: segs_ok_def sample_segs_def l)
qed

text \<open>
  C22: Reading a log by index returns exactly the record with that index, wherever it lives: in
  the resident list of an unsealed segment or behind the sidecar of a sealed one. An index the
  log does not hold gives \<open>None\<close>, and no read of a healthy log isolates it.\<close>

theorem segment_read_exact:
  assumes "log_ok crc32c crc32c_append N segs k log"
  shows "read_log crc32c crc32c_append index log = (Inr (find (\<lambda>r. r_index r = index) (all_records segs)), log)
         \<and> (\<forall>r \<in> set (all_records segs). read_log crc32c crc32c_append (r_index r) log = (Inr (Some r), log))"
proof -
  have "find (\<lambda>r'. r_index r' = r_index r) (all_records segs) = Some r" if r: "r \<in> set (all_records segs)" for r
  proof -
    obtain b rs j where p: "(b, rs) \<in> set segs" "j < length rs" "r = rs ! j" using r by (rule record_position)
    obtain i where "i < length segs" "segs ! i = (b, rs)" using p(1) by (auto simp: in_set_conv_nth)
    then show ?thesis using find_record [OF log_okD(1) [OF assms], of i j] p by simp
  qed
  then show ?thesis using read_log_ok [OF assms] by simp
qed

theorem segment_read_exact_witness:
  "\<exists>log. open_log log_opens (sum_append 0) sum_append (disk_of (sum_append 0) sum_append sample_segs) 100 0 5 = Some (Inr log)
     \<and> read_log (sum_append 0) sum_append 9 log = (Inr (Some (sample_record\<lparr>r_index := 9\<rparr>)), log)
     \<and> read_log (sum_append 0) sum_append 11 log = (Inr None, log)"
proof -
  have i: "r_index sample_record = 7" by (simp add: sample_record_def)
  have "all_records sample_segs \<noteq> []" by (simp add: sample_segs_def)
  then obtain log where log: "open_log log_opens (sum_append 0) sum_append (disk_of (sum_append 0) sum_append sample_segs) 100 0 5 = Some (Inr log)"
      "log_ok (sum_append 0) sum_append 10 sample_segs (length (snd (last sample_segs))) log"
    using open_disk_of [OF sample_segs_ok sum_append_laws, of 100 0 5] by auto
  show ?thesis
    using log(1) segment_read_exact [OF log(2), of 9] segment_read_exact [OF log(2), of 11] i
    by (auto simp: sample_segs_def)
qed

end
