(* ===== verification/Segment_Maint.thy ===== *)
theory Segment_Maint
  imports Segment_Props
begin

text \<open>
  Maintenance of the segment log: writing the sidecar of a sealed segment and purging a
  prefix of the log. Both keep the invariant; purging removes exactly the segments its
  contract allows.
\<close>

section \<open>The locations of one segment\<close>

lemma locations_segment:
  assumes "l \<in> set (locations path rs)" shows "loc_segment l = path"
proof -
  obtain j where j: "j < length rs" "l = locations path rs ! j" using assms by (auto simp: in_set_conv_nth)
  then show ?thesis using locations_nth [OF j(1), of path 0 "\<lambda>_. 0" "\<lambda>_ _. 0"] by (simp add: location_of_def)
qed

lemma filter_locations:
  "filter (\<lambda>l. loc_segment l = path) (locations path' rs) = (if path' = path then locations path rs else [])"
proof (cases "path' = path")
  case True
  then show ?thesis using locations_segment [of _ path rs] by (simp add: filter_id_conv)
next
  case False
  then show ?thesis using locations_segment [of _ path' rs] by (auto simp: filter_empty_conv)
qed

lemma filter_resident:
  fixes segs :: segs
  assumes "sorted_wrt (<) (map fst segs)" and "(b, rs) \<in> set segs" and "segment_path b |\<notin>| fmdom sealed"
  shows "filter (\<lambda>l. loc_segment l = segment_path b) (resident_of sealed segs) = locations (segment_path b) rs"
  using assms(1,2)
proof (induction segs)
  case (Cons s segs)
  obtain b' rs' where s: "s = (b', rs')" by fastforce
  show ?case
  proof (cases "b' = b")
    case True
    then have rs: "rs' = rs" using base_unique [OF Cons.prems(1), of b rs' rs] Cons.prems(2) s by simp
    have other: "segment_path b'' \<noteq> segment_path b" if "(b'', rs'') \<in> set segs" for b'' rs''
      using Cons.prems(1) that True s by auto
    have "filter (\<lambda>l. loc_segment l = segment_path b) (resident_of sealed segs) = []"
    proof -
      have "loc_segment l \<noteq> segment_path b" if l: "l \<in> set (resident_of sealed segs)" for l
      proof -
        obtain b'' rs'' where "(b'', rs'') \<in> set segs" "l \<in> set (locations (segment_path b'') rs'')"
          using l by (auto simp: resident_of_def split: if_splits)
        then show ?thesis using other locations_segment by metis
      qed
      then show ?thesis by (simp add: filter_empty_conv)
    qed
    then show ?thesis using True s rs assms(3) filter_locations [of "segment_path b" "segment_path b" rs]
      by (simp add: resident_of_def)
  next
    case False
    then have "(b, rs) \<in> set segs" using Cons.prems(2) s by simp
    then show ?thesis using Cons False s filter_locations [of "segment_path b" "segment_path b'" rs']
      by (simp add: resident_of_def)
  qed
qed simp

lemma locations_for_segment_ok:
  assumes ok: "log_ok crc32c crc32c_append N segs k log" and b: "(b, rs) \<in> set segs"
  shows "locations_for_segment log (segment_path b) = Inr (locations (segment_path b) rs)"
proof (cases "fmlookup (sl_sealed_indexes log) (segment_path b)")
  case None
  note lo = log_okD [OF ok] and sd = segs_okD [OF log_okD(1) [OF ok]]
  have "segment_path b |\<notin>| fmdom (sl_sealed_indexes log)" using None by (simp add: fmdom_notI)
  then show ?thesis using None filter_resident [OF sd(2) b] lo(6) by (simp add: locations_for_segment_def)
next
  case (Some summary)
  note lo = log_okD [OF ok] and sd = segs_okD [OF log_okD(1) [OF ok]]
  let ?p = "segment_path b"
  obtain b' rs' md where s: "(b', rs') \<in> set (butlast segs)" "?p = segment_path b'"
      "fmlookup (sd_indexes (sl_disk log)) ?p = Some (sidecar crc32c crc32c_append ?p rs' md)"
      "summary = sidecar_summary crc32c crc32c_append ?p rs' md" "length rs' < 2 ^ 32"
    using lo(7) Some by (rule sealed_okE)
  have rs: "rs' = rs" using base_unique [OF sd(2) in_set_butlastD [OF s(1)]] b s(2) by simp
  obtain n where n: "indexed_from n rs" using records_of_segment(1) [OF lo(1) b] ..
  have len: "length (frames (record_bytes crc32c crc32c_append) rs) < 2 ^ 63" using bspec [OF sd(4) b] by simp
  note li = load_locations_index [OF indexable_locations [OF n len, of ?p], of 0 "length rs"]
  show ?thesis
    using Some s(3,4) rs li
    by (simp add: locations_for_segment_def load_locations_def sidecar_def sidecar_summary_def Let_def) (simp add: summary_of_def)
qed

lemma record_index_range_ok:
  assumes ok: "log_ok crc32c crc32c_append N segs k log" and b: "(b, rs) \<in> set segs"
  shows "record_index_range log (segment_path b)
       = (if rs = [] then None else Some (r_index (hd rs), r_index (last rs)))"
proof (cases "fmlookup (sl_sealed_indexes log) (segment_path b)")
  case None
  note lo = log_okD [OF ok] and sd = segs_okD [OF log_okD(1) [OF ok]]
  have "segment_path b |\<notin>| fmdom (sl_sealed_indexes log)" using None by (simp add: fmdom_notI)
  then have f: "filter (\<lambda>l. loc_segment l = segment_path b) (sl_resident_records log) = locations (segment_path b) rs"
    using filter_resident [OF sd(2) b] lo(6) by simp
  show ?thesis
  proof (cases "rs = []")
    case False
    then obtain l ls where ls: "locations (segment_path b) rs = l # ls" by (cases "locations (segment_path b) rs") auto
    have "loc_index (hd (locations (segment_path b) rs)) = r_index (hd rs)"
      using locations_hd [OF False, of "segment_path b" 0] .
    moreover have "loc_index (last (locations (segment_path b) rs)) = r_index (last rs)"
      using locations_last [OF False, of "segment_path b" 0] .
    ultimately show ?thesis using False None f ls by (simp add: record_index_range_def)
  qed (use None f in \<open>simp add: record_index_range_def\<close>)
next
  case (Some summary)
  note sd = segs_okD [OF log_okD(1) [OF ok]]
  obtain i md where s: "i < length segs" "segment_path b = segment_path (fst (segs ! i))" "snd (segs ! i) \<noteq> []"
    "fmlookup (sd_indexes (sl_disk log)) (segment_path b) = Some (sidecar crc32c crc32c_append (segment_path b) (snd (segs ! i)) md)"
    "summary = sidecar_summary crc32c crc32c_append (segment_path b) (snd (segs ! i)) md" "length (snd (segs ! i)) < 2 ^ 32"
    "is_first_index summary = r_index (hd (snd (segs ! i)))" "is_last_index summary = r_index (last (snd (segs ! i)))"
    using ok Some by (rule sealed_range)
  have "fst (segs ! i) = b" using s(2) by simp
  then have rs: "snd (segs ! i) = rs" using base_unique [OF sd(2) _ b] nth_seg [OF s(1)] by simp
  have "is_location_count summary = length rs" using s(5) rs by (simp add: sidecar_summary_def summary_of_def Let_def)
  then show ?thesis using Some s(3,7,8) rs by (simp add: record_index_range_def)
qed

section \<open>What a purge may remove\<close>

text \<open>
  The contract of a purge: the longest prefix of segments that leaves the active segment alone
  and holds neither a retained segment nor a record behind \<open>through\<close>.
\<close>

definition purgeable :: "u64 \<Rightarrow> string fset \<Rightarrow> segs \<Rightarrow> nat" where
  "purgeable through retained segs =
     length (takeWhile (\<lambda>(b, rs). segment_path b |\<notin>| retained \<and> (\<forall>r \<in> set rs. r_index r \<le> through)) (butlast segs))"

lemma purgeable_Cons:
  "segs \<noteq> [] \<Longrightarrow> purgeable through retained ((b, rs) # segs)
     = (if segment_path b |\<notin>| retained \<and> (\<forall>r \<in> set rs. r_index r \<le> through)
        then Suc (purgeable through retained segs) else 0)"
  by (simp add: purgeable_def)

lemma purgeable_less: "segs \<noteq> [] \<Longrightarrow> purgeable through retained segs < length segs"
  unfolding purgeable_def by (rule le_less_trans [OF length_takeWhile_le]) simp

lemma indexed_last:
  assumes "indexed_from n rs" and "rs \<noteq> []"
  shows "(\<forall>r \<in> set rs. r_index r \<le> x) \<longleftrightarrow> r_index (last rs) \<le> x"
proof
  assume l: "r_index (last rs) \<le> x"
  have u: "unat (r_index (rs ! j)) = n + j" if "j < length rs" for j using assms(1) that by (simp add: indexed_from_def)
  have "unat (r_index (last rs)) = n + (length rs - 1)" using u [of "length rs - 1"] assms(2) by (simp add: last_conv_nth)
  then have "unat (r_index r) \<le> unat x" if "r \<in> set rs" for r
    using that u l by (fastforce simp: in_set_conv_nth word_le_nat_alt)
  then show "\<forall>r \<in> set rs. r_index r \<le> x" by (simp add: word_le_nat_alt)
qed (use assms(2) in simp)

lemma removable_ok:
  assumes ok: "log_ok crc32c crc32c_append N segs k log" and "segs = pre @ rest" and "rest \<noteq> []"
  shows "removable log through retained (seg_names rest) = seg_names (take (purgeable through retained rest) rest)"
  using assms(2,3)
proof (induction rest arbitrary: pre)
  case (Cons s rest)
  note lo = log_okD [OF ok] and sd = segs_okD [OF log_okD(1) [OF ok]]
  obtain b rs where s: "s = (b, rs)" by fastforce
  have mem: "(b, rs) \<in> set segs" using Cons.prems s by simp
  show ?case
  proof (cases "rest = []")
    case True
    then have "sl_current_path log = segment_path b" using lo(3) Cons.prems s by simp
    then show ?thesis using True s by (simp add: purgeable_def)
  next
    case False
    have last: "last segs = last rest" using Cons.prems(1) False by simp
    have "fst (last rest) \<in> set (map fst rest)" using False by simp
    moreover have "sorted_wrt (<) (map fst pre @ b # map fst rest)" using sd(2) Cons.prems(1) s by simp
    ultimately have "b < fst (last rest)" by (auto simp: sorted_wrt_append)
    then have cur: "segment_path b \<noteq> sl_current_path log" using lo(3) last by simp
    have "(b, rs) \<in> set (butlast segs)" using Cons.prems(1) False s by (simp add: butlast_append)
    then have ne: "rs \<noteq> []" using bspec [OF sd(3)] by fastforce
    obtain n where n: "indexed_from n rs" using records_of_segment(1) [OF lo(1) mem] ..
    note range = record_index_range_ok [OF ok mem]
    show ?thesis
      using Cons.IH [of "pre @ [s]"] Cons.prems(1) False cur ne indexed_last [OF n ne, of through] range
      by (simp add: s purgeable_Cons not_less [symmetric])
  qed
qed simp

section \<open>Dropping the oldest segment\<close>

lemma segs_ok_tl:
  assumes "segs_ok crc32c crc32c_append N (s # segs)" and "segs \<noteq> []"
  shows "segs_ok crc32c crc32c_append N segs"
proof -
  note sd = segs_okD [OF assms(1)]
  have all: "all_records (s # segs) = snd s @ all_records segs" by (cases s) simp
  have "N - length (snd s @ all_records segs) + length (snd s) = N - length (all_records segs)" using sd(6) all by simp
  then have "indexed_from (N - length (all_records segs)) (all_records segs)"
    using sd(7) unfolding all by (simp only: indexed_from_append)
  then show ?thesis
    using assms unfolding segs_ok_def all by (cases s) auto
qed

lemma seg_names_tl:
  fixes segs :: segs
  assumes "sorted_wrt (<) (map fst ((b, rs) # segs))" and "(b', rs') \<in> set segs"
  shows "segment_path b < segment_path b'" "segment_path b' \<noteq> segment_path b"
  using assms by auto

lemma seg_name_fresh:
  fixes segs :: segs
  assumes "sorted_wrt (<) (map fst ((b, rs) # segs))" shows "segment_path b \<notin> set (seg_names segs)"
  using assms by (auto simp: seg_names_def)

lemma sidecars_ok_tl:
  assumes "sidecars_ok crc32c crc32c_append ((b, rs) # segs) indexes" and "sorted_wrt (<) (map fst ((b, rs) # segs))"
    and "segs \<noteq> []"
  shows "sidecars_ok crc32c crc32c_append segs indexes"
  unfolding sidecars_ok_def
proof (intro allI impI)
  fix path content assume "fmlookup indexes path = Some content"
  then have c: "path < segment_path b
     \<or> (\<exists>b' rs' md. (b', rs') \<in> set (butlast ((b, rs) # segs)) \<and> path = segment_path b'
          \<and> content = sidecar crc32c crc32c_append path rs' md \<and> length md < 2 ^ 32 \<and> length rs' < 2 ^ 32)"
    using assms(1) unfolding sidecars_ok_def by simp
  have hd: "(fst (hd segs), snd (hd segs)) \<in> set segs" using assms(3) by simp
  note less = seg_names_tl(1) [OF assms(2) hd]
  show "path < segment_path (fst (hd segs))
     \<or> (\<exists>b' rs' md. (b', rs') \<in> set (butlast segs) \<and> path = segment_path b'
          \<and> content = sidecar crc32c crc32c_append path rs' md \<and> length md < 2 ^ 32 \<and> length rs' < 2 ^ 32)"
    using c less assms(3) by (auto intro: order.strict_trans)
qed

lemma sidecars_ok_drop:
  "sidecars_ok crc32c crc32c_append segs indexes \<Longrightarrow> sidecars_ok crc32c crc32c_append segs (fmdrop path indexes)"
  unfolding sidecars_ok_def fmlookup_drop by (metis option.distinct(1))

lemma disk_ok_tl:
  assumes "disk_ok crc32c crc32c_append ((b, rs) # segs) k disk" and "sorted_wrt (<) (map fst ((b, rs) # segs))"
    and "segs \<noteq> []"
  shows "disk_ok crc32c crc32c_append segs k (drop_segment (segment_path b) disk)"
proof -
  have other: "segment_path b' \<noteq> segment_path b" if "(b', rs') \<in> set segs" for b' rs'
    using seg_names_tl(2) [OF assms(2) that] .
  have dom: "fmdom (fmdrop (segment_path b) (sd_segments disk)) = fset_of_list (seg_names segs)"
    using assms(1) seg_name_fresh [OF assms(2)] by (auto simp: disk_ok_def fset_of_list_elem)
  have last: "(fst (last segs), snd (last segs)) \<in> set segs" using assms(3) by simp
  show ?thesis
    using assms(1) dom other [OF last] other [OF in_set_butlastD] sidecars_ok_tl [OF _ assms(2,3)] assms(3)
    by (auto simp: disk_ok_def drop_segment_def)
qed

lemma disk_ok_drop_index:
  "disk_ok crc32c crc32c_append segs k disk \<Longrightarrow> disk_ok crc32c crc32c_append segs k (drop_index path disk)"
  by (simp add: disk_ok_def drop_index_def sidecars_ok_drop)

lemma sealed_ok_tl:
  assumes "sealed_ok crc32c crc32c_append ((b, rs) # closed) disk sealed"
  shows "sealed_ok crc32c crc32c_append closed (drop_index (segment_path b) (drop_segment (segment_path b) disk))
           (fmdrop (segment_path b) sealed)"
  unfolding sealed_ok_def
proof (intro allI impI)
  fix path summary assume "fmlookup (fmdrop (segment_path b) sealed) path = Some summary"
  then have p: "path \<noteq> segment_path b" "fmlookup sealed path = Some summary" by (auto split: if_splits)
  obtain b' rs' md where s: "(b', rs') \<in> set ((b, rs) # closed)" "path = segment_path b'"
      "fmlookup (sd_indexes disk) path = Some (sidecar crc32c crc32c_append path rs' md)"
      "summary = sidecar_summary crc32c crc32c_append path rs' md" "length rs' < 2 ^ 32"
    using assms p(2) by (rule sealed_okE)
  have "(b', rs') \<in> set closed" using s(1,2) p(1) by auto
  moreover have "fmlookup (sd_indexes (drop_index (segment_path b) (drop_segment (segment_path b) disk))) path
      = Some (sidecar crc32c crc32c_append path rs' md)"
    using s(3) p(1) by (simp add: drop_index_def drop_segment_def)
  ultimately show "\<exists>b' rs' md. (b', rs') \<in> set closed \<and> path = segment_path b'
       \<and> fmlookup (sd_indexes (drop_index (segment_path b) (drop_segment (segment_path b) disk))) path
           = Some (sidecar crc32c crc32c_append path rs' md)
       \<and> summary = sidecar_summary crc32c crc32c_append path rs' md \<and> length rs' < 2 ^ 32"
    using s(2,4,5) by blast
qed

lemma checksums_ok_tl:
  assumes "checksums_ok crc32c crc32c_append ((b, rs) # segs) checksums" and "sorted_wrt (<) (map fst ((b, rs) # segs))"
  shows "checksums_ok crc32c crc32c_append segs (fmdrop (segment_path b) checksums)"
proof -
  have other: "segment_path b' \<noteq> segment_path b" if "(b', rs') \<in> set segs" for b' rs'
    using seg_names_tl(2) [OF assms(2) that] .
  have "fmdom (fmdrop (segment_path b) checksums) = fset_of_list (seg_names segs)"
    using assms(1) seg_name_fresh [OF assms(2)] by (auto simp: checksums_ok_def fset_of_list_elem)
  then show ?thesis using assms(1) other by (auto simp: checksums_ok_def)
qed

section \<open>The deletion loop\<close>

text \<open>What the loop keeps: the directory and the per-segment tables describe the remaining segments.\<close>

definition tables_ok ::
  "(byte list \<Rightarrow> u32) \<Rightarrow> (u32 \<Rightarrow> byte list \<Rightarrow> u32) \<Rightarrow> nat \<Rightarrow> segs \<Rightarrow> nat \<Rightarrow> segment_log \<Rightarrow> bool" where
  "tables_ok crc32c crc32c_append N segs k log \<longleftrightarrow>
     segs_ok crc32c crc32c_append N segs \<and> disk_ok crc32c crc32c_append segs k (sl_disk log)
     \<and> sealed_ok crc32c crc32c_append (butlast segs) (sl_disk log) (sl_sealed_indexes log)
     \<and> checksums_ok crc32c crc32c_append segs (sl_checksums log)"

definition same_core :: "segment_log \<Rightarrow> segment_log \<Rightarrow> bool" where
  "same_core log log' \<longleftrightarrow>
     sl_resident_records log' = sl_resident_records log \<and> sl_current_path log' = sl_current_path log
     \<and> sl_current_len log' = sl_current_len log \<and> sl_max_segment_bytes log' = sl_max_segment_bytes log
     \<and> sl_isolated log' = sl_isolated log
     \<and> sl_active_writer_feature_level log' = sl_active_writer_feature_level log"

lemma tables_ok_tl:
  assumes "tables_ok crc32c crc32c_append N ((b, rs) # segs) k log" and "segs \<noteq> []"
  shows "tables_ok crc32c crc32c_append N segs k
           (log\<lparr>sl_disk := drop_index (segment_path b) (drop_segment (segment_path b) (sl_disk log)),
                sl_checksums := fmdrop (segment_path b) (sl_checksums log),
                sl_sealed_indexes := fmdrop (segment_path b) (sl_sealed_indexes log)\<rparr>)"
proof -
  have ok: "segs_ok crc32c crc32c_append N ((b, rs) # segs)" "disk_ok crc32c crc32c_append ((b, rs) # segs) k (sl_disk log)"
      "sealed_ok crc32c crc32c_append ((b, rs) # butlast segs) (sl_disk log) (sl_sealed_indexes log)"
      "checksums_ok crc32c crc32c_append ((b, rs) # segs) (sl_checksums log)"
    using assms by (simp_all add: tables_ok_def)
  note sorted = segs_okD(2) [OF ok(1)]
  show ?thesis
    using segs_ok_tl [OF ok(1) assms(2)] disk_ok_drop_index [OF disk_ok_tl [OF ok(2) sorted assms(2)]]
      sealed_ok_tl [OF ok(3)] checksums_ok_tl [OF ok(4) sorted]
    by (simp add: tables_ok_def)
qed

lemma remove_segments_ok:
  assumes "tables_ok crc32c crc32c_append N segs k log" and "j < length segs"
    and "remove_segments io c (seg_names (take j segs)) log = (r, log', trace)"
  shows "(\<forall>disk \<in> set (sl_disk log' # trace). \<exists>i \<le> j. disk_ok crc32c crc32c_append (drop i segs) k disk)
         \<and> (r = Inr () \<longrightarrow> tables_ok crc32c crc32c_append N (drop j segs) k log' \<and> same_core log log'
              \<and> (\<forall>path. path \<notin> set (seg_names (take j segs)) \<longrightarrow>
                   fmlookup (sl_sealed_indexes log') path = fmlookup (sl_sealed_indexes log) path))"
  using assms
proof (induction j arbitrary: segs c log r log' trace)
  case 0
  then show ?case by (auto simp: tables_ok_def same_core_def)
next
  case (Suc j)
  obtain b rs rest where s: "segs = (b, rs) # rest" using Suc.prems(2) by (cases segs) auto
  have rest: "rest \<noteq> []" "j < length rest" using Suc.prems(2) s by auto
  let ?p = "segment_path b"
  let ?d1 = "drop_segment ?p (sl_disk log)" and ?d2 = "drop_index ?p (drop_segment ?p (sl_disk log))"
  let ?log = "log\<lparr>sl_disk := ?d2, sl_checksums := fmdrop ?p (sl_checksums log), sl_sealed_indexes := fmdrop ?p (sl_sealed_indexes log)\<rparr>"
  have sorted: "sorted_wrt (<) (map fst ((b, rs) # rest))" and disk: "disk_ok crc32c crc32c_append ((b, rs) # rest) k (sl_disk log)"
    using Suc.prems(1) s segs_okD(2) by (auto simp: tables_ok_def simp del: list.map)
  have d0: "\<exists>i \<le> Suc j. disk_ok crc32c crc32c_append (drop i segs) k (sl_disk log)"
    using disk s by (intro exI [of _ 0]) simp
  have d1: "\<exists>i \<le> Suc j. disk_ok crc32c crc32c_append (drop i segs) k ?d1"
    using disk_ok_tl [OF disk sorted rest(1)] s by (intro exI [of _ 1]) simp
  have d2: "\<exists>i \<le> Suc j. disk_ok crc32c crc32c_append (drop i segs) k ?d2"
    using disk_ok_drop_index [OF disk_ok_tl [OF disk sorted rest(1)]] s by (intro exI [of _ 1]) simp
  have d3: "\<exists>i \<le> Suc j. disk_ok crc32c crc32c_append (drop i segs) k (drop_index ?p (sl_disk log))"
    using disk_ok_drop_index [OF disk] s by (intro exI [of _ 0]) simp
  have run: "remove_segments io c (?p # seg_names (take j rest)) log = (r, log', trace)"
    using Suc.prems(3) s by simp
  show ?case
  proof (cases "seg_call (io c)")
    case (Inl e)
    then show ?thesis using run d0 by auto
  next
    case c0: (Inr u)
    show ?thesis
    proof (cases "remove_index_call (io (c + 1))")
      case (Inl e)
      then show ?thesis using run c0 d0 d1 by (auto simp: Let_def)
    next
      case c1: (Inr u)
      show ?thesis
      proof (cases "seg_call (io (c + 2))")
        case (Inl e)
        then show ?thesis using run c0 c1 d0 d1 d2 d3 by (auto simp: Let_def)
      next
        case c2: (Inr u)
        obtain r1 log1 trace1 where loop: "remove_segments io (c + 3) (seg_names (take j rest)) ?log = (r1, log1, trace1)"
          by (metis prod_cases3)
        have res: "r = r1" "log' = log1" "trace = [sl_disk log, ?d1, drop_index ?p (sl_disk log), ?d2] @ trace1"
          using run c0 c1 c2 loop by (auto simp: Let_def)
        note IH = Suc.IH [OF tables_ok_tl [OF Suc.prems(1) [unfolded s] rest(1)] rest(2) loop]
        have "\<exists>i \<le> Suc j. disk_ok crc32c crc32c_append (drop i segs) k disk" if d: "disk \<in> set (sl_disk log1 # trace1)" for disk
        proof -
          obtain i where "i \<le> j" "disk_ok crc32c crc32c_append (drop i rest) k disk" using IH d by blast
          then show ?thesis using s by (intro exI [of _ "Suc i"]) simp
        qed
        then show ?thesis using IH d0 d1 d2 d3 s by (auto simp: res same_core_def)
      qed
    qed
  qed
qed

section \<open>Recomputed aggregates\<close>

lemma min_option_eq: "x \<in> set xs \<Longrightarrow> (\<And>y. y \<in> set xs \<Longrightarrow> x \<le> y) \<Longrightarrow> min_option xs = Some x"
  by (cases xs) (auto simp: min_option_def Min.set_eq_fold [symmetric] intro!: Min_eqI)

lemma max_option_eq: "x \<in> set xs \<Longrightarrow> (\<And>y. y \<in> set xs \<Longrightarrow> y \<le> x) \<Longrightarrow> max_option xs = Some x"
  by (cases xs) (auto simp: max_option_def Max.set_eq_fold [symmetric] intro!: Max_eqI)

lemma sidecar_summary_range:
  assumes "rs \<noteq> []"
  shows "is_first_index (sidecar_summary crc32c crc32c_append path rs md) = r_index (hd rs)"
    and "is_last_index (sidecar_summary crc32c crc32c_append path rs md) = r_index (last rs)"
    and "is_location_count (sidecar_summary crc32c crc32c_append path rs md) = length rs"
proof -
  have "(case locations path rs of [] \<Rightarrow> 0 | l # _ \<Rightarrow> loc_index l) = r_index (hd rs)"
    using assms locations_hd [OF assms, of path 0] by (cases "locations path rs") simp_all
  then show "is_first_index (sidecar_summary crc32c crc32c_append path rs md) = r_index (hd rs)"
    by (simp add: sidecar_summary_def summary_of_def Let_def)
  show "is_last_index (sidecar_summary crc32c crc32c_append path rs md) = r_index (last rs)"
      "is_location_count (sidecar_summary crc32c crc32c_append path rs md) = length rs"
    using assms by (simp_all add: sidecar_summary_def summary_of_def Let_def)
qed

lemma hd_record: "all_records segs \<noteq> [] \<Longrightarrow> \<exists>b rs. (b, rs) \<in> set segs \<and> rs \<noteq> [] \<and> hd (all_records segs) = hd rs"
proof (induction segs)
  case (Cons s segs)
  obtain b rs where s: "s = (b, rs)" by fastforce
  show ?case
  proof (cases "rs = []")
    case True
    then show ?thesis using Cons s by auto
  next
    case False
    then have "(b, rs) \<in> set (s # segs) \<and> rs \<noteq> [] \<and> hd (all_records (s # segs)) = hd rs" using s by simp
    then show ?thesis by blast
  qed
qed simp

lemma last_record: "all_records segs \<noteq> [] \<Longrightarrow> \<exists>b rs. (b, rs) \<in> set segs \<and> rs \<noteq> [] \<and> last (all_records segs) = last rs"
proof (induction segs)
  case (Cons s segs)
  obtain b rs where s: "s = (b, rs)" by fastforce
  show ?case
  proof (cases "all_records segs = []")
    case True
    then have "(b, rs) \<in> set (s # segs) \<and> rs \<noteq> [] \<and> last (all_records (s # segs)) = last rs" using Cons.prems s by simp
    then show ?thesis by blast
  next
    case False
    then show ?thesis using Cons.IH s by auto
  qed
qed simp

lemma indexed_bounds:
  assumes "indexed_from n rs" and "r \<in> set rs"
  shows "r_index (hd rs) \<le> r_index r" "r_index r \<le> r_index (last rs)"
proof -
  have u: "unat (r_index (rs ! j)) = n + j" if "j < length rs" for j using assms(1) that by (simp add: indexed_from_def)
  obtain j where j: "j < length rs" "r = rs ! j" using assms(2) by (auto simp: in_set_conv_nth)
  have ne: "rs \<noteq> []" using assms(2) by auto
  have "hd rs = rs ! 0" "last rs = rs ! (length rs - 1)" using ne by (simp_all add: hd_conv_nth last_conv_nth)
  then show "r_index (hd rs) \<le> r_index r" "r_index r \<le> r_index (last rs)"
    using u [of 0] u [of "length rs - 1"] u [OF j(1)] j ne by (simp_all add: word_le_nat_alt)
qed

lemma resident_index:
  assumes "l \<in> set (resident_of sealed segs)" shows "\<exists>r \<in> set (all_records segs). loc_index l = r_index r"
proof -
  obtain b rs where s: "(b, rs) \<in> set segs" "l \<in> set (locations (segment_path b) rs)"
    using assms by (auto simp: resident_of_def split: if_splits)
  obtain j where j: "j < length rs" "l = locations (segment_path b) rs ! j" using s(2) by (auto simp: in_set_conv_nth)
  have "loc_index l = r_index (rs ! j)"
    using locations_nth [OF j(1), of "segment_path b" 0 "\<lambda>_. 0" "\<lambda>_ _. 0"] j(2) by (simp add: location_of_def)
  moreover have "rs ! j \<in> set (all_records segs)" using s(1) j(1) by (force simp: all_records_def)
  ultimately show ?thesis by blast
qed

lemma summaries_ok:
  assumes ok: "tables_ok crc32c crc32c_append N segs k log" and "summary \<in> set (nonempty_summaries log)"
  obtains b rs where "(b, rs) \<in> set segs" "rs \<noteq> []" "is_first_index summary = r_index (hd rs)"
    "is_last_index summary = r_index (last rs)"
proof -
  have so: "segs_ok crc32c crc32c_append N segs"
      "sealed_ok crc32c crc32c_append (butlast segs) (sl_disk log) (sl_sealed_indexes log)"
    using ok by (simp_all add: tables_ok_def)
  obtain path where "path |\<in>| fmdom (sl_sealed_indexes log)" "summary = the (fmlookup (sl_sealed_indexes log) path)"
    using assms(2) by (auto simp: nonempty_summaries_def sealed_paths_def)
  then have "fmlookup (sl_sealed_indexes log) path = Some summary" by (auto simp: fmlookup_dom_iff)
  with so(2) obtain b rs md where s: "(b, rs) \<in> set (butlast segs)"
      "summary = sidecar_summary crc32c crc32c_append path rs md"
    by (rule sealed_okE)
  have ne: "rs \<noteq> []" using bspec [OF segs_okD(3) [OF so(1)] s(1)] by simp
  show thesis by (rule that [OF in_set_butlastD [OF s(1)] ne]) (simp_all add: s(2) sidecar_summary_range [OF ne])
qed

lemma summary_present:
  assumes ok: "tables_ok crc32c crc32c_append N segs k log" and b: "(b, rs) \<in> set segs" and ne: "rs \<noteq> []"
    and res: "sl_resident_records log = resident_of (sl_sealed_indexes log) segs"
  shows "r_index (hd rs) \<in> set (map is_first_index (nonempty_summaries log) @ map loc_index (sl_resident_records log))"
    and "r_index (last rs) \<in> set (map is_last_index (nonempty_summaries log) @ map loc_index (sl_resident_records log))"
proof -
  have so: "segs_ok crc32c crc32c_append N segs"
      "sealed_ok crc32c crc32c_append (butlast segs) (sl_disk log) (sl_sealed_indexes log)"
    using ok by (simp_all add: tables_ok_def)
  let ?p = "segment_path b" and ?fs = "map is_first_index (nonempty_summaries log) @ map loc_index (sl_resident_records log)"
    and ?ls = "map is_last_index (nonempty_summaries log) @ map loc_index (sl_resident_records log)"
  have "r_index (hd rs) \<in> set ?fs \<and> r_index (last rs) \<in> set ?ls"
  proof (cases "fmlookup (sl_sealed_indexes log) ?p")
    case None
    then have "?p |\<notin>| fmdom (sl_sealed_indexes log)" by (simp add: fmdom_notI)
    then have sub: "set (locations ?p rs) \<subseteq> set (sl_resident_records log)"
      using b by (auto simp: res resident_of_def intro!: bexI [of _ "(b, rs)"])
    have "locations ?p rs \<noteq> []" using ne by (metis length_0_conv length_locations)
    then have "hd (locations ?p rs) \<in> set (sl_resident_records log)" "last (locations ?p rs) \<in> set (sl_resident_records log)"
      using sub by auto
    then show ?thesis using locations_hd [OF ne, of ?p 0] locations_last [OF ne, of ?p 0]
      by (metis UnCI image_eqI set_append set_map)
  next
    case (Some summary)
    with so(2) obtain b' rs' md where s: "(b', rs') \<in> set (butlast segs)" "?p = segment_path b'"
        "summary = sidecar_summary crc32c crc32c_append ?p rs' md"
      by (rule sealed_okE)
    have rs: "rs' = rs" using base_unique [OF segs_okD(2) [OF so(1)] in_set_butlastD [OF s(1)]] b s(2) by simp
    have "?p \<in> set (sealed_paths log)" using fmdomI [OF Some] by (simp add: sealed_paths_def)
    then have "summary \<in> set (nonempty_summaries log)"
      using Some s(3) rs ne sidecar_summary_range(3) [OF ne] by (force simp: nonempty_summaries_def)
    then have "is_first_index summary \<in> set ?fs" "is_last_index summary \<in> set ?ls" by simp_all
    then show ?thesis using s(3) rs sidecar_summary_range(1,2) [OF ne] by simp
  qed
  then show "r_index (hd rs) \<in> set ?fs" "r_index (last rs) \<in> set ?ls" by blast+
qed

lemma aggregates_ok:
  assumes ok: "tables_ok crc32c crc32c_append N segs k log"
    and res: "sl_resident_records log = resident_of (sl_sealed_indexes log) segs"
  shows "sl_first_index (refresh_aggregates log)
       = (if all_records segs = [] then None else Some (r_index (hd (all_records segs))))"
    and "sl_last_index (refresh_aggregates log)
       = (if all_records segs = [] then None else Some (r_index (last (all_records segs))))"
proof -
  let ?rs = "all_records segs"
  have so: "segs_ok crc32c crc32c_append N segs" using ok by (simp add: tables_ok_def)
  have ix: "indexed_from (N - length ?rs) ?rs" using segs_okD(7) [OF so] .
  have mem: "r \<in> set ?rs" if "(b, rs) \<in> set segs" "r \<in> set rs" for b rs r
    using that by (force simp: all_records_def)
  have summ: "\<exists>r r'. r \<in> set ?rs \<and> r' \<in> set ?rs \<and> is_first_index s = r_index r \<and> is_last_index s = r_index r'"
    if s: "s \<in> set (nonempty_summaries log)" for s
  proof -
    obtain b rs where "(b, rs) \<in> set segs" "rs \<noteq> []" "is_first_index s = r_index (hd rs)" "is_last_index s = r_index (last rs)"
      using ok s by (rule summaries_ok)
    then show ?thesis using mem [of b rs "hd rs"] mem [of b rs "last rs"] by auto
  qed
  have resi: "\<exists>r \<in> set ?rs. loc_index l = r_index r" if "l \<in> set (sl_resident_records log)" for l
    using that unfolding res by (rule resident_index)
  let ?fs = "map is_first_index (nonempty_summaries log) @ map loc_index (sl_resident_records log)"
    and ?ls = "map is_last_index (nonempty_summaries log) @ map loc_index (sl_resident_records log)"
  have fs: "\<exists>r \<in> set ?rs. x = r_index r" if "x \<in> set ?fs" for x using that summ resi by auto
  have ls: "\<exists>r \<in> set ?rs. x = r_index r" if "x \<in> set ?ls" for x using that summ resi by auto
  show "sl_first_index (refresh_aggregates log) = (if ?rs = [] then None else Some (r_index (hd ?rs)))"
  proof (cases "?rs = []")
    case True
    then have "x \<notin> set ?fs" for x using fs [of x] by auto
    then have "set ?fs = {}" by (simp only: all_not_in_conv [symmetric]) simp
    then have "?fs = []" by (simp only: set_empty)
    then show ?thesis using True by (simp only: refresh_aggregates_def min_option_def) simp
  next
    case False
    obtain b rs where b: "(b, rs) \<in> set segs" "rs \<noteq> []" "hd ?rs = hd rs" using hd_record [OF False] by blast
    have "r_index (hd ?rs) \<le> x" if "x \<in> set ?fs" for x using fs [OF that] indexed_bounds(1) [OF ix] by blast
    moreover have "r_index (hd ?rs) \<in> set ?fs" unfolding b(3) by (rule summary_present(1) [OF ok b(1,2) res])
    ultimately have "min_option ?fs = Some (r_index (hd ?rs))" by (intro min_option_eq)
    then show ?thesis using False by (simp add: refresh_aggregates_def)
  qed
  show "sl_last_index (refresh_aggregates log) = (if ?rs = [] then None else Some (r_index (last ?rs)))"
  proof (cases "?rs = []")
    case True
    then have "x \<notin> set ?ls" for x using ls [of x] by auto
    then have "set ?ls = {}" by (simp only: all_not_in_conv [symmetric]) simp
    then have "?ls = []" by (simp only: set_empty)
    then show ?thesis using True by (simp only: refresh_aggregates_def max_option_def) simp
  next
    case False
    obtain b rs where b: "(b, rs) \<in> set segs" "rs \<noteq> []" "last ?rs = last rs" using last_record [OF False] by blast
    have "x \<le> r_index (last ?rs)" if "x \<in> set ?ls" for x using ls [OF that] indexed_bounds(2) [OF ix] by blast
    moreover have "r_index (last ?rs) \<in> set ?ls" unfolding b(3) by (rule summary_present(2) [OF ok b(1,2) res])
    ultimately have "max_option ?ls = Some (r_index (last ?rs))" by (intro max_option_eq)
    then show ?thesis using False by (simp add: refresh_aggregates_def)
  qed
qed

section \<open>Purging\<close>

lemma resident_of_lookup:
  assumes "\<And>b rs. (b, rs) \<in> set segs \<Longrightarrow> fmlookup sealed' (segment_path b) = fmlookup sealed (segment_path b)"
  shows "resident_of sealed' segs = resident_of sealed segs"
proof -
  have "segment_path b |\<in>| fmdom sealed' \<longleftrightarrow> segment_path b |\<in>| fmdom sealed" if "(b, rs) \<in> set segs" for b rs
    using assms [OF that] by (simp add: fmlookup_dom_iff)
  then show ?thesis unfolding resident_of_def by (intro arg_cong [where f = concat] map_cong) auto
qed

lemma indexed_split:
  assumes "indexed_from n (xs @ ys)" and "xs \<noteq> []" and "x \<in> set xs" and "y \<in> set ys"
  shows "r_index x \<le> r_index (last xs)" "r_index (last xs) < r_index y"
proof -
  have ix: "indexed_from n xs" "indexed_from (n + length xs) ys" using assms(1) by (simp_all add: indexed_from_append)
  show "r_index x \<le> r_index (last xs)" using indexed_bounds(2) [OF ix(1) assms(3)] .
  have "unat (r_index (last xs)) = n + (length xs - 1)" using ix(1) assms(2) by (simp add: indexed_from_def last_conv_nth)
  moreover obtain j where "j < length ys" "y = ys ! j" using assms(4) by (auto simp: in_set_conv_nth)
  then have "unat (r_index y) = n + length xs + j" using ix(2) by (simp add: indexed_from_def)
  moreover have "length xs > 0" using assms(2) by simp
  ultimately show "r_index (last xs) < r_index y" unfolding word_less_nat_alt by linarith
qed

lemma purge_resident:
  assumes ok: "segs_ok crc32c crc32c_append N segs" and j: "0 < j" "j < length segs"
    and agree: "\<And>path. path \<notin> set (seg_names (take j segs)) \<Longrightarrow> fmlookup sealed' path = fmlookup sealed path"
  shows "filter (\<lambda>l. loc_index l > r_index (last (snd (segs ! (j - 1))))) (resident_of sealed segs)
       = resident_of sealed' (drop j segs)"
proof -
  note sd = segs_okD [OF ok]
  let ?A = "all_records (take j segs)" and ?B = "all_records (drop j segs)"
  have all: "all_records segs = ?A @ ?B" by (metis all_records_simps(3) append_take_drop_id)
  have seg: "(fst (segs ! (j - 1)), snd (segs ! (j - 1))) \<in> set (butlast segs)"
  proof -
    have "butlast segs ! (j - 1) = segs ! (j - 1)" using j by (simp add: nth_butlast)
    moreover have "j - 1 < length (butlast segs)" using j by simp
    ultimately show ?thesis by (metis nth_mem prod.collapse)
  qed
  have ne: "snd (segs ! (j - 1)) \<noteq> []" using bspec [OF sd(3) seg] by (simp add: case_prod_beta)
  have "take j segs = take (j - 1) segs @ [(fst (segs ! (j - 1)), snd (segs ! (j - 1)))]"
    using take_Suc_conv_app_nth [of "j - 1" segs] j by simp
  then have A: "?A = all_records (take (j - 1) segs) @ snd (segs ! (j - 1))" by (metis all_records_simps(1-3) append_Nil2)
  then have Ane: "?A \<noteq> []" and last: "last ?A = last (snd (segs ! (j - 1)))" using ne by simp_all
  note split = indexed_split [OF sd(7) [unfolded all] Ane, unfolded last]
  have low: "\<not> loc_index l > r_index (last (snd (segs ! (j - 1))))" if l: "l \<in> set (resident_of sealed (take j segs))" for l
  proof -
    obtain r where r: "r \<in> set ?A" "loc_index l = r_index r" using resident_index [OF l] by blast
    have "indexed_from (N - length (all_records segs)) ?A" using sd(7) unfolding all by (simp add: indexed_from_append)
    from indexed_bounds(2) [OF this r(1)] show ?thesis using r(2) last by simp
  qed
  have high: "loc_index l > r_index (last (snd (segs ! (j - 1))))" if l: "l \<in> set (resident_of sealed (drop j segs))" for l
  proof -
    obtain r where r: "r \<in> set ?B" "loc_index l = r_index r" using resident_index [OF l] by blast
    show ?thesis using split(2) [of "last ?A" r] r Ane by simp
  qed
  have "resident_of sealed' (drop j segs) = resident_of sealed (drop j segs)"
  proof (rule resident_of_lookup)
    fix b rs assume b: "(b, rs) \<in> set (drop j segs)"
    have "distinct (seg_names (take j segs @ drop j segs))"
      using seg_names_sorted [OF sd(2)] by (simp add: strict_sorted_iff)
    then have "segment_path b \<notin> set (seg_names (take j segs))" using seg_names_mem [OF b] by (auto simp del: append_take_drop_id)
    then show "fmlookup sealed' (segment_path b) = fmlookup sealed (segment_path b)" by (rule agree)
  qed
  moreover have "filter (\<lambda>l. loc_index l > r_index (last (snd (segs ! (j - 1))))) (resident_of sealed (take j segs @ drop j segs))
     = resident_of sealed (drop j segs)"
    unfolding resident_of_append using low high by (simp add: filter_empty_conv filter_id_conv)
  ultimately show ?thesis by simp
qed

lemma segs_ok_empty:
  assumes "segs_ok crc32c crc32c_append N segs" and "all_records segs = []" and "N \<le> N'" and "N' < 2 ^ 64"
  shows "segs_ok crc32c crc32c_append N' segs"
  using assms by (auto simp: segs_ok_def)

lemma tail_complete:
  assumes "disk_ok crc32c crc32c_append segs (length (snd (last segs))) (sl_disk log)"
  shows "fi_bytes (file_at log (segment_path (fst (last segs)))) = frames (record_bytes crc32c crc32c_append) (snd (last segs))"
proof -
  obtain f where f: "fmlookup (sd_segments (sl_disk log)) (segment_path (fst (last segs))) = Some f"
      "tail_ok crc32c crc32c_append (snd (last segs)) (length (snd (last segs))) f"
    using assms by (auto simp: disk_ok_def)
  let ?F = "frames (record_bytes crc32c crc32c_append) (snd (last segs))"
  have "prefix (fi_bytes f) ?F" "length ?F \<le> length (fi_bytes f)" using f(2) by (auto simp: tail_ok_def)
  then have "fi_bytes f = ?F" using prefix_length_le by (auto simp: prefix_def)
  then show ?thesis using f(1) by (simp add: file_at_def)
qed

lemma refresh_aggregates_frame [simp]:
  "sl_disk (refresh_aggregates log) = sl_disk log" "sl_resident_records (refresh_aggregates log) = sl_resident_records log"
  "sl_sealed_indexes (refresh_aggregates log) = sl_sealed_indexes log" "sl_checksums (refresh_aggregates log) = sl_checksums log"
  "sl_current_path (refresh_aggregates log) = sl_current_path log" "sl_current_len (refresh_aggregates log) = sl_current_len log"
  "sl_max_segment_bytes (refresh_aggregates log) = sl_max_segment_bytes log" "sl_isolated (refresh_aggregates log) = sl_isolated log"
  "file_at (refresh_aggregates log) = file_at log"
  by (simp_all add: refresh_aggregates_def file_at_def fun_eq_iff)

lemma purge_finish:
  assumes ok: "log_ok crc32c crc32c_append N segs k log" and j: "j < length segs"
    and tables: "tables_ok crc32c crc32c_append N (drop j segs) (length (snd (last segs))) log1" and same: "same_core log log1"
    and res: "resident = resident_of (sl_sealed_indexes log1) (drop j segs)"
    and through: "all_records (drop j segs) = [] \<Longrightarrow> N \<le> unat (sat_inc through)"
  defines "N' \<equiv> if all_records (drop j segs) = [] then unat (sat_inc through) else N"
    and "log2 \<equiv> refresh_aggregates (log1\<lparr>sl_resident_records := resident\<rparr>)"
  shows "log_ok crc32c crc32c_append N' (drop j segs) (length (snd (last segs)))
           (log2\<lparr>sl_start_index := (case sl_first_index log2 of Some i \<Rightarrow> i | None \<Rightarrow> sat_inc through)\<rparr>)"
proof -
  let ?rest = "drop j segs" and ?log1 = "log1\<lparr>sl_resident_records := resident\<rparr>"
  note lo = log_okD [OF ok]
  have last: "last ?rest = last segs" using j by simp
  have t: "segs_ok crc32c crc32c_append N ?rest" "disk_ok crc32c crc32c_append ?rest (length (snd (last segs))) (sl_disk log1)"
      "sealed_ok crc32c crc32c_append (butlast ?rest) (sl_disk log1) (sl_sealed_indexes log1)"
      "checksums_ok crc32c crc32c_append ?rest (sl_checksums log1)"
    using tables by (simp_all add: tables_ok_def)
  have "tables_ok crc32c crc32c_append N ?rest (length (snd (last segs))) ?log1" using tables by (simp add: tables_ok_def)
  then have agg: "sl_first_index log2 = (if all_records ?rest = [] then None else Some (r_index (hd (all_records ?rest))))"
      "sl_last_index log2 = (if all_records ?rest = [] then None else Some (r_index (last (all_records ?rest))))"
    unfolding log2_def by (rule aggregates_ok; simp add: res)+
  have so: "segs_ok crc32c crc32c_append N' ?rest"
  proof (cases "all_records ?rest = []")
    case True
    have "unat (sat_inc through) < 2 ^ 64" using unsigned_less [of "sat_inc through"] by simp
    then show ?thesis using segs_ok_empty [OF t(1) True through [OF True]] True by (simp add: N'_def)
  qed (use t(1) in \<open>simp add: N'_def\<close>)
  have bytes: "fi_bytes (file_at log1 (segment_path (fst (last segs)))) = frames (record_bytes crc32c crc32c_append) (snd (last segs))"
    using tail_complete [of _ _ ?rest log1] t(2) last by simp
  have core: "sl_current_path log1 = segment_path (fst (last segs))"
      "sl_current_len log1 = length (frames (record_bytes crc32c crc32c_append) (snd (last segs)))" "sl_max_segment_bytes log1 < 2 ^ 63"
    using same lo(3,5,10) by (simp_all add: same_core_def)
  have at: "file_at (log2\<lparr>sl_start_index := i\<rparr>) = file_at log1" for i
    by (simp add: log2_def refresh_aggregates_def file_at_def fun_eq_iff)
  have bounds: "bounds_ok N' ?rest (log2\<lparr>sl_start_index := (case sl_first_index log2 of Some i \<Rightarrow> i | None \<Rightarrow> sat_inc through)\<rparr>)"
    using agg by (simp add: bounds_ok_def Let_def N'_def)
  show ?thesis
    unfolding log_ok_def using so t(2-4) core bytes bounds last at
    by (simp add: log2_def res)
qed

lemma purged_through:
  assumes ok: "segs_ok crc32c crc32c_append N segs" and j: "j = purgeable through retained segs" "0 < j"
    and "all_records (drop j segs) = []"
  shows "N \<le> unat (sat_inc through)"
proof -
  note sd = segs_okD [OF ok]
  let ?rs = "all_records segs"
  have less: "j < length segs" using purgeable_less [OF sd(1)] j(1) by simp
  have all: "?rs = all_records (take j segs)"
    using assms(4) by (metis all_records_simps(3) append_Nil2 append_take_drop_id)
  have seg: "rs \<noteq> [] \<and> (\<forall>r \<in> set rs. r_index r \<le> through)" if b: "(b, rs) \<in> set (take j segs)" for b rs
  proof -
    let ?P = "\<lambda>(b, rs). segment_path b |\<notin>| retained \<and> (\<forall>r \<in> set rs. r_index r \<le> through)"
    have "take j segs = take j (butlast segs)" using less by (simp add: take_butlast)
    also have "\<dots> = takeWhile ?P (butlast segs)" unfolding j(1) purgeable_def by (metis takeWhile_eq_take)
    finally have m: "(b, rs) \<in> set (takeWhile ?P (butlast segs))" using b by simp
    then show ?thesis using set_takeWhileD [OF m] bspec [OF sd(3), of "(b, rs)"] by auto
  qed
  have low: "r_index r \<le> through" if "r \<in> set ?rs" for r
  proof -
    have "r \<in> set (all_records (take j segs))" using that all by simp
    then obtain b rs where "(b, rs) \<in> set (take j segs)" "r \<in> set rs" by (auto simp: all_records_def)
    then show ?thesis using seg by blast
  qed
  have "segs ! 0 \<in> set (take j segs)" using j(2) less by (auto simp: in_set_conv_nth intro!: exI [of _ 0])
  then have "snd (segs ! 0) \<noteq> []" "set (snd (segs ! 0)) \<subseteq> set ?rs"
    using seg [of "fst (segs ! 0)" "snd (segs ! 0)"] unfolding all by (auto simp: all_records_def)
  then have ne: "?rs \<noteq> []" by auto
  have "unat (r_index (last ?rs)) = N - length ?rs + (length ?rs - 1)"
    using sd(7) ne by (simp add: indexed_from_def last_conv_nth)
  moreover have "length ?rs > 0" using ne by simp
  ultimately have "unat (r_index (last ?rs)) = N - 1" using sd(6) by linarith
  moreover have "unat (r_index (last ?rs)) \<le> unat through" using low ne by (simp add: word_le_nat_alt)
  ultimately show ?thesis using sd(9) by (simp add: unat_sat_inc)
qed

lemma purge_inner_ok:
  assumes ok: "log_ok crc32c crc32c_append N segs k log"
    and run: "purge_inner io through retained log = (result, log', trace)" and j: "j = purgeable through retained segs"
  shows "(\<forall>disk \<in> set (sl_disk log' # trace). \<exists>i \<le> j. disk_ok crc32c crc32c_append (drop i segs) k disk)
         \<and> (\<forall>n. result = Inr n \<longrightarrow> n = j \<and> sl_isolated log' = sl_isolated log
              \<and> (\<exists>N' k'. log_ok crc32c crc32c_append N' (drop j segs) k' log' \<and> (all_records (drop j segs) \<noteq> [] \<longrightarrow> N' = N)))"
proof -
  note lo = log_okD [OF ok] and sd = segs_okD [OF log_okD(1) [OF ok]]
  have less: "j < length segs" using purgeable_less [OF sd(1)] j by simp
  have dom: "fmdom (sd_segments (sl_disk log)) = fset_of_list (seg_names segs)" using lo(2) by (simp add: disk_ok_def)
  have paths: "segment_paths (sl_disk log) = Inr (seg_names segs)" by (rule segment_paths_names [OF dom sd(2)])
  have rem: "removable log through retained (seg_names segs) = seg_names (take j segs)"
    using removable_ok [OF ok, of "[]" segs] sd(1) j by simp
  have d0: "\<exists>i \<le> j. disk_ok crc32c crc32c_append (drop i segs) k (sl_disk log1)" if "log_ok crc32c crc32c_append N segs k log1" for log1
    using log_okD(2) [OF that] by (intro exI [of _ 0]) simp
  show ?thesis
  proof (cases "j = 0")
    case True
    then have "result = Inr 0" "log' = log" "trace = []" using run paths rem by (auto simp: purge_inner_def Let_def)
    then show ?thesis using d0 [OF ok] ok True by auto
  next
    case False
    then have ne: "seg_names (take j segs) \<noteq> []" using less by (auto simp: seg_names_def)
    obtain r1 log1 where sync: "sync_current (io 0) log = (r1, log1)" by fastforce
    note s = sync_current_ok [OF ok sync]
    show ?thesis
    proof (cases r1)
      case (Inl e)
      then have "result = Inl e" "log' = log1" "trace = []" using run paths rem ne sync by (auto simp: purge_inner_def Let_def)
      then show ?thesis using d0 [OF s(1)] by simp
    next
      case (Inr u)
      note full = s(2) [OF Inr [simplified]]
      show ?thesis
      proof (cases "seg_call (io 1)")
        case (Inl e)
        then have "result = Inl e" "log' = log1" "trace = []" using run paths rem ne sync Inr by (auto simp: purge_inner_def Let_def)
        then show ?thesis using d0 [OF s(1)] by simp
      next
        case dir: (Inr u)
        obtain r2 log2 trace2 where loop: "remove_segments io 2 (seg_names (take j segs)) log1 = (r2, log2, trace2)"
          by (metis prod_cases3)
        have t: "tables_ok crc32c crc32c_append N segs k log1" "tables_ok crc32c crc32c_append N segs (length (snd (last segs))) log1"
          using log_okD [OF s(1)] log_okD [OF full] by (simp_all add: tables_ok_def)
        note l = remove_segments_ok [OF t(1) less loop] and lf = remove_segments_ok [OF t(2) less loop]
        let ?b = "fst (segs ! (j - 1))" and ?rs = "snd (segs ! (j - 1))"
        have "seg_names (take j segs) = seg_names (take (j - 1) segs) @ [segment_path ?b]"
          using take_Suc_conv_app_nth [of "j - 1" segs] less False by (simp add: seg_names_def case_prod_beta)
        then have lastp: "last (seg_names (take j segs)) = segment_path ?b" by simp
        have mem: "(?b, ?rs) \<in> set segs" using less by simp
        have "butlast segs ! (j - 1) = segs ! (j - 1)" "j - 1 < length (butlast segs)" using less False by (simp_all add: nth_butlast)
        then have "segs ! (j - 1) \<in> set (butlast segs)" by (metis nth_mem)
        from bspec [OF sd(3) this] have "?rs \<noteq> []" by (simp add: case_prod_beta)
        then have range: "record_index_range log1 (segment_path ?b) = Some (r_index (hd ?rs), r_index (last ?rs))"
          using record_index_range_ok [OF s(1) mem] by simp
        define log3 where "log3 = refresh_aggregates (log2\<lparr>sl_resident_records :=
            filter (\<lambda>record. loc_index record > r_index (last ?rs)) (sl_resident_records log2)\<rparr>)"
        define log4 where "log4 = log3\<lparr>sl_start_index := (case sl_first_index log3 of Some i \<Rightarrow> i | None \<Rightarrow> sat_inc through)\<rparr>"
        have out: "(result, log', trace) = (case r2 of Inl e \<Rightarrow> (Inl e, log2, trace2) | Inr _ \<Rightarrow>
            (case seg_call (io (2 + 3 * length (seg_names (take j segs)))) of Inl e \<Rightarrow> (Inl e, log4, trace2)
               | Inr _ \<Rightarrow> (Inr (length (seg_names (take j segs))), log4, trace2)))"
          unfolding run [symmetric] using paths rem ne sync Inr dir loop lastp range
          by (simp add: purge_inner_def Let_def log3_def log4_def split: sum.split)
        show ?thesis
        proof (cases r2)
          case (Inl e)
          then show ?thesis using out l by simp
        next
          case r2: (Inr u)
          have ok2: "tables_ok crc32c crc32c_append N (drop j segs) (length (snd (last segs))) log2" and same: "same_core log1 log2"
              and agree: "\<And>path. path \<notin> set (seg_names (take j segs)) \<Longrightarrow>
                   fmlookup (sl_sealed_indexes log2) path = fmlookup (sl_sealed_indexes log1) path"
            using lf r2 by auto
          have res: "filter (\<lambda>record. loc_index record > r_index (last ?rs)) (sl_resident_records log2)
              = resident_of (sl_sealed_indexes log2) (drop j segs)"
            using purge_resident [OF log_okD(1) [OF s(1)] _ less agree] False same log_okD(6) [OF s(1)] by (simp add: same_core_def)
          have "log_ok crc32c crc32c_append (if all_records (drop j segs) = [] then unat (sat_inc through) else N) (drop j segs)
              (length (snd (last segs))) log4"
            unfolding log4_def log3_def
            by (rule purge_finish [OF s(1) less ok2 same res purged_through [OF lo(1) j]]) (use False in simp_all)
          moreover have "sl_isolated log4 = sl_isolated log" "sl_disk log4 = sl_disk log2" "length (seg_names (take j segs)) = j"
            using same s(4) less by (simp_all add: log4_def log3_def same_core_def seg_names_def)
          ultimately show ?thesis using out r2 l by (auto split: sum.splits if_splits)
        qed
      qed
    qed
  qed
qed

lemma segs_ok_drop:
  "segs_ok crc32c crc32c_append N segs \<Longrightarrow> i < length segs \<Longrightarrow> segs_ok crc32c crc32c_append N (drop i segs)"
proof (induction i arbitrary: segs)
  case (Suc i)
  obtain s rest where segs: "segs = s # rest" using Suc.prems(2) by (cases segs) auto
  then have "rest \<noteq> []" "i < length rest" using Suc.prems(2) by auto
  then show ?case using Suc.IH [of rest] segs_ok_tl [of _ _ _ s rest] Suc.prems(1) segs by simp
qed simp

text \<open>With every system call succeeding, a purge succeeds.\<close>

lemma remove_segments_total: "\<exists>log' trace. remove_segments (\<lambda>_. None) c paths log = (Inr (), log', trace)"
proof (induction paths arbitrary: c log)
  case (Cons path paths)
  obtain log1 trace where "remove_segments (\<lambda>_. None) (c + 3) paths
      (log\<lparr>sl_disk := drop_index path (drop_segment path (sl_disk log)), sl_checksums := fmdrop path (sl_checksums log),
           sl_sealed_indexes := fmdrop path (sl_sealed_indexes log)\<rparr>) = (Inr (), log1, trace)"
    using Cons.IH by metis
  then show ?case by (simp add: seg_call_def Let_def)
qed simp

lemma purge_inner_total:
  assumes ok: "log_ok crc32c crc32c_append N segs k log"
  shows "\<exists>n log' trace. purge_inner (\<lambda>_. None) through retained log = (Inr n, log', trace)"
proof -
  have "fmdom (sd_segments (sl_disk log)) = fset_of_list (seg_names segs)" using log_okD(2) [OF ok] by (simp add: disk_ok_def)
  then have "segment_paths (sl_disk log) = Inr (seg_names segs)"
    using segment_paths_names segs_okD(2) [OF log_okD(1) [OF ok]] by blast
  moreover obtain log1 where "sync_current None log = (Inr (), log1)" by (simp add: sync_current_def sync_file_def)
  moreover obtain log2 trace where "remove_segments (\<lambda>_. None) 2 (removable log through retained (seg_names segs)) log1 = (Inr (), log2, trace)"
    using remove_segments_total by metis
  ultimately show ?thesis by (simp add: purge_inner_def Let_def seg_call_def)
qed

text \<open>
  C23: A purge removes exactly what its contract allows: the longest prefix of segments that
  spares the active segment and holds neither a retained segment nor a record behind
  \<open>through\<close>. On success the log is the rest of the segments, its aggregates and its next index
  included. On failure the log is isolated. In either case a crash at any point of the purge
  leaves a directory that opens as the log with some of those segments gone and no durable
  record behind them lost.\<close>

theorem segment_purge_exact:
  assumes ok: "log_ok crc32c crc32c_append N segs k log" and "\<not> sl_isolated log" and laws: "crc_laws crc32c crc32c_append"
    and run: "purge_prefix_retaining io through retained log = (result, log', trace)"
    and j: "j = purgeable through retained segs" and "max_bytes < 2 ^ 63"
  shows "(case result of
            Inr n \<Rightarrow> n = j \<and> \<not> sl_isolated log'
              \<and> (\<exists>N' k'. log_ok crc32c crc32c_append N' (drop j segs) k' log' \<and> (all_records (drop j segs) \<noteq> [] \<longrightarrow> N' = N))
          | Inl e \<Rightarrow> sl_isolated log')
         \<and> (\<forall>disk \<in> set (sl_disk log' # trace). \<forall>image. crash_disk disk image \<longrightarrow>
              (\<exists>i \<le> j. \<exists>m reopened. open_log log_opens crc32c crc32c_append image max_bytes start level = Some (Inr reopened)
                 \<and> k \<le> m \<and> m \<le> length (snd (last segs))
                 \<and> log_ok crc32c crc32c_append (cut_next N m (drop i segs)) (cut_tail m (drop i segs)) k reopened))"
proof -
  note sd = segs_okD [OF log_okD(1) [OF ok]]
  have less: "j < length segs" using purgeable_less [OF sd(1)] j by simp
  obtain result1 log1 trace1 where inner: "purge_inner io through retained log = (result1, log1, trace1)" by (metis prod_cases3)
  note p = purge_inner_ok [OF ok inner j]
  have out: "result = result1" "trace = trace1" "sl_disk log' = sl_disk log1"
      "log' = (case result1 of Inl e \<Rightarrow> isolate log1 | Inr _ \<Rightarrow> log1)"
    using run inner assms(2)
    by (auto simp: purge_prefix_retaining_def log_available_def isolate_def split: sum.splits)
  have crash: "\<exists>i \<le> j. \<exists>m reopened. open_log log_opens crc32c crc32c_append image max_bytes start level = Some (Inr reopened)
                 \<and> k \<le> m \<and> m \<le> length (snd (last segs))
                 \<and> log_ok crc32c crc32c_append (cut_next N m (drop i segs)) (cut_tail m (drop i segs)) k reopened"
    if d: "disk \<in> set (sl_disk log' # trace)" and c: "crash_disk disk image" for disk image
  proof -
    obtain i where i: "i \<le> j" "disk_ok crc32c crc32c_append (drop i segs) k disk" using p d out(2,3) by auto
    have so: "segs_ok crc32c crc32c_append N (drop i segs)" by (rule segs_ok_drop [OF log_okD(1) [OF ok]]) (use i less in simp)
    have "last (drop i segs) = last segs" using i less by simp
    then show ?thesis
      using open_log_ok [OF so disk_ok_crash [OF i(2) c segs_okD(1) [OF so]] laws assms(6), of start level] i(1) by auto
  qed
  have "case result of Inr n \<Rightarrow> n = j \<and> \<not> sl_isolated log'
              \<and> (\<exists>N' k'. log_ok crc32c crc32c_append N' (drop j segs) k' log' \<and> (all_records (drop j segs) \<noteq> [] \<longrightarrow> N' = N))
          | Inl e \<Rightarrow> sl_isolated log'"
    using p out assms(2) by (cases result1) (auto simp: isolate_def)
  then show ?thesis using crash by blast
qed

theorem segment_purge_exact_witness:
  "\<exists>log log' trace. open_log log_opens (sum_append 0) sum_append (disk_of (sum_append 0) sum_append sample_segs) 100 0 5 = Some (Inr log)
     \<and> purge_prefix_retaining (\<lambda>_. None) 8 {||} log = (Inr 1, log', trace)
     \<and> (\<exists>N' k'. log_ok (sum_append 0) sum_append N' [(9, [sample_record\<lparr>r_index := 9\<rparr>]), (10, [])] k' log')"
proof -
  have i: "r_index sample_record = 7" by (simp add: sample_record_def)
  have "all_records sample_segs \<noteq> []" by (simp add: sample_segs_def)
  then obtain log where log: "open_log log_opens (sum_append 0) sum_append (disk_of (sum_append 0) sum_append sample_segs) 100 0 5 = Some (Inr log)"
      "log_ok (sum_append 0) sum_append 10 sample_segs (length (snd (last sample_segs))) log" "\<not> sl_isolated log"
    using open_disk_of [OF sample_segs_ok sum_append_laws, of 100 0 5] by auto
  have j: "1 = purgeable 8 {||} sample_segs" by (simp add: purgeable_def sample_segs_def i)
  obtain result log' trace where run: "purge_prefix_retaining (\<lambda>_. None) 8 {||} log = (result, log', trace)" by (metis prod_cases3)
  have res: "\<exists>n. result = Inr n"
    using run log(3) purge_inner_total [OF log(2), of 8 "{||}"]
    by (auto simp: purge_prefix_retaining_def log_available_def split: sum.splits prod.splits)
  have rest: "drop 1 sample_segs = [(9, [sample_record\<lparr>r_index := 9\<rparr>]), (10, [])]" by (simp add: sample_segs_def)
  have "result = Inr 1 \<and> (\<exists>N' k'. log_ok (sum_append 0) sum_append N' (drop 1 sample_segs) k' log')"
    using res segment_purge_exact [OF log(2,3) sum_append_laws run j, of 100 0 5] by fastforce
  then show ?thesis using log(1) run unfolding rest by blast
qed

section \<open>Sidecars\<close>

lemma sidecars_ok_upd:
  assumes "sidecars_ok crc32c crc32c_append segs indexes" and "(b, rs) \<in> set (butlast segs)"
    and "length md < 2 ^ 32" and "length rs < 2 ^ 32"
  shows "sidecars_ok crc32c crc32c_append segs
           (fmupd (segment_path b) (sidecar crc32c crc32c_append (segment_path b) rs md) indexes)"
  using assms unfolding sidecars_ok_def by (metis fmupd_lookup option.inject)

lemma log_ok_sidecar:
  assumes ok: "log_ok crc32c crc32c_append N segs k log" and b: "(b, rs) \<in> set (butlast segs)"
    and len: "length md < 2 ^ 32" "length rs < 2 ^ 32" and fresh: "fmlookup (sl_sealed_indexes log) (segment_path b) = None"
  defines "disk \<equiv> (sl_disk log)\<lparr>sd_indexes := fmupd (segment_path b) (sidecar crc32c crc32c_append (segment_path b) rs md)
                      (sd_indexes (sl_disk log))\<rparr>"
  shows "log_ok crc32c crc32c_append N segs k (log\<lparr>sl_disk := disk\<rparr>)"
    and "log_ok crc32c crc32c_append N segs k
           (log\<lparr>sl_disk := disk,
                sl_sealed_indexes := fmupd (segment_path b) (sidecar_summary crc32c crc32c_append (segment_path b) rs md) (sl_sealed_indexes log),
                sl_resident_records := filter (\<lambda>l. loc_segment l \<noteq> segment_path b) (sl_resident_records log)\<rparr>)"
proof -
  note lo = log_okD [OF ok] and sd = segs_okD [OF log_okD(1) [OF ok]]
  let ?p = "segment_path b" and ?sealed = "sl_sealed_indexes log"
  have d: "disk_ok crc32c crc32c_append segs k disk"
    using lo(2) sidecars_ok_upd [OF _ b len] by (simp add: disk_ok_def disk_def)
  have at: "file_at (log\<lparr>sl_disk := disk\<rparr>) = file_at log" by (simp add: file_at_def disk_def fun_eq_iff)
  have old: "sealed_ok crc32c crc32c_append (butlast segs) disk ?sealed"
    unfolding sealed_ok_def
  proof (intro allI impI)
    fix path summary assume s: "fmlookup ?sealed path = Some summary"
    then have "path \<noteq> ?p" using fresh by auto
    then have "fmlookup (sd_indexes disk) path = fmlookup (sd_indexes (sl_disk log)) path" by (simp add: disk_def)
    then show "\<exists>b rs md. (b, rs) \<in> set (butlast segs) \<and> path = segment_path b
         \<and> fmlookup (sd_indexes disk) path = Some (sidecar crc32c crc32c_append path rs md)
         \<and> summary = sidecar_summary crc32c crc32c_append path rs md \<and> length rs < 2 ^ 32"
      using lo(7) s unfolding sealed_ok_def by simp
  qed
  have new: "sealed_ok crc32c crc32c_append (butlast segs) disk (fmupd ?p (sidecar_summary crc32c crc32c_append ?p rs md) ?sealed)"
    unfolding sealed_ok_def
  proof (intro allI impI)
    fix path summary assume s: "fmlookup (fmupd ?p (sidecar_summary crc32c crc32c_append ?p rs md) ?sealed) path = Some summary"
    show "\<exists>b rs md. (b, rs) \<in> set (butlast segs) \<and> path = segment_path b
         \<and> fmlookup (sd_indexes disk) path = Some (sidecar crc32c crc32c_append path rs md)
         \<and> summary = sidecar_summary crc32c crc32c_append path rs md \<and> length rs < 2 ^ 32"
    proof (cases "path = ?p")
      case True
      then show ?thesis using s b len(2) by (intro exI [of _ b] exI [of _ rs] exI [of _ md]) (simp add: disk_def)
    next
      case False
      then show ?thesis using s old unfolding sealed_ok_def by simp
    qed
  qed
  have res: "filter (\<lambda>l. loc_segment l \<noteq> ?p) (resident_of ?sealed segs) = resident_of (fmupd ?p s ?sealed) segs" for s
  proof -
    have part: "filter (\<lambda>l. loc_segment l \<noteq> ?p) (if segment_path b' |\<in>| fmdom ?sealed then [] else locations (segment_path b') rs')
       = (if segment_path b' |\<in>| fmdom (fmupd ?p s ?sealed) then [] else locations (segment_path b') rs')" for b' rs'
      using locations_segment [of _ "segment_path b'" rs'] by (auto simp: filter_empty_conv filter_id_conv)
    show ?thesis unfolding resident_of_def filter_concat map_map comp_def
      by (intro arg_cong [where f = concat] map_cong refl) (simp add: part case_prod_beta)
  qed
  have bounds: "bounds_ok N segs (log\<lparr>sl_disk := disk, sl_sealed_indexes := s, sl_resident_records := r\<rparr>)" for s r
    using lo(9) by (simp add: bounds_ok_def Let_def)
  show "log_ok crc32c crc32c_append N segs k (log\<lparr>sl_disk := disk\<rparr>)"
    using ok d at old lo(9) unfolding log_ok_def by (simp add: bounds_ok_def Let_def)
  have at2: "file_at (log\<lparr>sl_disk := disk, sl_sealed_indexes := s, sl_resident_records := r\<rparr>) = file_at log" for s r
    by (simp add: file_at_def disk_def fun_eq_iff)
  show "log_ok crc32c crc32c_append N segs k
           (log\<lparr>sl_disk := disk,
                sl_sealed_indexes := fmupd ?p (sidecar_summary crc32c crc32c_append ?p rs md) ?sealed,
                sl_resident_records := filter (\<lambda>l. loc_segment l \<noteq> ?p) (sl_resident_records log)\<rparr>)"
    using lo d at2 new res bounds unfolding log_ok_def by simp
qed

lemma load_metadata_sidecar:
  assumes "fmlookup (sd_indexes disk) path = Some (sidecar crc32c crc32c_append path rs md)"
  shows "load_metadata disk path (sidecar_summary crc32c crc32c_append path rs md) = Inr md"
proof -
  let ?F = "frames (record_bytes crc32c crc32c_append) rs"
  let ?ib = "index_bytes crc32c crc32c_append (length ?F) (crc32c_append 0 ?F) (locations path rs) md"
  have body: "length (concat (map location_bytes (locations path rs))) = 24 * length rs"
    by (induction rs arbitrary: ) (simp_all add: length_concat comp_def sum_list_triv)
  have len: "length ?ib = 64 + 24 * length rs + length md" by (simp add: length_index_bytes)
  have "drop (64 + length rs * 24) ?ib = md"
    unfolding index_bytes_def using body by (simp add: mult.commute)
  then have "read_exact_at (length md) (64 + length rs * 24) ?ib = Inr md"
    using len by (simp add: read_exact_at_def slice_def)
  then show ?thesis
    using assms by (simp add: load_metadata_def sidecar_def sidecar_summary_def summary_of_def Let_def index_header_len_def location_len_def)
qed

text \<open>What writing a sidecar does, on every branch.\<close>

definition with_sidecar ::
  "(byte list \<Rightarrow> u32) \<Rightarrow> (u32 \<Rightarrow> byte list \<Rightarrow> u32) \<Rightarrow> u64 \<Rightarrow> log_record list \<Rightarrow> byte list \<Rightarrow> segment_log \<Rightarrow> segment_log" where
  "with_sidecar crc32c crc32c_append b rs metadata log =
     log\<lparr>sl_disk := (sl_disk log)\<lparr>sd_indexes := fmupd (segment_path b)
          (sidecar crc32c crc32c_append (segment_path b) rs metadata) (sd_indexes (sl_disk log))\<rparr>\<rparr>"

definition sealed_with ::
  "(byte list \<Rightarrow> u32) \<Rightarrow> (u32 \<Rightarrow> byte list \<Rightarrow> u32) \<Rightarrow> u64 \<Rightarrow> log_record list \<Rightarrow> byte list \<Rightarrow> segment_log \<Rightarrow> segment_log" where
  "sealed_with crc32c crc32c_append b rs metadata log =
     (with_sidecar crc32c crc32c_append b rs metadata log)
       \<lparr>sl_sealed_indexes := fmupd (segment_path b) (sidecar_summary crc32c crc32c_append (segment_path b) rs metadata) (sl_sealed_indexes log),
        sl_resident_records := filter (\<lambda>l. loc_segment l \<noteq> segment_path b) (sl_resident_records log)\<rparr>"

lemma persist_recovery_index_eq:
  assumes ok: "log_ok crc32c crc32c_append N segs k log" and iso: "\<not> sl_isolated log" and b: "(b, rs) \<in> set (butlast segs)"
  shows "persist_recovery_index crc32c crc32c_append fault (segment_path b) metadata log =
     (if length rs \<ge> 2 ^ 32 then (Inl (index_invalid ''too many recovery index locations''), log)
      else if length metadata \<ge> 2 ^ 32 then (Inl (index_invalid ''recovery index metadata is too large''), log)
      else (case fault of BeforeRename e \<Rightarrow> (Inl (StIo e), log)
            | AfterRename e \<Rightarrow> (Inl (StIo e), with_sidecar crc32c crc32c_append b rs metadata log)
            | NoFault \<Rightarrow> if 64 + 24 * length rs + length metadata > max_index_bytes
                then (Inl (index_invalid ''recovery index size is invalid''), with_sidecar crc32c crc32c_append b rs metadata log)
                else (Inr (), sealed_with crc32c crc32c_append b rs metadata log)))"
proof -
  note lo = log_okD [OF ok] and sd = segs_okD [OF log_okD(1) [OF ok]]
  let ?p = "segment_path b" and ?F = "frames (record_bytes crc32c crc32c_append) rs"
  have mem: "(b, rs) \<in> set segs" using in_set_butlastD [OF b] .
  have notcur: "?p \<noteq> sl_current_path log"
  proof -
    have "segs = butlast segs @ [last segs]" using sd(1) by simp
    then have "sorted_wrt (<) (map fst (butlast segs) @ [fst (last segs)])" using sd(2) by (metis list.simps(8,9) map_append)
    moreover have "b \<in> set (map fst (butlast segs))" using b by force
    ultimately have "b < fst (last segs)" by (auto simp: sorted_wrt_append)
    then show ?thesis using lo(3) by simp
  qed
  have sum: "fmlookup (sl_checksums log) ?p = Some (length ?F, crc32c_append 0 ?F)"
    using lo(8) mem by (auto simp: checksums_ok_def Let_def)
  note locs = locations_for_segment_ok [OF ok mem]
  obtain n where n: "indexed_from n rs" using records_of_segment(1) [OF lo(1) mem] ..
  have flen: "length ?F < 2 ^ 63" using bspec [OF sd(4) mem] by simp
  have summary: "load_summary crc32c (Some (sidecar crc32c crc32c_append ?p rs metadata))
      = (if 64 + 24 * length rs + length metadata > max_index_bytes then Inl (index_invalid ''recovery index size is invalid'')
         else Inr (Some (sidecar_summary crc32c crc32c_append ?p rs metadata)))" if "length metadata < 2 ^ 32" "length rs < 2 ^ 32"
    using load_summary_index [OF indexable_locations [OF n flen]] that by (simp add: sidecar_def sidecar_summary_def Let_def)
  show ?thesis
    using iso notcur sum locs summary
    by (simp add: persist_recovery_index_def log_available_def store_index_def Let_def with_sidecar_def sealed_with_def
        sidecar_def split: replace_fault.split)
qed

text \<open>
  C24: Writing the sidecar of a sealed segment changes nothing a reader can see, whether it
  succeeds, fails before or after the rename, or is refused: the log stays well formed over the
  same segments and every read returns what it returned before. When it succeeds, the metadata
  stored with it reads back unchanged; and it succeeds whenever no call fails and the sidecar
  stays within its size limit.\<close>

theorem segment_sidecar_transparent:
  assumes ok: "log_ok crc32c crc32c_append N segs k log" and "\<not> sl_isolated log"
    and b: "(b, rs) \<in> set (butlast segs)" and fresh: "fmlookup (sl_sealed_indexes log) (segment_path b) = None"
    and run: "persist_recovery_index crc32c crc32c_append fault (segment_path b) metadata log = (result, log')"
  shows "log_ok crc32c crc32c_append N segs k log' \<and> sl_isolated log' = sl_isolated log
         \<and> fst (read_log crc32c crc32c_append index log') = fst (read_log crc32c crc32c_append index log)
         \<and> (result = Inr () \<longrightarrow> load_recovery_metadata log' (segment_path b) = Inr (Some metadata))
         \<and> (fault = NoFault \<and> length rs < 2 ^ 32 \<and> 64 + 24 * length rs + length metadata \<le> max_index_bytes
            \<longrightarrow> result = Inr ())"
proof -
  let ?p = "segment_path b"
  note out = persist_recovery_index_eq [OF ok assms(2) b, of fault metadata, unfolded run]
  have small: "length metadata < 2 ^ 32 \<and> length rs < 2 ^ 32"
    if "64 + 24 * length rs + length metadata \<le> max_index_bytes" using that by (simp add: max_index_bytes_def)
  have ok': "log_ok crc32c crc32c_append N segs k log'"
    using out ok log_ok_sidecar [OF ok b _ _ fresh, of metadata]
    by (auto simp: with_sidecar_def sealed_with_def split: replace_fault.splits if_splits)
  moreover have "sl_isolated log' = sl_isolated log"
    using out by (auto simp: with_sidecar_def sealed_with_def split: replace_fault.splits if_splits)
  moreover have "load_recovery_metadata (sealed_with crc32c crc32c_append b rs metadata log) ?p = Inr (Some metadata)"
    using load_metadata_sidecar [of "sl_disk (with_sidecar crc32c crc32c_append b rs metadata log)" ?p crc32c crc32c_append rs metadata]
    by (simp add: load_recovery_metadata_def sealed_with_def with_sidecar_def)
  then have "result = Inr () \<longrightarrow> load_recovery_metadata log' ?p = Inr (Some metadata)"
    using out by (auto split: replace_fault.splits if_splits)
  moreover have "fault = NoFault \<and> length rs < 2 ^ 32 \<and> 64 + 24 * length rs + length metadata \<le> max_index_bytes \<longrightarrow> result = Inr ()"
    using out small by auto
  ultimately show ?thesis using read_log_ok [OF ok'] read_log_ok [OF ok] by simp
qed

text \<open>Opening reads sidecars and writes none.\<close>

lemma account_segment_disk: "account_segment path entry st = Inr st' \<Longrightarrow> os_disk st' = os_disk st"
  by (cases entry) (auto simp: account_segment_def Let_def and_then_def split: option.splits if_splits sum.splits)

lemma open_segment_indexes:
  "open_segment io crc32c crc32c_append last_path path st = Some (Inr st') \<Longrightarrow> sd_indexes (os_disk st') = sd_indexes (os_disk st)"
  by (auto simp: open_segment_def Let_def dest!: account_segment_disk split: option.splits if_splits sum.splits prod.splits)

lemma open_segments_indexes:
  "open_segments io crc32c crc32c_append last_path paths st = Some (Inr st') \<Longrightarrow> sd_indexes (os_disk st') = sd_indexes (os_disk st)"
  by (induction paths arbitrary: st) (auto dest: open_segment_indexes split: option.splits sum.splits)

lemma open_log_indexes:
  "open_log io crc32c crc32c_append disk max_bytes start level = Some (Inr log) \<Longrightarrow> sd_indexes (sl_disk log) = sd_indexes disk"
  by (auto simp: open_log_def prepare_log_def Let_def new_open_state_def and_then_Inr_iff dest!: open_segments_indexes open_segment_indexes
      split: option.splits if_splits sum.splits)

lemma unsealed_without_sidecar:
  assumes "log_ok crc32c crc32c_append N segs k log" and "fmlookup (sd_indexes (sl_disk log)) path = None"
  shows "fmlookup (sl_sealed_indexes log) path = None"
  using log_okD(7) [OF assms(1)] assms(2) unfolding sealed_ok_def by (metis not_None_eq)

theorem segment_sidecar_transparent_witness:
  "\<exists>log log'. open_log log_opens (sum_append 0) sum_append (disk_of (sum_append 0) sum_append sample_segs) 100 0 5 = Some (Inr log)
     \<and> persist_recovery_index (sum_append 0) sum_append NoFault (segment_path 7) [1, 2, 3] log = (Inr (), log')
     \<and> load_recovery_metadata log' (segment_path 7) = Inr (Some [1, 2, 3])
     \<and> fst (read_log (sum_append 0) sum_append 8 log') = fst (read_log (sum_append 0) sum_append 8 log)"
proof -
  have "all_records sample_segs \<noteq> []" by (simp add: sample_segs_def)
  then obtain log where log: "open_log log_opens (sum_append 0) sum_append (disk_of (sum_append 0) sum_append sample_segs) 100 0 5 = Some (Inr log)"
      "log_ok (sum_append 0) sum_append 10 sample_segs (length (snd (last sample_segs))) log" "\<not> sl_isolated log"
    using open_disk_of [OF sample_segs_ok sum_append_laws, of 100 0 5] by auto
  have b: "(7, [sample_record, sample_record\<lparr>r_index := 8\<rparr>]) \<in> set (butlast sample_segs)" by (simp add: sample_segs_def)
  have fresh: "fmlookup (sl_sealed_indexes log) (segment_path 7) = None"
    using unsealed_without_sidecar [OF log(2)] open_log_indexes [OF log(1)] by (simp add: disk_of_def)
  obtain result log' where run: "persist_recovery_index (sum_append 0) sum_append NoFault (segment_path 7) [1, 2, 3] log = (result, log')"
    by fastforce
  show ?thesis
    using segment_sidecar_transparent [OF log(2,3) b fresh run, of 8] log(1) run by (auto simp: max_index_bytes_def)
qed

end
