(* ===== verification/Topic_Recovery.thy ===== *)
theory Topic_Recovery
  imports Batch Segment_Maint
begin

text \<open>
  The metadata a Topic stores in the sidecar of a sealed segment:
  \<open>crates/queue/src/topic/recovery.rs\<close>. A header is followed by one checksummed entry of
  fixed length per message, so that a page of entries can be read on its own.
\<close>

definition recovery_magic :: "byte list" where "recovery_magic = [0x52, 0x51, 0x54, 0x4D]"
definition recovery_version :: u32 where "recovery_version = 2"
definition recovery_header_len :: nat where "recovery_header_len = 12"
definition message_len :: nat where "message_len = 60"

record recovery_summary =
  rs_count :: nat
  rs_first :: message_meta
  rs_last :: message_meta
  rs_min_available_at_ms :: i64
  rs_max_available_at_ms :: i64

definition entry_fields :: "message_meta \<Rightarrow> byte list" where
  "entry_fields m =
     to_be_bytes (mm_position m) @ to_be_bytes (mm_id m) @ i64_to_be_bytes (mm_timestamp_ns m)
     @ i64_to_be_bytes (mm_available_at_ms m) @ to_be_bytes (mm_log_index m)
     @ to_be_bytes (word_of_nat (pr_offset (mm_payload m)) :: u64) @ to_be_bytes (pr_len (mm_payload m))
     @ to_be_bytes (pr_crc32c (mm_payload m))"

definition encode_entry :: "(byte list \<Rightarrow> u32) \<Rightarrow> message_meta \<Rightarrow> byte list" where
  "encode_entry crc32c m = entry_fields m @ to_be_bytes (crc32c (entry_fields m))"

definition encode_recovery :: "(byte list \<Rightarrow> u32) \<Rightarrow> message_meta list \<Rightarrow> byte list" where
  "encode_recovery crc32c messages =
     recovery_magic @ to_be_bytes recovery_version @ to_be_bytes (word_of_nat (length messages) :: u32)
     @ concat (map (encode_entry crc32c) messages)"

definition decode_recovery_header :: "byte list \<Rightarrow> broker_error + nat" where
  "decode_recovery_header bytes =
     (if length bytes < recovery_header_len \<or> slice 0 4 bytes \<noteq> recovery_magic
         \<or> from_be_bytes (slice 4 8 bytes) \<noteq> recovery_version
      then Inl (InvalidRecord ''topic recovery index header is invalid'')
      else Inr (unat (from_be_bytes (slice 8 12 bytes) :: u32)))"

definition decode_entry ::
  "(byte list \<Rightarrow> u32) \<Rightarrow> string \<Rightarrow> nat \<Rightarrow> byte list \<Rightarrow> broker_error + message_meta" where
  "decode_entry crc32c path segment_len bytes =
     (if length bytes \<noteq> message_len \<or> crc32c (slice 0 56 bytes) \<noteq> from_be_bytes (slice 56 60 bytes)
      then Inl (InvalidRecord ''topic recovery entry checksum mismatch'')
      else
        let position = from_be_bytes (slice 0 8 bytes) :: u64;
            msg_id = from_be_bytes (slice 8 16 bytes) :: u64;
            timestamp_ns = i64_from_be_bytes (slice 16 24 bytes);
            available_at_ms = i64_from_be_bytes (slice 24 32 bytes);
            log_index = from_be_bytes (slice 32 40 bytes) :: u64;
            offset = unat (from_be_bytes (slice 40 48 bytes) :: u64);
            len = from_be_bytes (slice 48 52 bytes) :: u32;
            crc = from_be_bytes (slice 52 56 bytes) :: u32
        in if position = 0 \<or> msg_id = 0 \<or> len = 0 \<or> offset + unat len \<ge> 2 ^ 64 \<or> offset + unat len > segment_len
           then Inl (InvalidRecord ''topic recovery payload boundary is invalid'')
           else Inr \<lparr>mm_position = position, mm_id = msg_id, mm_timestamp_ns = timestamp_ns,
                     mm_available_at_ms = available_at_ms, mm_log_index = log_index,
                     mm_payload = \<lparr>pr_path = path, pr_offset = offset, pr_len = len, pr_crc32c = crc\<rparr>\<rparr>)"

text \<open>\<open>chunks_exact\<close>: whole chunks only; a shorter rest is left out.\<close>

fun decode_chunks ::
  "(byte list \<Rightarrow> u32) \<Rightarrow> string \<Rightarrow> nat \<Rightarrow> nat \<Rightarrow> byte list \<Rightarrow> broker_error + message_meta list" where
  "decode_chunks crc32c path segment_len 0 bytes = Inr []"
| "decode_chunks crc32c path segment_len (Suc n) bytes =
     and_then (decode_entry crc32c path segment_len (take message_len bytes)) (\<lambda>m.
     and_then (decode_chunks crc32c path segment_len n (drop message_len bytes)) (\<lambda>ms. Inr (m # ms)))"

definition read_page ::
  "(byte list \<Rightarrow> u32) \<Rightarrow> segment_disk \<Rightarrow> recovery_metadata_ref \<Rightarrow> nat \<Rightarrow> nat \<Rightarrow> broker_error + message_meta list" where
  "read_page crc32c disk reference first_ordinal count =
     (if count = 0 then Inr []
      else if first_ordinal * message_len \<ge> 2 ^ 64 then Inl (InvalidRecord ''topic index offset overflow'')
      else if count * message_len \<ge> 2 ^ 64 then Inl (InvalidRecord ''topic index page overflow'')
      else (case read_range disk reference (recovery_header_len + first_ordinal * message_len) (count * message_len) of
              Inl e \<Rightarrow> Inl (StorageErr e)
            | Inr bytes \<Rightarrow>
                decode_chunks crc32c (rm_segment reference) (rm_segment_len reference) (length bytes div message_len) bytes))"

text \<open>The variables of the loop in \<open>inspect\<close>, and what it does with one message.\<close>

record inspect_state =
  ip_min :: i64
  ip_max :: i64
  ip_first :: "message_meta option"
  ip_last :: "message_meta option"

fun inspect_page :: "message_meta list \<Rightarrow> inspect_state \<Rightarrow> broker_error + inspect_state" where
  "inspect_page [] st = Inr st"
| "inspect_page (m # ms) st =
     (if (case ip_last st of Some previous \<Rightarrow>
            mm_position m \<noteq> sat_inc (mm_position previous) \<or> mm_id m < mm_id previous | None \<Rightarrow> False)
      then Inl (InvalidRecord ''topic recovery index range is invalid'')
      else inspect_page ms
        (st\<lparr>ip_min := min (ip_min st) (mm_available_at_ms m), ip_max := max (ip_max st) (mm_available_at_ms m),
            ip_first := (case ip_first st of None \<Rightarrow> Some m | Some f \<Rightarrow> Some f), ip_last := Some m\<rparr>))"

function inspect_pages ::
  "(byte list \<Rightarrow> u32) \<Rightarrow> segment_disk \<Rightarrow> recovery_metadata_ref \<Rightarrow> nat \<Rightarrow> nat \<Rightarrow> inspect_state
   \<Rightarrow> broker_error + inspect_state" where
  "inspect_pages crc32c disk reference count ordinal st =
     (if ordinal < count then
        and_then (read_page crc32c disk reference ordinal (min (count - ordinal) 1024)) (\<lambda>page.
        and_then (inspect_page page st) (\<lambda>st.
          inspect_pages crc32c disk reference count (ordinal + min (count - ordinal) 1024) st))
      else Inr st)"
  by pat_completeness auto
termination by (relation "measure (\<lambda>(_, _, _, count, ordinal, _). count - ordinal)") auto

declare inspect_pages.simps [simp del]

definition inspect ::
  "(byte list \<Rightarrow> u32) \<Rightarrow> segment_disk \<Rightarrow> recovery_metadata_ref \<Rightarrow> broker_error + recovery_summary" where
  "inspect crc32c disk reference =
     (case read_range disk reference 0 recovery_header_len of
        Inl e \<Rightarrow> Inl (StorageErr e)
      | Inr header \<Rightarrow>
          and_then (decode_recovery_header header) (\<lambda>count.
            if count = 0 then Inl (InvalidRecord ''topic recovery index is empty'')
            else if rm_len reference \<noteq> recovery_header_len + count * message_len
            then Inl (InvalidRecord ''topic recovery index length mismatch'')
            else and_then (inspect_pages crc32c disk reference count 0
                   \<lparr>ip_min = i64_max, ip_max = i64_min, ip_first = None, ip_last = None\<rparr>) (\<lambda>st.
              (case (ip_first st, ip_last st) of
                 (Some first, Some last_message) \<Rightarrow>
                   Inr \<lparr>rs_count = count, rs_first = first, rs_last = last_message,
                        rs_min_available_at_ms = ip_min st, rs_max_available_at_ms = ip_max st\<rparr>
               | _ \<Rightarrow> Inl (InvalidRecord ''non-empty recovery index'')))))"

section \<open>Exactness of an entry\<close>

text \<open>The messages an entry can hold: what \<open>decode_entry\<close> insists on, and times of 64 bits.\<close>

definition meta_valid :: "string \<Rightarrow> nat \<Rightarrow> message_meta \<Rightarrow> bool" where
  "meta_valid path segment_len m \<longleftrightarrow>
     mm_position m \<noteq> 0 \<and> mm_id m \<noteq> 0 \<and> pr_len (mm_payload m) \<noteq> 0
     \<and> pr_offset (mm_payload m) + unat (pr_len (mm_payload m)) \<le> segment_len
     \<and> pr_offset (mm_payload m) + unat (pr_len (mm_payload m)) < 2 ^ 64
     \<and> pr_path (mm_payload m) = path \<and> in_i64 (mm_timestamp_ns m) \<and> in_i64 (mm_available_at_ms m)"

lemma length_entry_fields [simp]: "length (entry_fields m) = 56"
  by (simp add: entry_fields_def)

lemma length_encode_entry [simp]: "length (encode_entry crc32c m) = 60"
  by (simp add: encode_entry_def)

lemma entry_field_slices:
  "slice 0 8 (entry_fields m) = to_be_bytes (mm_position m)" "slice 8 16 (entry_fields m) = to_be_bytes (mm_id m)"
  "slice 16 24 (entry_fields m) = i64_to_be_bytes (mm_timestamp_ns m)"
  "slice 24 32 (entry_fields m) = i64_to_be_bytes (mm_available_at_ms m)"
  "slice 32 40 (entry_fields m) = to_be_bytes (mm_log_index m)"
  "slice 40 48 (entry_fields m) = to_be_bytes (word_of_nat (pr_offset (mm_payload m)) :: u64)"
  "slice 48 52 (entry_fields m) = to_be_bytes (pr_len (mm_payload m))"
  "slice 52 56 (entry_fields m) = to_be_bytes (pr_crc32c (mm_payload m))"
  by (simp_all add: entry_fields_def codec_simps)

lemma encode_entry_slices:
  "slice 0 56 (encode_entry crc32c m) = entry_fields m" "slice 56 60 (encode_entry crc32c m) = to_be_bytes (crc32c (entry_fields m))"
  "i < j \<Longrightarrow> j \<le> 56 \<Longrightarrow> slice i j (encode_entry crc32c m) = slice i j (entry_fields m)"
  by (simp_all add: encode_entry_def slice_append) (simp_all add: slice_def)

lemma decode_encode_entry:
  assumes "meta_valid path segment_len m"
  shows "decode_entry crc32c path segment_len (encode_entry crc32c m) = Inr m"
  using assms
  by (simp add: decode_entry_def message_len_def encode_entry_slices entry_field_slices Let_def meta_valid_def unat_of_nat)

lemma entry_bytes_split:
  assumes "length bytes = 60"
  shows "bytes = slice 0 8 bytes @ slice 8 16 bytes @ slice 16 24 bytes @ slice 24 32 bytes @ slice 32 40 bytes
           @ slice 40 48 bytes @ slice 48 52 bytes @ slice 52 56 bytes @ slice 56 60 bytes"
proof -
  have "bytes = slice 0 60 bytes" using assms by (simp add: slice_all)
  then show ?thesis
    using slice_split [of 0 8 60 bytes] slice_split [of 8 16 60 bytes] slice_split [of 16 24 60 bytes]
      slice_split [of 24 32 60 bytes] slice_split [of 32 40 60 bytes] slice_split [of 40 48 60 bytes]
      slice_split [of 48 52 60 bytes] slice_split [of 52 56 60 bytes] by simp
qed

lemma decode_entry_exact:
  "decode_entry crc32c path segment_len bytes = Inr m \<longleftrightarrow> meta_valid path segment_len m \<and> bytes = encode_entry crc32c m"
proof
  assume d: "decode_entry crc32c path segment_len bytes = Inr m"
  have len: "length bytes = 60" and crc: "crc32c (slice 0 56 bytes) = from_be_bytes (slice 56 60 bytes)"
    using d by (auto simp: decode_entry_def message_len_def split: if_splits)
  have m: "m = \<lparr>mm_position = from_be_bytes (slice 0 8 bytes), mm_id = from_be_bytes (slice 8 16 bytes),
      mm_timestamp_ns = i64_from_be_bytes (slice 16 24 bytes), mm_available_at_ms = i64_from_be_bytes (slice 24 32 bytes),
      mm_log_index = from_be_bytes (slice 32 40 bytes),
      mm_payload = \<lparr>pr_path = path, pr_offset = unat (from_be_bytes (slice 40 48 bytes) :: u64),
        pr_len = from_be_bytes (slice 48 52 bytes), pr_crc32c = from_be_bytes (slice 52 56 bytes)\<rparr>\<rparr>"
      and valid: "meta_valid path segment_len m"
    using d by (auto simp: decode_entry_def message_len_def Let_def meta_valid_def in_i64_from_be_bytes split: if_splits)
  have "entry_fields m = slice 0 8 bytes @ slice 8 16 bytes @ slice 16 24 bytes @ slice 24 32 bytes @ slice 32 40 bytes
           @ slice 40 48 bytes @ slice 48 52 bytes @ slice 52 56 bytes"
    using len by (simp add: m entry_fields_def to_from_be_bytes_u64 to_from_be_bytes_u32 to_from_be_bytes_i64)
  moreover from this have "entry_fields m = slice 0 56 bytes"
    using slice_split [of 0 8 56 bytes] slice_split [of 8 16 56 bytes] slice_split [of 16 24 56 bytes]
      slice_split [of 24 32 56 bytes] slice_split [of 32 40 56 bytes] slice_split [of 40 48 56 bytes]
      slice_split [of 48 52 56 bytes] by simp
  ultimately have "bytes = encode_entry crc32c m"
    using entry_bytes_split [OF len] crc len by (simp add: encode_entry_def to_from_be_bytes_u32)
  then show "meta_valid path segment_len m \<and> bytes = encode_entry crc32c m" using valid by blast
qed (use decode_encode_entry in blast)

section \<open>Pages and the summary\<close>

text \<open>The metadata of \<open>messages\<close> lies where the reference points.\<close>

definition stored ::
  "(byte list \<Rightarrow> u32) \<Rightarrow> segment_disk \<Rightarrow> recovery_metadata_ref \<Rightarrow> message_meta list \<Rightarrow> bool" where
  "stored crc32c disk r messages \<longleftrightarrow>
     (\<exists>content. fmlookup (sd_indexes disk) (rm_segment r) = Some content \<and> rm_offset r + rm_len r \<le> length content
        \<and> slice (rm_offset r) (rm_offset r + rm_len r) content = encode_recovery crc32c messages)
     \<and> length messages < 2 ^ 32 \<and> list_all (meta_valid (rm_segment r) (rm_segment_len r)) messages"

lemma drop_chunks: "\<forall>x \<in> set xs. length (f x) = c \<Longrightarrow> drop (k * c) (concat (map f xs)) = concat (map f (drop k xs))"
proof (induction xs arbitrary: k)
  case (Cons x xs)
  then show ?case by (cases k) simp_all
qed simp

lemma take_chunks: "\<forall>x \<in> set xs. length (f x) = c \<Longrightarrow> take (k * c) (concat (map f xs)) = concat (map f (take k xs))"
proof (induction xs arbitrary: k)
  case (Cons x xs)
  then show ?case by (cases k) simp_all
qed simp

lemma length_recovery_magic [simp]: "length recovery_magic = 4"
  by (simp add: recovery_magic_def)

lemma length_encode_recovery: "length (encode_recovery crc32c messages) = 12 + length messages * 60"
  by (simp add: encode_recovery_def length_concat comp_def sum_list_triv)

lemma stored_len: "stored crc32c disk r messages \<Longrightarrow> rm_len r = 12 + length messages * 60"
  unfolding stored_def by (metis length_encode_recovery length_slice add_diff_cancel_left')

lemma read_range_stored:
  assumes "stored crc32c disk r messages" and "off + len \<le> rm_len r"
  shows "read_range disk r off len = Inr (slice off (off + len) (encode_recovery crc32c messages))"
proof -
  obtain content where c: "fmlookup (sd_indexes disk) (rm_segment r) = Some content" "rm_offset r + rm_len r \<le> length content"
      "slice (rm_offset r) (rm_offset r + rm_len r) content = encode_recovery crc32c messages"
    using assms(1) unfolding stored_def by blast
  have "slice off (off + len) (encode_recovery crc32c messages) = slice (rm_offset r + off) (rm_offset r + off + len) content"
    unfolding c(3) [symmetric] using assms(2) by (subst slice_slice) (simp_all add: add.assoc)
  then show ?thesis using c(1,2) assms(2) by (simp add: read_range_def read_exact_at_def)
qed

lemma decode_chunks_all:
  assumes "list_all (meta_valid path segment_len) ms"
  shows "decode_chunks crc32c path segment_len (length ms) (concat (map (encode_entry crc32c) ms)) = Inr ms"
  using assms by (induction ms) (simp_all add: message_len_def decode_encode_entry)

lemma read_page_stored:
  assumes st: "stored crc32c disk r messages" and kn: "k + n \<le> length messages"
  shows "read_page crc32c disk r k n = Inr (take n (drop k messages))"
proof (cases "n = 0")
  case False
  let ?b = "concat (map (encode_entry crc32c) messages)" and ?page = "take n (drop k messages)"
  have len: "length messages < 2 ^ 32" and valid: "list_all (meta_valid (rm_segment r) (rm_segment_len r)) messages"
    using st by (simp_all add: stored_def)
  define H where "H = recovery_magic @ to_be_bytes recovery_version @ to_be_bytes (word_of_nat (length messages) :: u32)"
  have "encode_recovery crc32c messages = H @ ?b" "length H = 12" by (simp_all add: encode_recovery_def H_def)
  then have "slice (12 + k * 60) (12 + k * 60 + n * 60) (encode_recovery crc32c messages) = take (n * 60) (drop (k * 60) ?b)"
    by (simp add: slice_def)
  also have "\<dots> = concat (map (encode_entry crc32c) ?page)" by (simp add: drop_chunks take_chunks)
  finally have sl: "slice (12 + k * 60) (12 + k * 60 + n * 60) (encode_recovery crc32c messages)
      = concat (map (encode_entry crc32c) ?page)" .
  have rr: "read_range disk r (12 + k * 60) (n * 60) = Inr (concat (map (encode_entry crc32c) ?page))"
    using read_range_stored [OF st, of "12 + k * 60" "n * 60"] kn stored_len [OF st] sl by simp
  have pl: "length ?page = n" using kn by simp
  have "length (concat (map (encode_entry crc32c) ?page)) div 60 = length ?page"
    by (simp add: length_concat comp_def sum_list_triv)
  moreover have "list_all (meta_valid (rm_segment r) (rm_segment_len r)) ?page"
    using valid by (auto simp: list_all_iff dest: in_set_takeD in_set_dropD)
  ultimately have "decode_chunks crc32c (rm_segment r) (rm_segment_len r)
      (length (concat (map (encode_entry crc32c) ?page)) div 60) (concat (map (encode_entry crc32c) ?page)) = Inr ?page"
    by (simp only: decode_chunks_all)
  then show ?thesis using False rr kn len by (simp add: read_page_def recovery_header_len_def message_len_def)
qed (simp add: read_page_def)

lemma inspect_page_append: "inspect_page (xs @ ys) st = and_then (inspect_page xs st) (inspect_page ys)"
  by (induction xs arbitrary: st) simp_all

lemma inspect_pages_stored:
  assumes st: "stored crc32c disk r messages"
  shows "inspect_pages crc32c disk r (length messages) k s = inspect_page (drop k messages) s"
proof (induction "length messages - k" arbitrary: k s rule: less_induct)
  case less
  show ?case
  proof (cases "k < length messages")
    case True
    let ?n = "min (length messages - k) 1024"
    have page: "read_page crc32c disk r k ?n = Inr (take ?n (drop k messages))" using read_page_stored [OF st] True by simp
    have "inspect_pages crc32c disk r (length messages) (k + ?n) s' = inspect_page (drop (k + ?n) messages) s'" for s'
      using less True by simp
    then have "inspect_pages crc32c disk r (length messages) (k + ?n) = inspect_page (drop (k + ?n) messages)" by (rule ext)
    then have "inspect_pages crc32c disk r (length messages) k s
        = and_then (inspect_page (take ?n (drop k messages)) s) (inspect_page (drop (k + ?n) messages))"
      using True page by (subst inspect_pages.simps) (simp cong: if_cong)
    also have "\<dots> = inspect_page (take ?n (drop k messages) @ drop ?n (drop k messages)) s"
      by (simp only: inspect_page_append drop_drop add.commute)
    finally show ?thesis by (simp only: append_take_drop_id)
  qed (simp add: inspect_pages.simps)
qed

text \<open>Consecutive positions and ids that do not decrease.\<close>

abbreviation follows :: "message_meta \<Rightarrow> message_meta \<Rightarrow> bool" where
  "follows a b \<equiv> mm_position b = sat_inc (mm_position a) \<and> mm_id a \<le> mm_id b"

lemma inspect_page_from:
  assumes "ip_last st = Some m"
  shows "inspect_page ms st =
     (if successively follows (m # ms)
      then Inr (st\<lparr>ip_min := fold (\<lambda>a. min (mm_available_at_ms a)) ms (ip_min st),
                   ip_max := fold (\<lambda>a. max (mm_available_at_ms a)) ms (ip_max st),
                   ip_first := (case ip_first st of None \<Rightarrow> (if ms = [] then None else Some (hd ms)) | Some f \<Rightarrow> Some f),
                   ip_last := Some (last (m # ms))\<rparr>)
      else Inl (InvalidRecord ''topic recovery index range is invalid''))"
  using assms
proof (induction ms arbitrary: m st)
  case Nil
  then show ?case by (cases st) (simp split: option.split)
next
  case (Cons x ms)
  define st' where "st' = st\<lparr>ip_min := min (ip_min st) (mm_available_at_ms x), ip_max := max (ip_max st) (mm_available_at_ms x),
            ip_first := (case ip_first st of None \<Rightarrow> Some x | Some f \<Rightarrow> Some f), ip_last := Some x\<rparr>"
  have IH: "inspect_page ms st' =
     (if successively follows (x # ms)
      then Inr (st'\<lparr>ip_min := fold (\<lambda>a. min (mm_available_at_ms a)) ms (ip_min st'),
                   ip_max := fold (\<lambda>a. max (mm_available_at_ms a)) ms (ip_max st'),
                   ip_first := (case ip_first st' of None \<Rightarrow> (if ms = [] then None else Some (hd ms)) | Some f \<Rightarrow> Some f),
                   ip_last := Some (last (x # ms))\<rparr>)
      else Inl (InvalidRecord ''topic recovery index range is invalid''))"
    by (rule Cons.IH) (simp add: st'_def)
  have step: "inspect_page (x # ms) st = (if follows m x then inspect_page ms st'
      else Inl (InvalidRecord ''topic recovery index range is invalid''))"
    using Cons.prems by (auto simp: st'_def not_less)
  show ?case
    unfolding step IH by (simp add: st'_def min.commute [of "ip_min st"] max.commute [of "ip_max st"] split: option.split)
qed

definition summary_spec :: "message_meta list \<Rightarrow> recovery_summary" where
  "summary_spec ms = \<lparr>rs_count = length ms, rs_first = hd ms, rs_last = last ms,
     rs_min_available_at_ms = Min (mm_available_at_ms ` set ms), rs_max_available_at_ms = Max (mm_available_at_ms ` set ms)\<rparr>"

lemma fold_min_image: "fold (\<lambda>a. min (f a)) xs (y :: int) = Min (insert y (f ` set xs))"
  using Min.set_eq_fold [of y "map f xs"] by (simp add: fold_map comp_def)

lemma fold_max_image: "fold (\<lambda>a. max (f a)) xs (y :: int) = Max (insert y (f ` set xs))"
  using Max.set_eq_fold [of y "map f xs"] by (simp add: fold_map comp_def)

lemma inspect_stored:
  assumes st: "stored crc32c disk r messages" and ne: "messages \<noteq> []"
  shows "inspect crc32c disk r =
     (if successively follows messages then Inr (summary_spec messages)
      else Inl (InvalidRecord ''topic recovery index range is invalid''))"
proof -
  obtain m ms where m: "messages = m # ms" using ne by (cases messages) auto
  have len: "length messages < 2 ^ 32" "rm_len r = 12 + length messages * 60"
    using st stored_len [OF st] by (simp_all add: stored_def)
  have range: "in_i64 (mm_available_at_ms m)" using st m by (simp add: stored_def meta_valid_def)
  let ?h = "slice 0 12 (encode_recovery crc32c messages)"
  have h: "?h = recovery_magic @ to_be_bytes recovery_version @ to_be_bytes (word_of_nat (length messages) :: u32)"
    by (simp add: encode_recovery_def slice_def)
  have "slice 0 4 ?h = recovery_magic" "slice 4 8 ?h = to_be_bytes recovery_version"
      "slice 8 12 ?h = to_be_bytes (word_of_nat (length messages) :: u32)" "length ?h = 12"
    unfolding h by (simp_all add: codec_simps)
  then have dh: "decode_recovery_header ?h = Inr (length messages)"
    using len(1) by (simp add: decode_recovery_header_def recovery_header_len_def unat_of_nat)
  have rr: "read_range disk r 0 recovery_header_len = Inr ?h"
    using read_range_stored [OF st, of 0 12] len(2) by (simp add: recovery_header_len_def)
  let ?s0 = "\<lparr>ip_min = i64_max, ip_max = i64_min, ip_first = None, ip_last = None\<rparr>"
  have mm: "min i64_max (mm_available_at_ms m) = mm_available_at_ms m" "max i64_min (mm_available_at_ms m) = mm_available_at_ms m"
    using range by (simp_all add: in_i64_def)
  have one: "inspect_page messages ?s0 = inspect_page ms
      \<lparr>ip_min = mm_available_at_ms m, ip_max = mm_available_at_ms m, ip_first = Some m, ip_last = Some m\<rparr>"
    using mm by (simp add: m)
  have pages: "inspect_pages crc32c disk r (length messages) 0 ?s0 = inspect_page messages ?s0"
    using inspect_pages_stored [OF st, of 0] by simp
  have out: "inspect_page messages ?s0 = (if successively follows messages
      then Inr \<lparr>ip_min = fold (\<lambda>a. min (mm_available_at_ms a)) ms (mm_available_at_ms m),
               ip_max = fold (\<lambda>a. max (mm_available_at_ms a)) ms (mm_available_at_ms m),
               ip_first = Some m, ip_last = Some (last messages)\<rparr>
      else Inl (InvalidRecord ''topic recovery index range is invalid''))"
    unfolding one by (subst inspect_page_from [where m = m]) (simp_all add: m)
  have spec: "summary_spec messages = \<lparr>rs_count = length messages, rs_first = m, rs_last = last messages,
      rs_min_available_at_ms = fold (\<lambda>a. min (mm_available_at_ms a)) ms (mm_available_at_ms m),
      rs_max_available_at_ms = fold (\<lambda>a. max (mm_available_at_ms a)) ms (mm_available_at_ms m)\<rparr>"
    by (simp add: summary_spec_def m fold_min_image fold_max_image)
  have nz: "length messages \<noteq> 0" using ne by simp
  show ?thesis
    unfolding inspect_def rr using dh nz len(2) pages out
    by (simp add: recovery_header_len_def message_len_def spec)
qed

section \<open>Through the sidecar\<close>

lemma sidecar_metadata:
  "drop (64 + length rs * 24) (sidecar crc32c crc32c_append path rs md) = md"
  "length (sidecar crc32c crc32c_append path rs md) = 64 + length rs * 24 + length md"
proof -
  have "length (concat (map location_bytes (locations path rs))) = length rs * 24"
    by (simp add: length_concat comp_def sum_list_triv)
  then show "drop (64 + length rs * 24) (sidecar crc32c crc32c_append path rs md) = md"
    by (simp add: sidecar_def Let_def index_bytes_def)
  show "length (sidecar crc32c crc32c_append path rs md) = 64 + length rs * 24 + length md"
    by (simp add: sidecar_def Let_def length_index_bytes)
qed

lemma stored_sidecar:
  assumes "fmlookup (sd_indexes (sl_disk log)) path = Some (sidecar crc32c crc32c_append path rs (encode_recovery crc32c messages))"
    and "fmlookup (sl_sealed_indexes log) path = Some (sidecar_summary crc32c crc32c_append path rs (encode_recovery crc32c messages))"
    and "list_all (meta_valid path (length (frames (record_bytes crc32c crc32c_append) rs))) messages"
    and "length messages < 2 ^ 32"
  shows "\<exists>r. recovery_metadata log path = Some r \<and> rm_segment r = path \<and> stored crc32c (sl_disk log) r messages"
proof -
  let ?md = "encode_recovery crc32c messages" and ?F = "frames (record_bytes crc32c crc32c_append) rs"
  let ?r = "\<lparr>rm_segment = path, rm_offset = 64 + length rs * 24, rm_len = length ?md, rm_segment_len = length ?F\<rparr>"
  have "recovery_metadata log path = Some ?r"
    using assms(2) by (simp add: recovery_metadata_def sidecar_summary_def summary_of_def Let_def index_header_len_def location_len_def)
  moreover have "stored crc32c (sl_disk log) ?r messages"
    unfolding stored_def using assms(1,3,4)
    by (simp add: sidecar_metadata slice_def)
  ultimately show ?thesis by auto
qed

lemma stored_after_persist:
  assumes ok: "log_ok crc32c crc32c_append N segs k log" and iso: "\<not> sl_isolated log" and b: "(b, rs) \<in> set (butlast segs)"
    and run: "persist_recovery_index crc32c crc32c_append fault (segment_path b) (encode_recovery crc32c messages) log = (Inr (), log')"
    and valid: "list_all (meta_valid (segment_path b) (length (frames (record_bytes crc32c crc32c_append) rs))) messages"
    and len: "length messages < 2 ^ 32"
  shows "\<exists>r. recovery_metadata log' (segment_path b) = Some r \<and> rm_segment r = segment_path b \<and> stored crc32c (sl_disk log') r messages"
proof -
  have "log' = sealed_with crc32c crc32c_append b rs (encode_recovery crc32c messages) log"
    using persist_recovery_index_eq [OF ok iso b, of fault "encode_recovery crc32c messages"] run
    by (auto split: if_splits replace_fault.splits)
  then show ?thesis by (intro stored_sidecar [OF _ _ valid len]) (simp_all add: sealed_with_def with_sidecar_def)
qed

text \<open>
  C29: A sealed segment's messages survive in its sidecar. Once the Topic's metadata has been
  written with the sidecar of a sealed segment, recovery finds it through the log, its summary
  is that of the messages in order with the earliest and latest availability among them, and
  any page of it reads back exactly the messages of that page.\<close>

theorem topic_recovery_roundtrip:
  assumes "log_ok crc32c crc32c_append N segs k log" and "\<not> sl_isolated log" and "(b, rs) \<in> set (butlast segs)"
    and "persist_recovery_index crc32c crc32c_append fault (segment_path b) (encode_recovery crc32c messages) log = (Inr (), log')"
    and "list_all (meta_valid (segment_path b) (length (frames (record_bytes crc32c crc32c_append) rs))) messages"
    and "length messages < 2 ^ 32" and "messages \<noteq> []" and "successively follows messages"
  shows "\<exists>r. recovery_metadata log' (segment_path b) = Some r
           \<and> inspect crc32c (sl_disk log') r = Inr (summary_spec messages)
           \<and> (\<forall>first count. first + count \<le> length messages
                \<longrightarrow> read_page crc32c (sl_disk log') r first count = Inr (take count (drop first messages)))"
proof -
  obtain r where r: "recovery_metadata log' (segment_path b) = Some r" "stored crc32c (sl_disk log') r messages"
    using stored_after_persist [OF assms(1-6)] by blast
  then show ?thesis using inspect_stored [OF r(2) assms(7)] read_page_stored [OF r(2)] assms(8) by auto
qed

definition sample_meta :: "u64 \<Rightarrow> message_meta" where
  "sample_meta p = \<lparr>mm_position = p, mm_id = p + 3, mm_timestamp_ns = 7, mm_available_at_ms = 0, mm_log_index = 7,
     mm_payload = \<lparr>pr_path = segment_path 7, pr_offset = 48, pr_len = 2, pr_crc32c = 3\<rparr>\<rparr>"

theorem topic_recovery_roundtrip_witness:
  "\<exists>log log' r. open_log log_opens (sum_append 0) sum_append (disk_of (sum_append 0) sum_append sample_segs) 100 0 5 = Some (Inr log)
     \<and> persist_recovery_index (sum_append 0) sum_append NoFault (segment_path 7)
         (encode_recovery (sum_append 0) [sample_meta 1, sample_meta 2]) log = (Inr (), log')
     \<and> recovery_metadata log' (segment_path 7) = Some r
     \<and> inspect (sum_append 0) (sl_disk log') r = Inr (summary_spec [sample_meta 1, sample_meta 2])
     \<and> read_page (sum_append 0) (sl_disk log') r 1 1 = Inr [sample_meta 2]"
proof -
  let ?ms = "[sample_meta 1, sample_meta 2]" and ?rs = "[sample_record, sample_record\<lparr>r_index := 8\<rparr>]"
  have "all_records sample_segs \<noteq> []" by (simp add: sample_segs_def)
  then obtain log where log: "open_log log_opens (sum_append 0) sum_append (disk_of (sum_append 0) sum_append sample_segs) 100 0 5 = Some (Inr log)"
      "log_ok (sum_append 0) sum_append 10 sample_segs (length (snd (last sample_segs))) log" "\<not> sl_isolated log"
    using open_disk_of [OF sample_segs_ok sum_append_laws, of 100 0 5] by auto
  have b: "(7, ?rs) \<in> set (butlast sample_segs)" by (simp add: sample_segs_def)
  have run: "persist_recovery_index (sum_append 0) sum_append NoFault (segment_path 7) (encode_recovery (sum_append 0) ?ms) log
      = (Inr (), sealed_with (sum_append 0) sum_append 7 ?rs (encode_recovery (sum_append 0) ?ms) log)"
    by (simp add: persist_recovery_index_eq [OF log(2,3) b] length_encode_recovery max_index_bytes_def)
  have pl: "r_payload sample_record = [1, 2]" by (simp add: sample_record_def)
  have valid: "list_all (meta_valid (segment_path 7) (length (frames (record_bytes (sum_append 0) sum_append) ?rs))) ?ms"
    by (simp add: meta_valid_def sample_meta_def in_i64_def pl)
  have f: "successively follows ?ms" by (simp add: sample_meta_def sat_add_def)
  obtain r where "recovery_metadata (sealed_with (sum_append 0) sum_append 7 ?rs (encode_recovery (sum_append 0) ?ms) log) (segment_path 7) = Some r"
      "inspect (sum_append 0) (sl_disk (sealed_with (sum_append 0) sum_append 7 ?rs (encode_recovery (sum_append 0) ?ms) log)) r = Inr (summary_spec ?ms)"
      "\<forall>first count. first + count \<le> length ?ms \<longrightarrow> read_page (sum_append 0)
         (sl_disk (sealed_with (sum_append 0) sum_append 7 ?rs (encode_recovery (sum_append 0) ?ms) log)) r first count
         = Inr (take count (drop first ?ms))"
    using topic_recovery_roundtrip [OF log(2,3) b run valid _ _ f] by auto
  then show ?thesis using log(1) run by (auto dest!: spec [of _ 1])
qed

end
