(* ===== verification/Index_Cache.thy ===== *)
theory Index_Cache
  imports Topic_Recovery
begin

text \<open>
  The cache of message index pages and its memory budget: \<open>crates/queue/src/topic/index_cache.rs\<close>.
  Cached pages share one budget with the metadata of active messages and with reservations for
  messages about to be published. \<open>usize\<close> is 64 bits wide and its arithmetic saturates; a
  \<open>MessageMeta\<close> takes 64 bytes on such a target.
\<close>

definition usize_max :: nat where "usize_max = 2 ^ 64 - 1"

definition usat_add :: "nat \<Rightarrow> nat \<Rightarrow> nat" where "usat_add a b = min (a + b) usize_max"
definition usat_mul :: "nat \<Rightarrow> nat \<Rightarrow> nat" where "usat_mul a b = min (a * b) usize_max"

definition meta_size :: nat where "meta_size = 64"
definition min_cache_bytes :: nat where "min_cache_bytes = 1024 * meta_size"

record page_key =
  pk_segment :: string
  pk_page :: nat

record page_request =
  pq_key :: page_key
  pq_metadata :: recovery_metadata_ref
  pq_first_ordinal :: nat
  pq_count :: nat

record cache_state =
  cc_pages :: "(page_key, message_meta list) fmap"
  cc_order :: "page_key list"
  cc_bytes :: nat
  cc_active_bytes :: nat
  cc_reserved_bytes :: nat
  cc_max_bytes :: nat
  cc_change_epoch :: u64

definition new_cache :: "nat \<Rightarrow> cache_state" where
  "new_cache cache_bytes =
     \<lparr>cc_pages = fmempty, cc_order = [], cc_bytes = 0, cc_active_bytes = 0, cc_reserved_bytes = 0,
      cc_max_bytes = max cache_bytes min_cache_bytes, cc_change_epoch = 0\<rparr>"

definition page_bytes :: "message_meta list \<Rightarrow> nat" where
  "page_bytes page = usat_mul (length page) meta_size"

text \<open>\<open>bytes + active_bytes + reserved_bytes\<close>, as every check of the source adds them up.\<close>

definition cache_used :: "cache_state \<Rightarrow> nat" where
  "cache_used s = usat_add (usat_add (cc_bytes s) (cc_active_bytes s)) (cc_reserved_bytes s)"

function evict_until_available :: "nat \<Rightarrow> cache_state \<Rightarrow> cache_state" where
  "evict_until_available additional s =
     (if usat_add (cache_used s) additional > cc_max_bytes s then
        (case cc_order s of
           [] \<Rightarrow> s
         | oldest # order \<Rightarrow>
             evict_until_available additional
               (case fmlookup (cc_pages s) oldest of
                  None \<Rightarrow> s\<lparr>cc_order := order\<rparr>
                | Some removed \<Rightarrow>
                    s\<lparr>cc_order := order, cc_pages := fmdrop oldest (cc_pages s),
                      cc_bytes := cc_bytes s - page_bytes removed\<rparr>))
      else s)"
  by pat_completeness auto
termination by (relation "measure (\<lambda>(_, s). length (cc_order s))") (auto split: option.splits)

declare evict_until_available.simps [simp del]

definition mark_changed :: "cache_state \<Rightarrow> cache_state" where
  "mark_changed s = s\<lparr>cc_change_epoch := cc_change_epoch s + 1\<rparr>"

definition cache_get :: "page_key \<Rightarrow> nat \<Rightarrow> cache_state \<Rightarrow> message_meta option" where
  "cache_get key offset s =
     (case fmlookup (cc_pages s) key of None \<Rightarrow> None | Some page \<Rightarrow> get_at page offset)"

definition cache_insert :: "page_key \<Rightarrow> message_meta list \<Rightarrow> cache_state \<Rightarrow> cache_state" where
  "cache_insert key page s =
     (let bytes = page_bytes page
      in if bytes > cc_max_bytes s \<or> fmlookup (cc_pages s) key \<noteq> None then s
         else
           let s = evict_until_available bytes s
           in if usat_add (cache_used s) bytes > cc_max_bytes s then s
              else s\<lparr>cc_bytes := usat_add (cc_bytes s) bytes, cc_order := cc_order s @ [key],
                     cc_pages := fmupd key page (cc_pages s)\<rparr>)"

definition load_blocking ::
  "(byte list \<Rightarrow> u32) \<Rightarrow> segment_disk \<Rightarrow> page_request \<Rightarrow> cache_state \<Rightarrow> (broker_error + unit) \<times> cache_state" where
  "load_blocking crc32c disk request s =
     (if fmlookup (cc_pages s) (pq_key request) \<noteq> None then (Inr (), s)
      else (case read_page crc32c disk (pq_metadata request) (pq_first_ordinal request) (pq_count request) of
              Inl e \<Rightarrow> (Inl e, s)
            | Inr page \<Rightarrow> (Inr (), cache_insert (pq_key request) page s)))"

text \<open>
  \<open>load\<close> hands the read to a worker through a bounded queue. The outcomes the queue can have
  are an argument; a worker that answers answers with \<open>read_page\<close>.
\<close>

datatype job_outcome = Answered | QueueFull | QueueClosed | WorkerStopped

definition cache_load ::
  "(byte list \<Rightarrow> u32) \<Rightarrow> segment_disk \<Rightarrow> job_outcome \<Rightarrow> page_request \<Rightarrow> cache_state \<Rightarrow> (broker_error + unit) \<times> cache_state" where
  "cache_load crc32c disk outcome request s =
     (if fmlookup (cc_pages s) (pq_key request) \<noteq> None then (Inr (), s)
      else (case outcome of
              QueueFull \<Rightarrow> (Inl (BrIo (IoError WouldBlock ''message index read queue is full'')), s)
            | QueueClosed \<Rightarrow> (Inl (BrIo (IoError BrokenPipe ''message index readers stopped'')), s)
            | WorkerStopped \<Rightarrow> (Inl (BrIo (IoError BrokenPipe ''message index reader stopped'')), s)
            | Answered \<Rightarrow>
                (case read_page crc32c disk (pq_metadata request) (pq_first_ordinal request) (pq_count request) of
                   Inl e \<Rightarrow> (Inl e, s)
                 | Inr page \<Rightarrow> (Inr (), cache_insert (pq_key request) page s))))"

text \<open>One job of a worker: its answer, and the health flag it leaves.\<close>

definition index_worker_job ::
  "(byte list \<Rightarrow> u32) \<Rightarrow> segment_disk \<Rightarrow> page_request \<Rightarrow> bool \<Rightarrow> (broker_error + message_meta list) \<times> bool" where
  "index_worker_job crc32c disk request healthy =
     (let result = read_page crc32c disk (pq_metadata request) (pq_first_ordinal request) (pq_count request)
      in (result,
          (case result of
             Inl StorageUnavailable \<Rightarrow> False
           | Inl (StorageErr _) \<Rightarrow> False
           | Inl (BrIo _) \<Rightarrow> False
           | Inl (InvalidRecord _) \<Rightarrow> False
           | _ \<Rightarrow> healthy)))"

definition invalidate :: "string \<Rightarrow> cache_state \<Rightarrow> cache_state" where
  "invalidate segment s =
     (let keys = ffilter (\<lambda>key. pk_segment key = segment) (fmdom (cc_pages s))
      in s\<lparr>cc_pages := fmfilter (\<lambda>key. pk_segment key \<noteq> segment) (cc_pages s),
           cc_bytes := cc_bytes s - (\<Sum>key \<in> fset keys. page_bytes (the (fmlookup (cc_pages s) key))),
           cc_order := filter (\<lambda>key. pk_segment key \<noteq> segment) (cc_order s)\<rparr>)"

text \<open>A granted reservation is the number of bytes it holds.\<close>

definition try_reserve :: "nat \<Rightarrow> cache_state \<Rightarrow> nat option \<times> cache_state" where
  "try_reserve messages s =
     (let bytes = usat_mul messages meta_size;
          s = evict_until_available bytes s;
          used = cache_used s;
          active = usat_add (cc_active_bytes s) (cc_reserved_bytes s);
          active_limit = cc_max_bytes s - min_cache_bytes;
          oversized_empty = (cc_active_bytes s = 0 \<and> cc_reserved_bytes s = 0)
      in if (usat_add used bytes > cc_max_bytes s \<or> usat_add active bytes > active_limit) \<and> \<not> oversized_empty
         then (None, s)
         else (Some bytes, s\<lparr>cc_reserved_bytes := usat_add (cc_reserved_bytes s) bytes\<rparr>))"

definition add_recovered_active :: "nat \<Rightarrow> cache_state \<Rightarrow> cache_state" where
  "add_recovered_active messages s =
     (let bytes = usat_mul messages meta_size;
          s = evict_until_available bytes s
      in s\<lparr>cc_active_bytes := usat_add (cc_active_bytes s) bytes\<rparr>)"

definition release_active :: "nat \<Rightarrow> cache_state \<Rightarrow> cache_state" where
  "release_active messages s =
     (let bytes = usat_mul messages meta_size
      in if bytes = 0 then s else mark_changed (s\<lparr>cc_active_bytes := cc_active_bytes s - bytes\<rparr>))"

definition over_budget :: "cache_state \<Rightarrow> bool" where
  "over_budget s \<longleftrightarrow>
     usat_add (cc_active_bytes s) (cc_reserved_bytes s) > cc_max_bytes s - min_cache_bytes
     \<or> cache_used s > cc_max_bytes s"

text \<open>\<open>MetadataReservation\<close>: what remains of it is passed along.\<close>

definition consume_reservation :: "nat \<Rightarrow> nat \<Rightarrow> cache_state \<Rightarrow> nat \<times> cache_state" where
  "consume_reservation messages remaining s =
     (let bytes = min (usat_mul messages meta_size) remaining
      in (remaining - bytes,
          mark_changed (s\<lparr>cc_reserved_bytes := cc_reserved_bytes s - bytes,
                          cc_active_bytes := usat_add (cc_active_bytes s) bytes\<rparr>)))"

definition drop_reservation :: "nat \<Rightarrow> cache_state \<Rightarrow> cache_state" where
  "drop_reservation remaining s =
     (if remaining > 0 then mark_changed (s\<lparr>cc_reserved_bytes := cc_reserved_bytes s - remaining\<rparr>) else s)"

section \<open>The budget\<close>

definition pages_bytes :: "cache_state \<Rightarrow> nat" where
  "pages_bytes s = (\<Sum>key \<in> fset (fmdom (cc_pages s)). page_bytes (the (fmlookup (cc_pages s) key)))"

definition cache_ok :: "cache_state \<Rightarrow> bool" where
  "cache_ok s \<longleftrightarrow>
     distinct (cc_order s) \<and> set (cc_order s) = fset (fmdom (cc_pages s)) \<and> cc_bytes s = pages_bytes s
     \<and> (cc_bytes s = 0 \<or> cc_bytes s + cc_active_bytes s + cc_reserved_bytes s \<le> cc_max_bytes s)
     \<and> cc_max_bytes s < usize_max \<and> min_cache_bytes \<le> cc_max_bytes s"

lemma usat_add_le: "usat_add a b \<le> a + b"
  by (simp add: usat_add_def)

lemma usat_gt_iff: "m < usize_max \<Longrightarrow> usat_add a b > m \<longleftrightarrow> a + b > m"
  by (auto simp: usat_add_def)

lemma usat_exact: "usat_add a b < usize_max \<Longrightarrow> usat_add a b = a + b"
  by (auto simp: usat_add_def)

lemma used_gt_iff:
  "m < usize_max \<Longrightarrow> usat_add (cache_used s) n > m \<longleftrightarrow> cc_bytes s + cc_active_bytes s + cc_reserved_bytes s + n > m"
  "m < usize_max \<Longrightarrow> cache_used s > m \<longleftrightarrow> cc_bytes s + cc_active_bytes s + cc_reserved_bytes s > m"
  by (auto simp: cache_used_def usat_add_def)

lemma pages_bytes_drop:
  assumes "fmlookup (cc_pages s) key = Some page"
  shows "pages_bytes (s\<lparr>cc_order := order, cc_pages := fmdrop key (cc_pages s), cc_bytes := n\<rparr>) = pages_bytes s - page_bytes page"
    and "page_bytes page \<le> pages_bytes s"
proof -
  let ?D = "fset (fmdom (cc_pages s))" and ?f = "\<lambda>k. page_bytes (the (fmlookup (cc_pages s) k))"
  have k: "key \<in> ?D" using assms by (simp add: fmdomI)
  have fin: "finite ?D" by simp
  have "pages_bytes s = ?f key + (\<Sum>k \<in> ?D - {key}. ?f k)"
    unfolding pages_bytes_def by (rule sum.remove [OF fin k])
  moreover have "pages_bytes (s\<lparr>cc_order := order, cc_pages := fmdrop key (cc_pages s), cc_bytes := n\<rparr>) = (\<Sum>k \<in> ?D - {key}. ?f k)"
    by (auto simp: pages_bytes_def intro!: sum.cong)
  ultimately show "pages_bytes (s\<lparr>cc_order := order, cc_pages := fmdrop key (cc_pages s), cc_bytes := n\<rparr>) = pages_bytes s - page_bytes page"
    "page_bytes page \<le> pages_bytes s"
    using assms by simp_all
qed

text \<open>Eviction only takes pages away.\<close>

definition evicted :: "cache_state \<Rightarrow> cache_state \<Rightarrow> bool" where
  "evicted s s' \<longleftrightarrow> cc_active_bytes s' = cc_active_bytes s \<and> cc_reserved_bytes s' = cc_reserved_bytes s
     \<and> cc_max_bytes s' = cc_max_bytes s \<and> cc_bytes s' \<le> cc_bytes s
     \<and> (\<forall>key page. fmlookup (cc_pages s') key = Some page \<longrightarrow> fmlookup (cc_pages s) key = Some page)"

lemma evicted_refl: "evicted s s"
  by (simp add: evicted_def)

lemma evicted_trans: "evicted s s' \<Longrightarrow> evicted s' s'' \<Longrightarrow> evicted s s''"
  by (auto simp: evicted_def)

lemma evict_ok:
  assumes "cache_ok s"
  shows "cache_ok (evict_until_available n s) \<and> evicted s (evict_until_available n s)
    \<and> (cc_order (evict_until_available n s) = []
       \<or> cc_bytes (evict_until_available n s) + cc_active_bytes s + cc_reserved_bytes s + n \<le> cc_max_bytes s)"
  using assms
proof (induction "length (cc_order s)" arbitrary: s rule: less_induct)
  case less
  have max: "cc_max_bytes s < usize_max" using less.prems by (simp add: cache_ok_def)
  show ?case
  proof (cases "usat_add (cache_used s) n > cc_max_bytes s")
    case False
    then have "evict_until_available n s = s" by (simp add: evict_until_available.simps)
    moreover have "cc_bytes s + cc_active_bytes s + cc_reserved_bytes s + n \<le> cc_max_bytes s"
      using False used_gt_iff(1) [OF max, of s n] by simp
    ultimately show ?thesis using less.prems by (simp add: evicted_refl)
  next
    case True
    show ?thesis
    proof (cases "cc_order s")
      case Nil
      then have "evict_until_available n s = s" using True by (simp add: evict_until_available.simps)
      then show ?thesis using less.prems Nil by (simp add: evicted_refl)
    next
      case (Cons oldest order)
      have "oldest \<in> fset (fmdom (cc_pages s))" using less.prems Cons by (auto simp: cache_ok_def)
      then obtain page where page: "fmlookup (cc_pages s) oldest = Some page" by (auto simp: fmlookup_dom_iff)
      define s' where "s' = s\<lparr>cc_order := order, cc_pages := fmdrop oldest (cc_pages s), cc_bytes := cc_bytes s - page_bytes page\<rparr>"
      have ev: "evict_until_available n s = evict_until_available n s'"
        using True Cons page by (subst evict_until_available.simps) (simp add: s'_def)
      have pb: "pages_bytes s' = pages_bytes s - page_bytes page" "page_bytes page \<le> pages_bytes s"
        unfolding s'_def by (rule pages_bytes_drop [OF page])+
      have ok': "cache_ok s'" using less.prems Cons pb by (auto simp: cache_ok_def s'_def)
      have sub: "evicted s s'" by (auto simp: s'_def evicted_def split: if_splits)
      have "length (cc_order s') < length (cc_order s)" using Cons by (simp add: s'_def)
      note IH = less.hyps [OF this ok']
      have "evicted s (evict_until_available n s')" using IH evicted_trans [OF sub] by blast
      moreover have "cc_active_bytes s' = cc_active_bytes s" "cc_reserved_bytes s' = cc_reserved_bytes s" "cc_max_bytes s' = cc_max_bytes s"
        by (simp_all add: s'_def)
      ultimately show ?thesis unfolding ev using IH by simp
    qed
  qed
qed

lemma no_pages: "cache_ok s \<Longrightarrow> cc_order s = [] \<Longrightarrow> cc_bytes s = 0"
  by (auto simp: cache_ok_def pages_bytes_def)

lemma cache_insert_ok:
  assumes "cache_ok s"
  shows "cache_ok (cache_insert key page s)" and "cc_active_bytes (cache_insert key page s) = cc_active_bytes s"
    and "cc_reserved_bytes (cache_insert key page s) = cc_reserved_bytes s" "cc_max_bytes (cache_insert key page s) = cc_max_bytes s"
proof -
  define s1 where "s1 = evict_until_available (page_bytes page) s"
  have e: "cache_ok s1" "evicted s s1" using evict_ok [OF assms, of "page_bytes page"] by (simp_all add: s1_def)
  have max: "cc_max_bytes s1 < usize_max" using e(1) by (simp add: cache_ok_def)
  define s2 where "s2 = s1\<lparr>cc_bytes := usat_add (cc_bytes s1) (page_bytes page), cc_order := cc_order s1 @ [key],
      cc_pages := fmupd key page (cc_pages s1)\<rparr>"
  have new: "cache_ok s2" if absent: "fmlookup (cc_pages s) key = None" and fits: "\<not> usat_add (cache_used s1) (page_bytes page) > cc_max_bytes s1"
  proof -
    have k: "fmlookup (cc_pages s1) key = None" using absent e(2) unfolding evicted_def by (metis not_None_eq)
    then have nk: "key \<notin> fset (fmdom (cc_pages s1))" by (simp add: fmdom_notI)
    have le: "cc_bytes s1 + cc_active_bytes s1 + cc_reserved_bytes s1 + page_bytes page \<le> cc_max_bytes s1"
      using fits used_gt_iff(1) [OF max, of s1 "page_bytes page"] by simp
    then have "usat_add (cc_bytes s1) (page_bytes page) = cc_bytes s1 + page_bytes page" using max by (simp add: usat_add_def)
    moreover have "pages_bytes s2 = page_bytes page + pages_bytes s1"
    proof -
      have "(\<Sum>k \<in> fset (fmdom (cc_pages s1)). page_bytes (the (fmlookup (fmupd key page (cc_pages s1)) k))) = pages_bytes s1"
        unfolding pages_bytes_def using nk by (intro sum.cong) auto
      then show ?thesis using nk by (simp add: pages_bytes_def s2_def)
    qed
    ultimately show ?thesis using e(1) le nk by (auto simp: cache_ok_def s2_def)
  qed
  have r: "cache_insert key page s = s \<or> cache_insert key page s = s1
      \<or> fmlookup (cc_pages s) key = None \<and> \<not> usat_add (cache_used s1) (page_bytes page) > cc_max_bytes s1 \<and> cache_insert key page s = s2"
    by (auto simp: cache_insert_def Let_def s1_def s2_def)
  then show "cache_ok (cache_insert key page s)" using assms e(1) new by auto
  show "cc_active_bytes (cache_insert key page s) = cc_active_bytes s"
    "cc_reserved_bytes (cache_insert key page s) = cc_reserved_bytes s" "cc_max_bytes (cache_insert key page s) = cc_max_bytes s"
    using r e(2) by (auto simp: evicted_def s2_def)
qed

lemma cache_insert_present:
  assumes ok: "cache_ok s" and "fmlookup (cc_pages s) key = None" and "length page \<le> 1024"
    and room: "cc_active_bytes s + cc_reserved_bytes s \<le> cc_max_bytes s - min_cache_bytes"
  shows "fmlookup (cc_pages (cache_insert key page s)) key = Some page"
proof -
  define s1 where "s1 = evict_until_available (page_bytes page) s"
  have e: "cache_ok s1" "evicted s s1"
      "cc_order s1 = [] \<or> cc_bytes s1 + cc_active_bytes s + cc_reserved_bytes s + page_bytes page \<le> cc_max_bytes s"
    using evict_ok [OF ok, of "page_bytes page"] by (simp_all add: s1_def)
  have pb: "page_bytes page \<le> min_cache_bytes" using assms(3)
    by (simp add: page_bytes_def min_cache_bytes_def usat_mul_def meta_size_def)
  have max: "min_cache_bytes \<le> cc_max_bytes s" "cc_max_bytes s < usize_max" using ok by (simp_all add: cache_ok_def)
  have "cc_bytes s1 + cc_active_bytes s + cc_reserved_bytes s + page_bytes page \<le> cc_max_bytes s"
    using e(3) no_pages [OF e(1)] room pb max(1) by linarith
  then have "\<not> usat_add (cache_used s1) (page_bytes page) > cc_max_bytes s1"
    using used_gt_iff(1) [of "cc_max_bytes s1" s1] e(2) max(2) by (simp add: evicted_def)
  then show ?thesis using assms(2) pb max(1) by (simp add: cache_insert_def Let_def s1_def)
qed

lemma load_blocking_ok:
  assumes "cache_ok s" and "load_blocking crc32c disk request s = (r, s')"
  shows "cache_ok s' \<and> cc_active_bytes s' = cc_active_bytes s \<and> cc_reserved_bytes s' = cc_reserved_bytes s
         \<and> cc_max_bytes s' = cc_max_bytes s"
  using assms cache_insert_ok [OF assms(1)]
  by (auto simp: load_blocking_def split: if_splits sum.splits)

lemma cache_load_ok:
  assumes "cache_ok s" and "cache_load crc32c disk outcome request s = (r, s')"
  shows "cache_ok s' \<and> cc_active_bytes s' = cc_active_bytes s \<and> cc_reserved_bytes s' = cc_reserved_bytes s
         \<and> cc_max_bytes s' = cc_max_bytes s"
  using assms cache_insert_ok [OF assms(1)]
  by (auto simp: cache_load_def split: if_splits sum.splits job_outcome.splits)

lemma invalidate_ok:
  assumes "cache_ok s" shows "cache_ok (invalidate segment s)"
proof -
  let ?D = "fset (fmdom (cc_pages s))" and ?f = "\<lambda>k. page_bytes (the (fmlookup (cc_pages s) k))"
  have split: "pages_bytes s = (\<Sum>k \<in> {k \<in> ?D. pk_segment k = segment}. ?f k) + (\<Sum>k \<in> {k \<in> ?D. pk_segment k \<noteq> segment}. ?f k)"
    unfolding pages_bytes_def by (rule sum.union_disjoint [symmetric, THEN trans, symmetric]) (auto intro!: sum.cong)
  have keys: "fset (ffilter (\<lambda>key. pk_segment key = segment) (fmdom (cc_pages s))) = {k \<in> ?D. pk_segment k = segment}" by auto
  have kept: "pages_bytes (invalidate segment s) = (\<Sum>k \<in> {k \<in> ?D. pk_segment k \<noteq> segment}. ?f k)"
    by (simp add: pages_bytes_def invalidate_def Let_def) (auto intro!: sum.cong)
  have bytes: "cc_bytes (invalidate segment s) = pages_bytes (invalidate segment s)"
    unfolding kept using assms split keys by (simp add: invalidate_def Let_def cache_ok_def)
  have "cc_bytes (invalidate segment s) \<le> cc_bytes s" by (simp add: invalidate_def Let_def)
  then show ?thesis
    using assms bytes by (auto simp: cache_ok_def invalidate_def Let_def)
qed

lemma try_reserve_ok:
  assumes ok: "cache_ok s" and run: "try_reserve messages s = (granted, s')"
  shows "cache_ok s'" and "cc_max_bytes s' = cc_max_bytes s"
    and "cc_reserved_bytes s' = cc_reserved_bytes s + (case granted of None \<Rightarrow> 0 | Some b \<Rightarrow> b)"
    and "cc_active_bytes s' = cc_active_bytes s"
    and "granted = None \<or> cc_active_bytes s = 0 \<and> cc_reserved_bytes s = 0
      \<or> cc_active_bytes s' + cc_reserved_bytes s' \<le> cc_max_bytes s - min_cache_bytes"
proof -
  define b where "b = usat_mul messages meta_size"
  define s1 where "s1 = evict_until_available b s"
  have e: "cache_ok s1" "evicted s s1"
      "cc_order s1 = [] \<or> cc_bytes s1 + cc_active_bytes s + cc_reserved_bytes s + b \<le> cc_max_bytes s"
    using evict_ok [OF ok, of b] by (simp_all add: s1_def)
  have max: "cc_max_bytes s1 < usize_max" using e(1) by (simp add: cache_ok_def)
  let ?refuse = "(usat_add (cache_used s1) b > cc_max_bytes s1
       \<or> usat_add (usat_add (cc_active_bytes s1) (cc_reserved_bytes s1)) b > cc_max_bytes s1 - min_cache_bytes)
      \<and> \<not> (cc_active_bytes s1 = 0 \<and> cc_reserved_bytes s1 = 0)"
  have r: "(granted, s') = (if ?refuse then (None, s1) else (Some b, s1\<lparr>cc_reserved_bytes := usat_add (cc_reserved_bytes s1) b\<rparr>))"
    unfolding run [symmetric] by (auto simp: try_reserve_def Let_def b_def s1_def)
  have bmax: "b \<le> usize_max" by (simp add: b_def usat_mul_def)
  have fits: "cc_bytes s1 + cc_active_bytes s1 + cc_reserved_bytes s1 + b \<le> cc_max_bytes s1 \<or> cc_bytes s1 = 0 \<and> cc_reserved_bytes s1 = 0"
    if "\<not> ?refuse"
    using that used_gt_iff(1) [OF max, of s1 b] e no_pages [OF e(1)] by (auto simp: evicted_def)
  have exact: "usat_add (cc_reserved_bytes s1) b = cc_reserved_bytes s1 + b" if "\<not> ?refuse"
    using fits [OF that] max bmax by (auto simp: usat_add_def)
  show "cache_ok s'" using r e(1) fits exact by (auto simp: cache_ok_def pages_bytes_def split: if_splits)
  show "cc_max_bytes s' = cc_max_bytes s" using r e(2) by (auto simp: evicted_def split: if_splits)
  show "cc_reserved_bytes s' = cc_reserved_bytes s + (case granted of None \<Rightarrow> 0 | Some b \<Rightarrow> b)"
    using r e(2) exact by (auto simp: evicted_def split: if_splits)
  show "cc_active_bytes s' = cc_active_bytes s" using r e(2) by (auto simp: evicted_def split: if_splits)
  have "cc_max_bytes s1 - min_cache_bytes < usize_max" using max by simp
  then have "cc_active_bytes s1 + cc_reserved_bytes s1 + b \<le> cc_max_bytes s1 - min_cache_bytes"
    if "\<not> usat_add (usat_add (cc_active_bytes s1) (cc_reserved_bytes s1)) b > cc_max_bytes s1 - min_cache_bytes"
    using that by (auto simp: usat_add_def min_def split: if_splits)
  then show "granted = None \<or> cc_active_bytes s = 0 \<and> cc_reserved_bytes s = 0
      \<or> cc_active_bytes s' + cc_reserved_bytes s' \<le> cc_max_bytes s - min_cache_bytes"
    using r e(2) exact by (auto simp: evicted_def split: if_splits)
qed

lemma add_recovered_active_ok:
  assumes ok: "cache_ok s"
  shows "cache_ok (add_recovered_active messages s)"
    and "cc_max_bytes (add_recovered_active messages s) = cc_max_bytes s"
    and "cc_reserved_bytes (add_recovered_active messages s) = cc_reserved_bytes s"
    and "cc_active_bytes (add_recovered_active messages s) \<le> cc_active_bytes s + messages * meta_size"
proof -
  define b where "b = usat_mul messages meta_size"
  define s1 where "s1 = evict_until_available b s"
  have e: "cache_ok s1" "evicted s s1"
      "cc_order s1 = [] \<or> cc_bytes s1 + cc_active_bytes s + cc_reserved_bytes s + b \<le> cc_max_bytes s"
    using evict_ok [OF ok, of b] by (simp_all add: s1_def)
  have r: "add_recovered_active messages s = s1\<lparr>cc_active_bytes := usat_add (cc_active_bytes s1) b\<rparr>"
    by (simp add: add_recovered_active_def Let_def b_def s1_def)
  have "cc_bytes s1 = 0 \<or> cc_bytes s1 + usat_add (cc_active_bytes s1) b + cc_reserved_bytes s1 \<le> cc_max_bytes s1"
    using e(2,3) no_pages [OF e(1)] usat_add_le [of "cc_active_bytes s1" b] by (auto simp: evicted_def)
  then show "cache_ok (add_recovered_active messages s)" using e(1) by (auto simp: r cache_ok_def pages_bytes_def)
  show "cc_max_bytes (add_recovered_active messages s) = cc_max_bytes s"
    "cc_reserved_bytes (add_recovered_active messages s) = cc_reserved_bytes s"
    using e(2) by (simp_all add: r evicted_def)
  show "cc_active_bytes (add_recovered_active messages s) \<le> cc_active_bytes s + messages * meta_size"
    using e(2) by (simp add: r evicted_def usat_add_def b_def usat_mul_def)
qed

lemma release_active_ok: "cache_ok s \<Longrightarrow> cache_ok (release_active messages s)"
  by (auto simp: release_active_def Let_def mark_changed_def cache_ok_def pages_bytes_def)

lemma consume_reservation_ok:
  assumes "cache_ok s" and "remaining \<le> cc_reserved_bytes s"
    and "consume_reservation messages remaining s = (remaining', s')"
  shows "cache_ok s'" and "cc_reserved_bytes s' + remaining = cc_reserved_bytes s + remaining'"
    and "cc_max_bytes s' = cc_max_bytes s" and "cc_active_bytes s' + cc_reserved_bytes s' \<le> cc_active_bytes s + cc_reserved_bytes s"
proof -
  define b where "b = min (usat_mul messages meta_size) remaining"
  have b: "b \<le> remaining" "b \<le> cc_reserved_bytes s" using assms(2) by (auto simp: b_def)
  have r: "remaining' = remaining - b"
      "s' = mark_changed (s\<lparr>cc_reserved_bytes := cc_reserved_bytes s - b, cc_active_bytes := usat_add (cc_active_bytes s) b\<rparr>)"
    using assms(3) by (auto simp: consume_reservation_def Let_def b_def)
  have moved: "usat_add (cc_active_bytes s) b + (cc_reserved_bytes s - b) \<le> cc_active_bytes s + cc_reserved_bytes s"
    using usat_add_le [of "cc_active_bytes s" b] b(2) by linarith
  then show "cache_ok s'" using assms(1) by (auto simp: r mark_changed_def cache_ok_def pages_bytes_def)
  show "cc_active_bytes s' + cc_reserved_bytes s' \<le> cc_active_bytes s + cc_reserved_bytes s"
    using moved by (simp add: r mark_changed_def)
  show "cc_reserved_bytes s' + remaining = cc_reserved_bytes s + remaining'" "cc_max_bytes s' = cc_max_bytes s"
    using b by (simp_all add: r mark_changed_def)
qed

lemma drop_reservation_ok: "cache_ok s \<Longrightarrow> cache_ok (drop_reservation remaining s)"
  by (auto simp: drop_reservation_def mark_changed_def cache_ok_def pages_bytes_def)

text \<open>
  The histories of one cache: readers load pages, segments are invalidated when they are
  purged, writers take, consume and drop reservations and recovery accounts for active
  messages. The list holds what remains of each live \<open>MetadataReservation\<close>. Two operations
  do not hold metadata to its limit: recovery adds whatever the active segment holds, and a
  reservation is granted whatever its size when there is no active and no reserved metadata. The
  last number adds up the bytes that came in these two ways.
\<close>

definition metadata_limit :: "nat \<Rightarrow> nat" where
  "metadata_limit cache_bytes = max cache_bytes min_cache_bytes - min_cache_bytes"

inductive cache_reach :: "(byte list \<Rightarrow> u32) \<Rightarrow> nat \<Rightarrow> cache_state \<Rightarrow> nat list \<Rightarrow> nat \<Rightarrow> bool"
  for crc32c :: "byte list \<Rightarrow> u32" and cache_bytes :: nat where
  start: "cache_reach crc32c cache_bytes (new_cache cache_bytes) [] 0"
| load_sync: "cache_reach crc32c cache_bytes s rs extra \<Longrightarrow> load_blocking crc32c disk request s = (r, s')
    \<Longrightarrow> cache_reach crc32c cache_bytes s' rs extra"
| load_queued: "cache_reach crc32c cache_bytes s rs extra \<Longrightarrow> cache_load crc32c disk outcome request s = (r, s')
    \<Longrightarrow> cache_reach crc32c cache_bytes s' rs extra"
| forget: "cache_reach crc32c cache_bytes s rs extra \<Longrightarrow> cache_reach crc32c cache_bytes (invalidate segment s) rs extra"
| granted: "cache_reach crc32c cache_bytes s rs extra \<Longrightarrow> try_reserve messages s = (Some b, s')
    \<Longrightarrow> cache_reach crc32c cache_bytes s' (b # rs) (extra + (if b \<le> metadata_limit cache_bytes then 0 else b))"
| refused: "cache_reach crc32c cache_bytes s rs extra \<Longrightarrow> try_reserve messages s = (None, s')
    \<Longrightarrow> cache_reach crc32c cache_bytes s' rs extra"
| recovered: "cache_reach crc32c cache_bytes s rs extra
    \<Longrightarrow> cache_reach crc32c cache_bytes (add_recovered_active messages s) rs (extra + messages * meta_size)"
| released: "cache_reach crc32c cache_bytes s rs extra
    \<Longrightarrow> cache_reach crc32c cache_bytes (release_active messages s) rs extra"
| consumed: "cache_reach crc32c cache_bytes s (xs @ b # ys) extra \<Longrightarrow> consume_reservation messages b s = (b', s')
    \<Longrightarrow> cache_reach crc32c cache_bytes s' (xs @ b' # ys) extra"
| dropped: "cache_reach crc32c cache_bytes s (xs @ b # ys) extra
    \<Longrightarrow> cache_reach crc32c cache_bytes (drop_reservation b s) (xs @ ys) extra"

lemma cache_reach_ok:
  assumes "cache_reach crc32c cache_bytes s rs extra" and "cache_bytes < usize_max"
  shows "cache_ok s \<and> cc_reserved_bytes s = sum_list rs \<and> cc_max_bytes s = max cache_bytes min_cache_bytes
    \<and> cc_active_bytes s + cc_reserved_bytes s \<le> metadata_limit cache_bytes + extra"
  using assms(1)
proof induction
  case start
  have "min_cache_bytes < usize_max" by (simp add: min_cache_bytes_def meta_size_def usize_max_def)
  then show ?case using assms(2) by (simp add: new_cache_def cache_ok_def pages_bytes_def)
next
  case (load_sync s rs extra disk request r s')
  then show ?case using load_blocking_ok by metis
next
  case (load_queued s rs extra disk outcome request r s')
  then show ?case using cache_load_ok by metis
next
  case (forget s rs extra segment)
  then show ?case using invalidate_ok [of s segment] by (simp add: invalidate_def Let_def)
next
  case (granted s rs extra messages b s')
  then show ?case using try_reserve_ok [of s messages "Some b" s'] unfolding metadata_limit_def [symmetric]
    by (cases "b \<le> metadata_limit cache_bytes") (auto simp flip: metadata_limit_def simp del: sum_list_eq_0_iff)
next
  case (refused s rs extra messages s')
  then show ?case using try_reserve_ok(1-4) [of s messages None s'] by simp
next
  case (recovered s rs extra messages)
  then show ?case using add_recovered_active_ok [of s messages] by simp
next
  case (released s rs extra messages)
  then show ?case using release_active_ok [of s messages] by (auto simp: release_active_def Let_def mark_changed_def)
next
  case (consumed s xs b ys extra messages b' s')
  then show ?case using consume_reservation_ok [of s b messages b' s'] by simp
next
  case (dropped s xs b ys extra)
  then show ?case using drop_reservation_ok [of s b] by (auto simp: drop_reservation_def mark_changed_def)
qed

lemma not_over_budget:
  assumes "cache_ok s" and "\<not> over_budget s"
  shows "cc_active_bytes s + cc_reserved_bytes s \<le> cc_max_bytes s - min_cache_bytes"
proof -
  have "cc_max_bytes s - min_cache_bytes < usize_max" using assms(1) by (auto simp: cache_ok_def)
  then show ?thesis using assms(2) usat_gt_iff by (auto simp: over_budget_def not_less)
qed

text \<open>
  C30: The index cache keeps its books and its budget. Whatever readers, writers, purging and
  recovery do, the bytes it accounts for are those of the pages it holds, each page is listed
  once in eviction order, and the reserved bytes are what the live reservations have left. While
  it holds a page, the pages and the active and reserved metadata together are within the
  configured budget. Active and reserved metadata exceed their own limit, one page below the
  budget, by no more than what recovery added and what was granted to reservations that are
  larger than the limit: metadata alone can exceed the whole budget in these two ways, and only
  in these. Without them everything is within the budget, page or not, and no page is refused
  for it: unless the metadata is over its limit, an index page of up to 1024 messages that is
  inserted is kept.\<close>

theorem cache_budget:
  assumes "cache_reach crc32c cache_bytes s rs extra" and "cache_bytes < usize_max"
  shows "cc_bytes s = (\<Sum>key \<in> fset (fmdom (cc_pages s)). page_bytes (the (fmlookup (cc_pages s) key)))
    \<and> distinct (cc_order s) \<and> set (cc_order s) = fset (fmdom (cc_pages s))
    \<and> cc_reserved_bytes s = sum_list rs
    \<and> (cc_bytes s > 0 \<longrightarrow> cc_bytes s + cc_active_bytes s + cc_reserved_bytes s \<le> max cache_bytes min_cache_bytes)
    \<and> cc_active_bytes s + cc_reserved_bytes s \<le> max cache_bytes min_cache_bytes - min_cache_bytes + extra
    \<and> (extra = 0 \<longrightarrow> cc_bytes s + cc_active_bytes s + cc_reserved_bytes s \<le> max cache_bytes min_cache_bytes \<and> \<not> over_budget s)
    \<and> (\<not> over_budget s \<and> fmlookup (cc_pages s) key = None \<and> length page \<le> 1024
         \<longrightarrow> fmlookup (cc_pages (cache_insert key page s)) key = Some page)"
proof -
  have ok: "cache_ok s" "cc_reserved_bytes s = sum_list rs" "cc_max_bytes s = max cache_bytes min_cache_bytes"
      "cc_active_bytes s + cc_reserved_bytes s \<le> max cache_bytes min_cache_bytes - min_cache_bytes + extra"
    using cache_reach_ok [OF assms] by (simp_all add: metadata_limit_def)
  have pages: "cc_bytes s > 0 \<longrightarrow> cc_bytes s + cc_active_bytes s + cc_reserved_bytes s \<le> max cache_bytes min_cache_bytes"
    using ok by (auto simp: cache_ok_def)
  have "cc_bytes s + cc_active_bytes s + cc_reserved_bytes s \<le> max cache_bytes min_cache_bytes \<and> \<not> over_budget s" if "extra = 0"
  proof -
    have fits: "cc_bytes s + cc_active_bytes s + cc_reserved_bytes s \<le> max cache_bytes min_cache_bytes"
      using ok(4) that pages by (cases "cc_bytes s = 0") auto
    moreover have "usat_add (cc_active_bytes s) (cc_reserved_bytes s) \<le> cc_active_bytes s + cc_reserved_bytes s"
      by (rule usat_add_le)
    moreover have "cache_used s \<le> cc_bytes s + cc_active_bytes s + cc_reserved_bytes s"
      unfolding cache_used_def using usat_add_le [of "cc_bytes s" "cc_active_bytes s"] usat_add_le order_trans add_right_mono by meson
    ultimately show ?thesis using ok(3,4) that by (auto simp: over_budget_def)
  qed
  moreover have "fmlookup (cc_pages (cache_insert key page s)) key = Some page"
    if "\<not> over_budget s \<and> fmlookup (cc_pages s) key = None \<and> length page \<le> 1024"
    using cache_insert_present [OF ok(1), of key page] that not_over_budget [OF ok(1)] by simp
  ultimately show ?thesis using ok pages unfolding cache_ok_def pages_bytes_def by blast
qed

theorem cache_budget_witness:
  "fmlookup (cc_pages (cache_insert \<lparr>pk_segment = ''a'', pk_page = 0\<rparr> [] (new_cache 131072\<lparr>cc_reserved_bytes := 128\<rparr>)))
     \<lparr>pk_segment = ''a'', pk_page = 0\<rparr> = Some []
   \<and> cc_reserved_bytes (new_cache 131072\<lparr>cc_reserved_bytes := 128\<rparr>) = sum_list [128]
   \<and> \<not> over_budget (new_cache 131072\<lparr>cc_reserved_bytes := 128\<rparr>)"
proof -
  have stay: "evict_until_available 128 (new_cache 131072) = new_cache 131072"
    by (subst evict_until_available.simps)
      (simp add: new_cache_def cache_used_def usat_add_def usize_max_def min_cache_bytes_def meta_size_def)
  have size: "usat_mul 2 meta_size = 128" by (simp add: usat_mul_def meta_size_def usize_max_def)
  have "try_reserve 2 (new_cache 131072) = (Some 128, new_cache 131072\<lparr>cc_reserved_bytes := 128\<rparr>)"
    unfolding try_reserve_def size Let_def stay
    by (simp add: new_cache_def usat_add_def usize_max_def)
  then have reach: "cache_reach (\<lambda>bytes. 0) 131072 (new_cache 131072\<lparr>cc_reserved_bytes := 128\<rparr>) [128] 0"
    using cache_reach.granted [OF cache_reach.start, of 2 131072 128] by (simp add: metadata_limit_def min_cache_bytes_def meta_size_def)
  show ?thesis using cache_budget [OF reach, of "\<lparr>pk_segment = ''a'', pk_page = 0\<rparr>" "[]"]
    by (simp add: usize_max_def new_cache_def)
qed

end
