(* ===== verification/Message_Index.thy ===== *)
theory Message_Index
  imports Index_Cache
begin

text \<open>
  The index of a Topic's messages: \<open>crates/queue/src/topic/index.rs\<close>. Messages of the segment
  being written are kept one by one; a sealed segment keeps a summary and reads its messages
  page by page through the cache. Counts and ordinals within a segment are natural numbers,
  positions and ids are 64-bit words. The cache, which the source shares behind a lock, and the
  disk are passed along.
\<close>

section \<open>The index and its operations\<close>

definition page_messages :: nat where "page_messages = 1024"

datatype lookup_result = Found message_meta | Load page_request | Absent

record sealed_messages =
  sm_metadata :: recovery_metadata_ref
  sm_count :: nat
  sm_first_position :: u64
  sm_last_position :: u64
  sm_first_id :: u64
  sm_last_id :: u64
  sm_first_timestamp_ns :: i64
  sm_last_timestamp_ns :: i64
  sm_last_log_index :: u64
  sm_min_available_at_ms :: i64
  sm_max_available_at_ms :: i64

record message_index =
  mi_sealed :: "sealed_messages list"
  mi_active :: "message_meta list"
  mi_total_count :: nat

definition new_index :: message_index where
  "new_index = \<lparr>mi_sealed = [], mi_active = [], mi_total_count = 0\<rparr>"

definition from_summary :: "recovery_metadata_ref \<Rightarrow> recovery_summary \<Rightarrow> sealed_messages" where
  "from_summary metadata summary =
     \<lparr>sm_metadata = metadata, sm_count = rs_count summary,
      sm_first_position = mm_position (rs_first summary), sm_last_position = mm_position (rs_last summary),
      sm_first_id = mm_id (rs_first summary), sm_last_id = mm_id (rs_last summary),
      sm_first_timestamp_ns = mm_timestamp_ns (rs_first summary),
      sm_last_timestamp_ns = mm_timestamp_ns (rs_last summary),
      sm_last_log_index = mm_log_index (rs_last summary),
      sm_min_available_at_ms = rs_min_available_at_ms summary,
      sm_max_available_at_ms = rs_max_available_at_ms summary\<rparr>"

definition push_sealed :: "sealed_messages \<Rightarrow> message_index \<Rightarrow> broker_error + message_index" where
  "push_sealed segment idx =
     (if sm_count segment = 0
         \<or> sm_last_position segment \<noteq> sat_add (sm_first_position segment) (word_of_nat (sm_count segment - 1))
         \<or> (mi_sealed idx \<noteq> [] \<and> sm_last_position (last (mi_sealed idx)) \<ge> sm_first_position segment)
         \<or> (mi_active idx \<noteq> [] \<and> sm_last_position segment \<ge> mm_position (hd (mi_active idx)))
      then Inl (InvalidRecord ''sealed topic message range is invalid'')
      else Inr (idx\<lparr>mi_total_count := usat_add (mi_total_count idx) (sm_count segment),
                    mi_sealed := mi_sealed idx @ [segment]\<rparr>))"

definition recover_sealed ::
  "(byte list \<Rightarrow> u32) \<Rightarrow> segment_disk \<Rightarrow> recovery_metadata_ref \<Rightarrow> message_index \<Rightarrow> broker_error + message_index" where
  "recover_sealed crc32c disk metadata idx =
     and_then (inspect crc32c disk metadata) (\<lambda>summary. push_sealed (from_summary metadata summary) idx)"

fun check_contiguous :: "u64 option \<Rightarrow> message_meta list \<Rightarrow> bool" where
  "check_contiguous expected [] = True"
| "check_contiguous expected (m # ms) =
     ((case expected of None \<Rightarrow> True | Some e \<Rightarrow> mm_position m = e)
      \<and> check_contiguous (Some (sat_inc (mm_position m))) ms)"

definition extend_active :: "message_meta list \<Rightarrow> message_index \<Rightarrow> broker_error + message_index" where
  "extend_active messages idx =
     (let expected = (if mi_active idx = [] then None else Some (sat_inc (mm_position (last (mi_active idx)))))
      in if expected = None \<and> mi_sealed idx \<noteq> [] \<and> messages \<noteq> []
            \<and> mm_position (hd messages) \<le> sm_last_position (last (mi_sealed idx))
         then Inl (InvalidRecord ''topic message position ranges overlap'')
         else if \<not> check_contiguous expected messages
         then Inl (InvalidRecord ''topic message positions are not contiguous'')
         else Inr (idx\<lparr>mi_total_count := usat_add (mi_total_count idx) (length messages),
                       mi_active := mi_active idx @ messages\<rparr>))"

definition recover_active ::
  "message_meta list \<Rightarrow> message_index \<Rightarrow> cache_state \<Rightarrow> (broker_error + message_index) \<times> cache_state" where
  "recover_active messages idx s =
     (case extend_active messages idx of
        Inl e \<Rightarrow> (Inl e, s)
      | Inr idx \<Rightarrow> (Inr idx, add_recovered_active (length messages) s))"

definition index_append ::
  "message_meta list \<Rightarrow> nat \<Rightarrow> message_index \<Rightarrow> cache_state \<Rightarrow> (broker_error + message_index) \<times> nat \<times> cache_state" where
  "index_append messages reservation idx s =
     (case extend_active messages idx of
        Inl e \<Rightarrow> (Inl e, reservation, s)
      | Inr idx \<Rightarrow> (Inr idx, consume_reservation (length messages) reservation s))"

definition active_for_path :: "string \<Rightarrow> message_index \<Rightarrow> message_meta list" where
  "active_for_path path idx = filter (\<lambda>m. pr_path (mm_payload m) = path) (mi_active idx)"

definition seal_path ::
  "string \<Rightarrow> recovery_metadata_ref \<Rightarrow> message_index \<Rightarrow> cache_state \<Rightarrow> (broker_error + unit) \<times> message_index \<times> cache_state" where
  "seal_path path metadata idx s =
     (let sealing = active_for_path path idx; count = length sealing
      in if sealing = [] then (Inl (InvalidRecord ''sealed segment has no message metadata''), idx, s)
         else
           let idx' = idx\<lparr>mi_active := filter (\<lambda>m. pr_path (mm_payload m) \<noteq> path) (mi_active idx),
                          mi_total_count := mi_total_count idx - count\<rparr>;
               s = release_active count s;
               segment = \<lparr>sm_metadata = metadata, sm_count = count,
                 sm_first_position = mm_position (hd sealing), sm_last_position = mm_position (last sealing),
                 sm_first_id = mm_id (hd sealing), sm_last_id = mm_id (last sealing),
                 sm_first_timestamp_ns = mm_timestamp_ns (hd sealing), sm_last_timestamp_ns = mm_timestamp_ns (last sealing),
                 sm_last_log_index = mm_log_index (last sealing),
                 sm_min_available_at_ms = fold (\<lambda>m. min (mm_available_at_ms m)) sealing i64_max,
                 sm_max_available_at_ms = fold (\<lambda>m. max (mm_available_at_ms m)) sealing i64_min\<rparr>
           in (case push_sealed segment idx' of
                 Inl e \<Rightarrow> (Inl e, idx', s)
               | Inr idx'' \<Rightarrow> (Inr (), idx'', s)))"

definition page_request_for :: "sealed_messages \<Rightarrow> nat \<Rightarrow> page_request" where
  "page_request_for segment ordinal =
     (let page = ordinal div page_messages; first_ordinal = page * page_messages
      in \<lparr>pq_key = \<lparr>pk_segment = rm_segment (sm_metadata segment), pk_page = page\<rparr>,
          pq_metadata = sm_metadata segment, pq_first_ordinal = first_ordinal,
          pq_count = min (sm_count segment - first_ordinal) page_messages\<rparr>)"

definition lookup :: "u64 \<Rightarrow> message_index \<Rightarrow> cache_state \<Rightarrow> lookup_result" where
  "lookup position idx s =
     (if mi_active idx \<noteq> [] \<and> position \<ge> mm_position (hd (mi_active idx)) then
        (case get_at (mi_active idx) (unat (position - mm_position (hd (mi_active idx)))) of
           Some m \<Rightarrow> if mm_position m = position then Found m else Absent
         | None \<Rightarrow> Absent)
      else
        (case get_at (mi_sealed idx) (partition_point (\<lambda>segment. sm_last_position segment < position) (mi_sealed idx)) of
           None \<Rightarrow> Absent
         | Some segment \<Rightarrow>
             if position < sm_first_position segment then Absent
             else
               let ordinal = unat (position - sm_first_position segment);
                   request = page_request_for segment ordinal
               in (case cache_get (pq_key request) (ordinal - pq_first_ordinal request) s of
                     Some m \<Rightarrow> if mm_position m = position then Found m else Absent
                   | None \<Rightarrow> Load request)))"

definition load_ordinal ::
  "(byte list \<Rightarrow> u32) \<Rightarrow> segment_disk \<Rightarrow> sealed_messages \<Rightarrow> nat \<Rightarrow> cache_state \<Rightarrow> (broker_error + message_meta) \<times> cache_state" where
  "load_ordinal crc32c disk segment ordinal s =
     (let request = page_request_for segment ordinal
      in (case load_blocking crc32c disk request s of
            (Inl e, s) \<Rightarrow> (Inl e, s)
          | (Inr _, s) \<Rightarrow>
              (ok_or (cache_get (pq_key request) (ordinal - pq_first_ordinal request) s)
                 (InvalidRecord ''topic index page is incomplete''), s)))"

text \<open>
  The binary search that both \<open>position_by_id\<close> and \<open>through_timestamp_after\<close> run over the
  ordinals of a segment: the messages before the answer satisfy \<open>below\<close>.
\<close>

function search_ordinal ::
  "(byte list \<Rightarrow> u32) \<Rightarrow> segment_disk \<Rightarrow> sealed_messages \<Rightarrow> (message_meta \<Rightarrow> bool) \<Rightarrow> nat \<Rightarrow> nat \<Rightarrow> cache_state
   \<Rightarrow> (broker_error + nat) \<times> cache_state" where
  "search_ordinal crc32c disk segment below low high s =
     (if low < high then
        let ordinal = low + (high - low) div 2
        in (case load_ordinal crc32c disk segment ordinal s of
              (Inl e, s) \<Rightarrow> (Inl e, s)
            | (Inr m, s) \<Rightarrow>
                if below m then search_ordinal crc32c disk segment below (ordinal + 1) high s
                else search_ordinal crc32c disk segment below low ordinal s)
      else (Inr low, s))"
  by pat_completeness auto
termination by (relation "measure (\<lambda>(_, _, _, _, low, high, _). high - low)") auto

declare search_ordinal.simps [simp del]

definition position_by_id ::
  "(byte list \<Rightarrow> u32) \<Rightarrow> segment_disk \<Rightarrow> u64 \<Rightarrow> message_index \<Rightarrow> cache_state \<Rightarrow> (broker_error + u64 option) \<times> cache_state" where
  "position_by_id crc32c disk msg_id idx s =
     (case List.find (\<lambda>m. mm_id m = msg_id) (mi_active idx) of
        Some m \<Rightarrow> (Inr (Some (mm_position m)), s)
      | None \<Rightarrow>
          (case get_at (mi_sealed idx) (partition_point (\<lambda>segment. sm_last_id segment < msg_id) (mi_sealed idx)) of
             None \<Rightarrow> (Inr None, s)
           | Some segment \<Rightarrow>
               if msg_id < sm_first_id segment then (Inr None, s)
               else (case search_ordinal crc32c disk segment (\<lambda>m. mm_id m < msg_id) 0 (sm_count segment) s of
                       (Inl e, s) \<Rightarrow> (Inl e, s)
                     | (Inr low, s) \<Rightarrow>
                         if low \<ge> sm_count segment then (Inr None, s)
                         else (case load_ordinal crc32c disk segment low s of
                                 (Inl e, s) \<Rightarrow> (Inl e, s)
                               | (Inr m, s) \<Rightarrow> (Inr (if mm_id m = msg_id then Some (mm_position m) else None), s)))))"

fun deferred_runs :: "i64 \<Rightarrow> (u64 \<times> u64) option \<Rightarrow> message_meta list \<Rightarrow> (u64 \<times> u64) list" where
  "deferred_runs now_ms run [] = (case run of None \<Rightarrow> [] | Some r \<Rightarrow> [r])"
| "deferred_runs now_ms run (m # ms) =
     (if mm_available_at_ms m > now_ms then
        deferred_runs now_ms
          (Some (case run of Some (first, _) \<Rightarrow> (first, mm_position m) | None \<Rightarrow> (mm_position m, mm_position m))) ms
      else (case run of None \<Rightarrow> [] | Some r \<Rightarrow> [r]) @ deferred_runs now_ms None ms)"

definition visit_deferred_ranges :: "i64 \<Rightarrow> message_meta list \<Rightarrow> (u64 \<times> u64) list" where
  "visit_deferred_ranges now_ms messages = deferred_runs now_ms None messages"

text \<open>
  \<open>for_each_deferred_range\<close> calls \<open>visit\<close> for each range: the ranges visited are returned, also
  when a page cannot be read.
\<close>

function deferred_pages ::
  "(byte list \<Rightarrow> u32) \<Rightarrow> segment_disk \<Rightarrow> recovery_metadata_ref \<Rightarrow> i64 \<Rightarrow> nat \<Rightarrow> nat \<Rightarrow> (u64 \<times> u64) list \<times> (broker_error + unit)" where
  "deferred_pages crc32c disk metadata now_ms count ordinal =
     (if ordinal < count then
        let len = min (count - ordinal) page_messages
        in (case read_page crc32c disk metadata ordinal len of
              Inl e \<Rightarrow> ([], Inl e)
            | Inr page \<Rightarrow>
                (let (ranges, r) = deferred_pages crc32c disk metadata now_ms count (ordinal + len)
                 in (visit_deferred_ranges now_ms page @ ranges, r)))
      else ([], Inr ()))"
  by pat_completeness auto
termination by (relation "measure (\<lambda>(_, _, _, _, count, ordinal). count - ordinal)") (auto simp: page_messages_def)

declare deferred_pages.simps [simp del]

fun deferred_sealed ::
  "(byte list \<Rightarrow> u32) \<Rightarrow> segment_disk \<Rightarrow> i64 \<Rightarrow> u64 \<Rightarrow> sealed_messages list \<Rightarrow> (u64 \<times> u64) list \<times> (broker_error + unit)" where
  "deferred_sealed crc32c disk now_ms last_position [] = ([], Inr ())"
| "deferred_sealed crc32c disk now_ms last_position (segment # segments) =
     (if sm_first_position segment > last_position then ([], Inr ())
      else
        let till = min (sm_last_position segment) last_position;
            (ranges, r) =
              (if sm_max_available_at_ms segment \<le> now_ms then ([], Inr ())
               else if sm_min_available_at_ms segment > now_ms then ([(sm_first_position segment, till)], Inr ())
               else deferred_pages crc32c disk (sm_metadata segment) now_ms
                      (unat (till - sm_first_position segment) + 1) 0)
        in (case r of
              Inl e \<Rightarrow> (ranges, Inl e)
            | Inr _ \<Rightarrow>
                (let (rest, r) = deferred_sealed crc32c disk now_ms last_position segments in (ranges @ rest, r))))"

definition for_each_deferred_range ::
  "(byte list \<Rightarrow> u32) \<Rightarrow> segment_disk \<Rightarrow> i64 \<Rightarrow> u64 \<Rightarrow> message_index \<Rightarrow> (u64 \<times> u64) list \<times> (broker_error + unit)" where
  "for_each_deferred_range crc32c disk now_ms last_position idx =
     (case deferred_sealed crc32c disk now_ms last_position (mi_sealed idx) of
        (ranges, Inl e) \<Rightarrow> (ranges, Inl e)
      | (ranges, Inr _) \<Rightarrow>
          (ranges @ visit_deferred_ranges now_ms (takeWhile (\<lambda>m. mm_position m \<le> last_position) (mi_active idx)), Inr ()))"

definition active_last_position :: "message_index \<Rightarrow> u64 option" where
  "active_last_position idx = (if mi_active idx = [] then None else Some (mm_position (last (mi_active idx))))"

definition index_last_position :: "message_index \<Rightarrow> u64 option" where
  "index_last_position idx =
     (case active_last_position idx of
        Some p \<Rightarrow> Some p
      | None \<Rightarrow> if mi_sealed idx = [] then None else Some (sm_last_position (last (mi_sealed idx))))"

definition index_first_position :: "message_index \<Rightarrow> u64 option" where
  "index_first_position idx =
     (if mi_sealed idx \<noteq> [] then Some (sm_first_position (hd (mi_sealed idx)))
      else if mi_active idx \<noteq> [] then Some (mm_position (hd (mi_active idx)))
      else None)"

definition index_ranges :: "message_index \<Rightarrow> (u64 \<times> u64) list" where
  "index_ranges idx =
     map (\<lambda>segment. (sm_first_position segment, sm_last_position segment)) (mi_sealed idx)
     @ (if mi_active idx = [] then [] else [(mm_position (hd (mi_active idx)), mm_position (last (mi_active idx)))])"

fun gaps_from :: "u64 \<Rightarrow> u64 \<Rightarrow> (u64 \<times> u64) list \<Rightarrow> (u64 \<times> u64) list" where
  "gaps_from last_position nxt [] = (if nxt \<le> last_position then [(nxt, last_position)] else [])"
| "gaps_from last_position nxt ((first, till) # ranges) =
     (if first > last_position then (if nxt \<le> last_position then [(nxt, last_position)] else [])
      else (if nxt < first then [(nxt, min (sat_sub first 1) last_position)] else [])
           @ (case checked_add till 1 of None \<Rightarrow> [] | Some after \<Rightarrow> gaps_from last_position after ranges))"

definition position_gaps :: "u64 \<Rightarrow> message_index \<Rightarrow> (u64 \<times> u64) list" where
  "position_gaps last_position idx = gaps_from last_position 1 (index_ranges idx)"

definition last_timestamp_ns :: "message_index \<Rightarrow> i64 option" where
  "last_timestamp_ns idx =
     (if mi_active idx \<noteq> [] then Some (mm_timestamp_ns (last (mi_active idx)))
      else if mi_sealed idx \<noteq> [] then Some (sm_last_timestamp_ns (last (mi_sealed idx)))
      else None)"

definition oldest_timestamp_ns :: "message_index \<Rightarrow> i64 option" where
  "oldest_timestamp_ns idx =
     (if mi_sealed idx \<noteq> [] then Some (sm_first_timestamp_ns (hd (mi_sealed idx)))
      else if mi_active idx \<noteq> [] then Some (mm_timestamp_ns (hd (mi_active idx)))
      else None)"

definition first_message_after ::
  "(byte list \<Rightarrow> u32) \<Rightarrow> segment_disk \<Rightarrow> u64 \<Rightarrow> message_index \<Rightarrow> cache_state
   \<Rightarrow> (broker_error + (u64 \<times> i64) option) \<times> cache_state" where
  "first_message_after crc32c disk position idx s =
     (case get_at (mi_sealed idx) (partition_point (\<lambda>segment. sm_last_position segment \<le> position) (mi_sealed idx)) of
        Some segment \<Rightarrow>
          (case load_ordinal crc32c disk segment
                  (min (unat (sat_sub (sat_inc position) (sm_first_position segment))) (sm_count segment - 1)) s of
             (Inl e, s) \<Rightarrow> (Inl e, s)
           | (Inr m, s) \<Rightarrow> (Inr (Some (mm_position m, mm_timestamp_ns m)), s))
      | None \<Rightarrow>
          (Inr (map_option (\<lambda>m. (mm_position m, mm_timestamp_ns m))
                  (List.find (\<lambda>m. mm_position m > position) (mi_active idx))), s))"

text \<open>
  \<open>through_timestamp_after\<close>: its loop over sealed segments either returns or goes on to the
  active messages with what it has counted. The difference of the two indexes among the active
  messages is that of a release build, where \<open>usize\<close> subtraction wraps around.
\<close>

datatype expiry_scan = Stopped "(u64 \<times> nat) option" | Onward "u64 option" nat

definition expire_segment ::
  "(byte list \<Rightarrow> u32) \<Rightarrow> segment_disk \<Rightarrow> u64 \<Rightarrow> i64 \<Rightarrow> nat \<Rightarrow> sealed_messages \<Rightarrow> u64 option \<Rightarrow> nat \<Rightarrow> cache_state
   \<Rightarrow> (broker_error + (expiry_scan + u64 option \<times> nat)) \<times> cache_state" where
  "expire_segment crc32c disk position cutoff_ns limit segment through messages s =
     (let first_ordinal = min (unat (sat_sub (sat_inc position) (sm_first_position segment))) (sm_count segment)
      in if first_ordinal \<ge> sm_count segment \<or> sm_first_timestamp_ns segment > cutoff_ns
         then (Inr (Inr (through, messages)), s)
         else if sm_last_timestamp_ns segment \<le> cutoff_ns then
           let expired = sm_count segment - first_ordinal;
               count = min expired (limit - messages)
           in if count = 0 then (Inr (Inl (Onward through messages)), s)
              else
                (case (if count = expired then (Inr (sm_last_position segment), s)
                       else (case load_ordinal crc32c disk segment (first_ordinal + count - 1) s of
                               (Inl e, s) \<Rightarrow> (Inl e, s)
                             | (Inr m, s) \<Rightarrow> (Inr (mm_position m), s))) of
                   (Inl e, s) \<Rightarrow> (Inl e, s)
                 | (Inr p, s) \<Rightarrow>
                     let messages = usat_add messages count
                     in if count < expired \<or> messages \<ge> limit then (Inr (Inl (Stopped (Some (p, messages)))), s)
                        else (Inr (Inr (Some p, messages)), s))
         else
           (case search_ordinal crc32c disk segment (\<lambda>m. mm_timestamp_ns m \<le> cutoff_ns) first_ordinal (sm_count segment) s of
              (Inl e, s) \<Rightarrow> (Inl e, s)
            | (Inr low, s) \<Rightarrow>
                if low > first_ordinal then
                  let count = min (low - first_ordinal) (limit - messages)
                  in (case load_ordinal crc32c disk segment (first_ordinal + count - 1) s of
                        (Inl e, s) \<Rightarrow> (Inl e, s)
                      | (Inr m, s) \<Rightarrow> (Inr (Inl (Stopped (Some (mm_position m, usat_add messages count)))), s))
                else (Inr (Inl (Stopped (map_option (\<lambda>p. (p, messages)) through))), s)))"

primrec expired_sealed ::
  "(byte list \<Rightarrow> u32) \<Rightarrow> segment_disk \<Rightarrow> u64 \<Rightarrow> i64 \<Rightarrow> nat \<Rightarrow> sealed_messages list \<Rightarrow> u64 option \<Rightarrow> nat \<Rightarrow> cache_state
   \<Rightarrow> (broker_error + expiry_scan) \<times> cache_state" where
  "expired_sealed crc32c disk position cutoff_ns limit [] through messages s = (Inr (Onward through messages), s)"
| "expired_sealed crc32c disk position cutoff_ns limit (segment # segments) through messages s =
     (case expire_segment crc32c disk position cutoff_ns limit segment through messages s of
        (Inl e, s) \<Rightarrow> (Inl e, s)
      | (Inr (Inl scan), s) \<Rightarrow> (Inr scan, s)
      | (Inr (Inr (through, messages)), s) \<Rightarrow>
          expired_sealed crc32c disk position cutoff_ns limit segments through messages s)"

definition wrapping_usub :: "nat \<Rightarrow> nat \<Rightarrow> nat" where
  "wrapping_usub a b = (if b \<le> a then a - b else 2 ^ 64 + a - b)"

definition through_timestamp_after ::
  "(byte list \<Rightarrow> u32) \<Rightarrow> segment_disk \<Rightarrow> u64 \<Rightarrow> i64 \<Rightarrow> nat \<Rightarrow> message_index \<Rightarrow> cache_state
   \<Rightarrow> (broker_error + (u64 \<times> nat) option) \<times> cache_state" where
  "through_timestamp_after crc32c disk position cutoff_ns limit idx s =
     (let sealed_index = partition_point (\<lambda>segment. sm_last_position segment \<le> position) (mi_sealed idx)
      in (case expired_sealed crc32c disk position cutoff_ns limit (drop sealed_index (mi_sealed idx)) None 0 s of
            (Inl e, s) \<Rightarrow> (Inl e, s)
          | (Inr (Stopped r), s) \<Rightarrow> (Inr r, s)
          | (Inr (Onward through messages), s) \<Rightarrow>
              let first_active = partition_point (\<lambda>m. mm_position m \<le> position) (mi_active idx);
                  till = partition_point (\<lambda>m. mm_timestamp_ns m \<le> cutoff_ns) (mi_active idx);
                  count = min (wrapping_usub till first_active) (limit - messages)
              in if count > 0 then
                   (Inr (map_option (\<lambda>m. (mm_position m, usat_add messages count))
                           (get_at (mi_active idx) ((first_active + count - 1) mod 2 ^ 64))), s)
                 else (Inr (map_option (\<lambda>p. (p, messages)) through), s)))"

definition count_after_position :: "u64 \<Rightarrow> message_index \<Rightarrow> nat" where
  "count_after_position position idx =
     usat_add
       (sum_list (map (\<lambda>segment.
          if position < sm_first_position segment then sm_count segment
          else if position < sm_last_position segment then unat (sat_sub (sm_last_position segment) position)
          else 0) (mi_sealed idx)))
       (length (filter (\<lambda>m. mm_position m > position) (mi_active idx)))"

definition retain_from_timestamp :: "i64 \<Rightarrow> u64 \<Rightarrow> message_index \<Rightarrow> u64" where
  "retain_from_timestamp cutoff next_position idx =
     (case get_at (mi_sealed idx) (partition_point (\<lambda>segment. sm_last_timestamp_ns segment < cutoff) (mi_sealed idx)) of
        Some segment \<Rightarrow> sm_first_position segment
      | None \<Rightarrow>
          (case get_at (mi_active idx) (partition_point (\<lambda>m. mm_timestamp_ns m < cutoff) (mi_active idx)) of
             Some m \<Rightarrow> mm_position m
           | None \<Rightarrow> next_position))"

definition retain_id :: "u64 \<Rightarrow> message_index \<Rightarrow> u64 option" where
  "retain_id msg_id idx =
     (case get_at (mi_sealed idx) (partition_point (\<lambda>segment. sm_last_id segment < msg_id) (mi_sealed idx)) of
        Some segment \<Rightarrow> Some (sm_first_position segment)
      | None \<Rightarrow> map_option mm_position (List.find (\<lambda>m. mm_id m = msg_id) (mi_active idx)))"

definition retain_from_ids :: "u64 fset \<Rightarrow> u64 \<Rightarrow> message_index \<Rightarrow> u64" where
  "retain_from_ids ids next_position idx =
     (case List.map_filter (\<lambda>msg_id. retain_id msg_id idx) (sorted_list_of_fset ids) of
        [] \<Rightarrow> next_position
      | p # ps \<Rightarrow> fold min ps p)"

definition purge_through_log_index :: "u64 \<Rightarrow> message_index \<Rightarrow> u64 option" where
  "purge_through_log_index retain_from idx =
     (let segments = takeWhile (\<lambda>segment. sm_last_position segment < retain_from) (mi_sealed idx)
      in if segments = [] then None else Some (sm_last_log_index (last segments)))"

definition first_purge_path :: "u64 \<Rightarrow> message_index \<Rightarrow> string option" where
  "first_purge_path retain_from idx =
     (if mi_sealed idx \<noteq> [] \<and> sm_last_position (hd (mi_sealed idx)) < retain_from
      then Some (rm_segment (sm_metadata (hd (mi_sealed idx)))) else None)"

definition eviction_range :: "u64 \<Rightarrow> message_index \<Rightarrow> (u64 \<times> u64 \<times> u64) option" where
  "eviction_range through_index idx =
     (let segments = takeWhile (\<lambda>segment. sm_last_log_index segment \<le> through_index) (mi_sealed idx)
      in if segments = [] then None
         else Some (sm_first_position (hd segments), sm_last_position (last segments),
                    sat_inc (sat_sub (sm_last_position (last segments)) (sm_first_position (hd segments)))))"

definition remove_missing_paths :: "string fset \<Rightarrow> message_index \<Rightarrow> cache_state \<Rightarrow> message_index \<times> cache_state" where
  "remove_missing_paths existing idx s =
     (let removed = filter (\<lambda>segment. rm_segment (sm_metadata segment) |\<notin>| existing) (mi_sealed idx)
      in (idx\<lparr>mi_total_count := fold (\<lambda>segment n. n - sm_count segment) removed (mi_total_count idx),
              mi_sealed := filter (\<lambda>segment. rm_segment (sm_metadata segment) |\<in>| existing) (mi_sealed idx)\<rparr>,
          fold (\<lambda>segment. invalidate (rm_segment (sm_metadata segment))) removed s))"

definition drop_index :: "message_index \<Rightarrow> cache_state \<Rightarrow> cache_state" where
  "drop_index idx s =
     release_active (length (mi_active idx))
       (fold (\<lambda>segment. invalidate (rm_segment (sm_metadata segment))) (mi_sealed idx) s)"

end
