(* ===== verification/Message_Index_Inv.thy ===== *)
theory Message_Index_Inv
  imports Message_Index
begin

text \<open>
  What the message index stands for: the messages of its sealed segments, in order, followed by
  the active ones. Invariants of the index and of the pages the cache holds for it, the
  exactness of its paged reads and searches, and that its operations keep the invariant.
\<close>

section \<open>Segments and pages\<close>

definition contiguous :: "message_meta list \<Rightarrow> bool" where
  "contiguous ms \<longleftrightarrow> (\<forall>i < length ms. unat (mm_position (ms ! i)) = unat (mm_position (hd ms)) + i)"

definition seg_ok :: "(byte list \<Rightarrow> u32) \<Rightarrow> segment_disk \<Rightarrow> sealed_messages \<Rightarrow> message_meta list \<Rightarrow> bool" where
  "seg_ok crc32c disk segment ms \<longleftrightarrow>
     ms \<noteq> [] \<and> stored crc32c disk (sm_metadata segment) ms \<and> contiguous ms
     \<and> segment = from_summary (sm_metadata segment) (summary_spec ms)"

abbreviation seg_path :: "sealed_messages \<Rightarrow> string" where
  "seg_path segment \<equiv> rm_segment (sm_metadata segment)"

definition page_of :: "message_meta list \<Rightarrow> nat \<Rightarrow> message_meta list" where
  "page_of ms p = take page_messages (drop (p * page_messages) ms)"

lemma seg_ok_fields:
  assumes "seg_ok crc32c disk segment ms"
  shows "ms \<noteq> []" "contiguous ms" "stored crc32c disk (sm_metadata segment) ms" "sm_count segment = length ms"
    "sm_first_position segment = mm_position (hd ms)" "sm_last_position segment = mm_position (last ms)"
    "sm_first_id segment = mm_id (hd ms)" "sm_last_id segment = mm_id (last ms)"
    "sm_first_timestamp_ns segment = mm_timestamp_ns (hd ms)" "sm_last_timestamp_ns segment = mm_timestamp_ns (last ms)"
    "sm_last_log_index segment = mm_log_index (last ms)"
    "sm_min_available_at_ms segment = Min (mm_available_at_ms ` set ms)"
    "sm_max_available_at_ms segment = Max (mm_available_at_ms ` set ms)"
proof -
  have eq: "segment = from_summary (sm_metadata segment) (summary_spec ms)" using assms by (simp add: seg_ok_def)
  show "ms \<noteq> []" "contiguous ms" "stored crc32c disk (sm_metadata segment) ms" using assms by (simp_all add: seg_ok_def)
  show "sm_count segment = length ms"
    "sm_first_position segment = mm_position (hd ms)" "sm_last_position segment = mm_position (last ms)"
    "sm_first_id segment = mm_id (hd ms)" "sm_last_id segment = mm_id (last ms)"
    "sm_first_timestamp_ns segment = mm_timestamp_ns (hd ms)" "sm_last_timestamp_ns segment = mm_timestamp_ns (last ms)"
    "sm_last_log_index segment = mm_log_index (last ms)"
    "sm_min_available_at_ms segment = Min (mm_available_at_ms ` set ms)"
    "sm_max_available_at_ms segment = Max (mm_available_at_ms ` set ms)"
    by (subst eq, simp add: from_summary_def summary_spec_def)+
qed

lemma page_of_nth:
  assumes "i < length ms"
  shows "i - i div page_messages * page_messages < length (page_of ms (i div page_messages))"
    and "page_of ms (i div page_messages) ! (i - i div page_messages * page_messages) = ms ! i"
proof -
  have "i div 1024 * 1024 \<le> i" by simp
  moreover have "i - i div 1024 * 1024 < 1024" by (simp add: minus_div_mult_eq_mod)
  ultimately show "i - i div page_messages * page_messages < length (page_of ms (i div page_messages))"
    "page_of ms (i div page_messages) ! (i - i div page_messages * page_messages) = ms ! i"
    using assms by (simp_all add: page_of_def page_messages_def)
qed

lemma read_page_of:
  assumes "seg_ok crc32c disk segment ms" and "i < length ms"
  shows "read_page crc32c disk (sm_metadata segment) (i div page_messages * page_messages)
           (min (sm_count segment - i div page_messages * page_messages) page_messages)
         = Inr (page_of ms (i div page_messages))"
proof -
  let ?k = "i div page_messages * page_messages"
  have le: "?k \<le> length ms" using assms(2) by (simp add: page_messages_def)
  have "read_page crc32c disk (sm_metadata segment) ?k (min (length ms - ?k) page_messages)
      = Inr (take (min (length ms - ?k) page_messages) (drop ?k ms))"
    using seg_ok_fields(3) [OF assms(1)] le by (intro read_page_stored) auto
  moreover have "take (min (length ms - ?k) page_messages) (drop ?k ms) = page_of ms (i div page_messages)"
    by (auto simp: page_of_def min_def)
  ultimately show ?thesis using seg_ok_fields(4) [OF assms(1)] by simp
qed

section \<open>The cached pages\<close>

text \<open>What the cache holds for the segments of the index is their pages.\<close>

definition coherent :: "(sealed_messages \<times> message_meta list) list \<Rightarrow> cache_state \<Rightarrow> bool" where
  "coherent pairs s \<longleftrightarrow> (\<forall>(segment, ms) \<in> set pairs. \<forall>p page.
     fmlookup (cc_pages s) \<lparr>pk_segment = seg_path segment, pk_page = p\<rparr> = Some page \<longrightarrow> page = page_of ms p)"

definition has_room :: "cache_state \<Rightarrow> bool" where
  "has_room s \<longleftrightarrow> cc_active_bytes s + cc_reserved_bytes s \<le> cc_max_bytes s - min_cache_bytes"

text \<open>
  A read through the cache: it leaves a cache in order whose accounts are unchanged, and returns
  a value satisfying \<open>Q\<close> or, only when active metadata leaves no room for a page, the error that
  the page is incomplete.
\<close>

definition loaded :: "(sealed_messages \<times> message_meta list) list \<Rightarrow> cache_state \<Rightarrow> cache_state \<Rightarrow> bool" where
  "loaded pairs s s' \<longleftrightarrow> cache_ok s' \<and> coherent pairs s' \<and> cc_active_bytes s' = cc_active_bytes s
     \<and> cc_reserved_bytes s' = cc_reserved_bytes s \<and> cc_max_bytes s' = cc_max_bytes s"

definition reads ::
  "(sealed_messages \<times> message_meta list) list \<Rightarrow> cache_state \<Rightarrow> ('a \<Rightarrow> bool) \<Rightarrow> (broker_error + 'a) \<times> cache_state \<Rightarrow> bool" where
  "reads pairs s Q res \<longleftrightarrow> loaded pairs s (snd res)
     \<and> (case fst res of Inr x \<Rightarrow> Q x | Inl e \<Rightarrow> e = InvalidRecord ''topic index page is incomplete'' \<and> \<not> has_room s)"

lemma loaded_refl: "cache_ok s \<Longrightarrow> coherent pairs s \<Longrightarrow> loaded pairs s s"
  by (simp add: loaded_def)

lemma loaded_trans: "loaded pairs s s' \<Longrightarrow> loaded pairs s' s'' \<Longrightarrow> loaded pairs s s''"
  by (simp add: loaded_def)

lemma loaded_room: "loaded pairs s s' \<Longrightarrow> has_room s' \<longleftrightarrow> has_room s"
  by (simp add: loaded_def has_room_def)

lemma loadedD: "loaded pairs s s' \<Longrightarrow> cache_ok s'" "loaded pairs s s' \<Longrightarrow> coherent pairs s'"
  by (simp_all add: loaded_def)

lemma reads_return: "cache_ok s \<Longrightarrow> coherent pairs s \<Longrightarrow> Q x \<Longrightarrow> reads pairs s Q (Inr x, s)"
  by (simp add: reads_def loaded_refl)

lemma reads_mono: "reads pairs s Q res \<Longrightarrow> (\<And>x. Q x \<Longrightarrow> R x) \<Longrightarrow> reads pairs s R res"
  by (auto simp: reads_def split: sum.splits)

lemma reads_after: "loaded pairs s s1 \<Longrightarrow> reads pairs s1 Q res \<Longrightarrow> reads pairs s Q res"
  by (auto simp: reads_def loaded_room intro: loaded_trans split: sum.splits)

lemma reads_bind:
  assumes "reads pairs s Q res"
    and "\<And>x s1. Q x \<Longrightarrow> cache_ok s1 \<Longrightarrow> coherent pairs s1 \<Longrightarrow> reads pairs s1 R (f x s1)"
  shows "reads pairs s R (case res of (Inl e, s) \<Rightarrow> (Inl e, s) | (Inr x, s) \<Rightarrow> f x s)"
proof (cases res)
  case (Pair r s1)
  then have s1: "loaded pairs s s1" using assms(1) by (simp add: reads_def)
  show ?thesis
  proof (cases r)
    case (Inl e)
    then show ?thesis using assms(1) Pair by (simp add: reads_def)
  next
    case (Inr x)
    then have "Q x" using assms(1) Pair by (simp add: reads_def)
    then show ?thesis using reads_after [OF s1 assms(2) [OF _ loadedD [OF s1]]] Inr Pair by simp
  qed
qed

lemma coherentD:
  "coherent pairs s \<Longrightarrow> (segment, ms) \<in> set pairs
   \<Longrightarrow> fmlookup (cc_pages s) \<lparr>pk_segment = seg_path segment, pk_page = p\<rparr> = Some page \<Longrightarrow> page = page_of ms p"
  by (auto simp: coherent_def)

lemma coherent_mono:
  "coherent pairs s \<Longrightarrow> (\<And>key page. fmlookup (cc_pages s') key = Some page \<Longrightarrow> fmlookup (cc_pages s) key = Some page)
   \<Longrightarrow> coherent pairs s'"
  by (fastforce simp: coherent_def)

lemma cache_insert_pages:
  assumes "cache_ok s" and "fmlookup (cc_pages (cache_insert key page s)) k = Some pg"
  shows "k = key \<and> pg = page \<or> fmlookup (cc_pages s) k = Some pg"
proof -
  have "evicted s (evict_until_available (page_bytes page) s)" using evict_ok [OF assms(1)] by blast
  then have "fmlookup (cc_pages (evict_until_available (page_bytes page) s)) k = Some pg
      \<Longrightarrow> fmlookup (cc_pages s) k = Some pg" by (simp add: evicted_def)
  then show ?thesis using assms(2) by (auto simp: cache_insert_def Let_def split: if_splits)
qed

lemma paths_unique:
  assumes "distinct (map (\<lambda>(segment, ms). seg_path segment) pairs)"
    and "(segment, ms) \<in> set pairs" "(segment', ms') \<in> set pairs" "seg_path segment = seg_path segment'"
  shows "ms = ms'"
  using assms by (auto simp: distinct_map dest!: inj_onD [where x = "(segment, ms)" and y = "(segment', ms')"])

lemma coherent_insert:
  assumes "cache_ok s" and "coherent pairs s" and "(segment, ms) \<in> set pairs"
    and "distinct (map (\<lambda>(segment, ms). seg_path segment) pairs)"
  shows "coherent pairs (cache_insert \<lparr>pk_segment = seg_path segment, pk_page = p\<rparr> (page_of ms p) s)"
  unfolding coherent_def
proof (intro ballI, clarify)
  fix segment' ms' q page
  assume mem: "(segment', ms') \<in> set pairs"
    and hit: "fmlookup (cc_pages (cache_insert \<lparr>pk_segment = seg_path segment, pk_page = p\<rparr> (page_of ms p) s))
      \<lparr>pk_segment = seg_path segment', pk_page = q\<rparr> = Some page"
  from cache_insert_pages [OF assms(1) hit] show "page = page_of ms' q"
  proof
    assume "\<lparr>pk_segment = seg_path segment', pk_page = q\<rparr> = \<lparr>pk_segment = seg_path segment, pk_page = p\<rparr> \<and> page = page_of ms p"
    then show ?thesis using paths_unique [OF assms(4) mem assms(3)] by auto
  next
    assume "fmlookup (cc_pages s) \<lparr>pk_segment = seg_path segment', pk_page = q\<rparr> = Some page"
    then show ?thesis using coherentD [OF assms(2) mem] by blast
  qed
qed

text \<open>A read of one message returns it; it can fail only for want of room in the cache.\<close>

abbreviation page_key_of :: "sealed_messages \<Rightarrow> nat \<Rightarrow> page_key" where
  "page_key_of segment i \<equiv> \<lparr>pk_segment = seg_path segment, pk_page = i div page_messages\<rparr>"

lemma load_page_ok:
  assumes ok: "cache_ok s" and coh: "coherent pairs s" and mem: "(segment, ms) \<in> set pairs"
    and dist: "distinct (map (\<lambda>(segment, ms). seg_path segment) pairs)"
    and seg: "seg_ok crc32c disk segment ms" and i: "i < length ms"
  obtains s' where "load_blocking crc32c disk (page_request_for segment i) s = (Inr (), s')" "loaded pairs s s'"
    "fmlookup (cc_pages s') (page_key_of segment i) = None \<longrightarrow> \<not> has_room s"
proof
  let ?key = "page_key_of segment i" and ?page = "page_of ms (i div page_messages)"
  let ?s1 = "if fmlookup (cc_pages s) ?key \<noteq> None then s else cache_insert ?key ?page s"
  show "load_blocking crc32c disk (page_request_for segment i) s = (Inr (), ?s1)"
    using read_page_of [OF seg i] by (simp add: load_blocking_def page_request_for_def Let_def)
  show "loaded pairs s ?s1"
    using ok cache_insert_ok [OF ok] coh coherent_insert [OF ok coh mem dist] by (simp add: loaded_def)
  show "fmlookup (cc_pages ?s1) ?key = None \<longrightarrow> \<not> has_room s"
  proof
    assume miss: "fmlookup (cc_pages ?s1) ?key = None"
    have "length ?page \<le> 1024" by (simp add: page_of_def page_messages_def)
    then show "\<not> has_room s"
      using miss cache_insert_present [OF ok, of ?key ?page] by (auto simp: has_room_def split: if_splits)
  qed
qed

lemma cache_get_ok:
  assumes "coherent pairs s" and "(segment, ms) \<in> set pairs" and "i < length ms"
  shows "cache_get (page_key_of segment i) (i - i div page_messages * page_messages) s =
     (if fmlookup (cc_pages s) (page_key_of segment i) = None then None else Some (ms ! i))"
  using coherentD [OF assms(1,2)] page_of_nth [OF assms(3)]
  by (auto simp: cache_get_def get_at_def split: option.splits)

lemma load_ordinal_reads:
  assumes "cache_ok s" and "coherent pairs s" and mem: "(segment, ms) \<in> set pairs"
    and "distinct (map (\<lambda>(segment, ms). seg_path segment) pairs)"
    and "seg_ok crc32c disk segment ms" and i: "i < length ms"
  shows "reads pairs s (\<lambda>m. m = ms ! i) (load_ordinal crc32c disk segment i s)"
proof -
  obtain s1 where s1: "load_blocking crc32c disk (page_request_for segment i) s = (Inr (), s1)" "loaded pairs s s1"
      "fmlookup (cc_pages s1) (page_key_of segment i) = None \<longrightarrow> \<not> has_room s"
    by (rule load_page_ok [OF assms])
  have "load_ordinal crc32c disk segment i s =
      (ok_or (cache_get (page_key_of segment i) (i - i div page_messages * page_messages) s1)
        (InvalidRecord ''topic index page is incomplete''), s1)"
    using s1(1) by (simp add: load_ordinal_def page_request_for_def Let_def)
  then show ?thesis using s1(2,3) cache_get_ok [OF loadedD(2) [OF s1(2)] mem i] by (simp add: reads_def)
qed

text \<open>The binary search finds where a predicate that holds of a prefix stops holding.\<close>

lemma search_ordinal_reads:
  assumes "cache_ok s" and "coherent pairs s" and mem: "(segment, ms) \<in> set pairs"
    and dist: "distinct (map (\<lambda>(segment, ms). seg_path segment) pairs)"
    and seg: "seg_ok crc32c disk segment ms"
    and mono: "\<And>i j. i \<le> j \<Longrightarrow> j < length ms \<Longrightarrow> below (ms ! j) \<Longrightarrow> below (ms ! i)"
    and "low \<le> high" and "high \<le> length ms" and "\<And>i. start \<le> i \<Longrightarrow> i < low \<Longrightarrow> below (ms ! i)"
    and "\<And>i. high \<le> i \<Longrightarrow> i < length ms \<Longrightarrow> \<not> below (ms ! i)"
  shows "reads pairs s (\<lambda>k. low \<le> k \<and> k \<le> high \<and> (\<forall>i. start \<le> i \<and> i < k \<longrightarrow> below (ms ! i))
            \<and> (\<forall>i. k \<le> i \<and> i < length ms \<longrightarrow> \<not> below (ms ! i)))
         (search_ordinal crc32c disk segment below low high s)"
  using assms(1,2,7-10)
proof (induction "high - low" arbitrary: low high s rule: less_induct)
  case less
  show ?case
  proof (cases "low < high")
    case False
    then show ?thesis
      unfolding search_ordinal.simps [of _ _ _ _ low high] using less.prems by (auto intro!: reads_return)
  next
    case True
    define mid where "mid = low + (high - low) div 2"
    have mid: "low \<le> mid" "mid < high" "mid < length ms" using True less.prems(4) by (simp_all add: mid_def)
    show ?thesis
      unfolding search_ordinal.simps [of _ _ _ _ low high] Let_def mid_def [symmetric] if_P [OF True]
    proof (rule reads_bind [OF load_ordinal_reads [OF less.prems(1,2) mem dist seg mid(3)]])
      fix m s1 assume m: "m = ms ! mid" and s1: "cache_ok s1" "coherent pairs s1"
      let ?Q = "\<lambda>k. low \<le> k \<and> k \<le> high \<and> (\<forall>i. start \<le> i \<and> i < k \<longrightarrow> below (ms ! i))
            \<and> (\<forall>i. k \<le> i \<and> i < length ms \<longrightarrow> \<not> below (ms ! i))"
      show "reads pairs s1 ?Q (if below m then search_ordinal crc32c disk segment below (mid + 1) high s1
          else search_ordinal crc32c disk segment below low mid s1)"
      proof (cases "below m")
        case True
        have "below (ms ! i)" if "start \<le> i" "i < mid + 1" for i
          using mono [of i mid] that True m mid(3) by simp
        then show ?thesis using True mid less.prems(4,6)
          by (simp, intro reads_mono [OF less.hyps [OF _ s1]]) auto
      next
        case False
        have "\<not> below (ms ! i)" if "mid \<le> i" "i < length ms" for i
          using mono [of mid i] that False m by auto
        then show ?thesis using False mid less.prems(5)
          by (simp, intro reads_mono [OF less.hyps [OF _ s1]]) auto
      qed
    qed
  qed
qed

section \<open>The messages of the index\<close>

abbreviation rising :: "(message_meta \<Rightarrow> 'a::ord) \<Rightarrow> message_meta list \<Rightarrow> bool" where
  "rising f \<equiv> sorted_wrt (\<lambda>a b. f a < f b)"

abbreviation ascending :: "(message_meta \<Rightarrow> 'a::ord) \<Rightarrow> message_meta list \<Rightarrow> bool" where
  "ascending f \<equiv> sorted_wrt (\<lambda>a b. f a \<le> f b)"

definition index_messages :: "message_meta list list \<Rightarrow> message_index \<Rightarrow> message_meta list" where
  "index_messages parts idx = concat parts @ mi_active idx"

definition index_ok :: "(byte list \<Rightarrow> u32) \<Rightarrow> segment_disk \<Rightarrow> message_meta list list \<Rightarrow> message_index \<Rightarrow> bool" where
  "index_ok crc32c disk parts idx \<longleftrightarrow>
     list_all2 (seg_ok crc32c disk) (mi_sealed idx) parts
     \<and> distinct (map seg_path (mi_sealed idx))
     \<and> contiguous (mi_active idx)
     \<and> rising mm_position (index_messages parts idx)
     \<and> (\<forall>m \<in> set (index_messages parts idx). mm_position m \<noteq> 0 \<and> mm_position m \<noteq> u64_max)
     \<and> mi_total_count idx = length (index_messages parts idx)
     \<and> (\<forall>m \<in> set (mi_active idx). pr_path (mm_payload m) \<notin> seg_path ` set (mi_sealed idx))"

lemma sorted_concat:
  assumes "sorted_wrt P (concat xss)" and "i < length xss" and "x \<in> set (xss ! i)"
  shows "j < i \<Longrightarrow> y \<in> set (xss ! j) \<Longrightarrow> P y x"
    and "i < j \<Longrightarrow> j < length xss \<Longrightarrow> y \<in> set (xss ! j) \<Longrightarrow> P x y"
proof -
  have split: "concat xss = concat (take i xss) @ xss ! i @ concat (drop (Suc i) xss)"
    using assms(2) by (metis concat.simps(2) concat_append id_take_nth_drop)
  show "P y x" if "j < i" "y \<in> set (xss ! j)"
  proof -
    have "xss ! j \<in> set (take i xss)" using that(1) assms(2) by (auto simp: in_set_conv_nth intro!: exI [of _ j])
    then show ?thesis using assms(1,3) that(2) unfolding split by (auto simp: sorted_wrt_append)
  qed
  show "P x y" if "i < j" "j < length xss" "y \<in> set (xss ! j)"
  proof -
    have "xss ! j \<in> set (drop (Suc i) xss)" using that by (auto simp: in_set_conv_nth intro!: exI [of _ "j - Suc i"])
    then show ?thesis using assms(1,3) that(3) unfolding split by (auto simp: sorted_wrt_append)
  qed
qed

lemma ascending_last:
  "ascending f ms \<Longrightarrow> m \<in> set ms \<Longrightarrow> f m \<le> (f (last ms) :: 'a::linorder)"
  by (induction ms) (auto simp: last_in_set)

lemma ascending_hd:
  "ascending f ms \<Longrightarrow> m \<in> set ms \<Longrightarrow> (f (hd ms) :: 'a::linorder) \<le> f m"
  by (cases ms) auto

lemma ascending_part: "sorted_wrt P (concat parts) \<Longrightarrow> i < length parts \<Longrightarrow> sorted_wrt P (parts ! i)"
  by (metis concat.simps(2) concat_append id_take_nth_drop sorted_wrt_append)

text \<open>
  \<open>partition_point\<close> over the sealed segments: a condition on a key that grows along the
  messages, asked of each segment's last message, finds the segment where it stops holding.
\<close>

lemma in_concat: "m \<in> set (concat parts) \<longleftrightarrow> (\<exists>i < length parts. m \<in> set (parts ! i))"
  unfolding set_concat by (metis UN_iff in_set_conv_nth nth_mem)

lemma get_at_partition_find: "get_at xs (partition_point P xs) = List.find (\<lambda>x. \<not> P x) xs"
  by (induction xs) (auto simp: get_at_def partition_point_def)

lemma locate_part:
  fixes f :: "message_meta \<Rightarrow> 'a::linorder"
  assumes segs: "list_all2 (\<lambda>segment ms. ms \<noteq> [] \<and> g segment = f (last ms)) segs parts"
    and asc: "ascending f (concat parts)" and down: "\<forall>x y. x \<le> y \<longrightarrow> P y \<longrightarrow> P x"
  shows "get_at segs (partition_point (\<lambda>segment. P (g segment)) segs) = None \<Longrightarrow> \<forall>m \<in> set (concat parts). P (f m)"
    and "get_at segs (partition_point (\<lambda>segment. P (g segment)) segs) = Some segment \<Longrightarrow>
      \<exists>i < length parts. segment = segs ! i \<and> (\<forall>j < i. \<forall>m \<in> set (parts ! j). P (f m)) \<and> \<not> P (f (last (parts ! i)))
        \<and> (\<forall>j. i < j \<and> j < length parts \<longrightarrow> (\<forall>m \<in> set (parts ! j). \<not> P (f m)))"
proof -
  have len: "length segs = length parts" using segs by (rule list_all2_lengthD)
  have mono: "x \<le> y \<Longrightarrow> P y \<Longrightarrow> P x" for x y using down by blast
  have key: "parts ! i \<noteq> []" "g (segs ! i) = f (last (parts ! i))" if "i < length parts" for i
    using list_all2_nthD2 [OF segs that] by auto
  have part: "P (f m)" if "i < length parts" "P (g (segs ! i))" "m \<in> set (parts ! i)" for i m
    using mono [OF ascending_last [OF ascending_part [OF asc that(1)] that(3)]] that(2) key(2) [OF that(1)] by simp
  show "\<forall>m \<in> set (concat parts). P (f m)"
    if "get_at segs (partition_point (\<lambda>segment. P (g segment)) segs) = None"
  proof
    have "\<forall>x \<in> set segs. P (g x)" using that by (simp add: get_at_partition_find find_None_iff)
    then have all: "P (g (segs ! i))" if "i < length parts" for i using that len by simp
    fix m assume "m \<in> set (concat parts)"
    then obtain i where "i < length parts" "m \<in> set (parts ! i)" unfolding Ball_def in_concat by blast
    then show "P (f m)" using part all by blast
  qed
  show "\<exists>i < length parts. segment = segs ! i \<and> (\<forall>j < i. \<forall>m \<in> set (parts ! j). P (f m)) \<and> \<not> P (f (last (parts ! i)))
        \<and> (\<forall>j. i < j \<and> j < length parts \<longrightarrow> (\<forall>m \<in> set (parts ! j). \<not> P (f m)))"
    if hit: "get_at segs (partition_point (\<lambda>segment. P (g segment)) segs) = Some segment"
  proof -
    obtain i where i: "i < length parts" "segment = segs ! i" "\<not> P (g (segs ! i))" "\<forall>j < i. P (g (segs ! j))"
      using hit len by (auto simp: get_at_partition_find find_Some_iff)
    have "\<not> P (f m)" if "i < j" "j < length parts" "m \<in> set (parts ! j)" for j m
      using sorted_concat(2) [OF asc i(1) last_in_set [OF key(1) [OF i(1)]] that] mono i(3) key(2) [OF i(1)] by auto
    moreover have "P (f m)" if "j < i" "m \<in> set (parts ! j)" for j m using part [of j m] i(1,4) that by simp
    moreover have "\<not> P (f (last (parts ! i)))" using i(3) key(2) [OF i(1)] by simp
    ultimately show ?thesis using i(1,2) by blast
  qed
qed

lemma contiguous_at:
  assumes "contiguous ms" and "ms \<noteq> []" and "mm_position (hd ms) \<le> p"
  shows "unat (p - mm_position (hd ms)) < length ms \<longleftrightarrow> p \<le> mm_position (last ms)"
    and "unat (p - mm_position (hd ms)) < length ms \<Longrightarrow> mm_position (ms ! unat (p - mm_position (hd ms))) = p"
    and "\<not> unat (p - mm_position (hd ms)) < length ms \<Longrightarrow> p \<notin> mm_position ` set ms"
proof -
  have sub: "unat (p - mm_position (hd ms)) = unat p - unat (mm_position (hd ms))" "unat (mm_position (hd ms)) \<le> unat p"
    using assms(3) by (simp_all add: unat_sub word_le_nat_alt)
  have at: "unat (mm_position (ms ! i)) = unat (mm_position (hd ms)) + i" if "i < length ms" for i
    using assms(1) that by (simp add: contiguous_def)
  have "unat (mm_position (last ms)) = unat (mm_position (hd ms)) + (length ms - 1)" "length ms > 0"
    using at [of "length ms - 1"] assms(2) by (simp_all add: last_conv_nth)
  then show "unat (p - mm_position (hd ms)) < length ms \<longleftrightarrow> p \<le> mm_position (last ms)"
    using sub unfolding word_le_nat_alt by linarith
  show "mm_position (ms ! unat (p - mm_position (hd ms))) = p" if "unat (p - mm_position (hd ms)) < length ms"
    using at [OF that] sub by (simp add: word_unat_eq_iff)
  show "p \<notin> mm_position ` set ms" if "\<not> unat (p - mm_position (hd ms)) < length ms"
    using that at sub by (auto simp: in_set_conv_nth)
qed

lemma rising_ascending: "rising f ms \<Longrightarrow> ascending (f :: message_meta \<Rightarrow> 'a::preorder) ms"
  by (erule sorted_wrt_mono_rel [rotated]) (simp add: less_imp_le)

lemma rising_inj: "rising f ms \<Longrightarrow> a \<in> set ms \<Longrightarrow> b \<in> set ms \<Longrightarrow> f a = (f b :: 'a::linorder) \<Longrightarrow> a = b"
  by (induction ms) auto

lemma index_okD:
  assumes "index_ok crc32c disk parts idx"
  shows "list_all2 (seg_ok crc32c disk) (mi_sealed idx) parts" "length (mi_sealed idx) = length parts"
    "distinct (map (\<lambda>(segment, ms). seg_path segment) (zip (mi_sealed idx) parts))"
    "contiguous (mi_active idx)" "rising mm_position (concat parts)" "rising mm_position (mi_active idx)"
    "\<And>a b. a \<in> set (concat parts) \<Longrightarrow> b \<in> set (mi_active idx) \<Longrightarrow> mm_position a < mm_position b"
proof -
  show l: "list_all2 (seg_ok crc32c disk) (mi_sealed idx) parts" using assms by (simp add: index_ok_def)
  then show len: "length (mi_sealed idx) = length parts" by (rule list_all2_lengthD)
  have "map (\<lambda>(segment, ms). seg_path segment) (zip (mi_sealed idx) parts) = map seg_path (mi_sealed idx)"
    using len by (intro nth_equalityI) simp_all
  then show "distinct (map (\<lambda>(segment, ms). seg_path segment) (zip (mi_sealed idx) parts))"
    using assms by (simp add: index_ok_def)
  show "contiguous (mi_active idx)" "rising mm_position (concat parts)" "rising mm_position (mi_active idx)"
    "\<And>a b. a \<in> set (concat parts) \<Longrightarrow> b \<in> set (mi_active idx) \<Longrightarrow> mm_position a < mm_position b"
    using assms by (auto simp: index_ok_def index_messages_def sorted_wrt_append)
qed

lemma index_part:
  assumes "index_ok crc32c disk parts idx" and "i < length parts"
  shows "seg_ok crc32c disk (mi_sealed idx ! i) (parts ! i)"
    and "(mi_sealed idx ! i, parts ! i) \<in> set (zip (mi_sealed idx) parts)"
  using list_all2_nthD2 [OF index_okD(1) [OF assms(1)] assms(2)] assms(2) index_okD(2) [OF assms(1)]
  by (auto simp: set_zip)

lemma index_keys:
  assumes "index_ok crc32c disk parts idx"
  shows "list_all2 (\<lambda>segment ms. ms \<noteq> [] \<and> sm_last_position segment = mm_position (last ms)) (mi_sealed idx) parts"
    and "list_all2 (\<lambda>segment ms. ms \<noteq> [] \<and> sm_last_id segment = mm_id (last ms)) (mi_sealed idx) parts"
    and "list_all2 (\<lambda>segment ms. ms \<noteq> [] \<and> sm_last_timestamp_ns segment = mm_timestamp_ns (last ms)) (mi_sealed idx) parts"
  by (rule list_all2_mono [OF index_okD(1) [OF assms]], simp add: seg_ok_fields)+

section \<open>Lookups\<close>

lemma lookup_active:
  assumes "index_ok crc32c disk parts idx" and "m \<in> set (mi_active idx)"
  shows "lookup (mm_position m) idx s = Found m"
proof -
  let ?a = "mi_active idx"
  have ne: "?a \<noteq> []" using assms(2) by auto
  have hd: "mm_position (hd ?a) \<le> mm_position m"
    using ascending_hd [OF rising_ascending [OF index_okD(6) [OF assms(1)]] assms(2)] .
  note at = contiguous_at [OF index_okD(4) [OF assms(1)] ne hd]
  have i: "unat (mm_position m - mm_position (hd ?a)) < length ?a" using at(3) assms(2) by blast
  have "?a ! unat (mm_position m - mm_position (hd ?a)) = m"
    by (rule rising_inj [OF index_okD(6) [OF assms(1)]]) (use i at(2) assms(2) in auto)
  then show ?thesis using ne hd i by (simp add: lookup_def get_at_def)
qed

lemma locate_position:
  assumes ok: "index_ok crc32c disk parts idx"
    and act: "\<not> (mi_active idx \<noteq> [] \<and> p \<ge> mm_position (hd (mi_active idx)))"
  shows "(case get_at (mi_sealed idx) (partition_point (\<lambda>segment. sm_last_position segment < p) (mi_sealed idx)) of
            None \<Rightarrow> p \<notin> mm_position ` set (index_messages parts idx)
          | Some segment \<Rightarrow> \<exists>i < length parts. segment = mi_sealed idx ! i
              \<and> (if p < sm_first_position segment then p \<notin> mm_position ` set (index_messages parts idx)
                 else unat (p - sm_first_position segment) < length (parts ! i)
                      \<and> mm_position (parts ! i ! unat (p - sm_first_position segment)) = p))"
proof -
  let ?g = "get_at (mi_sealed idx) (partition_point (\<lambda>segment. sm_last_position segment < p) (mi_sealed idx))"
  have asc: "ascending mm_position (concat parts)" by (rule rising_ascending [OF index_okD(5) [OF ok]])
  have later: "p < mm_position m" if "m \<in> set (mi_active idx)" for m
    using act that ascending_hd [OF rising_ascending [OF index_okD(6) [OF ok]] that] by (auto simp: not_le)
  have mono: "\<forall>x y. x \<le> y \<longrightarrow> y < p \<longrightarrow> x < p" by auto
  note loc = locate_part [where P = "\<lambda>q. q < p", OF index_keys(1) [OF ok] asc mono]
  show ?thesis
  proof (cases ?g)
    case None
    then have "\<forall>m \<in> set (concat parts). mm_position m < p" using loc(1) by auto
    then show ?thesis using None later by (fastforce simp: index_messages_def)
  next
    case (Some segment)
    obtain i where i: "i < length parts" "segment = mi_sealed idx ! i" "\<forall>j < i. \<forall>m \<in> set (parts ! j). mm_position m < p"
        "\<not> mm_position (last (parts ! i)) < p" "\<forall>j. i < j \<and> j < length parts \<longrightarrow> (\<forall>m \<in> set (parts ! j). \<not> mm_position m < p)"
      using loc(2) [OF Some] by blast
    note f = seg_ok_fields [OF index_part(1) [OF ok i(1)], folded i(2)]
    have "p \<notin> mm_position ` set (index_messages parts idx)" if below: "p < sm_first_position segment"
    proof -
      have inside: "p < mm_position m" if "m \<in> set (parts ! i)" for m
        using below ascending_hd [OF ascending_part [OF asc i(1)] that] f(5) by simp
      have "mm_position m \<noteq> p" if "m \<in> set (parts ! j)" "j < length parts" for m j
        using that i(3) inside sorted_concat(2) [OF asc i(1) last_in_set [OF f(1)], of j m] inside [OF last_in_set [OF f(1)]]
        by (cases j i rule: linorder_cases) auto
      then have "mm_position m \<noteq> p" if "m \<in> set (concat parts)" for m using that unfolding Ball_def in_concat by blast
      then show ?thesis using later unfolding index_messages_def set_append by fastforce
    qed
    moreover have "unat (p - sm_first_position segment) < length (parts ! i)
        \<and> mm_position (parts ! i ! unat (p - sm_first_position segment)) = p" if "\<not> p < sm_first_position segment"
      using contiguous_at [OF f(2,1), of p] that i(4) f(5) by (auto simp: not_less)
    ultimately show ?thesis using Some i(1,2) by auto
  qed
qed

lemmas lookup_sealed = trans [OF lookup_def if_not_P]

lemma lookup_absent:
  assumes "index_ok crc32c disk parts idx" and "p \<notin> mm_position ` set (index_messages parts idx)"
  shows "lookup p idx s = Absent"
proof (cases "mi_active idx \<noteq> [] \<and> p \<ge> mm_position (hd (mi_active idx))")
  case True
  have "p \<notin> mm_position ` set (mi_active idx)" using assms(2) by (auto simp: index_messages_def)
  then have "mm_position (mi_active idx ! i) \<noteq> p" if "i < length (mi_active idx)" for i using that by force
  then show ?thesis using True by (auto simp: lookup_def get_at_def)
next
  case False
  let ?g = "get_at (mi_sealed idx) (partition_point (\<lambda>segment. sm_last_position segment < p) (mi_sealed idx))"
  show ?thesis
  proof (cases ?g)
    case None
    then show ?thesis by (simp add: lookup_sealed [OF False])
  next
    case (Some segment)
    obtain i where i: "i < length parts" "if p < sm_first_position segment then p \<notin> mm_position ` set (index_messages parts idx)
        else unat (p - sm_first_position segment) < length (parts ! i) \<and> mm_position (parts ! i ! unat (p - sm_first_position segment)) = p"
      using locate_position [OF assms(1) False] Some by auto
    have "p < sm_first_position segment"
    proof (rule ccontr)
      assume "\<not> p < sm_first_position segment"
      then have "parts ! i ! unat (p - sm_first_position segment) \<in> set (concat parts)"
          "mm_position (parts ! i ! unat (p - sm_first_position segment)) = p"
        using i unfolding in_concat by (auto intro: exI [of _ i])
      then show False using assms(2) unfolding index_messages_def set_append by (metis UnI1 image_eqI)
    qed
    then show ?thesis using Some by (simp add: lookup_sealed [OF False])
  qed
qed

lemma lookup_at:
  assumes ok: "index_ok crc32c disk parts idx" and "m \<in> set (concat parts)"
  shows "\<exists>i k. i < length parts \<and> k < length (parts ! i) \<and> parts ! i ! k = m \<and> (\<forall>s. lookup (mm_position m) idx s =
           (let request = page_request_for (mi_sealed idx ! i) k
            in case cache_get (pq_key request) (k - pq_first_ordinal request) s of
                 Some m' \<Rightarrow> if mm_position m' = mm_position m then Found m' else Absent
               | None \<Rightarrow> Load request))"
proof -
  let ?p = "mm_position m"
  let ?g = "get_at (mi_sealed idx) (partition_point (\<lambda>segment. sm_last_position segment < ?p) (mi_sealed idx))"
  have act: "\<not> (mi_active idx \<noteq> [] \<and> ?p \<ge> mm_position (hd (mi_active idx)))"
    using index_okD(7) [OF ok assms(2), of "hd (mi_active idx)"]
    by (cases "mi_active idx = []") (simp_all add: not_le)
  have present: "?p \<in> mm_position ` set (index_messages parts idx)" using assms(2) by (auto simp: index_messages_def)
  obtain segment i where g: "?g = Some segment" "i < length parts" "segment = mi_sealed idx ! i" "\<not> ?p < sm_first_position segment"
      "unat (?p - sm_first_position segment) < length (parts ! i)" "mm_position (parts ! i ! unat (?p - sm_first_position segment)) = ?p"
    using locate_position [OF ok act] present by (auto split: option.splits if_splits)
  let ?k = "unat (?p - sm_first_position segment)"
  have "parts ! i ! ?k \<in> set (concat parts)" unfolding in_concat using g(2,5) by (intro exI [of _ i]) simp
  then have "parts ! i ! ?k = m" by (rule rising_inj [OF index_okD(5) [OF ok] _ assms(2) g(6)])
  moreover have "lookup ?p idx s = (let request = page_request_for (mi_sealed idx ! i) ?k
            in case cache_get (pq_key request) (?k - pq_first_ordinal request) s of
                 Some m' \<Rightarrow> if mm_position m' = ?p then Found m' else Absent
               | None \<Rightarrow> Load request)" for s
    using g(1,3,4) by (simp add: lookup_sealed [OF act] Let_def)
  ultimately show ?thesis using g(2,5) by blast
qed

text \<open>A message in a sealed segment is found at once or once the page asked for is loaded.\<close>

lemma lookup_present:
  assumes ok: "index_ok crc32c disk parts idx" and cache: "cache_ok s" "coherent (zip (mi_sealed idx) parts) s"
    and m: "m \<in> set (concat parts)" and miss: "lookup (mm_position m) idx s \<noteq> Found m"
  obtains request s' where "lookup (mm_position m) idx s = Load request"
    "load_blocking crc32c disk request s = (Inr (), s')" "loaded (zip (mi_sealed idx) parts) s s'"
    "has_room s \<longrightarrow> lookup (mm_position m) idx s' = Found m"
proof -
  obtain i k where ik: "i < length parts" "k < length (parts ! i)" "parts ! i ! k = m"
    and at: "\<And>s. lookup (mm_position m) idx s = (let request = page_request_for (mi_sealed idx ! i) k
            in case cache_get (pq_key request) (k - pq_first_ordinal request) s of
                 Some m' \<Rightarrow> if mm_position m' = mm_position m then Found m' else Absent
               | None \<Rightarrow> Load request)"
    using lookup_at [OF ok m] by blast
  let ?seg = "mi_sealed idx ! i" and ?pairs = "zip (mi_sealed idx) parts"
  note part = index_part [OF ok ik(1)]
  have look: "lookup (mm_position m) idx t = (if fmlookup (cc_pages t) (page_key_of ?seg k) = None
      then Load (page_request_for ?seg k) else Found m)" if "coherent ?pairs t" for t
    using cache_get_ok [OF that part(2) ik(2)] ik(3) unfolding at by (simp add: page_request_for_def Let_def)
  obtain s' where s': "load_blocking crc32c disk (page_request_for ?seg k) s = (Inr (), s')" "loaded ?pairs s s'"
      "fmlookup (cc_pages s') (page_key_of ?seg k) = None \<longrightarrow> \<not> has_room s"
    by (rule load_page_ok [OF cache part(2) index_okD(3) [OF ok] part(1) ik(2)])
  show thesis
  proof (rule that [OF _ s'(1,2)])
    show "lookup (mm_position m) idx s = Load (page_request_for ?seg k)" using look [OF cache(2)] miss by (simp split: if_splits)
    show "has_room s \<longrightarrow> lookup (mm_position m) idx s' = Found m"
      using look [OF loadedD(2) [OF s'(2)]] s'(3) by auto
  qed
qed

lemma ascending_nth: "ascending f ms \<Longrightarrow> i \<le> j \<Longrightarrow> j < length ms \<Longrightarrow> f (ms ! i) \<le> (f (ms ! j) :: 'a::linorder)"
  by (cases "i = j") (auto simp: sorted_wrt_iff_nth_less)

text \<open>The id is searched for in the segment whose ids span it, by halving.\<close>

lemma search_id:
  assumes ok: "index_ok crc32c disk parts idx" and cache: "cache_ok s" "coherent (zip (mi_sealed idx) parts) s"
    and ids: "rising mm_id (concat parts)" and i: "i < length parts"
    and above: "msg_id \<le> mm_id (last (parts ! i))"
  shows "reads (zip (mi_sealed idx) parts) s
      (\<lambda>k. k < length (parts ! i) \<and> (\<forall>m \<in> set (parts ! i). mm_id m = msg_id \<longrightarrow> m = parts ! i ! k))
      (search_ordinal crc32c disk (mi_sealed idx ! i) (\<lambda>m. mm_id m < msg_id) 0 (length (parts ! i)) s)"
proof -
  let ?ms = "parts ! i"
  note part = index_part [OF ok i]
  have inc: "rising mm_id ?ms" using ascending_part [OF ids i] .
  have mono: "mm_id (?ms ! a) < msg_id" if "a \<le> b" "b < length ?ms" "mm_id (?ms ! b) < msg_id" for a b
    using ascending_nth [OF rising_ascending [OF inc] that(1,2)] that(3) by simp
  have here: "k < length ?ms \<and> (\<forall>m \<in> set ?ms. mm_id m = msg_id \<longrightarrow> m = ?ms ! k)"
    if k: "0 \<le> k \<and> k \<le> length ?ms \<and> (\<forall>i. 0 \<le> i \<and> i < k \<longrightarrow> mm_id (?ms ! i) < msg_id)
      \<and> (\<forall>i. k \<le> i \<and> i < length ?ms \<longrightarrow> \<not> mm_id (?ms ! i) < msg_id)" for k
  proof -
    have ne: "?ms \<noteq> []" using seg_ok_fields(1) [OF part(1)] .
    have lt: "k < length ?ms"
      using k above ne by (cases "k = length ?ms") (auto simp: last_conv_nth not_less [symmetric])
    have "?ms ! j = ?ms ! k" if "j < length ?ms" "mm_id (?ms ! j) = msg_id" for j
    proof -
      have "k \<le> j" using k that(2) by (metis less_irrefl not_le zero_le)
      moreover have "\<not> k < j"
        using sorted_wrt_nth_less [OF inc, of k j] that k lt by fastforce
      ultimately show ?thesis by simp
    qed
    then have "m = ?ms ! k" if "m \<in> set ?ms" "mm_id m = msg_id" for m using that unfolding in_set_conv_nth by blast
    then show ?thesis using lt by simp
  qed
  have "reads (zip (mi_sealed idx) parts) s
      (\<lambda>k. 0 \<le> k \<and> k \<le> length ?ms \<and> (\<forall>i. 0 \<le> i \<and> i < k \<longrightarrow> mm_id (?ms ! i) < msg_id)
        \<and> (\<forall>i. k \<le> i \<and> i < length ?ms \<longrightarrow> \<not> mm_id (?ms ! i) < msg_id))
      (search_ordinal crc32c disk (mi_sealed idx ! i) (\<lambda>m. mm_id m < msg_id) 0 (length ?ms) s)"
    by (rule search_ordinal_reads [OF cache part(2) index_okD(3) [OF ok] part(1)]) (use mono in auto)
  then show ?thesis by (rule reads_mono) (rule here)
qed

lemma find_append: "List.find P (xs @ ys) = (case List.find P xs of None \<Rightarrow> List.find P ys | Some x \<Rightarrow> Some x)"
  by (induction xs) simp_all

lemma find_message:
  assumes "rising mm_id ms" and "m \<in> set ms" and "mm_id m = msg_id"
  shows "List.find (\<lambda>m. mm_id m = msg_id) ms = Some m"
  by (rule find_unique) (use assms rising_inj [OF assms(1)] in auto)

lemma position_by_id_reads:
  assumes ok: "index_ok crc32c disk parts idx" and cache: "cache_ok s" "coherent (zip (mi_sealed idx) parts) s"
    and ids: "rising mm_id (index_messages parts idx)"
  shows "reads (zip (mi_sealed idx) parts) s
      (\<lambda>r. r = map_option mm_position (List.find (\<lambda>m. mm_id m = msg_id) (index_messages parts idx)))
      (position_by_id crc32c disk msg_id idx s)" (is "reads ?pairs s ?Q _")
proof (cases "List.find (\<lambda>m. mm_id m = msg_id) (mi_active idx)")
  case (Some m)
  then have "m \<in> set (mi_active idx)" "mm_id m = msg_id" by (auto simp: find_Some_iff)
  then have "List.find (\<lambda>m. mm_id m = msg_id) (index_messages parts idx) = Some m"
    by (intro find_message [OF ids]) (simp_all add: index_messages_def)
  then show ?thesis using Some cache by (simp add: position_by_id_def reads_return)
next
  case None
  have sealed: "List.find (\<lambda>m. mm_id m = msg_id) (index_messages parts idx) = List.find (\<lambda>m. mm_id m = msg_id) (concat parts)"
    using None by (simp add: index_messages_def find_append split: option.splits)
  have inc: "rising mm_id (concat parts)" using ids by (simp add: index_messages_def sorted_wrt_append)
  note asc = rising_ascending [OF inc]
  have down: "\<forall>x y. x \<le> y \<longrightarrow> y < msg_id \<longrightarrow> x < msg_id" by auto
  note loc = locate_part [where P = "\<lambda>q. q < msg_id", OF index_keys(2) [OF ok] asc down]
  let ?g = "get_at (mi_sealed idx) (partition_point (\<lambda>segment. sm_last_id segment < msg_id) (mi_sealed idx))"
  have absent: ?thesis if "position_by_id crc32c disk msg_id idx s = (Inr None, s)" "\<forall>m \<in> set (concat parts). mm_id m \<noteq> msg_id"
  proof -
    have "List.find (\<lambda>m. mm_id m = msg_id) (concat parts) = None" using that(2) unfolding find_None_iff by blast
    then show ?thesis unfolding that(1) sealed using cache by (simp add: reads_return)
  qed
  show ?thesis
  proof (cases ?g)
    case g: None
    have "\<forall>m \<in> set (concat parts). mm_id m \<noteq> msg_id" using loc(1) [OF g] by blast
    moreover have "position_by_id crc32c disk msg_id idx s = (Inr None, s)" using None g by (simp add: position_by_id_def)
    ultimately show ?thesis by (rule absent [rotated])
  next
    case (Some segment)
    obtain i where i: "i < length parts" "segment = mi_sealed idx ! i" "\<forall>j < i. \<forall>m \<in> set (parts ! j). mm_id m < msg_id"
        "\<not> mm_id (last (parts ! i)) < msg_id"
      using loc(2) [OF Some] by blast
    note f = seg_ok_fields [OF index_part(1) [OF ok i(1)], folded i(2)]
    have here: "j = i" if "j < length parts" "m \<in> set (parts ! j)" "mm_id m = msg_id" for j m
      using that i(3,4) sorted_concat(2) [OF inc i(1) last_in_set [OF f(1)], of j m]
      by (cases j i rule: linorder_cases) auto
    show ?thesis
    proof (cases "msg_id < sm_first_id segment")
      case True
      have "mm_id m \<noteq> msg_id" if "m \<in> set (parts ! i)" for m
        using ascending_hd [OF ascending_part [OF asc i(1)] that] True f(7) by auto
      then have "\<forall>m \<in> set (concat parts). mm_id m \<noteq> msg_id" using here unfolding Ball_def in_concat by blast
      moreover have "position_by_id crc32c disk msg_id idx s = (Inr None, s)" using None Some True by (simp add: position_by_id_def)
      ultimately show ?thesis by (rule absent [rotated])
    next
      case False
      let ?ms = "parts ! i"
      have run: "position_by_id crc32c disk msg_id idx s =
          (case search_ordinal crc32c disk segment (\<lambda>m. mm_id m < msg_id) 0 (length ?ms) s of
             (Inl e, s) \<Rightarrow> (Inl e, s)
           | (Inr low, s) \<Rightarrow>
               if low \<ge> length ?ms then (Inr None, s)
               else (case load_ordinal crc32c disk segment low s of
                       (Inl e, s) \<Rightarrow> (Inl e, s)
                     | (Inr m, s) \<Rightarrow> (Inr (if mm_id m = msg_id then Some (mm_position m) else None), s)))"
        using None Some False unfolding f(4) [symmetric] by (simp add: position_by_id_def)
      show ?thesis unfolding run
      proof (rule reads_bind)
        show "reads ?pairs s (\<lambda>k. k < length ?ms \<and> (\<forall>m \<in> set ?ms. mm_id m = msg_id \<longrightarrow> m = ?ms ! k))
            (search_ordinal crc32c disk segment (\<lambda>m. mm_id m < msg_id) 0 (length ?ms) s)"
          using search_id [OF ok cache inc i(1)] i(2,4) by simp
      next
        fix k s1
        assume k: "k < length ?ms \<and> (\<forall>m \<in> set ?ms. mm_id m = msg_id \<longrightarrow> m = ?ms ! k)" and s1: "cache_ok s1" "coherent ?pairs s1"
        have "map_option mm_position (List.find (\<lambda>m. mm_id m = msg_id) (concat parts))
            = (if mm_id (?ms ! k) = msg_id then Some (mm_position (?ms ! k)) else None)"
        proof (cases "mm_id (?ms ! k) = msg_id")
          case True
          have "?ms ! k \<in> set (concat parts)" unfolding in_concat using i(1) k by (intro exI [of _ i]) simp
          then show ?thesis using find_message [OF inc _ True] True by simp
        next
          case False
          then have "\<forall>m \<in> set (concat parts). mm_id m \<noteq> msg_id" using here k unfolding Ball_def in_concat by blast
          then have "List.find (\<lambda>m. mm_id m = msg_id) (concat parts) = None" unfolding find_None_iff by blast
          then show ?thesis using False by simp
        qed
        moreover have "reads ?pairs s1 (\<lambda>m. m = ?ms ! k) (load_ordinal crc32c disk segment k s1)"
          using load_ordinal_reads [OF s1 index_part(2) [OF ok i(1)] index_okD(3) [OF ok] index_part(1) [OF ok i(1)]] k i(2) by simp
        ultimately have "reads ?pairs s1 ?Q (case load_ordinal crc32c disk segment k s1 of
                       (Inl e, s) \<Rightarrow> (Inl e, s)
                     | (Inr m, s) \<Rightarrow> (Inr (if mm_id m = msg_id then Some (mm_position m) else None), s))"
          unfolding sealed by (elim reads_bind) (simp add: reads_return)
        then show "reads ?pairs s1 ?Q (if k \<ge> length ?ms then (Inr None, s1) else (case load_ordinal crc32c disk segment k s1 of
                       (Inl e, s) \<Rightarrow> (Inl e, s)
                     | (Inr m, s) \<Rightarrow> (Inr (if mm_id m = msg_id then Some (mm_position m) else None), s)))"
          using k by simp
      qed
    qed
  qed
qed

section \<open>The operations keep the index in order\<close>

lemma contiguous_snoc:
  "contiguous (xs @ [m]) \<longleftrightarrow> contiguous xs \<and> (xs \<noteq> [] \<longrightarrow> unat (mm_position m) = unat (mm_position (hd xs)) + length xs)"
  unfolding contiguous_def by (cases "xs = []") (auto simp: nth_append less_Suc_eq)

lemma contiguous_last: "contiguous xs \<Longrightarrow> xs \<noteq> [] \<Longrightarrow> unat (mm_position (last xs)) + 1 = unat (mm_position (hd xs)) + length xs"
  by (simp add: contiguous_def last_conv_nth)

lemma unat_sat_inc_exact: "x \<noteq> u64_max \<Longrightarrow> unat (sat_inc x) = unat x + 1"
  using unat_le_u64_max [of x] unat_u64_max word_unat_eq_iff [of x u64_max] by (auto simp: unat_sat_inc)

lemma contiguous_extend:
  assumes "contiguous xs" and "xs \<noteq> []" and "check_contiguous (Some (sat_inc (mm_position (last xs)))) ms"
    and "\<forall>m \<in> set (xs @ ms). mm_position m \<noteq> u64_max"
  shows "contiguous (xs @ ms)"
  using assms
proof (induction ms arbitrary: xs)
  case (Cons m ms)
  have "mm_position (last xs) \<noteq> u64_max" using Cons.prems(2,4) by simp
  then have "unat (sat_inc (mm_position (last xs))) = unat (mm_position (last xs)) + 1"
    by (rule unat_sat_inc_exact)
  then have "contiguous (xs @ [m])"
    using Cons.prems(1-3) contiguous_last [OF Cons.prems(1,2)] by (simp add: contiguous_snoc)
  then have "contiguous ((xs @ [m]) @ ms)" using Cons.prems(3,4) by (intro Cons.IH) auto
  then show ?case by simp
qed simp

lemma contiguous_rising: "contiguous ms \<Longrightarrow> rising mm_position ms"
  by (auto simp: contiguous_def sorted_wrt_iff_nth_less word_less_nat_alt)

lemma check_contiguous_ok:
  assumes "check_contiguous expected ms" and "\<forall>m \<in> set ms. mm_position m \<noteq> u64_max"
  shows "contiguous ms"
proof (cases ms)
  case (Cons m ms')
  have "contiguous ([m] @ ms')" by (rule contiguous_extend) (use assms Cons in \<open>auto simp: contiguous_def\<close>)
  then show ?thesis using Cons by simp
qed (simp add: contiguous_def)

lemma positions_bound:
  assumes "rising mm_position ms" and "\<forall>m \<in> set ms. mm_position m \<noteq> 0"
  shows "length ms \<le> usize_max"
proof -
  have "distinct (map mm_position ms)" using assms(1) by (induction ms) auto
  then have "length ms = card (set (map mm_position ms))" by (metis distinct_card length_map)
  also have "\<dots> \<le> card (UNIV - {0 :: u64})" by (rule card_mono) (use assms(2) in auto)
  also have "\<dots> = usize_max" by (simp add: card_Diff_singleton card_word usize_max_def)
  finally show ?thesis .
qed

lemma usat_add_exact: "a + b \<le> usize_max \<Longrightarrow> usat_add a b = a + b"
  by (simp add: usat_add_def)

lemma index_messages_last:
  assumes ok: "index_ok crc32c disk parts idx" and m: "m \<in> set (concat parts)"
  shows "mi_sealed idx \<noteq> []" and "mm_position m \<le> sm_last_position (last (mi_sealed idx))"
proof -
  obtain j where j: "j < length parts" "m \<in> set (parts ! j)" using m unfolding in_concat by blast
  show ne: "mi_sealed idx \<noteq> []" using j(1) index_okD(2) [OF ok] by auto
  let ?n = "length parts - 1"
  have n: "?n < length parts" using j(1) by simp
  note f = seg_ok_fields [OF index_part(1) [OF ok n]]
  have "last (mi_sealed idx) = mi_sealed idx ! ?n" using ne index_okD(2) [OF ok] by (simp add: last_conv_nth)
  then have last: "sm_last_position (last (mi_sealed idx)) = mm_position (last (parts ! ?n))" using f(6) by simp
  note asc = rising_ascending [OF index_okD(5) [OF ok]]
  show "mm_position m \<le> sm_last_position (last (mi_sealed idx))"
    using ascending_last [OF ascending_part [OF asc n], of m] sorted_concat(1) [OF asc n last_in_set [OF f(1)], of j m] j last
    by (cases "j = ?n") auto
qed

lemma extend_active_ok:
  assumes ok: "index_ok crc32c disk parts idx" and run: "extend_active messages idx = Inr idx'"
    and valid: "\<forall>m \<in> set messages. mm_position m \<noteq> 0 \<and> mm_position m \<noteq> u64_max"
    and paths: "\<forall>m \<in> set messages. pr_path (mm_payload m) \<notin> seg_path ` set (mi_sealed idx)"
  shows "index_ok crc32c disk parts idx' \<and> mi_sealed idx' = mi_sealed idx \<and> mi_active idx' = mi_active idx @ messages"
proof -
  let ?a = "mi_active idx"
  have chk: "check_contiguous (if ?a = [] then None else Some (sat_inc (mm_position (last ?a)))) messages"
    and idx': "idx' = idx\<lparr>mi_total_count := usat_add (mi_total_count idx) (length messages), mi_active := ?a @ messages\<rparr>"
    and first: "?a = [] \<Longrightarrow> mi_sealed idx \<noteq> [] \<Longrightarrow> messages \<noteq> [] \<Longrightarrow> sm_last_position (last (mi_sealed idx)) < mm_position (hd messages)"
    using run by (auto simp: extend_active_def Let_def split: if_splits)
  have bounds: "\<forall>m \<in> set (index_messages parts idx). mm_position m \<noteq> 0 \<and> mm_position m \<noteq> u64_max" using ok by (simp add: index_ok_def)
  have cont: "contiguous (?a @ messages)"
  proof (cases "?a = []")
    case True
    then show ?thesis using check_contiguous_ok [OF chk] valid by simp
  next
    case False
    then show ?thesis using chk valid bounds
      by (intro contiguous_extend index_okD(4) [OF ok]) (auto simp: index_messages_def)
  qed
  have before: "mm_position a < mm_position b" if ab: "a \<in> set (concat parts)" "b \<in> set (?a @ messages)" for a b
  proof (cases "?a = []")
    case True
    have "mm_position a \<le> sm_last_position (last (mi_sealed idx))" "mi_sealed idx \<noteq> []"
      using index_messages_last [OF ok ab(1)] by simp_all
    moreover have "mm_position (hd messages) \<le> mm_position b"
      using ascending_hd [OF rising_ascending [OF contiguous_rising [OF cont]] ab(2)] True by simp
    moreover have "messages \<noteq> []" using ab(2) True by auto
    ultimately show ?thesis using first [OF True] by (meson le_less_trans less_le_trans)
  next
    case False
    have "mm_position a < mm_position (hd ?a)" using index_okD(7) [OF ok ab(1)] False by simp
    also have "\<dots> \<le> mm_position b"
      using ascending_hd [OF rising_ascending [OF contiguous_rising [OF cont]] ab(2)] False by simp
    finally show ?thesis .
  qed
  have rise: "rising mm_position (index_messages parts idx @ messages)"
    using index_okD(5) [OF ok] contiguous_rising [OF cont] before
    unfolding index_messages_def append_assoc sorted_wrt_append by blast
  have "length (index_messages parts idx @ messages) \<le> usize_max"
    by (rule positions_bound [OF rise]) (use bounds valid in auto)
  then have total: "usat_add (mi_total_count idx) (length messages) = length (index_messages parts idx @ messages)"
    using ok by (simp add: usat_add_exact index_ok_def)
  have msgs: "index_messages parts idx' = index_messages parts idx @ messages" by (simp add: idx' index_messages_def)
  show ?thesis
    unfolding index_ok_def msgs using ok rise total cont bounds valid paths
    by (auto simp: idx' index_ok_def)
qed

lemma filter_split:
  assumes "rising f xs" and "\<And>a b. a \<in> set xs \<Longrightarrow> P a \<Longrightarrow> b \<in> set xs \<Longrightarrow> \<not> P b \<Longrightarrow> f a < (f b :: 'a::linorder)"
  shows "xs = filter P xs @ filter (\<lambda>x. \<not> P x) xs"
  using assms
proof (induction xs)
  case (Cons x xs)
  show ?case
  proof (cases "P x")
    case True
    then show ?thesis using Cons by simp
  next
    case False
    have "\<not> P a" if "a \<in> set xs" for a
      using Cons.prems(1) Cons.prems(2) [of a x] that False by fastforce
    then have "filter P xs = []" by simp
    moreover have "filter (\<lambda>x. \<not> P x) xs = xs" using \<open>\<And>a. a \<in> set xs \<Longrightarrow> \<not> P a\<close> by simp
    ultimately show ?thesis using False by simp
  qed
qed simp

lemma contiguous_prefix:
  assumes "contiguous (xs @ ys)" shows "contiguous xs"
  unfolding contiguous_def
proof (intro allI impI)
  fix i assume i: "i < length xs"
  then have "xs \<noteq> []" by auto
  then show "unat (mm_position (xs ! i)) = unat (mm_position (hd xs)) + i"
    using assms i unfolding contiguous_def by (auto dest!: spec [where x = i] simp: nth_append)
qed

lemma contiguous_suffix: "contiguous (xs @ ys) \<Longrightarrow> contiguous ys"
proof -
  assume c: "contiguous (xs @ ys)"
  have at: "unat (mm_position (ys ! i)) = unat (mm_position (hd (xs @ ys))) + (length xs + i)" if "i < length ys" for i
    using c that unfolding contiguous_def by (metis length_append nat_add_left_cancel_less nth_append_length_plus)
  show ?thesis unfolding contiguous_def
  proof (intro allI impI)
    fix i assume i: "i < length ys"
    then have "hd ys = ys ! 0" by (cases ys) simp_all
    then show "unat (mm_position (ys ! i)) = unat (mm_position (hd ys)) + i" using at [OF i] at [of 0] i by (cases ys) simp_all
  qed
qed

lemma fold_min_stored:
  assumes "ms \<noteq> []" and "\<forall>m \<in> set ms. in_i64 (f m)"
  shows "fold (\<lambda>m. min (f m)) ms i64_max = Min (f ` set ms)" and "fold (\<lambda>m. max (f m)) ms i64_min = Max (f ` set ms)"
proof -
  have in_range: "Min (f ` set ms) \<in> f ` set ms" "Max (f ` set ms) \<in> f ` set ms" using assms(1) by (auto intro!: Min_in Max_in)
  then have "Min (f ` set ms) \<le> i64_max" "i64_min \<le> Max (f ` set ms)" using assms(2) by (auto simp: in_i64_def)
  then show "fold (\<lambda>m. min (f m)) ms i64_max = Min (f ` set ms)" "fold (\<lambda>m. max (f m)) ms i64_min = Max (f ` set ms)"
    using assms(1) by (simp_all add: fold_min_image fold_max_image)
qed

text \<open>A segment that \<open>push_sealed\<close> accepts joins the index after the sealed ones and before the active messages.\<close>

lemma push_sealed_ok:
  assumes ok: "index_ok crc32c disk parts idx" and seg: "seg_ok crc32c disk segment ms"
    and fresh: "seg_path segment \<notin> seg_path ` set (mi_sealed idx)"
    and act: "\<forall>m \<in> set (mi_active idx). pr_path (mm_payload m) \<noteq> seg_path segment"
    and valid: "\<forall>m \<in> set ms. mm_position m \<noteq> 0 \<and> mm_position m \<noteq> u64_max"
    and run: "push_sealed segment idx = Inr idx'"
  shows "index_ok crc32c disk (parts @ [ms]) idx' \<and> mi_sealed idx' = mi_sealed idx @ [segment] \<and> mi_active idx' = mi_active idx"
proof -
  note f = seg_ok_fields [OF seg]
  have idx': "idx' = idx\<lparr>mi_total_count := usat_add (mi_total_count idx) (sm_count segment), mi_sealed := mi_sealed idx @ [segment]\<rparr>"
    and after: "mi_sealed idx \<noteq> [] \<Longrightarrow> sm_last_position (last (mi_sealed idx)) < mm_position (hd ms)"
    and before: "mi_active idx \<noteq> [] \<Longrightarrow> mm_position (last ms) < mm_position (hd (mi_active idx))"
    using run f by (auto simp: push_sealed_def not_le split: if_splits)
  have rise: "rising mm_position ms" by (rule contiguous_rising [OF f(2)])
  have low: "mm_position a < mm_position b" if "a \<in> set (concat parts)" "b \<in> set ms" for a b
  proof -
    have "mm_position a < mm_position (hd ms)"
      using index_messages_last [OF ok that(1)] after by (auto intro: le_less_trans)
    then show ?thesis using ascending_hd [OF rising_ascending [OF rise] that(2)] by (rule less_le_trans)
  qed
  have high: "mm_position a < mm_position b" if "a \<in> set ms" "b \<in> set (mi_active idx)" for a b
  proof -
    have "mm_position a < mm_position (hd (mi_active idx))"
      using ascending_last [OF rising_ascending [OF rise] that(1)] before that(2) by (cases "mi_active idx") simp_all
    then show ?thesis
      using ascending_hd [OF rising_ascending [OF index_okD(6) [OF ok]] that(2)] by (rule less_le_trans)
  qed
  have msgs: "index_messages (parts @ [ms]) idx' = concat parts @ ms @ mi_active idx" by (simp add: idx' index_messages_def)
  have all: "rising mm_position (concat parts @ ms @ mi_active idx)"
    using index_okD(5-7) [OF ok] rise low high unfolding sorted_wrt_append set_append by blast
  have bounds: "\<forall>m \<in> set (concat parts @ ms @ mi_active idx). mm_position m \<noteq> 0 \<and> mm_position m \<noteq> u64_max"
    using ok valid by (auto simp: index_ok_def index_messages_def)
  have "length (concat parts @ ms @ mi_active idx) \<le> usize_max" by (rule positions_bound [OF all]) (use bounds in blast)
  then have total: "usat_add (mi_total_count idx) (sm_count segment) = length (concat parts @ ms @ mi_active idx)"
    using ok f(4) by (simp add: index_ok_def index_messages_def usat_add_exact)
  have segs: "list_all2 (seg_ok crc32c disk) (mi_sealed idx') (parts @ [ms])"
    using index_okD(1) [OF ok] seg by (simp add: idx' list_all2_appendI)
  have "distinct (map seg_path (mi_sealed idx'))" using ok fresh by (simp add: idx' index_ok_def)
  moreover have "\<forall>m \<in> set (mi_active idx'). pr_path (mm_payload m) \<notin> seg_path ` set (mi_sealed idx')"
    using ok act by (simp add: idx' index_ok_def)
  ultimately have "index_ok crc32c disk (parts @ [ms]) idx'"
    unfolding index_ok_def msgs using segs all bounds total index_okD(4) [OF ok] by (simp add: idx')
  then show ?thesis by (simp add: idx')
qed

lemma follows_contiguous: "successively follows (a # xs) \<Longrightarrow> check_contiguous (Some (sat_inc (mm_position a))) xs"
proof (induction xs arbitrary: a)
  case (Cons x xs)
  have "successively follows (x # xs)" using Cons.prems by simp
  then have "check_contiguous (Some (sat_inc (mm_position x))) xs" by (rule Cons.IH)
  then show ?case using Cons.prems by simp
qed simp

lemma recover_sealed_ok:
  assumes ok: "index_ok crc32c disk parts idx" and st: "stored crc32c disk metadata ms" and ne: "ms \<noteq> []"
    and fresh: "rm_segment metadata \<notin> seg_path ` set (mi_sealed idx)"
    and act: "\<forall>m \<in> set (mi_active idx). pr_path (mm_payload m) \<noteq> rm_segment metadata"
    and max: "\<forall>m \<in> set ms. mm_position m \<noteq> u64_max"
    and run: "recover_sealed crc32c disk metadata idx = Inr idx'"
  shows "index_ok crc32c disk (parts @ [ms]) idx' \<and> mi_sealed idx' = mi_sealed idx @ [from_summary metadata (summary_spec ms)]
    \<and> mi_active idx' = mi_active idx"
proof -
  have follow: "successively follows ms" and push: "push_sealed (from_summary metadata (summary_spec ms)) idx = Inr idx'"
    using run inspect_stored [OF st ne] by (auto simp: recover_sealed_def split: if_splits)
  have "check_contiguous None ms"
  proof (cases ms)
    case (Cons m ms')
    then show ?thesis using follow follows_contiguous by simp
  qed simp
  then have "contiguous ms" using max by (rule check_contiguous_ok)
  then have seg: "seg_ok crc32c disk (from_summary metadata (summary_spec ms)) ms"
    using st ne by (simp add: seg_ok_def from_summary_def)
  have "\<forall>m \<in> set ms. mm_position m \<noteq> 0 \<and> mm_position m \<noteq> u64_max"
    using st max by (auto simp: stored_def list_all_iff meta_valid_def)
  then show ?thesis using push_sealed_ok [OF ok seg _ _ _ push] fresh act by (simp add: from_summary_def)
qed

lemma seal_path_ok:
  assumes ok: "index_ok crc32c disk parts idx" and st: "stored crc32c disk metadata (active_for_path path idx)"
    and meta: "rm_segment metadata = path" and fresh: "path \<notin> seg_path ` set (mi_sealed idx)"
    and run: "seal_path path metadata idx s = (Inr (), idx', s')"
  shows "\<exists>segment. index_ok crc32c disk (parts @ [active_for_path path idx]) idx'
    \<and> index_messages (parts @ [active_for_path path idx]) idx' = index_messages parts idx
    \<and> mi_sealed idx' = mi_sealed idx @ [segment] \<and> seg_path segment = path
    \<and> s' = release_active (length (active_for_path path idx)) s"
proof -
  let ?P = "\<lambda>m. pr_path (mm_payload m) = path" and ?a = "mi_active idx"
  define ms rest where "ms = active_for_path path idx" and "rest = filter (\<lambda>m. \<not> ?P m) ?a"
  have ms: "ms = filter ?P ?a" by (simp add: ms_def active_for_path_def)
  define idx1 where "idx1 = idx\<lparr>mi_active := rest, mi_total_count := mi_total_count idx - length ms\<rparr>"
  define segment where "segment = from_summary metadata \<lparr>rs_count = length ms, rs_first = hd ms, rs_last = last ms,
      rs_min_available_at_ms = fold (\<lambda>m. min (mm_available_at_ms m)) ms i64_max,
      rs_max_available_at_ms = fold (\<lambda>m. max (mm_available_at_ms m)) ms i64_min\<rparr>"
  have ne: "ms \<noteq> []" and push: "push_sealed segment idx1 = Inr idx'" and s': "s' = release_active (length ms) s"
    using run unfolding segment_def idx1_def ms_def rest_def from_summary_def
    by (auto simp: seal_path_def Let_def split: if_splits sum.splits)
  have first: "rest = [] \<or> mm_position (last ms) < mm_position (hd rest)"
    using push by (auto simp: push_sealed_def segment_def from_summary_def idx1_def split: if_splits)
  note rise = index_okD(6) [OF ok]
  have asc: "ascending mm_position ms" "ascending mm_position rest"
    using rising_ascending [OF rise] by (simp_all add: ms rest_def sorted_wrt_filter)
  have split: "?a = ms @ rest"
    unfolding ms rest_def
  proof (rule filter_split [OF rise])
    fix a b assume ab: "a \<in> set ?a" "?P a" "b \<in> set ?a" "\<not> ?P b"
    have "mm_position a \<le> mm_position (last ms)" using ascending_last [OF asc(1)] ab by (simp add: ms)
    moreover have b: "b \<in> set rest" using ab by (simp add: rest_def)
    moreover have "mm_position (hd rest) \<le> mm_position b" using ascending_hd [OF asc(2) b] .
    ultimately show "mm_position a < mm_position b" using first by (auto intro: le_less_trans less_le_trans)
  qed
  have total: "mi_total_count idx = length (concat parts) + length ms + length rest"
    using ok split by (simp add: index_ok_def index_messages_def)
  have msgs: "index_messages parts idx = concat parts @ ms @ rest" by (simp add: index_messages_def split)
  have ok1: "index_ok crc32c disk parts idx1"
    using ok contiguous_suffix [of ms rest] index_okD(4) [OF ok] total
    unfolding index_ok_def msgs
    by (auto simp: idx1_def split index_messages_def sorted_wrt_append)
  have "\<forall>m \<in> set ms. in_i64 (mm_available_at_ms m)"
    using st by (auto simp: stored_def ms_def list_all_iff meta_valid_def)
  then have "segment = from_summary metadata (summary_spec ms)"
    using fold_min_stored [OF ne] by (simp add: segment_def summary_spec_def)
  then have seg: "seg_ok crc32c disk segment ms"
    using st ne contiguous_prefix [of ms rest] index_okD(4) [OF ok] split
    by (simp add: seg_ok_def ms_def [symmetric] from_summary_def)
  have path: "seg_path segment = path" using meta by (simp add: segment_def from_summary_def)
  have valid: "\<forall>m \<in> set ms. mm_position m \<noteq> 0 \<and> mm_position m \<noteq> u64_max" using ok by (auto simp: index_ok_def msgs)
  have pushed: "index_ok crc32c disk (parts @ [ms]) idx' \<and> mi_sealed idx' = mi_sealed idx1 @ [segment] \<and> mi_active idx' = mi_active idx1"
    by (rule push_sealed_ok [OF ok1 seg _ _ valid push]) (use path fresh in \<open>auto simp: idx1_def rest_def\<close>)
  then show ?thesis
    unfolding ms_def [symmetric] using path s' msgs by (intro exI [of _ segment]) (simp add: idx1_def index_messages_def)
qed

text \<open>Purging removes sealed segments, their messages, and their pages.\<close>

lemma list_all2_filter:
  "list_all2 R xs ys \<Longrightarrow> list_all2 R (filter P xs) (map snd (filter (\<lambda>(x, y). P x) (zip xs ys)))"
  by (induction rule: list_all2_induct) simp_all

lemma removed_total:
  "list_all2 (seg_ok crc32c disk) segs parts \<Longrightarrow> length (concat parts) + k \<le> n
   \<Longrightarrow> fold (\<lambda>segment n. n - sm_count segment) (filter (\<lambda>x. \<not> P x) segs) n + length (concat parts)
     = n + length (concat (map snd (filter (\<lambda>(x, y). P x) (zip segs parts))))"
proof (induction arbitrary: n k rule: list_all2_induct)
  case (Cons x xs y ys)
  have "sm_count x = length y" using Cons.hyps(1) by (rule seg_ok_fields)
  then show ?case using Cons.IH [of k n] Cons.IH [of k "n - length y"] Cons.prems by (cases "P x") (simp, simp, arith)
qed simp

lemma invalidate_pages:
  "fmlookup (cc_pages (invalidate path s)) key = Some page \<Longrightarrow> fmlookup (cc_pages s) key = Some page \<and> pk_segment key \<noteq> path"
  by (auto simp: invalidate_def Let_def split: if_splits)

lemma fold_invalidate_ok: "cache_ok s \<Longrightarrow> cache_ok (fold (\<lambda>segment. invalidate (seg_path segment)) segs s)"
  by (induction segs arbitrary: s) (simp_all add: invalidate_ok)

lemma fold_invalidate_pages:
  assumes "fmlookup (cc_pages (fold (\<lambda>segment. invalidate (seg_path segment)) segs s)) key = Some page"
  shows "fmlookup (cc_pages s) key = Some page \<and> pk_segment key \<notin> seg_path ` set segs"
  using assms
proof (induction segs arbitrary: s)
  case (Cons segment segs)
  have "fmlookup (cc_pages (invalidate (seg_path segment) s)) key = Some page \<and> pk_segment key \<notin> seg_path ` set segs"
    by (rule Cons.IH) (use Cons.prems in simp)
  then show ?case using invalidate_pages [of "seg_path segment" s key page] by simp
qed simp

lemma subseq_subset: "subseq xs ys \<Longrightarrow> set xs \<subseteq> set ys"
  by (induction rule: list_emb.induct) auto

lemma subseq_sorted_wrt: "subseq xs ys \<Longrightarrow> sorted_wrt P ys \<Longrightarrow> sorted_wrt P xs"
  by (induction rule: list_emb.induct) (auto dest: subseq_subset)

lemma kept_subseq:
  "length segs = length parts \<Longrightarrow> subseq (concat (map snd (filter (\<lambda>(x, y). P x) (zip segs parts)))) (concat parts)"
  by (induction segs parts rule: list_induct2) (auto simp: subseq_append' intro: list_emb_append2)

lemma remove_missing_paths_ok:
  assumes ok: "index_ok crc32c disk parts idx" and run: "remove_missing_paths existing idx s = (idx', s')"
  defines "parts' \<equiv> map snd (filter (\<lambda>(segment, ms). seg_path segment |\<in>| existing) (zip (mi_sealed idx) parts))"
  shows "index_ok crc32c disk parts' idx' \<and> mi_active idx' = mi_active idx
    \<and> mi_sealed idx' = filter (\<lambda>segment. seg_path segment |\<in>| existing) (mi_sealed idx)"
proof -
  let ?keep = "\<lambda>segment. seg_path segment |\<in>| existing"
  have idx': "mi_sealed idx' = filter ?keep (mi_sealed idx)" "mi_active idx' = mi_active idx"
      "mi_total_count idx' = fold (\<lambda>segment n. n - sm_count segment) (filter (\<lambda>x. \<not> ?keep x) (mi_sealed idx)) (mi_total_count idx)"
    using run by (auto simp: remove_missing_paths_def Let_def)
  have segs: "list_all2 (seg_ok crc32c disk) (mi_sealed idx') parts'"
    unfolding idx' parts'_def by (rule list_all2_filter [OF index_okD(1) [OF ok]])
  have sub: "subseq (concat parts') (concat parts)"
    unfolding parts'_def by (rule kept_subseq [OF index_okD(2) [OF ok]])
  then have sub2: "subseq (index_messages parts' idx') (index_messages parts idx)"
    by (simp add: index_messages_def idx' subseq_append)
  have "mi_total_count idx = length (concat parts) + length (mi_active idx)" using ok by (simp add: index_ok_def index_messages_def)
  then have total: "mi_total_count idx' = length (index_messages parts' idx')"
    using removed_total [OF index_okD(1) [OF ok], of "length (mi_active idx)" "mi_total_count idx" ?keep]
    by (simp add: idx' index_messages_def parts'_def)
  have "set (index_messages parts' idx') \<subseteq> set (index_messages parts idx)" using subseq_subset [OF sub2] .
  then show ?thesis
    using ok segs total idx' subseq_sorted_wrt [OF sub2] unfolding index_ok_def by (auto simp: distinct_map_filter)
qed

end
