(* ===== verification/Message_Index_Props.thy ===== *)
theory Message_Index_Props
  imports Message_Index_Inv Channel_Lease
begin

text \<open>
  Properties of the message index in every state its Topic can bring it to: what lookups,
  searches by id, counts, gaps, deferred ranges and expiry scans say of the messages it stands
  for. The gaps it reports are the absent ranges a Channel works with.
\<close>

section \<open>Histories\<close>

definition uncached :: "string \<Rightarrow> cache_state \<Rightarrow> bool" where
  "uncached path s \<longleftrightarrow> (\<forall>page. fmlookup (cc_pages s) \<lparr>pk_segment = path, pk_page = page\<rparr> = None)"

definition index_paths :: "message_index \<Rightarrow> string set" where
  "index_paths idx = seg_path ` set (mi_sealed idx) \<union> (\<lambda>m. pr_path (mm_payload m)) ` set (mi_active idx)"

text \<open>
  What a Topic does with its index: recovery and publishing add messages, sealing moves those of
  a segment to its sidecar, lookups load pages, purging removes segments. Meanwhile other
  sidecars change and other users of the shared cache use it; the pages of this index's
  segments are loaded only through it. New messages lie in segments that are not sealed and
  that no page has been loaded for.
\<close>

inductive index_reach ::
  "(byte list \<Rightarrow> u32) \<Rightarrow> segment_disk \<Rightarrow> message_meta list list \<Rightarrow> message_index \<Rightarrow> cache_state \<Rightarrow> bool"
  for crc32c :: "byte list \<Rightarrow> u32" where
  start: "cache_ok s \<Longrightarrow> index_reach crc32c disk [] new_index s"
| disk_changed: "index_reach crc32c disk parts idx s
    \<Longrightarrow> \<forall>path \<in> seg_path ` set (mi_sealed idx). fmlookup (sd_indexes disk') path = fmlookup (sd_indexes disk) path
    \<Longrightarrow> index_reach crc32c disk' parts idx s"
| recovered_sealed: "index_reach crc32c disk parts idx s \<Longrightarrow> stored crc32c disk metadata ms \<Longrightarrow> ms \<noteq> []
    \<Longrightarrow> \<forall>m \<in> set ms. mm_position m \<noteq> u64_max
    \<Longrightarrow> rm_segment metadata \<notin> index_paths idx \<Longrightarrow> uncached (rm_segment metadata) s
    \<Longrightarrow> recover_sealed crc32c disk metadata idx = Inr idx' \<Longrightarrow> index_reach crc32c disk (parts @ [ms]) idx' s"
| recovered_active: "index_reach crc32c disk parts idx s
    \<Longrightarrow> \<forall>m \<in> set ms. mm_position m \<noteq> 0 \<and> mm_position m \<noteq> u64_max
          \<and> pr_path (mm_payload m) \<notin> seg_path ` set (mi_sealed idx) \<and> uncached (pr_path (mm_payload m)) s
    \<Longrightarrow> recover_active ms idx s = (Inr idx', s') \<Longrightarrow> index_reach crc32c disk parts idx' s'"
| published: "index_reach crc32c disk parts idx s
    \<Longrightarrow> \<forall>m \<in> set ms. mm_position m \<noteq> 0 \<and> mm_position m \<noteq> u64_max
          \<and> pr_path (mm_payload m) \<notin> seg_path ` set (mi_sealed idx) \<and> uncached (pr_path (mm_payload m)) s
    \<Longrightarrow> reservation \<le> cc_reserved_bytes s
    \<Longrightarrow> index_append ms reservation idx s = (Inr idx', reservation', s') \<Longrightarrow> index_reach crc32c disk parts idx' s'"
| sealed: "index_reach crc32c disk parts idx s \<Longrightarrow> stored crc32c disk metadata (active_for_path path idx)
    \<Longrightarrow> rm_segment metadata = path \<Longrightarrow> seal_path path metadata idx s = (Inr (), idx', s')
    \<Longrightarrow> index_reach crc32c disk (parts @ [active_for_path path idx]) idx' s'"
| page_loaded: "index_reach crc32c disk parts idx s \<Longrightarrow> lookup p idx s = Load request
    \<Longrightarrow> load_blocking crc32c disk request s = (r, s') \<Longrightarrow> index_reach crc32c disk parts idx s'"
| purged: "index_reach crc32c disk parts idx s \<Longrightarrow> remove_missing_paths existing idx s = (idx', s')
    \<Longrightarrow> index_reach crc32c disk
          (map snd (filter (\<lambda>(segment, ms). seg_path segment |\<in>| existing) (zip (mi_sealed idx) parts))) idx' s'"
| cache_used_elsewhere: "index_reach crc32c disk parts idx s \<Longrightarrow> cache_ok s'
    \<Longrightarrow> \<forall>key page. fmlookup (cc_pages s') key = Some page
          \<longrightarrow> fmlookup (cc_pages s) key = Some page \<or> pk_segment key \<notin> index_paths idx
    \<Longrightarrow> index_reach crc32c disk parts idx s'"

definition stands_for ::
  "(byte list \<Rightarrow> u32) \<Rightarrow> segment_disk \<Rightarrow> message_meta list list \<Rightarrow> message_index \<Rightarrow> cache_state \<Rightarrow> bool" where
  "stands_for crc32c disk parts idx s \<longleftrightarrow>
     index_ok crc32c disk parts idx \<and> cache_ok s \<and> coherent (zip (mi_sealed idx) parts) s
     \<and> (\<forall>m \<in> set (mi_active idx). uncached (pr_path (mm_payload m)) s)"

lemma stored_cong:
  "fmlookup (sd_indexes disk') (rm_segment r) = fmlookup (sd_indexes disk) (rm_segment r)
   \<Longrightarrow> stored crc32c disk' r ms = stored crc32c disk r ms"
  by (simp add: stored_def)

lemma index_ok_disk:
  assumes "index_ok crc32c disk parts idx"
    and "\<forall>path \<in> seg_path ` set (mi_sealed idx). fmlookup (sd_indexes disk') path = fmlookup (sd_indexes disk) path"
  shows "index_ok crc32c disk' parts idx"
proof -
  have "list_all2 (seg_ok crc32c disk') (mi_sealed idx) parts"
  proof (rule list_all2_all_nthI [OF index_okD(2) [OF assms(1)]])
    fix i assume i: "i < length (mi_sealed idx)"
    then have eq: "fmlookup (sd_indexes disk') (seg_path (mi_sealed idx ! i)) = fmlookup (sd_indexes disk) (seg_path (mi_sealed idx ! i))"
      using assms(2) by simp
    have "i < length parts" using i index_okD(2) [OF assms(1)] by simp
    from index_part(1) [OF assms(1) this] show "seg_ok crc32c disk' (mi_sealed idx ! i) (parts ! i)"
      unfolding seg_ok_def stored_cong [OF eq] .
  qed
  then show ?thesis using assms(1) by (simp add: index_ok_def)
qed

lemma coherent_snoc:
  assumes "coherent pairs s" and "uncached (seg_path segment) s"
  shows "coherent (pairs @ [(segment, ms)]) s"
  using assms by (auto simp: coherent_def uncached_def)

lemma uncached_mono:
  "uncached path s \<Longrightarrow> (\<And>key page. fmlookup (cc_pages s') key = Some page \<Longrightarrow> fmlookup (cc_pages s) key = Some page)
   \<Longrightarrow> uncached path s'"
  unfolding uncached_def by (metis not_None_eq)

lemma stands_for_mono:
  assumes "stands_for crc32c disk parts idx s" and "cache_ok s'"
    and "\<And>key page. fmlookup (cc_pages s') key = Some page \<Longrightarrow> fmlookup (cc_pages s) key = Some page"
  shows "stands_for crc32c disk parts idx s'"
  using assms coherent_mono [OF _ assms(3)] uncached_mono [OF _ assms(3)] by (simp add: stands_for_def)

lemma load_blocking_pages:
  assumes "cache_ok s" and "load_blocking crc32c disk request s = (r, s')"
    and "fmlookup (cc_pages s') key = Some page"
  shows "key = pq_key request \<or> fmlookup (cc_pages s) key = Some page"
  using assms(2,3) cache_insert_pages [OF assms(1), of "pq_key request" _ key page]
  by (auto simp: load_blocking_def split: if_splits sum.splits)

lemma uncached_load:
  assumes "cache_ok s" and "load_blocking crc32c disk request s = (r, s')"
    and "uncached path s" and "pk_segment (pq_key request) \<noteq> path"
  shows "uncached path s'"
  unfolding uncached_def
proof
  fix page
  have "\<lparr>pk_segment = path, pk_page = page\<rparr> \<noteq> pq_key request" using assms(4) by (metis page_key.select_convs(1))
  then show "fmlookup (cc_pages s') \<lparr>pk_segment = path, pk_page = page\<rparr> = None"
    using load_blocking_pages [OF assms(1,2)] assms(3) unfolding uncached_def by (metis not_None_eq)
qed

text \<open>The page a lookup asks for is one of a sealed segment, and loading it keeps the cache coherent.\<close>

lemma lookup_load:
  assumes ok: "index_ok crc32c disk parts idx" and cache: "cache_ok s" "coherent (zip (mi_sealed idx) parts) s"
    and look: "lookup p idx s = Load request" and run: "load_blocking crc32c disk request s = (r, s')"
  shows "loaded (zip (mi_sealed idx) parts) s s' \<and> pk_segment (pq_key request) \<in> seg_path ` set (mi_sealed idx)"
proof -
  have "p \<in> mm_position ` set (index_messages parts idx)" using lookup_absent [OF ok, of p s] look by auto
  then obtain m where m: "m \<in> set (index_messages parts idx)" "p = mm_position m" by blast
  have sealed: "m \<in> set (concat parts)"
    using m look lookup_active [OF ok, of m s] unfolding index_messages_def set_append by auto
  obtain request' s1 where l: "lookup p idx s = Load request'" "load_blocking crc32c disk request' s = (Inr (), s1)"
      "loaded (zip (mi_sealed idx) parts) s s1"
    using lookup_present [OF ok cache sealed] look m(2) by (metis lookup_result.distinct(1))
  obtain i k where i: "i < length parts" and at: "lookup p idx s = (let request = page_request_for (mi_sealed idx ! i) k
            in case cache_get (pq_key request) (k - pq_first_ordinal request) s of
                 Some m' \<Rightarrow> if mm_position m' = p then Found m' else lookup_result.Absent
               | None \<Rightarrow> Load request)"
    using lookup_at [OF ok sealed] m(2) by blast
  have "request = page_request_for (mi_sealed idx ! i) k" using look unfolding at by (simp add: Let_def split: option.splits if_splits)
  then have "pk_segment (pq_key request) = seg_path (mi_sealed idx ! i)" by (simp add: page_request_for_def Let_def)
  moreover have "mi_sealed idx ! i \<in> set (mi_sealed idx)" using i index_okD(2) [OF ok] by simp
  ultimately show ?thesis using l look run by auto
qed

lemma consume_pages: "consume_reservation n b s = (b', s') \<Longrightarrow> cc_pages s' = cc_pages s"
  by (auto simp: consume_reservation_def mark_changed_def Let_def)

lemma release_pages: "cc_pages (release_active n s) = cc_pages s"
  by (simp add: release_active_def mark_changed_def Let_def)

lemma recovered_pages:
  "cache_ok s \<Longrightarrow> fmlookup (cc_pages (add_recovered_active n s)) key = Some page \<Longrightarrow> fmlookup (cc_pages s) key = Some page"
  using evict_ok [of s "usat_mul n meta_size"] by (simp add: add_recovered_active_def Let_def evicted_def)

lemma stands_for_extend:
  assumes inv: "stands_for crc32c disk parts idx s" and run: "extend_active ms idx = Inr idx'"
    and new: "\<forall>m \<in> set ms. mm_position m \<noteq> 0 \<and> mm_position m \<noteq> u64_max
          \<and> pr_path (mm_payload m) \<notin> seg_path ` set (mi_sealed idx) \<and> uncached (pr_path (mm_payload m)) s"
  shows "stands_for crc32c disk parts idx' s"
proof -
  have ok: "index_ok crc32c disk parts idx" using inv by (simp add: stands_for_def)
  have "index_ok crc32c disk parts idx' \<and> mi_sealed idx' = mi_sealed idx \<and> mi_active idx' = mi_active idx @ ms"
    by (rule extend_active_ok [OF ok run]) (use new in auto)
  then show ?thesis using inv new by (auto simp: stands_for_def)
qed

lemma stands_for_joined:
  assumes inv: "stands_for crc32c disk parts idx s" and ok: "index_ok crc32c disk (parts @ [ms]) idx'"
    and idx': "mi_sealed idx' = mi_sealed idx @ [segment]" "set (mi_active idx') \<subseteq> set (mi_active idx)"
    and s': "cc_pages s' = cc_pages s" "cache_ok s'" and un: "uncached (seg_path segment) s"
  shows "stands_for crc32c disk (parts @ [ms]) idx' s'"
proof -
  have old: "index_ok crc32c disk parts idx" "coherent (zip (mi_sealed idx) parts) s"
    using inv by (simp_all add: stands_for_def)
  have "zip (mi_sealed idx') (parts @ [ms]) = zip (mi_sealed idx) parts @ [(segment, ms)]"
    using index_okD(2) [OF old(1)] by (simp add: idx'(1))
  then have "coherent (zip (mi_sealed idx') (parts @ [ms])) s'"
    using coherent_snoc [OF old(2) un, of ms] s'(1) by (simp add: coherent_def)
  then show ?thesis using inv ok idx'(2) s' by (auto simp: stands_for_def uncached_def)
qed

lemma zip_kept: "zip (filter P xs) (map snd (filter (\<lambda>(x, y). P x) (zip xs ys))) = filter (\<lambda>(x, y). P x) (zip xs ys)"
proof (induction xs arbitrary: ys)
  case (Cons x xs)
  then show ?case by (cases ys) simp_all
qed simp

lemma stands_for_purged:
  assumes inv: "stands_for crc32c disk parts idx s" and run: "remove_missing_paths existing idx s = (idx', s')"
  shows "stands_for crc32c disk
    (map snd (filter (\<lambda>(segment, ms). seg_path segment |\<in>| existing) (zip (mi_sealed idx) parts))) idx' s'"
proof -
  let ?keep = "\<lambda>segment. seg_path segment |\<in>| existing" and ?pairs = "zip (mi_sealed idx) parts"
  let ?kept = "filter (\<lambda>(segment, ms). ?keep segment) ?pairs"
  have old: "index_ok crc32c disk parts idx" "cache_ok s" "coherent ?pairs s"
    using inv by (simp_all add: stands_for_def)
  note new = remove_missing_paths_ok [OF old(1) run]
  have s': "s' = fold (\<lambda>segment. invalidate (seg_path segment)) (filter (\<lambda>x. \<not> ?keep x) (mi_sealed idx)) s"
    using run by (auto simp: remove_missing_paths_def Let_def)
  have less: "fmlookup (cc_pages s) key = Some page" if "fmlookup (cc_pages s') key = Some page" for key page
    using fold_invalidate_pages that unfolding s' by blast
  have "coherent ?kept s'"
    using coherent_mono [OF old(3) less] unfolding coherent_def by auto
  then have "coherent (zip (mi_sealed idx') (map snd ?kept)) s'" using new by (simp add: zip_kept)
  moreover have "cache_ok s'" unfolding s' by (rule fold_invalidate_ok [OF old(2)])
  moreover have "uncached path s'" if "uncached path s" for path using that less by (rule uncached_mono)
  ultimately show ?thesis using new inv by (simp add: stands_for_def)
qed

lemma stands_for_disk:
  "stands_for crc32c disk parts idx s
   \<Longrightarrow> \<forall>path \<in> seg_path ` set (mi_sealed idx). fmlookup (sd_indexes disk') path = fmlookup (sd_indexes disk) path
   \<Longrightarrow> stands_for crc32c disk' parts idx s"
  unfolding stands_for_def using index_ok_disk by blast

lemma stands_for_recovered:
  assumes inv: "stands_for crc32c disk parts idx s" and st: "stored crc32c disk metadata ms" "ms \<noteq> []"
    and pos: "\<forall>m \<in> set ms. mm_position m \<noteq> u64_max"
    and fresh: "rm_segment metadata \<notin> index_paths idx" and un: "uncached (rm_segment metadata) s"
    and run: "recover_sealed crc32c disk metadata idx = Inr idx'"
  shows "stands_for crc32c disk (parts @ [ms]) idx' s
    \<and> mi_sealed idx' = mi_sealed idx @ [from_summary metadata (summary_spec ms)] \<and> mi_active idx' = mi_active idx"
proof -
  have ok: "index_ok crc32c disk parts idx" "cache_ok s" using inv by (simp_all add: stands_for_def)
  have "index_ok crc32c disk (parts @ [ms]) idx' \<and> mi_sealed idx' = mi_sealed idx @ [from_summary metadata (summary_spec ms)]
    \<and> mi_active idx' = mi_active idx"
    by (rule recover_sealed_ok [OF ok(1) st _ _ pos run]) (use fresh in \<open>force simp: index_paths_def\<close>)+
  then show ?thesis using stands_for_joined [OF inv] ok(2) un by (simp add: from_summary_def)
qed

lemma stands_for_recover_active:
  assumes inv: "stands_for crc32c disk parts idx s" and run: "recover_active ms idx s = (Inr idx', s')"
    and new: "\<forall>m \<in> set ms. mm_position m \<noteq> 0 \<and> mm_position m \<noteq> u64_max
          \<and> pr_path (mm_payload m) \<notin> seg_path ` set (mi_sealed idx) \<and> uncached (pr_path (mm_payload m)) s"
  shows "stands_for crc32c disk parts idx' s'"
proof -
  have ext: "extend_active ms idx = Inr idx'" and s': "s' = add_recovered_active (length ms) s"
    using run by (auto simp: recover_active_def split: sum.splits)
  have "stands_for crc32c disk parts idx' s" using stands_for_extend [OF inv ext] new by blast
  then show ?thesis using stands_for_mono add_recovered_active_ok(1) recovered_pages unfolding s' by (metis stands_for_def)
qed

lemma stands_for_published:
  assumes inv: "stands_for crc32c disk parts idx s" and run: "index_append ms reservation idx s = (Inr idx', reservation', s')"
    and room: "reservation \<le> cc_reserved_bytes s"
    and new: "\<forall>m \<in> set ms. mm_position m \<noteq> 0 \<and> mm_position m \<noteq> u64_max
          \<and> pr_path (mm_payload m) \<notin> seg_path ` set (mi_sealed idx) \<and> uncached (pr_path (mm_payload m)) s"
  shows "stands_for crc32c disk parts idx' s' \<and> cc_pages s' = cc_pages s"
proof -
  have ext: "extend_active ms idx = Inr idx'" and s': "consume_reservation (length ms) reservation s = (reservation', s')"
    using run by (auto simp: index_append_def split: sum.splits)
  have inv': "stands_for crc32c disk parts idx' s" using stands_for_extend [OF inv ext] new by blast
  then have "cache_ok s'" using consume_reservation_ok(1) [OF _ room s'] by (simp add: stands_for_def)
  then have "stands_for crc32c disk parts idx' s'" by (rule stands_for_mono [OF inv']) (simp add: consume_pages [OF s'])
  then show ?thesis using consume_pages [OF s'] by simp
qed

lemma stands_for_sealed:
  assumes inv: "stands_for crc32c disk parts idx s" and st: "stored crc32c disk metadata (active_for_path path idx)"
    and path: "rm_segment metadata = path" and run: "seal_path path metadata idx s = (Inr (), idx', s')"
  shows "stands_for crc32c disk (parts @ [active_for_path path idx]) idx' s'
    \<and> active_for_path path idx @ mi_active idx' = mi_active idx
    \<and> (\<exists>segment. mi_sealed idx' = mi_sealed idx @ [segment] \<and> seg_path segment = path) \<and> cc_pages s' = cc_pages s"
proof -
  have ok: "index_ok crc32c disk parts idx" "cache_ok s" using inv by (simp_all add: stands_for_def)
  obtain m where m: "m \<in> set (mi_active idx)" "pr_path (mm_payload m) = path"
    using run by (auto simp: seal_path_def active_for_path_def Let_def filter_empty_conv split: if_splits)
  have fresh: "path \<notin> seg_path ` set (mi_sealed idx)" and un: "uncached path s"
    using m ok(1) inv by (auto simp: index_ok_def stands_for_def)
  obtain segment where seg: "index_ok crc32c disk (parts @ [active_for_path path idx]) idx'"
      "index_messages (parts @ [active_for_path path idx]) idx' = index_messages parts idx"
      "mi_sealed idx' = mi_sealed idx @ [segment]" "seg_path segment = path"
      "s' = release_active (length (active_for_path path idx)) s"
    using seal_path_ok [OF ok(1) st path fresh run] by blast
  have act: "active_for_path path idx @ mi_active idx' = mi_active idx" using seg(2) by (simp add: index_messages_def)
  then have "set (mi_active idx') \<subseteq> set (mi_active idx)" by (metis set_append sup_ge2)
  then show ?thesis
    using stands_for_joined [OF inv seg(1,3)] seg(3-5) un release_pages release_active_ok [OF ok(2)] act by simp
qed

lemma index_reach_inv: "index_reach crc32c disk parts idx s \<Longrightarrow> stands_for crc32c disk parts idx s"
proof (induction rule: index_reach.induct)
  case (start s disk)
  then show ?case by (simp add: stands_for_def index_ok_def new_index_def index_messages_def contiguous_def coherent_def)
next
  case (disk_changed disk parts idx s disk')
  then show ?case using stands_for_disk by blast
next
  case (recovered_sealed disk parts idx s metadata ms idx')
  then show ?case using stands_for_recovered by blast
next
  case (recovered_active disk parts idx s ms idx' s')
  then show ?case using stands_for_recover_active by blast
next
  case (published disk parts idx s ms reservation idx' reservation' s')
  then show ?case using stands_for_published by blast
next
  case (sealed disk parts idx s metadata path idx' s')
  then show ?case using stands_for_sealed by blast
next
  case (page_loaded disk parts idx s p request r s')
  have ok: "index_ok crc32c disk parts idx" "cache_ok s" "coherent (zip (mi_sealed idx) parts) s"
    using page_loaded.IH by (simp_all add: stands_for_def)
  note load = lookup_load [OF ok page_loaded.hyps(2,3)]
  have "uncached (pr_path (mm_payload m)) s'" if "m \<in> set (mi_active idx)" for m
    by (rule uncached_load [OF ok(2) page_loaded.hyps(3)])
      (use that load ok(1) page_loaded.IH in \<open>auto simp: stands_for_def index_ok_def\<close>)
  then show ?case using page_loaded.IH load by (simp add: stands_for_def loaded_def)
next
  case (purged disk parts idx s existing idx' s')
  then show ?case using stands_for_purged by blast
next
  case (cache_used_elsewhere disk parts idx s s')
  have coh: "coherent (zip (mi_sealed idx) parts) s'"
    unfolding coherent_def
  proof (intro ballI, clarify)
    fix segment ms p page assume mem: "(segment, ms) \<in> set (zip (mi_sealed idx) parts)"
      and hit: "fmlookup (cc_pages s') \<lparr>pk_segment = seg_path segment, pk_page = p\<rparr> = Some page"
    have "seg_path segment \<in> index_paths idx" using set_zip_leftD [OF mem] by (simp add: index_paths_def)
    then have "fmlookup (cc_pages s) \<lparr>pk_segment = seg_path segment, pk_page = p\<rparr> = Some page"
      using hit cache_used_elsewhere.hyps(3) by fastforce
    moreover have "coherent (zip (mi_sealed idx) parts) s" using cache_used_elsewhere.IH by (simp add: stands_for_def)
    ultimately show "page = page_of ms p" using coherentD [OF _ mem] by blast
  qed
  have "uncached (pr_path (mm_payload m)) s'" if "m \<in> set (mi_active idx)" for m
    unfolding uncached_def
  proof
    fix p
    have "pr_path (mm_payload m) \<in> index_paths idx" "uncached (pr_path (mm_payload m)) s"
      using that cache_used_elsewhere.IH by (auto simp: index_paths_def stands_for_def)
    then show "fmlookup (cc_pages s') \<lparr>pk_segment = pr_path (mm_payload m), pk_page = p\<rparr> = None"
      using cache_used_elsewhere.hyps(3) unfolding uncached_def by (metis not_None_eq page_key.select_convs(1))
  qed
  then show ?case using coh cache_used_elsewhere by (simp add: stands_for_def)
qed

section \<open>Counts and ends\<close>

lemma contiguous_count:
  assumes "contiguous ms" and "ms \<noteq> []"
  shows "length (filter (\<lambda>m. p < mm_position m) ms) =
    (if p < mm_position (hd ms) then length ms
     else if p < mm_position (last ms) then unat (sat_sub (mm_position (last ms)) p) else 0)"
proof -
  let ?f = "unat (mm_position (hd ms))" and ?n = "length ms"
  have last: "unat (mm_position (last ms)) + 1 = ?f + ?n" by (rule contiguous_last [OF assms])
  have "{i. i < ?n \<and> p < mm_position (ms ! i)} = {unat p + 1 - ?f..<?n}"
    using assms(1) by (auto simp: contiguous_def word_less_nat_alt)
  then have "length (filter (\<lambda>m. p < mm_position m) ms) = ?n - (unat p + 1 - ?f)"
    by (simp add: length_filter_conv_card)
  then show ?thesis using last by (auto simp: word_less_nat_alt)
qed

lemma sealed_count:
  "list_all2 (seg_ok crc32c disk) segs parts \<Longrightarrow>
   sum_list (map (\<lambda>segment. if p < sm_first_position segment then sm_count segment
          else if p < sm_last_position segment then unat (sat_sub (sm_last_position segment) p) else 0) segs)
   = length (filter (\<lambda>m. p < mm_position m) (concat parts))"
proof (induction rule: list_all2_induct)
  case (Cons segment segs ms parts)
  then show ?case using contiguous_count [of ms p] seg_ok_fields [OF Cons.hyps(1)] by simp
qed simp

lemma count_after_exact:
  assumes ok: "index_ok crc32c disk parts idx"
  shows "count_after_position p idx = length (filter (\<lambda>m. p < mm_position m) (index_messages parts idx))"
proof -
  have "length (filter (\<lambda>m. p < mm_position m) (index_messages parts idx)) \<le> usize_max"
    by (rule le_trans [OF length_filter_le positions_bound]) (use ok in \<open>auto simp: index_ok_def\<close>)
  then show ?thesis
    using sealed_count [OF index_okD(1) [OF ok], of p] by (simp add: count_after_position_def index_messages_def usat_add_exact)
qed

lemma sealed_ends:
  assumes "list_all2 (seg_ok crc32c disk) segs parts" and "segs \<noteq> []"
  shows "concat parts \<noteq> []" "sm_first_position (hd segs) = mm_position (hd (concat parts))"
    "sm_last_position (last segs) = mm_position (last (concat parts))"
    "sm_last_timestamp_ns (last segs) = mm_timestamp_ns (last (concat parts))"
proof -
  have ne: "parts \<noteq> []" "length segs = length parts" using assms list_all2_lengthD by fastforce+
  have h: "seg_ok crc32c disk (hd segs) (hd parts)" and l: "seg_ok crc32c disk (last segs) (last parts)"
    using list_all2_nthD2 [OF assms(1), of 0] list_all2_nthD2 [OF assms(1), of "length parts - 1"] ne assms(2)
    by (simp_all add: hd_conv_nth last_conv_nth)
  note hf = seg_ok_fields [OF h] and lf = seg_ok_fields [OF l]
  have "concat parts = hd parts @ concat (tl parts)" using ne(1) by (cases parts) simp_all
  moreover have "concat parts = concat (butlast parts) @ last parts"
    using ne(1) by (metis append_butlast_last_id concat.simps concat_append append_Nil2)
  ultimately show "concat parts \<noteq> []" "sm_first_position (hd segs) = mm_position (hd (concat parts))"
    "sm_last_position (last segs) = mm_position (last (concat parts))"
    "sm_last_timestamp_ns (last segs) = mm_timestamp_ns (last (concat parts))"
    using hf(1,5) lf(1,6,10) by (metis append_is_Nil_conv, metis hd_append2, metis last_appendR, metis last_appendR)
qed

lemma index_ends:
  assumes ok: "index_ok crc32c disk parts idx"
  shows "index_first_position idx = (if index_messages parts idx = [] then None else Some (mm_position (hd (index_messages parts idx))))"
    and "index_last_position idx = (if index_messages parts idx = [] then None else Some (mm_position (last (index_messages parts idx))))"
    and "last_timestamp_ns idx = (if index_messages parts idx = [] then None else Some (mm_timestamp_ns (last (index_messages parts idx))))"
proof -
  note segs = index_okD(1) [OF ok]
  have none: "parts = []" if "mi_sealed idx = []" using segs that by simp
  note defs = index_first_position_def index_last_position_def active_last_position_def last_timestamp_ns_def index_messages_def
  show "index_first_position idx = (if index_messages parts idx = [] then None else Some (mm_position (hd (index_messages parts idx))))"
    "index_last_position idx = (if index_messages parts idx = [] then None else Some (mm_position (last (index_messages parts idx))))"
    "last_timestamp_ns idx = (if index_messages parts idx = [] then None else Some (mm_timestamp_ns (last (index_messages parts idx))))"
    using none sealed_ends [OF segs]
    by (cases "mi_sealed idx = []"; simp add: defs del: concat_eq_Nil_conv)+
qed

section \<open>Gaps and deferred ranges\<close>

lemma contiguous_range:
  assumes "contiguous ms" and "ms \<noteq> []"
  shows "{mm_position (hd ms)..mm_position (last ms)} = mm_position ` set ms"
proof (intro set_eqI iffI)
  fix p assume "p \<in> {mm_position (hd ms)..mm_position (last ms)}"
  then have "unat (p - mm_position (hd ms)) < length ms" "mm_position (ms ! unat (p - mm_position (hd ms))) = p"
    using contiguous_at(1,2) [OF assms, of p] by simp_all
  then show "p \<in> mm_position ` set ms" by (metis image_eqI nth_mem)
next
  fix p assume "p \<in> mm_position ` set ms"
  then show "p \<in> {mm_position (hd ms)..mm_position (last ms)}"
    using ascending_hd ascending_last rising_ascending [OF contiguous_rising [OF assms(1)]] by auto
qed

lemma le_before: "(n :: u64) < a \<Longrightarrow> x \<le> sat_sub a 1 \<longleftrightarrow> x < a"
  by (auto simp: word_le_nat_alt word_less_nat_alt)

lemma gaps_from_exact:
  assumes "ranges_wf rs" and "\<forall>(a, b) \<in> set rs. n \<le> a \<and> b \<noteq> u64_max"
  shows "ranges_wf (gaps_from L n rs)" and "ranges_set (gaps_from L n rs) = {n..L} - ranges_set rs"
    and "\<forall>(a, b) \<in> set (gaps_from L n rs). n \<le> a"
proof -
  have "ranges_wf (gaps_from L n rs) \<and> ranges_set (gaps_from L n rs) = {n..L} - ranges_set rs
      \<and> (\<forall>(a, b) \<in> set (gaps_from L n rs). n \<le> a)"
    using assms
  proof (induction rs arbitrary: n)
    case Nil
    then show ?case by (auto simp: ranges_wf_def ranges_set_def)
  next
    case (Cons r rs)
    obtain a b where r: "r = (a, b)" by (cases r)
    have ab: "a \<le> b" "n \<le> a" "b \<noteq> u64_max" "\<forall>(c, d) \<in> set rs. b < c" "ranges_wf rs"
      using Cons.prems by (auto simp: r ranges_wf_Cons)
    have above: "b < x" if "x \<in> ranges_set rs" for x
      using ranges_set_above [of a b rs x] Cons.prems(1) that by (simp add: r)
    show ?case
    proof (cases "a > L")
      case True
      have "x \<notin> ranges_set rs" if "x \<le> L" for x using above [of x] True ab(1) that by (auto simp: not_le)
      then show ?thesis using True ab by (auto simp: r ranges_wf_Cons ranges_set_Cons)
    next
      case False
      have succ: "checked_add b 1 = Some (b + 1)" "unat (b + 1) = unat b + 1"
        using unat_sat_inc_exact [OF ab(3)] ab(3) unat_le_u64_max [of b] word_unat_eq_iff [of b u64_max]
        by (auto simp: checked_add_def unat_word_ariths)
      have after: "b + 1 \<le> x \<longleftrightarrow> b < x" for x using succ(2) by (auto simp: word_le_nat_alt word_less_nat_alt)
      have IH: "ranges_wf (gaps_from L (b + 1) rs)" "ranges_set (gaps_from L (b + 1) rs) = {b + 1..L} - ranges_set rs"
          "\<forall>(c, d) \<in> set (gaps_from L (b + 1) rs). b < c"
        using Cons.IH [of "b + 1"] Cons.prems(2) ab(4,5) after by (auto simp: case_prod_beta)
      let ?g = "gaps_from L (b + 1) rs"
      have gaps: "gaps_from L n (r # rs) = (if n < a then [(n, min (sat_sub a 1) L)] else []) @ ?g"
        using False succ(1) by (simp add: r)
      have low: "n \<le> c" if "(c, d) \<in> set ?g" for c d using IH(3) that ab(1,2) by fastforce
      have set_eq: "ranges_set (gaps_from L n (r # rs)) = {n..L} - ranges_set (r # rs)"
      proof (intro set_eqI iffI)
        have disj: "x \<notin> ranges_set rs" if "x < a" for x using above [of x] that ab(1) by (meson less_asym less_le_trans)
        fix x
        show "x \<in> ranges_set (gaps_from L n (r # rs)) \<Longrightarrow> x \<in> {n..L} - ranges_set (r # rs)"
          using IH(2) disj [of x] after [of x] ab(1,2) le_before [of n a x] unfolding gaps by (auto simp: r split: if_splits)
        show "x \<in> {n..L} - ranges_set (r # rs) \<Longrightarrow> x \<in> ranges_set (gaps_from L n (r # rs))"
          using IH(2) after [of x] ab(1,2) le_before [of n a x] unfolding gaps by (auto simp: r not_le)
      qed
      have first: "n \<le> min (sat_sub a 1) L" "\<forall>(c, d) \<in> set ?g. min (sat_sub a 1) L < c" if "n < a"
      proof -
        show "n \<le> min (sat_sub a 1) L" using le_before [OF that, of n] that False by auto
        have "sat_sub a 1 \<le> b" using ab(1) by (simp add: word_le_nat_alt)
        then show "\<forall>(c, d) \<in> set ?g. min (sat_sub a 1) L < c" using IH(3) by (fastforce simp: min_less_iff_disj)
      qed
      then have "ranges_wf (gaps_from L n (r # rs))" using IH(1) unfolding gaps by (auto simp: ranges_wf_Cons)
      then show ?thesis using set_eq low unfolding gaps by auto
    qed
  qed
  then show "ranges_wf (gaps_from L n rs)" "ranges_set (gaps_from L n rs) = {n..L} - ranges_set rs"
    "\<forall>(a, b) \<in> set (gaps_from L n rs). n \<le> a" by blast+
qed

lemma ranges_of_parts:
  assumes "\<forall>ms \<in> set ps. ms \<noteq> [] \<and> contiguous ms" and "rising mm_position (concat ps)"
  shows "ranges_wf (map (\<lambda>ms. (mm_position (hd ms), mm_position (last ms))) ps)"
    and "ranges_set (map (\<lambda>ms. (mm_position (hd ms), mm_position (last ms))) ps) = mm_position ` set (concat ps)"
proof -
  have "ranges_wf (map (\<lambda>ms. (mm_position (hd ms), mm_position (last ms))) ps)
      \<and> ranges_set (map (\<lambda>ms. (mm_position (hd ms), mm_position (last ms))) ps) = mm_position ` set (concat ps)"
    using assms
  proof (induction ps)
    case (Cons ms ps)
    have ms: "ms \<noteq> []" "contiguous ms" using Cons.prems(1) by simp_all
    have "mm_position (hd ms) \<le> mm_position (last ms)"
      using ascending_hd [OF rising_ascending [OF contiguous_rising [OF ms(2)]] last_in_set [OF ms(1)]] .
    moreover have "mm_position (last ms) < mm_position (hd qs)" if "qs \<in> set ps" for qs
    proof -
      have "qs \<noteq> []" using Cons.prems(1) that by simp
      then have "hd qs \<in> set (concat ps)" unfolding set_concat using that by (intro UN_I [of qs]) simp_all
      then show ?thesis using Cons.prems(2) last_in_set [OF ms(1)] unfolding concat.simps sorted_wrt_append by blast
    qed
    ultimately show ?case
      using Cons.IH Cons.prems contiguous_range [OF ms(2,1)]
      by (auto simp: ranges_wf_Cons sorted_wrt_append image_Un)
  qed simp
  then show "ranges_wf (map (\<lambda>ms. (mm_position (hd ms), mm_position (last ms))) ps)"
    "ranges_set (map (\<lambda>ms. (mm_position (hd ms), mm_position (last ms))) ps) = mm_position ` set (concat ps)" by blast+
qed

lemma range_ends:
  assumes "ranges_wf rs" and "(a, b) \<in> set rs"
  shows "a \<le> b" and "a \<in> ranges_set rs" and "b \<in> ranges_set rs"
proof -
  show le: "a \<le> b" using assms by (auto simp: ranges_wf_def list_all_iff)
  show "a \<in> ranges_set rs" "b \<in> ranges_set rs"
    unfolding ranges_set_def using assms(2) le by (intro UN_I [of "(a, b)"]; simp)+
qed

lemma position_gaps_ok:
  assumes ok: "index_ok crc32c disk parts idx"
  shows "ranges_wf (position_gaps L idx)"
    and "ranges_set (position_gaps L idx) = {1..L} - mm_position ` set (index_messages parts idx)"
proof -
  define ps where "ps = parts @ (if mi_active idx = [] then [] else [mi_active idx])"
  have "map (\<lambda>segment. (sm_first_position segment, sm_last_position segment)) (mi_sealed idx)
      = map (\<lambda>ms. (mm_position (hd ms), mm_position (last ms))) parts"
    using index_okD(1) [OF ok] by (induction rule: list_all2_induct) (simp_all add: seg_ok_fields)
  then have ranges: "index_ranges idx = map (\<lambda>ms. (mm_position (hd ms), mm_position (last ms))) ps"
    by (simp add: index_ranges_def ps_def)
  have msgs: "concat ps = index_messages parts idx" by (simp add: ps_def index_messages_def)
  have "\<forall>ms \<in> set parts. ms \<noteq> [] \<and> contiguous ms"
    using index_part(1) [OF ok] seg_ok_fields(1,2) by (metis in_set_conv_nth)
  then have "\<forall>ms \<in> set ps. ms \<noteq> [] \<and> contiguous ms" using index_okD(4) [OF ok] by (simp add: ps_def)
  moreover have "rising mm_position (concat ps)" using ok by (simp add: msgs index_ok_def)
  ultimately have wf: "ranges_wf (index_ranges idx)" "ranges_set (index_ranges idx) = mm_position ` set (index_messages parts idx)"
    using ranges_of_parts [of ps] by (simp_all add: ranges msgs)
  have "1 \<le> a \<and> b \<noteq> u64_max" if "(a, b) \<in> set (index_ranges idx)" for a b
  proof -
    have "a \<in> ranges_set (index_ranges idx)" "b \<in> ranges_set (index_ranges idx)" using range_ends [OF wf(1) that] by simp_all
    then have "a \<noteq> 0" "b \<noteq> u64_max" using ok unfolding wf(2) by (auto simp: index_ok_def)
    then show ?thesis by (simp add: word_le_nat_alt unat_gt_0 Suc_le_eq)
  qed
  then have low: "\<forall>(a, b) \<in> set (index_ranges idx). 1 \<le> a \<and> b \<noteq> u64_max" by blast
  show "ranges_wf (position_gaps L idx)"
    "ranges_set (position_gaps L idx) = {1..L} - mm_position ` set (index_messages parts idx)"
    using gaps_from_exact(1,2) [OF wf(1) low] wf(2) by (simp_all add: position_gaps_def)
qed

definition deferred_positions :: "i64 \<Rightarrow> message_meta list \<Rightarrow> u64 set" where
  "deferred_positions now_ms ms = mm_position ` {m \<in> set ms. now_ms < mm_available_at_ms m}"

lemma deferred_positions_simps:
  "deferred_positions now_ms [] = {}"
  "deferred_positions now_ms (m # ms) = (if now_ms < mm_available_at_ms m then {mm_position m} else {}) \<union> deferred_positions now_ms ms"
  "deferred_positions now_ms (xs @ ys) = deferred_positions now_ms xs \<union> deferred_positions now_ms ys"
  by (auto simp: deferred_positions_def)

lemma deferred_positions_sub: "p \<in> deferred_positions now_ms ms \<Longrightarrow> p \<in> mm_position ` set ms"
  by (auto simp: deferred_positions_def)

lemma ranges_wf_append:
  assumes "ranges_wf A" and "ranges_wf B" and "\<And>x y. x \<in> ranges_set A \<Longrightarrow> y \<in> ranges_set B \<Longrightarrow> x < y"
  shows "ranges_wf (A @ B)"
proof -
  have "b < c" if "(a, b) \<in> set A" "(c, d) \<in> set B" for a b c d
    using assms(3) range_ends(3) [OF assms(1) that(1)] range_ends(2) [OF assms(2) that(2)] .
  then show ?thesis using assms(1,2) by (auto simp: ranges_wf_def sorted_wrt_append)
qed

lemma ranges_set_append: "ranges_set (A @ B) = ranges_set A \<union> ranges_set B"
  by (simp add: ranges_set_def)

text \<open>A run in progress reaches up to the message that is looked at next.\<close>

lemma deferred_runs_ok:
  assumes "contiguous ms"
    and "\<And>a b. run = Some (a, b) \<Longrightarrow> a \<le> b \<and> (ms \<noteq> [] \<longrightarrow> unat (mm_position (hd ms)) = unat b + 1)"
  shows "ranges_wf (deferred_runs now_ms run ms)
    \<and> ranges_set (deferred_runs now_ms run ms) = (case run of None \<Rightarrow> {} | Some (a, b) \<Rightarrow> {a..b}) \<union> deferred_positions now_ms ms"
  using assms
proof (induction ms arbitrary: run)
  case Nil
  then show ?case by (cases run) (auto simp: deferred_positions_simps ranges_wf_Cons split: option.splits)
next
  case (Cons m ms)
  have tail: "contiguous ms" using contiguous_suffix [of "[m]" ms] Cons.prems(1) by simp
  have nxt: "unat (mm_position (hd ms)) = unat (mm_position m) + 1" if "ms \<noteq> []"
    using Cons.prems(1) that unfolding contiguous_def by (auto dest!: spec [where x = 1] simp: hd_conv_nth)
  show ?case
  proof (cases "now_ms < mm_available_at_ms m")
    case True
    define run' where "run' = (case run of Some (a, b) \<Rightarrow> (a, mm_position m) | None \<Rightarrow> (mm_position m, mm_position m))"
    have grow: "fst run' \<le> snd run'" "{fst run'..snd run'} = (case run of None \<Rightarrow> {} | Some (a, b) \<Rightarrow> {a..b}) \<union> {mm_position m}"
      "snd run' = mm_position m"
    proof -
      have prog: "unat a \<le> unat b \<and> unat (mm_position m) = unat b + 1" if "run = Some (a, b)" for a b
        using Cons.prems(2) [OF that] by (simp add: word_le_nat_alt)
      show "fst run' \<le> snd run'" "snd run' = mm_position m"
        using prog by (cases run; fastforce simp: run'_def word_le_nat_alt)+
      show "{fst run'..snd run'} = (case run of None \<Rightarrow> {} | Some (a, b) \<Rightarrow> {a..b}) \<union> {mm_position m}"
      proof (cases run)
        case (Some r)
        obtain a b where r: "r = (a, b)" by (cases r)
        have "unat a \<le> unat b" "unat (mm_position m) = unat b + 1" using prog Some r by blast+
        then show ?thesis using Some r by (auto simp: run'_def word_le_nat_alt word_unat_eq_iff)
      qed (simp add: run'_def)
    qed
    have "ranges_wf (deferred_runs now_ms (Some run') ms)
      \<and> ranges_set (deferred_runs now_ms (Some run') ms) = {fst run'..snd run'} \<union> deferred_positions now_ms ms"
    proof -
      obtain a where a: "run' = (a, mm_position m)" using grow(3) by (cases run') simp
      have "ranges_wf (deferred_runs now_ms (Some run') ms) \<and> ranges_set (deferred_runs now_ms (Some run') ms)
          = (case Some run' of None \<Rightarrow> {} | Some (a, b) \<Rightarrow> {a..b}) \<union> deferred_positions now_ms ms"
        by (rule Cons.IH [OF tail]) (use grow(1) nxt a in simp)
      then show ?thesis by (simp add: a)
    qed
    then show ?thesis using True grow(2) by (simp add: run'_def deferred_positions_simps Un_ac)
  next
    case False
    have rest: "ranges_wf (deferred_runs now_ms None ms)"
        "ranges_set (deferred_runs now_ms None ms) = deferred_positions now_ms ms"
      using Cons.IH [OF tail, of None] by simp_all
    have above: "b < y" if ab: "run = Some (a, b)" and y: "y \<in> deferred_positions now_ms ms" for a b y
    proof -
      obtain m' where m': "m' \<in> set ms" "y = mm_position m'" using y by (auto simp: deferred_positions_def)
      have "mm_position m < y" using contiguous_rising [OF Cons.prems(1)] m' by simp
      moreover have "b < mm_position m" using Cons.prems(2) [OF ab] by (simp add: word_less_nat_alt)
      ultimately show ?thesis by simp
    qed
    show ?thesis
    proof (cases run)
      case None
      then show ?thesis using False rest by (simp add: deferred_positions_simps)
    next
      case (Some r)
      obtain a b where r: "r = (a, b)" by (cases r)
      have "ranges_wf [(a, b)]" using Cons.prems(2) Some r by (simp add: ranges_wf_Cons)
      then have "ranges_wf ([(a, b)] @ deferred_runs now_ms None ms)"
        by (rule ranges_wf_append [OF _ rest(1)]) (use above [of a b] Some r rest(2) in \<open>auto intro: le_less_trans\<close>)
      then show ?thesis using False Some r rest(2) by (simp add: deferred_positions_simps)
    qed
  qed
qed

lemma visit_deferred_ok:
  "contiguous ms \<Longrightarrow> ranges_wf (visit_deferred_ranges now_ms ms)"
  "contiguous ms \<Longrightarrow> ranges_set (visit_deferred_ranges now_ms ms) = deferred_positions now_ms ms"
  using deferred_runs_ok [of ms None now_ms] by (simp_all add: visit_deferred_ranges_def)

lemma contiguous_drop: "contiguous ms \<Longrightarrow> contiguous (drop k ms)"
  using contiguous_suffix [of "take k ms" "drop k ms"] by simp

lemma contiguous_take: "contiguous ms \<Longrightarrow> contiguous (take k ms)"
  using contiguous_prefix [of "take k ms" "drop k ms"] by simp

lemma deferred_before:
  assumes "rising mm_position (xs @ ys)" and "p \<in> deferred_positions now_ms xs" and "q \<in> deferred_positions now_ms ys"
  shows "p < q"
  using assms by (auto simp: deferred_positions_def sorted_wrt_append)

lemma deferred_pages_ok:
  assumes st: "stored crc32c disk r ms" and cont: "contiguous ms" and count: "count \<le> length ms"
  shows "\<exists>R. deferred_pages crc32c disk r now_ms count k = (R, Inr ()) \<and> ranges_wf R
     \<and> ranges_set R = deferred_positions now_ms (drop k (take count ms))"
proof (induction "count - k" arbitrary: k rule: less_induct)
  case less
  show ?case
  proof (cases "k < count")
    case False
    then show ?thesis by (simp add: deferred_pages.simps [of _ _ _ _ _ k] deferred_positions_simps)
  next
    case True
    define len where "len = min (count - k) page_messages"
    have len: "0 < len" "k + len \<le> count" using True by (auto simp: len_def page_messages_def)
    define page where "page = take len (drop k ms)"
    have "count - (k + len) < count - k" using True len by simp
    from less [OF this] obtain R where R: "deferred_pages crc32c disk r now_ms count (k + len) = (R, Inr ())" "ranges_wf R"
        "ranges_set R = deferred_positions now_ms (drop (k + len) (take count ms))" by blast
    have read: "read_page crc32c disk r k len = Inr page" using read_page_stored [OF st] len count by (simp add: page_def)
    have run: "deferred_pages crc32c disk r now_ms count k = (visit_deferred_ranges now_ms page @ R, Inr ())"
      using True read R(1) by (simp add: deferred_pages.simps [of _ _ _ _ _ k] len_def [symmetric] Let_def)
    have "page = take len (drop k (take count ms))" using len(2) by (simp add: page_def drop_take min_def)
    then have split: "drop k (take count ms) = page @ drop (k + len) (take count ms)"
      by (metis add.commute append_take_drop_id drop_drop)
    have c: "contiguous (page @ drop (k + len) (take count ms))"
      using contiguous_drop [OF contiguous_take [OF cont]] unfolding split [symmetric] .
    note page = visit_deferred_ok [OF contiguous_prefix [OF c], of now_ms]
    have "ranges_wf (visit_deferred_ranges now_ms page @ R)"
      by (rule ranges_wf_append [OF page(1) R(2)]) (use deferred_before [OF contiguous_rising [OF c]] page(2) R(3) in blast)
    moreover have "ranges_set (visit_deferred_ranges now_ms page @ R) = deferred_positions now_ms (drop k (take count ms))"
      unfolding split by (simp add: ranges_set_append page(2) R(3) deferred_positions_simps)
    ultimately show ?thesis unfolding run by blast
  qed
qed

text \<open>Messages up to a position: a prefix of a segment.\<close>

lemma contiguous_upto:
  assumes "contiguous ms" and "ms \<noteq> []" and "mm_position (hd ms) \<le> L"
  shows "filter (\<lambda>m. mm_position m \<le> L) ms = take (unat (min (mm_position (last ms)) L - mm_position (hd ms)) + 1) ms"
    and "unat (min (mm_position (last ms)) L - mm_position (hd ms)) + 1 \<le> length ms"
proof -
  let ?f = "unat (mm_position (hd ms))"
  define n where "n = unat (min (mm_position (last ms)) L - mm_position (hd ms)) + 1"
  have "mm_position (hd ms) \<le> mm_position (last ms)"
    using ascending_hd [OF rising_ascending [OF contiguous_rising [OF assms(1)]] last_in_set [OF assms(2)]] .
  then have n: "n = min (unat (mm_position (last ms))) (unat L) - ?f + 1" "?f \<le> min (unat (mm_position (last ms))) (unat L)"
    using assms(3) by (auto simp: n_def unat_sub min_def word_le_nat_alt)
  have last: "unat (mm_position (last ms)) + 1 = ?f + length ms" by (rule contiguous_last [OF assms(1,2)])
  show le: "unat (min (mm_position (last ms)) L - mm_position (hd ms)) + 1 \<le> length ms"
    using n last unfolding n_def [symmetric] by linarith
  have at: "mm_position (ms ! i) \<le> L \<longleftrightarrow> i < n" if "i < length ms" for i
  proof -
    have "unat (mm_position (ms ! i)) = ?f + i" using assms(1) that by (simp add: contiguous_def)
    then show ?thesis using n last that by (auto simp: word_le_nat_alt min_def split: if_splits)
  qed
  have "filter (\<lambda>m. mm_position m \<le> L) (take n ms) = take n ms"
    using at le by (auto simp: filter_id_conv in_set_conv_nth n_def [symmetric])
  moreover have "mm_position m > L" if "m \<in> set (drop n ms)" for m
  proof -
    obtain i where "i < length ms - n" "m = ms ! (n + i)" using \<open>m \<in> set (drop n ms)\<close> by (auto simp: in_set_conv_nth)
    then show ?thesis using at [of "n + i"] by (auto simp: not_le)
  qed
  then have "filter (\<lambda>m. mm_position m \<le> L) (drop n ms) = []" by (auto simp: filter_empty_conv not_le)
  ultimately have "filter (\<lambda>m. mm_position m \<le> L) (take n ms @ drop n ms) = take n ms" unfolding filter_append by simp
  then show "filter (\<lambda>m. mm_position m \<le> L) ms = take (unat (min (mm_position (last ms)) L - mm_position (hd ms)) + 1) ms"
    by (simp add: n_def)
qed

lemma deferred_filter_none: "\<forall>m \<in> set ms. mm_available_at_ms m \<le> now_ms \<Longrightarrow> deferred_positions now_ms ms = {}"
  by (auto simp: deferred_positions_def not_le [symmetric])

text \<open>The ranges one sealed segment contributes.\<close>

lemma deferred_segment_ok:
  assumes seg: "seg_ok crc32c disk segment ms" and L: "\<not> sm_first_position segment > L"
  shows "\<exists>R. (if sm_max_available_at_ms segment \<le> now_ms then ([], Inr ())
         else if sm_min_available_at_ms segment > now_ms then ([(sm_first_position segment, min (sm_last_position segment) L)], Inr ())
         else deferred_pages crc32c disk (sm_metadata segment) now_ms
                (unat (min (sm_last_position segment) L - sm_first_position segment) + 1) 0) = (R, Inr ())
     \<and> ranges_wf R \<and> ranges_set R = deferred_positions now_ms (filter (\<lambda>m. mm_position m \<le> L) ms)"
proof -
  note f = seg_ok_fields [OF seg]
  have hd: "mm_position (hd ms) \<le> L" using L f(5) by (simp add: not_less)
  note pre = contiguous_upto [OF f(2,1) hd]
  consider "sm_max_available_at_ms segment \<le> now_ms"
    | "\<not> sm_max_available_at_ms segment \<le> now_ms" "sm_min_available_at_ms segment > now_ms"
    | "\<not> sm_max_available_at_ms segment \<le> now_ms" "\<not> sm_min_available_at_ms segment > now_ms" by blast
  then show ?thesis
  proof cases
    case 1
    then have "\<forall>m \<in> set ms. mm_available_at_ms m \<le> now_ms" using f(1,13) by simp
    then show ?thesis using 1 by (simp add: deferred_filter_none)
  next
    case 2
    have all: "\<forall>m \<in> set ms. now_ms < mm_available_at_ms m" using 2(2) f(1,12) by simp
    have "deferred_positions now_ms (filter (\<lambda>m. mm_position m \<le> L) ms) = mm_position ` set ms \<inter> {..L}"
      using all by (auto simp: deferred_positions_def)
    also have "\<dots> = {mm_position (hd ms)..min (mm_position (last ms)) L}"
      unfolding contiguous_range [OF f(2,1), symmetric] by auto
    finally have "ranges_set [(sm_first_position segment, min (sm_last_position segment) L)]
        = deferred_positions now_ms (filter (\<lambda>m. mm_position m \<le> L) ms)" using f(5,6) by simp
    moreover have "mm_position (hd ms) \<le> mm_position (last ms)"
      using ascending_hd [OF rising_ascending [OF contiguous_rising [OF f(2)]] last_in_set [OF f(1)]] .
    then have "ranges_wf [(sm_first_position segment, min (sm_last_position segment) L)]"
      using hd f(5,6) by (simp add: ranges_wf_Cons)
    ultimately show ?thesis using 2 by simp
  next
    case 3
    then show ?thesis using deferred_pages_ok [OF f(3,2) pre(2), of now_ms 0] pre(1) f(5,6) by simp
  qed
qed

lemma deferred_sealed_ok:
  assumes "list_all2 (seg_ok crc32c disk) segs parts" and "rising mm_position (concat parts)"
  shows "\<exists>R. deferred_sealed crc32c disk now_ms L segs = (R, Inr ()) \<and> ranges_wf R
     \<and> ranges_set R = deferred_positions now_ms (filter (\<lambda>m. mm_position m \<le> L) (concat parts))"
  using assms
proof (induction rule: list_all2_induct)
  case (Cons segment segs ms parts)
  note f = seg_ok_fields [OF Cons.hyps(1)]
  show ?case
  proof (cases "sm_first_position segment > L")
    case True
    have "L < mm_position m" if "m \<in> set (concat (ms # parts))" for m
    proof -
      have "hd (concat (ms # parts)) = hd ms" using f(1) by simp
      then have "mm_position (hd ms) \<le> mm_position m"
        using ascending_hd [OF rising_ascending [OF Cons.prems] that] by simp
      then show ?thesis using True f(5) by simp
    qed
    then have "filter (\<lambda>m. mm_position m \<le> L) (concat (ms # parts)) = []" unfolding filter_empty_conv by (simp add: not_le)
    then show ?thesis using True by (simp add: deferred_positions_simps)
  next
    case False
    obtain R1 where R1: "(if sm_max_available_at_ms segment \<le> now_ms then ([], Inr ())
         else if sm_min_available_at_ms segment > now_ms then ([(sm_first_position segment, min (sm_last_position segment) L)], Inr ())
         else deferred_pages crc32c disk (sm_metadata segment) now_ms
                (unat (min (sm_last_position segment) L - sm_first_position segment) + 1) 0) = (R1, Inr ())"
        "ranges_wf R1" "ranges_set R1 = deferred_positions now_ms (filter (\<lambda>m. mm_position m \<le> L) ms)"
      using deferred_segment_ok [OF Cons.hyps(1) False, of now_ms] by blast
    have "rising mm_position (concat parts)" using Cons.prems by (simp add: sorted_wrt_append)
    then obtain R2 where R2: "deferred_sealed crc32c disk now_ms L segs = (R2, Inr ())" "ranges_wf R2"
        "ranges_set R2 = deferred_positions now_ms (filter (\<lambda>m. mm_position m \<le> L) (concat parts))"
      using Cons.IH by blast
    have "rising mm_position (filter (\<lambda>m. mm_position m \<le> L) ms @ filter (\<lambda>m. mm_position m \<le> L) (concat parts))"
      using sorted_wrt_filter [OF Cons.prems, of "\<lambda>m. mm_position m \<le> L"] by simp
    then have "ranges_wf (R1 @ R2)"
      by (intro ranges_wf_append [OF R1(2) R2(2)]) (use deferred_before R1(3) R2(3) in blast)
    moreover have "deferred_sealed crc32c disk now_ms L (segment # segs) = (R1 @ R2, Inr ())"
      unfolding deferred_sealed.simps Let_def R1(1) using False R2(1) by simp
    ultimately show ?thesis by (simp add: ranges_set_append R1(3) R2(3) deferred_positions_simps)
  qed
qed (simp add: deferred_positions_simps)

lemma takeWhile_rising: "rising mm_position ms \<Longrightarrow> takeWhile (\<lambda>m. mm_position m \<le> L) ms = filter (\<lambda>m. mm_position m \<le> L) ms"
proof (induction ms)
  case (Cons m ms)
  have "filter (\<lambda>m. mm_position m \<le> L) ms = []" if "\<not> mm_position m \<le> L"
    unfolding filter_empty_conv using Cons.prems that by (auto simp: not_le)
  then show ?case using Cons by simp
qed simp

lemma for_each_deferred_ok:
  assumes ok: "index_ok crc32c disk parts idx"
  shows "\<exists>R. for_each_deferred_range crc32c disk now_ms L idx = (R, Inr ()) \<and> ranges_wf R
     \<and> ranges_set R = {mm_position m |m. m \<in> set (index_messages parts idx) \<and> now_ms < mm_available_at_ms m \<and> mm_position m \<le> L}"
proof -
  obtain R where R: "deferred_sealed crc32c disk now_ms L (mi_sealed idx) = (R, Inr ())" "ranges_wf R"
      "ranges_set R = deferred_positions now_ms (filter (\<lambda>m. mm_position m \<le> L) (concat parts))"
    using deferred_sealed_ok [OF index_okD(1,5) [OF ok]] by blast
  let ?tail = "takeWhile (\<lambda>m. mm_position m \<le> L) (mi_active idx)"
  have "contiguous ?tail" using contiguous_prefix index_okD(4) [OF ok] takeWhile_dropWhile_id by metis
  note tail = visit_deferred_ok [OF this, of now_ms]
  have tl: "?tail = filter (\<lambda>m. mm_position m \<le> L) (mi_active idx)" by (rule takeWhile_rising [OF index_okD(6) [OF ok]])
  have all: "rising mm_position (filter (\<lambda>m. mm_position m \<le> L) (concat parts) @ ?tail)"
    using sorted_wrt_filter [of _ "index_messages parts idx" "\<lambda>m. mm_position m \<le> L"] ok
    by (simp add: index_ok_def index_messages_def tl)
  have "ranges_wf (R @ visit_deferred_ranges now_ms ?tail)"
    by (rule ranges_wf_append [OF R(2) tail(1)]) (use deferred_before [OF all] R(3) tail(2) in blast)
  moreover have "ranges_set (R @ visit_deferred_ranges now_ms ?tail)
      = {mm_position m |m. m \<in> set (index_messages parts idx) \<and> now_ms < mm_available_at_ms m \<and> mm_position m \<le> L}"
    unfolding ranges_set_append R(3) tail(2) unfolding tl by (auto simp: deferred_positions_def index_messages_def)
  ultimately show ?thesis using R(1) by (simp add: for_each_deferred_range_def)
qed

section \<open>The properties\<close>

definition sample_index_disk :: segment_disk where
  "sample_index_disk = \<lparr>sd_segments = fmempty,
     sd_indexes = fmupd (segment_path 7) (encode_recovery (sum_append 0) [sample_meta 1, sample_meta 2]) fmempty\<rparr>"

definition sample_index_ref :: recovery_metadata_ref where
  "sample_index_ref = \<lparr>rm_segment = segment_path 7, rm_offset = 0, rm_len = 132, rm_segment_len = 100\<rparr>"

definition sample_active :: message_meta where
  "sample_active = (sample_meta 3)\<lparr>mm_timestamp_ns := 9, mm_available_at_ms := 50,
     mm_payload := \<lparr>pr_path = segment_path 9, pr_offset = 48, pr_len = 2, pr_crc32c = 3\<rparr>\<rparr>"

definition sample_index :: message_index where
  "sample_index = \<lparr>mi_sealed = [from_summary sample_index_ref (summary_spec [sample_meta 1, sample_meta 2])],
     mi_active = [sample_active], mi_total_count = 3\<rparr>"

definition sample_cache :: cache_state where
  "sample_cache = add_recovered_active 1 (new_cache 131072)"

lemma sample_cache_ok: "cache_ok (new_cache 131072)" "\<not> over_budget sample_cache"
proof -
  show "cache_ok (new_cache 131072)"
    using cache_reach_ok [OF cache_reach.start, of 131072] by (simp add: usize_max_def)
  have "evict_until_available 64 (new_cache 131072) = new_cache 131072"
    by (subst evict_until_available.simps)
      (simp add: new_cache_def cache_used_def usat_add_def usize_max_def min_cache_bytes_def meta_size_def)
  then show "\<not> over_budget sample_cache"
    by (simp add: sample_cache_def add_recovered_active_def over_budget_def cache_used_def new_cache_def usat_add_def usat_mul_def
        usize_max_def min_cache_bytes_def meta_size_def)
qed

lemma sample_index_reach:
  "index_reach (sum_append 0) sample_index_disk [[sample_meta 1, sample_meta 2]] sample_index sample_cache"
proof -
  let ?ms = "[sample_meta 1, sample_meta 2]"
  have st: "stored (sum_append 0) sample_index_disk sample_index_ref ?ms"
    by (simp add: stored_def sample_index_disk_def sample_index_ref_def length_encode_recovery slice_def meta_valid_def
        sample_meta_def in_i64_def)
  define idx where "idx = \<lparr>mi_sealed = [from_summary sample_index_ref (summary_spec ?ms)], mi_active = [], mi_total_count = 2\<rparr>"
  have "successively follows ?ms" by (simp add: sample_meta_def sat_add_def)
  then have "recover_sealed (sum_append 0) sample_index_disk sample_index_ref new_index = Inr idx"
    using inspect_stored [OF st]
    by (simp add: recover_sealed_def push_sealed_def new_index_def idx_def from_summary_def summary_spec_def sample_meta_def
        sat_add_def usat_add_def usize_max_def)
  then have one: "index_reach (sum_append 0) sample_index_disk ([] @ [?ms]) idx (new_cache 131072)"
    by (intro index_reach.recovered_sealed [OF index_reach.start [OF sample_cache_ok(1)] st])
      (simp_all add: sample_meta_def index_paths_def new_index_def uncached_def new_cache_def)
  have "segment_path 7 \<noteq> segment_path 9" using inj_segment_path by (auto dest: injD)
  then have new: "\<forall>m \<in> set [sample_active]. mm_position m \<noteq> 0 \<and> mm_position m \<noteq> u64_max
      \<and> pr_path (mm_payload m) \<notin> seg_path ` set (mi_sealed idx) \<and> uncached (pr_path (mm_payload m)) (new_cache 131072)"
    by (simp add: sample_active_def sample_meta_def idx_def from_summary_def sample_index_ref_def uncached_def new_cache_def)
  have "recover_active [sample_active] idx (new_cache 131072) = (Inr sample_index, sample_cache)"
    by (simp add: recover_active_def extend_active_def idx_def sample_index_def sample_active_def sample_meta_def
        from_summary_def summary_spec_def sample_cache_def usat_add_def usize_max_def)
  then show ?thesis using index_reach.recovered_active [OF one new] by simp
qed

lemma sample_messages: "index_messages [[sample_meta 1, sample_meta 2]] sample_index = [sample_meta 1, sample_meta 2, sample_active]"
  by (simp add: index_messages_def sample_index_def)

lemma sample_positions: "mm_position (sample_meta p) = p" "mm_position sample_active = 3"
  by (simp_all add: sample_meta_def sample_active_def)

text \<open>
  C31: In every state a Topic brings its message index to, the messages it stands for, sealed
  segments first, have strictly increasing positions; a sealed segment's summary has their
  number and first position, and its positions are contiguous; the total, the first and last
  position and the number of messages after any position are those of the messages.\<close>

theorem message_index_ordered:
  assumes "index_reach crc32c disk parts idx s"
  shows "sorted_wrt (\<lambda>a b. mm_position a < mm_position b) (index_messages parts idx)
    \<and> list_all2 (\<lambda>segment ms. sm_count segment = length ms \<and> ms \<noteq> []
        \<and> (\<forall>i < length ms. unat (mm_position (ms ! i)) = unat (sm_first_position segment) + i)) (mi_sealed idx) parts
    \<and> mi_total_count idx = length (index_messages parts idx)
    \<and> index_first_position idx = (if index_messages parts idx = [] then None else Some (mm_position (hd (index_messages parts idx))))
    \<and> index_last_position idx = (if index_messages parts idx = [] then None else Some (mm_position (last (index_messages parts idx))))
    \<and> count_after_position p idx = length (filter (\<lambda>m. p < mm_position m) (index_messages parts idx))"
proof -
  have ok: "index_ok crc32c disk parts idx" using index_reach_inv [OF assms] by (simp add: stands_for_def)
  have "list_all2 (\<lambda>segment ms. sm_count segment = length ms \<and> ms \<noteq> []
        \<and> (\<forall>i < length ms. unat (mm_position (ms ! i)) = unat (sm_first_position segment) + i)) (mi_sealed idx) parts"
    by (rule list_all2_mono [OF index_okD(1) [OF ok]]) (auto simp: seg_ok_fields dest: seg_ok_fields(2) simp: contiguous_def)
  then show ?thesis using index_ends [OF ok] count_after_exact [OF ok] ok unfolding index_ok_def by blast
qed

theorem message_index_ordered_witness:
  "mi_total_count sample_index = 3 \<and> count_after_position 1 sample_index = 2"
  using message_index_ordered [OF sample_index_reach, of 1]
  by (simp add: index_messages_def sample_index_def sample_meta_def sample_active_def)

text \<open>
  C32: A lookup answers for the messages the index stands for. A message it finds is the one at
  the position; if it reports the position absent there is none; and if it asks for a page to be
  loaded, there is a message at the position, loading the page succeeds, and unless active
  metadata is over its budget the lookup then finds it.\<close>

theorem message_lookup_exact:
  assumes "index_reach crc32c disk parts idx s"
  shows "case lookup p idx s of
      Found m \<Rightarrow> m \<in> set (index_messages parts idx) \<and> mm_position m = p
    | lookup_result.Absent \<Rightarrow> p \<notin> mm_position ` set (index_messages parts idx)
    | Load request \<Rightarrow> \<exists>m s'. m \<in> set (index_messages parts idx) \<and> mm_position m = p
        \<and> load_blocking crc32c disk request s = (Inr (), s')
        \<and> (\<not> over_budget s \<longrightarrow> lookup p idx s' = Found m)"
proof -
  have ok: "index_ok crc32c disk parts idx" and cache: "cache_ok s" "coherent (zip (mi_sealed idx) parts) s"
    using index_reach_inv [OF assms] by (simp_all add: stands_for_def)
  show ?thesis
  proof (cases "p \<in> mm_position ` set (index_messages parts idx)")
    case False
    then show ?thesis using lookup_absent [OF ok] by simp
  next
    case True
    then obtain m where m: "m \<in> set (index_messages parts idx)" "p = mm_position m" by blast
    show ?thesis
    proof (cases "lookup p idx s = Found m")
      case False
      then have sealed: "m \<in> set (concat parts)" using m lookup_active [OF ok, of m s] unfolding index_messages_def set_append by auto
      have "has_room s" if "\<not> over_budget s" using not_over_budget [OF cache(1) that] by (simp add: has_room_def)
      moreover have "lookup (mm_position m) idx s \<noteq> Found m" using False m(2) by simp
      then obtain request s' where "lookup p idx s = Load request" "load_blocking crc32c disk request s = (Inr (), s')"
          "has_room s \<longrightarrow> lookup p idx s' = Found m"
        unfolding m(2) by (rule lookup_present [OF ok cache sealed])
      ultimately show ?thesis using m by auto
    qed (use m in simp)
  qed
qed

theorem message_lookup_exact_witness:
  "\<exists>request s'. lookup 2 sample_index sample_cache = Load request
     \<and> load_blocking (sum_append 0) sample_index_disk request sample_cache = (Inr (), s')
     \<and> lookup 2 sample_index s' = Found (sample_meta 2)"
proof -
  have none: "cc_pages sample_cache = fmempty"
    using recovered_pages [OF sample_cache_ok(1), of 1] unfolding sample_cache_def
    by (intro fmap_ext) (auto simp: new_cache_def, metis not_None_eq option.distinct(1))
  obtain request where l: "lookup 2 sample_index sample_cache = Load request"
    using none by (simp add: lookup_def sample_index_def sample_active_def sample_meta_def from_summary_def summary_spec_def
        partition_point_def get_at_def cache_get_def Let_def)
  then obtain m s' where m: "m \<in> set (index_messages [[sample_meta 1, sample_meta 2]] sample_index)" "mm_position m = 2"
      "load_blocking (sum_append 0) sample_index_disk request sample_cache = (Inr (), s')" "lookup 2 sample_index s' = Found m"
    using message_lookup_exact [OF sample_index_reach, of 2] sample_cache_ok(2) by auto
  have "m = sample_meta 2" using m(1,2) sample_messages sample_positions by auto
  then show ?thesis using l m(3,4) by blast
qed

text \<open>
  C33: Searching a message by its id, through the segment that spans the id and a binary search
  over its pages, gives what a linear search over all messages gives, given that ids increase
  along the log; the one error it may report instead needs active metadata over its budget.\<close>

theorem message_id_search:
  assumes "index_reach crc32c disk parts idx s" and "sorted_wrt (\<lambda>a b. mm_id a < mm_id b) (index_messages parts idx)"
  shows "fst (position_by_id crc32c disk msg_id idx s)
      = Inr (map_option mm_position (List.find (\<lambda>m. mm_id m = msg_id) (index_messages parts idx)))
    \<or> fst (position_by_id crc32c disk msg_id idx s) = Inl (InvalidRecord ''topic index page is incomplete'') \<and> over_budget s"
proof -
  have ok: "index_ok crc32c disk parts idx" and cache: "cache_ok s" "coherent (zip (mi_sealed idx) parts) s"
    using index_reach_inv [OF assms(1)] by (simp_all add: stands_for_def)
  have "has_room s" if "\<not> over_budget s" using not_over_budget [OF cache(1) that] by (simp add: has_room_def)
  then show ?thesis
    using position_by_id_reads [OF ok cache assms(2), of msg_id] by (auto simp: reads_def split: sum.splits)
qed

theorem message_id_search_witness:
  "fst (position_by_id (sum_append 0) sample_index_disk 5 sample_index sample_cache) = Inr (Some 2)"
proof -
  have "sorted_wrt (\<lambda>a b. mm_id a < mm_id b) (index_messages [[sample_meta 1, sample_meta 2]] sample_index)"
    unfolding sample_messages by (simp add: sample_meta_def sample_active_def)
  from message_id_search [OF sample_index_reach this, of 5] show ?thesis
    using sample_cache_ok(2) unfolding sample_messages by (simp add: sample_meta_def)
qed

text \<open>
  C34: The gaps the index reports up to a position are ordered disjoint ranges that hold exactly
  the positions without a message. Installing them as the absent ranges of a Channel keeps the
  Channel's invariant and settles exactly those positions.\<close>

theorem position_gaps_exact:
  assumes "index_reach crc32c disk parts idx s"
  shows "ranges_wf (position_gaps L idx)
    \<and> ranges_set (position_gaps L idx) = {1..L} - mm_position ` set (index_messages parts idx)
    \<and> (chan_inv due X c \<and> ch_in_flight c = fmempty \<and> ranges_set (ch_absent_ranges c) \<subseteq> ranges_set (position_gaps L idx)
       \<longrightarrow> chan_inv due X (set_absent_ranges (position_gaps L idx) c)
         \<and> settled (set_absent_ranges (position_gaps L idx) c) = settled c \<union> ({1..L} - mm_position ` set (index_messages parts idx)))"
proof -
  have ok: "index_ok crc32c disk parts idx" using index_reach_inv [OF assms(1)] by (simp add: stands_for_def)
  note gaps = position_gaps_ok [OF ok, of L]
  then show ?thesis using chan_inv_set_absent_ranges [of due X c "position_gaps L idx"] by auto
qed

theorem position_gaps_exact_witness:
  "ranges_set (position_gaps 5 sample_index) = {1..5} - {1, 2, 3}
   \<and> settled (set_absent_ranges (position_gaps 5 sample_index) (new_channel ''c'' 0 False 1)) \<supseteq> {1..5} - {1, 2, 3}"
proof -
  let ?c = "new_channel ''c'' 0 False 1"
  have img: "mm_position ` set (index_messages [[sample_meta 1, sample_meta 2]] sample_index) = {1, 2, 3}"
    unfolding sample_messages by (simp add: sample_positions)
  have "ch_in_flight ?c = fmempty" "ch_absent_ranges ?c = []" by (simp_all add: new_channel_def)
  then show ?thesis
    using position_gaps_exact [OF sample_index_reach, of 5 "\<lambda>p. 0" "{}" ?c] chan_inv_new [of "\<lambda>p. 0" "{}" "''c''" 0 False 1]
    unfolding img by auto
qed

end
