(* ===== verification/Message_Expiry.thy ===== *)
theory Message_Expiry
  imports Message_Index_Props
begin

text \<open>
  The expiry scan of the message index, \<open>through_timestamp_after\<close>: how far the messages after a
  position have expired, over sealed segments, their pages and the active messages.
\<close>

section \<open>What the scan should return\<close>

definition expired_after :: "u64 \<Rightarrow> i64 \<Rightarrow> message_meta list \<Rightarrow> message_meta list" where
  "expired_after position cutoff_ns ms = filter (\<lambda>m. position < mm_position m \<and> mm_timestamp_ns m \<le> cutoff_ns) ms"

text \<open>
  Having counted \<open>messages\<close> of at most \<open>limit\<close> messages, up to \<open>through\<close>, with \<open>expired\<close> still to
  come: the position of the last one that counts, and the count.
\<close>

definition scan_result :: "nat \<Rightarrow> u64 option \<Rightarrow> nat \<Rightarrow> message_meta list \<Rightarrow> (u64 \<times> nat) option" where
  "scan_result limit through messages expired =
     (if expired = [] then map_option (\<lambda>p. (p, messages)) through
      else let n = min (limit - messages) (length expired) in Some (mm_position (expired ! (n - 1)), messages + n))"

lemma scan_result_full:
  assumes "messages < limit" and "limit - messages \<le> length xs"
  shows "scan_result limit through messages (xs @ ys) = scan_result limit through messages xs"
  using assms by (auto simp: scan_result_def Let_def nth_append min_def)

lemma scan_result_onward:
  assumes "length xs < limit - messages"
  shows "scan_result limit through messages (xs @ ys) =
    scan_result limit (if xs = [] then through else Some (mm_position (last xs))) (messages + length xs) ys"
proof (cases "ys = []")
  case True
  then show ?thesis using assms by (simp add: scan_result_def Let_def min_def last_conv_nth)
next
  case False
  let ?n = "min (limit - messages) (length (xs @ ys))" and ?k = "min (limit - (messages + length xs)) (length ys)"
  have n: "?n = length xs + ?k" "0 < ?k" using assms False by (auto simp: min_def)
  have "?n - 1 = length xs + (?k - 1)" using n by linarith
  then have "(xs @ ys) ! (?n - 1) = ys ! (?k - 1)" by (simp only: nth_append_length_plus)
  then show ?thesis using n False by (simp add: scan_result_def Let_def)
qed

section \<open>One segment\<close>

lemma first_ordinal_ok:
  assumes "contiguous ms" and "ms \<noteq> []" and "\<forall>m \<in> set ms. mm_position m \<noteq> u64_max" and "i < length ms"
  shows "position < mm_position (ms ! i) \<longleftrightarrow> min (unat (sat_sub (sat_inc position) (mm_position (hd ms)))) (length ms) \<le> i"
proof -
  have at: "unat (mm_position (ms ! i)) = unat (mm_position (hd ms)) + i" using assms(1,4) by (simp add: contiguous_def)
  have "mm_position (ms ! i) \<noteq> u64_max" using assms(3,4) by simp
  then have "unat (mm_position (ms ! i)) < 18446744073709551615"
    using unat_le_u64_max [of "mm_position (ms ! i)"] unat_u64_max word_unat_eq_iff [of "mm_position (ms ! i)" u64_max] by linarith
  then show ?thesis using at assms(4) by (auto simp: word_less_nat_alt unat_sat_inc min_def split: if_splits)
qed

lemma filter_range:
  assumes "k \<le> n" "n \<le> length xs" and "\<And>i. i < length xs \<Longrightarrow> P (xs ! i) \<longleftrightarrow> k \<le> i \<and> i < n"
  shows "filter P xs = take (n - k) (drop k xs)"
proof -
  have "xs = take k xs @ take (n - k) (drop k xs) @ drop n xs"
    using assms(1) by (metis append_take_drop_id drop_drop le_add_diff_inverse2)
  moreover have "filter P (take k xs) = []" using assms by (auto simp: filter_empty_conv in_set_conv_nth)
  moreover have "filter P (take (n - k) (drop k xs)) = take (n - k) (drop k xs)"
    using assms by (auto simp: filter_id_conv in_set_conv_nth)
  moreover have "filter P (drop n xs) = []" using assms by (auto simp: filter_empty_conv in_set_conv_nth)
  ultimately show ?thesis by (metis append_Nil append_Nil2 filter_append)
qed

definition segment_done ::
  "u64 \<Rightarrow> i64 \<Rightarrow> nat \<Rightarrow> message_meta list \<Rightarrow> u64 option \<Rightarrow> nat \<Rightarrow> expiry_scan + u64 option \<times> nat \<Rightarrow> bool" where
  "segment_done position cutoff_ns limit ms through messages out \<longleftrightarrow>
     (let expired = expired_after position cutoff_ns ms
      in case out of
           Inr (t, n) \<Rightarrow> length expired < limit - messages \<and> n = messages + length expired
             \<and> t = (if expired = [] then through else Some (mm_position (last expired)))
         | Inl (Stopped r) \<Rightarrow> r = scan_result limit through messages expired
             \<and> (limit - messages \<le> length expired \<or> cutoff_ns < mm_timestamp_ns (last ms))
         | Inl (Onward _ _) \<Rightarrow> False)"

lemma done_whole:
  assumes e: "expired_after position cutoff_ns ms = drop k ms" and k: "k < length ms" and lim: "messages < limit"
  defines "count \<equiv> min (length ms - k) (limit - messages)"
  shows "segment_done position cutoff_ns limit ms through messages
    (if count < length ms - k \<or> limit \<le> messages + count
     then Inl (Stopped (Some (mm_position (ms ! (k + count - 1)), messages + count)))
     else Inr (Some (mm_position (ms ! (k + count - 1))), messages + count))"
proof -
  have c: "0 < count" "count \<le> length ms - k" "count \<le> limit - messages" using k lim by (auto simp: count_def)
  have at: "drop k ms ! (count - 1) = ms ! (k + count - 1)" using c k by (simp add: nth_drop)
  have lastc: "last (drop k ms) = ms ! (k + count - 1)" if "count = length ms - k"
    using that k by (simp add: last_conv_nth)
  show ?thesis
  proof (cases "count < length ms - k \<or> limit \<le> messages + count")
    case True
    then have "limit - messages \<le> length ms - k" "min (limit - messages) (length ms - k) = count" using c by (auto simp: count_def)
    then show ?thesis using True at k by (simp add: segment_done_def e scan_result_def Let_def)
  next
    case False
    then have "count = length ms - k" "length ms - k < limit - messages" using c by (auto simp: count_def)
    then show ?thesis using False lastc k by (simp add: segment_done_def e Let_def)
  qed
qed

lemma done_partial:
  assumes e: "expired_after position cutoff_ns ms = take (low - k) (drop k ms)" and low: "k \<le> low" "low \<le> length ms"
    and lim: "messages < limit" and later: "cutoff_ns < mm_timestamp_ns (last ms)"
  defines "count \<equiv> min (low - k) (limit - messages)"
  shows "segment_done position cutoff_ns limit ms through messages
    (Inl (Stopped (if low > k then Some (mm_position (ms ! (k + count - 1)), messages + count)
                   else map_option (\<lambda>p. (p, messages)) through)))"
proof (cases "low > k")
  case True
  have c: "0 < count" "count \<le> low - k" "min (limit - messages) (low - k) = count" using True lim by (auto simp: count_def)
  have "take (low - k) (drop k ms) ! (count - 1) = ms ! (k + count - 1)" using c low True by (simp add: nth_drop)
  moreover have "length (take (low - k) (drop k ms)) = low - k" "take (low - k) (drop k ms) \<noteq> []" using True low by auto
  ultimately show ?thesis using True c(3) later by (simp add: segment_done_def e scan_result_def Let_def)
next
  case False
  then show ?thesis using later low by (simp add: segment_done_def e scan_result_def)
qed

lemma expire_segment_reads:
  assumes cache: "cache_ok s" "coherent pairs s" and mem: "(segment, ms) \<in> set pairs"
    and dist: "distinct (map (\<lambda>(segment, ms). seg_path segment) pairs)" and seg: "seg_ok crc32c disk segment ms"
    and asc: "ascending mm_timestamp_ns ms" and max: "\<forall>m \<in> set ms. mm_position m \<noteq> u64_max"
    and lim: "messages < limit" "limit \<le> usize_max"
  shows "reads pairs s (segment_done position cutoff_ns limit ms through messages)
    (expire_segment crc32c disk position cutoff_ns limit segment through messages s)" (is "reads _ _ ?Q _")
proof -
  note f = seg_ok_fields [OF seg]
  define k where "k = min (unat (sat_sub (sat_inc position) (mm_position (hd ms)))) (length ms)"
  let ?e = "expired_after position cutoff_ns ms" and ?below = "\<lambda>m. mm_timestamp_ns m \<le> cutoff_ns"
  have k: "k \<le> length ms" "\<And>i. i < length ms \<Longrightarrow> position < mm_position (ms ! i) \<longleftrightarrow> k \<le> i"
    using first_ordinal_ok [OF f(2,1) max] by (simp_all add: k_def)
  have run: "expire_segment crc32c disk position cutoff_ns limit segment through messages s =
     (if k \<ge> length ms \<or> mm_timestamp_ns (hd ms) > cutoff_ns then (Inr (Inr (through, messages)), s)
      else if mm_timestamp_ns (last ms) \<le> cutoff_ns then
        let expired = length ms - k; count = min expired (limit - messages)
        in if count = 0 then (Inr (Inl (Onward through messages)), s)
           else (case (if count = expired then (Inr (mm_position (last ms)), s)
                       else (case load_ordinal crc32c disk segment (k + count - 1) s of
                               (Inl e, s) \<Rightarrow> (Inl e, s)
                             | (Inr m, s) \<Rightarrow> (Inr (mm_position m), s))) of
                   (Inl e, s) \<Rightarrow> (Inl e, s)
                 | (Inr p, s) \<Rightarrow>
                     let messages = usat_add messages count
                     in if count < expired \<or> messages \<ge> limit then (Inr (Inl (Stopped (Some (p, messages)))), s)
                        else (Inr (Inr (Some p, messages)), s))
      else (case search_ordinal crc32c disk segment ?below k (length ms) s of
              (Inl e, s) \<Rightarrow> (Inl e, s)
            | (Inr low, s) \<Rightarrow>
                if low > k then
                  let count = min (low - k) (limit - messages)
                  in (case load_ordinal crc32c disk segment (k + count - 1) s of
                        (Inl e, s) \<Rightarrow> (Inl e, s)
                      | (Inr m, s) \<Rightarrow> (Inr (Inl (Stopped (Some (mm_position m, usat_add messages count)))), s))
                else (Inr (Inl (Stopped (map_option (\<lambda>p. (p, messages)) through))), s)))"
    unfolding expire_segment_def f(4-6,9,10) k_def [symmetric] Let_def ..
  have load: "reads pairs t (\<lambda>m. m = ms ! i) (load_ordinal crc32c disk segment i t)"
    if "i < length ms" "cache_ok t" "coherent pairs t" for i t
    using load_ordinal_reads [OF that(2,3) mem dist seg that(1)] .
  show ?thesis
  proof (cases "k \<ge> length ms \<or> mm_timestamp_ns (hd ms) > cutoff_ns")
    case True
    have "\<not> (position < mm_position m \<and> mm_timestamp_ns m \<le> cutoff_ns)" if "m \<in> set ms" for m
      using True ascending_hd [OF asc that] k that by (auto simp: in_set_conv_nth)
    then have "?e = []" by (simp add: expired_after_def filter_empty_conv)
    then show ?thesis unfolding run using True cache lim by (simp add: reads_return segment_done_def Let_def)
  next
    case False
    then have kl: "k < length ms" by simp
    show ?thesis
    proof (cases "mm_timestamp_ns (last ms) \<le> cutoff_ns")
      case True
      have e: "?e = drop k ms"
      proof -
        have "mm_timestamp_ns (ms ! i) \<le> cutoff_ns" if "i < length ms" for i
          using ascending_last [OF asc, of "ms ! i"] that True by simp
        then have "?e = take (length ms - k) (drop k ms)"
          unfolding expired_after_def using k by (intro filter_range) auto
        then show ?thesis by simp
      qed
      define count where "count = min (length ms - k) (limit - messages)"
      have count: "0 < count" "k + count - 1 < length ms" "messages + count \<le> limit" using kl lim by (auto simp: count_def)
      have sum: "usat_add messages count = messages + count" using count(3) lim by (intro usat_add_exact) simp
      have nz: "\<not> count = 0" using count(1) by simp
      show ?thesis
        unfolding run if_not_P [OF False] if_P [OF True] Let_def count_def [symmetric] sum if_not_P [OF nz]
      proof (rule reads_bind)
        show "reads pairs s (\<lambda>p. p = mm_position (ms ! (k + count - 1)))
          (if count = length ms - k then (Inr (mm_position (last ms)), s)
           else case load_ordinal crc32c disk segment (k + count - 1) s of
                  (Inl e, s) \<Rightarrow> (Inl e, s) | (Inr m, s) \<Rightarrow> (Inr (mm_position m), s))"
        proof (cases "count = length ms - k")
          case True
          then have "k + count - 1 = length ms - 1" using kl by simp
          then show ?thesis using True cache f(1) by (simp add: reads_return last_conv_nth)
        next
          case False
          show ?thesis unfolding if_not_P [OF False]
            by (rule reads_bind [OF load [OF count(2) cache]]) (simp add: reads_return)
        qed
      next
        fix p t assume p: "p = mm_position (ms ! (k + count - 1))" and t: "cache_ok t" "coherent pairs t"
        show "reads pairs t ?Q (if count < length ms - k \<or> limit \<le> messages + count
             then (Inr (Inl (Stopped (Some (p, messages + count)))), t) else (Inr (Inr (Some p, messages + count)), t))"
        proof (cases "count < length ms - k \<or> limit \<le> messages + count")
          case True
          show ?thesis unfolding if_P [OF True] p
            by (rule reads_return [OF t]) (use done_whole [OF e kl lim(1), of through, folded count_def] True in \<open>simp only: if_True\<close>)
        next
          case False
          show ?thesis unfolding if_not_P [OF False] p
            by (rule reads_return [OF t]) (use done_whole [OF e kl lim(1), of through, folded count_def] False in \<open>simp only: if_False\<close>)
        qed
      qed
    next
      case last: False
      then have later: "cutoff_ns < mm_timestamp_ns (last ms)" by simp
      have mono: "?below (ms ! i)" if "i \<le> j" "j < length ms" "?below (ms ! j)" for i j
        using ascending_nth [OF asc that(1,2)] that(3) by simp
      have search: "reads pairs s (\<lambda>low. k \<le> low \<and> low \<le> length ms \<and> (\<forall>i. k \<le> i \<and> i < low \<longrightarrow> ?below (ms ! i))
            \<and> (\<forall>i. low \<le> i \<and> i < length ms \<longrightarrow> \<not> ?below (ms ! i)))
          (search_ordinal crc32c disk segment ?below k (length ms) s)"
        by (rule search_ordinal_reads [OF cache mem dist seg]) (use mono k(1) in auto)
      show ?thesis
        unfolding run if_not_P [OF False] if_not_P [OF last] Let_def
      proof (rule reads_bind [OF search])
        fix low t
        assume low: "k \<le> low \<and> low \<le> length ms \<and> (\<forall>i. k \<le> i \<and> i < low \<longrightarrow> ?below (ms ! i))
            \<and> (\<forall>i. low \<le> i \<and> i < length ms \<longrightarrow> \<not> ?below (ms ! i))" and t: "cache_ok t" "coherent pairs t"
        define count where "count = min (low - k) (limit - messages)"
        have "?e = take (low - k) (drop k ms)"
          unfolding expired_after_def using low k by (intro filter_range) (auto simp: not_less [symmetric])
        note out = done_partial [OF this _ _ lim(1) later, of through, folded count_def]
        have sum: "usat_add messages count = messages + count" using lim by (intro usat_add_exact) (simp add: count_def)
        show "reads pairs t ?Q (if k < low then case load_ordinal crc32c disk segment (k + min (low - k) (limit - messages) - 1) t of
              (Inl e, s) \<Rightarrow> (Inl e, s)
            | (Inr m, s) \<Rightarrow> (Inr (Inl (Stopped (Some (mm_position m, usat_add messages (min (low - k) (limit - messages)))))), s)
           else (Inr (Inl (Stopped (map_option (\<lambda>p. (p, messages)) through))), t))"
          unfolding count_def [symmetric] sum
        proof (cases "k < low")
          case True
          have "k + count - 1 < length ms" using True low lim by (auto simp: count_def)
          from load [OF this t] show "reads pairs t ?Q (if k < low then case load_ordinal crc32c disk segment (k + count - 1) t of
              (Inl e, s) \<Rightarrow> (Inl e, s) | (Inr m, s) \<Rightarrow> (Inr (Inl (Stopped (Some (mm_position m, messages + count)))), s)
             else (Inr (Inl (Stopped (map_option (\<lambda>p. (p, messages)) through))), t))"
            unfolding if_P [OF True] by (rule reads_bind) (use out low True in \<open>simp add: reads_return\<close>)
        next
          case False
          then show "reads pairs t ?Q (if k < low then case load_ordinal crc32c disk segment (k + count - 1) t of
              (Inl e, s) \<Rightarrow> (Inl e, s) | (Inr m, s) \<Rightarrow> (Inr (Inl (Stopped (Some (mm_position m, messages + count)))), s)
             else (Inr (Inl (Stopped (map_option (\<lambda>p. (p, messages)) through))), t))"
            using out low t by (simp add: reads_return)
        qed
      qed
    qed
  qed
qed

section \<open>The whole scan\<close>

lemma expired_append: "expired_after position cutoff_ns (xs @ ys) = expired_after position cutoff_ns xs @ expired_after position cutoff_ns ys"
  by (simp add: expired_after_def)

lemma expired_none: "\<forall>m \<in> set ms. cutoff_ns < mm_timestamp_ns m \<Longrightarrow> expired_after position cutoff_ns ms = []"
  by (auto simp: expired_after_def filter_empty_conv)

definition scan_done :: "u64 \<Rightarrow> i64 \<Rightarrow> nat \<Rightarrow> message_meta list \<Rightarrow> message_meta list \<Rightarrow> u64 option \<Rightarrow> nat \<Rightarrow> expiry_scan \<Rightarrow> bool" where
  "scan_done position cutoff_ns limit ms rest through messages out \<longleftrightarrow>
     (case out of
        Stopped r \<Rightarrow> r = scan_result limit through messages (expired_after position cutoff_ns (ms @ rest))
      | Onward t n \<Rightarrow> n < limit \<and> scan_result limit through messages (expired_after position cutoff_ns (ms @ rest))
          = scan_result limit t n (expired_after position cutoff_ns rest))"

lemma expired_sealed_reads:
  assumes "list_all2 (\<lambda>segment ms. (segment, ms) \<in> set pairs \<and> seg_ok crc32c disk segment ms \<and> (\<forall>m \<in> set ms. mm_position m \<noteq> u64_max)) segs parts"
    and "ascending mm_timestamp_ns (concat parts @ rest)"
    and dist: "distinct (map (\<lambda>(segment, ms). seg_path segment) pairs)"
    and "cache_ok s" "coherent pairs s" and "messages < limit" and lim: "limit \<le> usize_max"
  shows "reads pairs s (scan_done position cutoff_ns limit (concat parts) rest through messages)
    (expired_sealed crc32c disk position cutoff_ns limit segs through messages s)"
  using assms(1,2,4-6)
proof (induction arbitrary: through messages s rule: list_all2_induct)
  case Nil
  then show ?case by (simp add: reads_return scan_done_def)
next
  case (Cons segment segs ms parts)
  let ?e = "expired_after position cutoff_ns ms" and ?later = "concat parts @ rest"
  have asc: "ascending mm_timestamp_ns ms" "ascending mm_timestamp_ns ?later"
      "\<And>a b. a \<in> set ms \<Longrightarrow> b \<in> set ?later \<Longrightarrow> mm_timestamp_ns a \<le> mm_timestamp_ns b"
    using Cons.prems(1) by (simp_all add: sorted_wrt_append)
  have ne: "ms \<noteq> []" using Cons.hyps(1) seg_ok_fields(1) by blast
  have unfold: "expired_sealed crc32c disk position cutoff_ns limit (segment # segs) through messages s =
      (case expire_segment crc32c disk position cutoff_ns limit segment through messages s of
         (Inl e, s) \<Rightarrow> (Inl e, s)
       | (Inr x, s) \<Rightarrow> (case x of Inl scan \<Rightarrow> (Inr scan, s)
            | Inr (t, n) \<Rightarrow> expired_sealed crc32c disk position cutoff_ns limit segs t n s))"
    by (simp split: sum.splits prod.splits)
  have seg: "reads pairs s (segment_done position cutoff_ns limit ms through messages)
      (expire_segment crc32c disk position cutoff_ns limit segment through messages s)"
    by (rule expire_segment_reads [OF Cons.prems(2,3) _ dist _ asc(1) _ Cons.prems(4) lim]) (use Cons.hyps(1) in blast)+
  show ?case unfolding unfold
  proof (rule reads_bind [OF seg])
    fix x t assume x: "segment_done position cutoff_ns limit ms through messages x" and t: "cache_ok t" "coherent pairs t"
    have all: "expired_after position cutoff_ns (concat (ms # parts) @ rest) = ?e @ expired_after position cutoff_ns ?later"
      by (simp add: expired_append)
    show "reads pairs t (scan_done position cutoff_ns limit (concat (ms # parts)) rest through messages)
        (case x of Inl scan \<Rightarrow> (Inr scan, t) | Inr (t', n) \<Rightarrow> expired_sealed crc32c disk position cutoff_ns limit segs t' n t)"
    proof (cases x)
      case (Inl scan)
      then obtain r where r: "scan = Stopped r" "r = scan_result limit through messages ?e"
          "limit - messages \<le> length ?e \<or> cutoff_ns < mm_timestamp_ns (last ms)"
        using x by (auto simp: segment_done_def Let_def split: expiry_scan.splits)
      have "scan_result limit through messages (?e @ expired_after position cutoff_ns ?later) = r"
      proof (cases "limit - messages \<le> length ?e")
        case True
        then show ?thesis using scan_result_full Cons.prems(4) r(2) by simp
      next
        case False
        then have "cutoff_ns < mm_timestamp_ns b" if "b \<in> set ?later" for b
          using r(3) asc(3) [OF last_in_set [OF ne] that] by simp
        then have "expired_after position cutoff_ns ?later = []" using expired_none by blast
        then show ?thesis using r(2) by simp
      qed
      then show ?thesis using Inl r(1) t all by (simp add: reads_return scan_done_def)
    next
      case (Inr y)
      obtain t' n where y: "y = (t', n)" by (cases y)
      have n: "length ?e < limit - messages" "n = messages + length ?e" "t' = (if ?e = [] then through else Some (mm_position (last ?e)))"
        using x Inr y by (simp_all add: segment_done_def Let_def)
      have eq: "scan_result limit through messages (expired_after position cutoff_ns (concat (ms # parts) @ rest))
          = scan_result limit t' n (expired_after position cutoff_ns ?later)"
        unfolding all n(2,3) by (rule scan_result_onward [OF n(1)])
      have "reads pairs t (scan_done position cutoff_ns limit (concat parts) rest t' n)
          (expired_sealed crc32c disk position cutoff_ns limit segs t' n t)"
        by (rule Cons.IH [OF asc(2) t]) (use n in simp)
      then show ?thesis unfolding Inr y
        by (simp, elim reads_mono) (use eq in \<open>simp add: scan_done_def split: expiry_scan.splits\<close>)
    qed
  qed
qed

lemma partition_point_nth:
  assumes "\<And>i j. i \<le> j \<Longrightarrow> j < length xs \<Longrightarrow> P (xs ! j) \<Longrightarrow> P (xs ! i)" and "i < length xs"
  shows "i < partition_point P xs \<longleftrightarrow> P (xs ! i)"
proof
  assume "i < partition_point P xs"
  then show "P (xs ! i)" unfolding partition_point_def by (metis nth_mem set_takeWhileD takeWhile_nth)
next
  assume p: "P (xs ! i)"
  show "i < partition_point P xs"
  proof (rule ccontr)
    assume n: "\<not> i < partition_point P xs"
    then have "partition_point P xs < length xs" using assms(2) by simp
    then have "\<not> P (xs ! partition_point P xs)" unfolding partition_point_def by (rule nth_length_takeWhile)
    then show False using assms(1) [of "partition_point P xs" i] assms(2) p n by simp
  qed
qed

lemma partition_point_le: "partition_point P xs \<le> length xs"
  by (simp add: partition_point_def length_takeWhile_le)

lemma expired_active:
  assumes "rising mm_position ms" and "ascending mm_timestamp_ns ms"
    and "partition_point (\<lambda>m. mm_position m \<le> position) ms \<le> partition_point (\<lambda>m. mm_timestamp_ns m \<le> cutoff_ns) ms"
  shows "expired_after position cutoff_ns ms =
    take (partition_point (\<lambda>m. mm_timestamp_ns m \<le> cutoff_ns) ms - partition_point (\<lambda>m. mm_position m \<le> position) ms)
      (drop (partition_point (\<lambda>m. mm_position m \<le> position) ms) ms)"
  unfolding expired_after_def
proof (rule filter_range [OF assms(3) partition_point_le])
  fix i assume i: "i < length ms"
  have "i < partition_point (\<lambda>m. mm_position m \<le> position) ms \<longleftrightarrow> mm_position (ms ! i) \<le> position"
    by (rule partition_point_nth [OF _ i]) (use ascending_nth [OF rising_ascending [OF assms(1)]] order_trans in blast)
  moreover have "i < partition_point (\<lambda>m. mm_timestamp_ns m \<le> cutoff_ns) ms \<longleftrightarrow> mm_timestamp_ns (ms ! i) \<le> cutoff_ns"
    by (rule partition_point_nth [OF _ i]) (use ascending_nth [OF assms(2)] order_trans in blast)
  ultimately show "(position < mm_position (ms ! i) \<and> mm_timestamp_ns (ms ! i) \<le> cutoff_ns) \<longleftrightarrow>
      partition_point (\<lambda>m. mm_position m \<le> position) ms \<le> i \<and> i < partition_point (\<lambda>m. mm_timestamp_ns m \<le> cutoff_ns) ms"
    by auto
qed

lemma skipped_sealed:
  fixes position :: u64
  assumes ok: "index_ok crc32c disk parts idx"
  defines "n \<equiv> partition_point (\<lambda>segment. sm_last_position segment \<le> position) (mi_sealed idx)"
  shows "expired_after position cutoff_ns (index_messages parts idx)
    = expired_after position cutoff_ns (concat (drop n parts) @ mi_active idx)"
proof -
  have "mm_position m \<le> position" if m: "m \<in> set (concat (take n parts))" for m
  proof -
    obtain j where j: "j < length (take n parts)" "m \<in> set (take n parts ! j)" using m unfolding in_concat by blast
    then have jn: "j < n" "j < length parts" "m \<in> set (parts ! j)" by auto
    have "sm_last_position (mi_sealed idx ! j) \<le> position"
      using jn(1) unfolding n_def partition_point_def by (metis nth_mem set_takeWhileD takeWhile_nth)
    then show ?thesis
      using ascending_last [OF ascending_part [OF rising_ascending [OF index_okD(5) [OF ok]] jn(2)] jn(3)]
        seg_ok_fields(6) [OF index_part(1) [OF ok jn(2)]] by simp
  qed
  then have "expired_after position cutoff_ns (concat (take n parts)) = []"
    unfolding expired_after_def filter_empty_conv by (metis not_le)
  moreover have "index_messages parts idx = concat (take n parts) @ concat (drop n parts) @ mi_active idx"
    unfolding index_messages_def by (metis append.assoc append_take_drop_id concat_append)
  ultimately show ?thesis by (simp add: expired_append)
qed

lemma through_timestamp_reads:
  assumes ok: "index_ok crc32c disk parts idx" and cache: "cache_ok s" "coherent (zip (mi_sealed idx) parts) s"
    and asc: "ascending mm_timestamp_ns (index_messages parts idx)" and lim: "0 < limit" "limit \<le> usize_max"
    and order: "\<forall>m \<in> set (mi_active idx). mm_position m \<le> position \<longrightarrow> mm_timestamp_ns m \<le> cutoff_ns"
  shows "reads (zip (mi_sealed idx) parts) s
    (\<lambda>r. r = scan_result limit None 0 (expired_after position cutoff_ns (index_messages parts idx)))
    (through_timestamp_after crc32c disk position cutoff_ns limit idx s)" (is "reads ?pairs s ?Q _")
proof -
  let ?a = "mi_active idx"
  define n where "n = partition_point (\<lambda>segment. sm_last_position segment \<le> position) (mi_sealed idx)"
  define fa where "fa = partition_point (\<lambda>m. mm_position m \<le> position) ?a"
  define till where "till = partition_point (\<lambda>m. mm_timestamp_ns m \<le> cutoff_ns) ?a"
  have bounds: "\<forall>m \<in> set (index_messages parts idx). mm_position m \<noteq> u64_max" using ok by (simp add: index_ok_def)
  have split: "index_messages parts idx = concat (take n parts) @ concat (drop n parts) @ ?a"
    unfolding index_messages_def by (metis append.assoc append_take_drop_id concat_append)
  have "seg_ok crc32c disk (mi_sealed idx ! i) (parts ! i) \<and> (mi_sealed idx ! i, parts ! i) \<in> set ?pairs
      \<and> (\<forall>m \<in> set (parts ! i). mm_position m \<noteq> u64_max)" if i: "i < length parts" for i
  proof -
    have "m \<in> set (index_messages parts idx)" if "m \<in> set (parts ! i)" for m
      unfolding index_messages_def set_append in_concat Un_iff using i that by blast
    then show ?thesis using index_part [OF ok i] bounds by blast
  qed
  then have segs: "list_all2 (\<lambda>segment ms. (segment, ms) \<in> set ?pairs \<and> seg_ok crc32c disk segment ms \<and> (\<forall>m \<in> set ms. mm_position m \<noteq> u64_max))
      (drop n (mi_sealed idx)) (drop n parts)"
    using index_okD(2) [OF ok] by (intro list_all2_dropI list_all2_all_nthI) simp_all
  have asc': "ascending mm_timestamp_ns (concat (drop n parts) @ ?a)" "ascending mm_timestamp_ns ?a"
    using asc unfolding split by (simp_all add: sorted_wrt_append)
  have le: "fa \<le> till"
  proof (cases fa)
    case (Suc k)
    then have k: "k < length ?a" "mm_position (?a ! k) \<le> position"
      using partition_point_le [of _ ?a] unfolding fa_def partition_point_def
      by (metis Suc_le_lessD, metis lessI nth_mem set_takeWhileD takeWhile_nth)
    then have "mm_timestamp_ns (?a ! k) \<le> cutoff_ns" using order by simp
    then have "k < till" unfolding till_def
      by (subst partition_point_nth [OF _ k(1)]) (use ascending_nth [OF asc'(2)] order_trans in blast)+
    then show ?thesis using Suc by simp
  qed simp
  have act: "expired_after position cutoff_ns ?a = take (till - fa) (drop fa ?a)"
    unfolding fa_def till_def by (rule expired_active [OF index_okD(6) [OF ok] asc'(2) le [unfolded fa_def till_def]])
  have small: "length ?a \<le> usize_max" using positions_bound [OF index_okD(6) [OF ok]] ok by (simp add: index_ok_def index_messages_def)
  have goal: "expired_after position cutoff_ns (index_messages parts idx) = expired_after position cutoff_ns (concat (drop n parts) @ ?a)"
    unfolding n_def by (rule skipped_sealed [OF ok])
  have unfold: "through_timestamp_after crc32c disk position cutoff_ns limit idx s =
      (case expired_sealed crc32c disk position cutoff_ns limit (drop n (mi_sealed idx)) None 0 s of
         (Inl e, s) \<Rightarrow> (Inl e, s)
       | (Inr x, s) \<Rightarrow> (case x of Stopped r \<Rightarrow> (Inr r, s)
           | Onward through messages \<Rightarrow>
               let count = min (wrapping_usub till fa) (limit - messages)
               in if count > 0 then (Inr (map_option (\<lambda>m. (mm_position m, usat_add messages count)) (get_at ?a ((fa + count - 1) mod 2 ^ 64))), s)
                  else (Inr (map_option (\<lambda>p. (p, messages)) through), s)))"
    unfolding through_timestamp_after_def Let_def n_def [symmetric] fa_def [symmetric] till_def [symmetric]
    by (simp split: sum.splits prod.splits expiry_scan.splits)
  show ?thesis unfolding unfold
  proof (rule reads_bind [OF expired_sealed_reads [OF segs asc'(1) index_okD(3) [OF ok] cache lim]])
    fix x t assume x: "scan_done position cutoff_ns limit (concat (drop n parts)) ?a None 0 x" and t: "cache_ok t" "coherent ?pairs t"
    show "reads ?pairs t ?Q (case x of Stopped r \<Rightarrow> (Inr r, t) | Onward through messages \<Rightarrow>
               let count = min (wrapping_usub till fa) (limit - messages)
               in if count > 0 then (Inr (map_option (\<lambda>m. (mm_position m, usat_add messages count)) (get_at ?a ((fa + count - 1) mod 2 ^ 64))), t)
                  else (Inr (map_option (\<lambda>p. (p, messages)) through), t))"
    proof (cases x)
      case (Stopped r)
      then show ?thesis using x t goal by (simp add: reads_return scan_done_def)
    next
      case (Onward through messages)
      have m: "messages < limit" and eq: "scan_result limit None 0 (expired_after position cutoff_ns (index_messages parts idx))
          = scan_result limit through messages (take (till - fa) (drop fa ?a))"
        using x goal act by (simp_all add: Onward scan_done_def)
      define count where "count = min (till - fa) (limit - messages)"
      have tl: "till \<le> length ?a" by (simp add: till_def partition_point_le)
      have sum: "usat_add messages count = messages + count" using m lim(2) by (intro usat_add_exact) (simp add: count_def)
      have "(if count > 0 then map_option (\<lambda>m. (mm_position m, usat_add messages count)) (get_at ?a ((fa + count - 1) mod 2 ^ 64))
           else map_option (\<lambda>p. (p, messages)) through) = scan_result limit through messages (take (till - fa) (drop fa ?a))"
      proof (cases "count > 0")
        case True
        have c: "min (limit - messages) (till - fa) = count" by (simp add: count_def)
        have ct: "count \<le> till - fa" by (simp add: count_def)
        have i: "fa + count - 1 < length ?a" using True ct le tl by linarith
        then have "(fa + count - 1) mod 2 ^ 64 = fa + count - 1" using small by (simp add: usize_max_def)
        moreover have "take (till - fa) (drop fa ?a) ! (count - 1) = ?a ! (fa + count - 1)" using True tl le ct by (simp add: nth_drop)
        moreover have "length (take (till - fa) (drop fa ?a)) = till - fa" "take (till - fa) (drop fa ?a) \<noteq> []"
          using tl le True by (auto simp: count_def)
        ultimately show ?thesis using True i sum c by (simp add: scan_result_def Let_def get_at_def)
      next
        case False
        then have "till - fa = 0" using m by (simp add: count_def)
        then show ?thesis using False by (simp add: scan_result_def)
      qed
      moreover have "wrapping_usub till fa = till - fa" using le by (simp add: wrapping_usub_def)
      ultimately show ?thesis
        unfolding Onward expiry_scan.case Let_def using t
        by (cases "count > 0") (simp_all only: count_def [symmetric] eq if_True if_False reads_return)
    qed
  qed
qed

section \<open>The properties\<close>

text \<open>
  C35: The expiry scan stops where expiry stops. With timestamps in log order and the messages at
  or before the start position expired, it returns the position and number of the messages after
  it that are no newer than the cutoff, cut off at the batch limit, whichever segments and pages
  they lie in; the one error it may report instead needs active metadata over its budget.\<close>

theorem expiry_scan_exact:
  assumes "index_reach crc32c disk parts idx s"
    and "sorted_wrt (\<lambda>a b. mm_timestamp_ns a \<le> mm_timestamp_ns b) (index_messages parts idx)"
    and "\<forall>m \<in> set (mi_active idx). mm_position m \<le> position \<longrightarrow> mm_timestamp_ns m \<le> cutoff_ns"
    and "0 < limit" and "limit \<le> usize_max"
  shows "fst (through_timestamp_after crc32c disk position cutoff_ns limit idx s) =
      (let expired = filter (\<lambda>m. position < mm_position m \<and> mm_timestamp_ns m \<le> cutoff_ns) (index_messages parts idx);
           n = min limit (length expired)
       in Inr (if expired = [] then None else Some (mm_position (expired ! (n - 1)), n)))
    \<or> fst (through_timestamp_after crc32c disk position cutoff_ns limit idx s)
        = Inl (InvalidRecord ''topic index page is incomplete'') \<and> over_budget s"
proof -
  have ok: "index_ok crc32c disk parts idx" and cache: "cache_ok s" "coherent (zip (mi_sealed idx) parts) s"
    using index_reach_inv [OF assms(1)] by (simp_all add: stands_for_def)
  have "has_room s" if "\<not> over_budget s" using not_over_budget [OF cache(1) that] by (simp add: has_room_def)
  then show ?thesis
    using through_timestamp_reads [OF ok cache assms(2,4,5,3)]
    by (auto simp: reads_def scan_result_def expired_after_def Let_def split: sum.splits)
qed

theorem expiry_scan_exact_witness:
  "fst (through_timestamp_after (sum_append 0) sample_index_disk 0 8 10 sample_index sample_cache) = Inr (Some (2, 2))"
proof -
  let ?ms = "index_messages [[sample_meta 1, sample_meta 2]] sample_index"
  have "sorted_wrt (\<lambda>a b. mm_timestamp_ns a \<le> mm_timestamp_ns b) ?ms"
    unfolding sample_messages by (simp add: sample_meta_def sample_active_def)
  moreover have "\<forall>m \<in> set (mi_active sample_index). mm_position m \<le> 0 \<longrightarrow> mm_timestamp_ns m \<le> 8"
    by (simp add: sample_index_def sample_active_def sample_meta_def)
  ultimately show ?thesis
    using expiry_scan_exact [OF sample_index_reach, of 0 8 10] sample_cache_ok(2) unfolding sample_messages
    by (simp add: usize_max_def sample_meta_def sample_active_def)
qed

text \<open>
  C36: The expiry scan has no guard against a start position beyond messages that have not
  expired. In a release build the difference of the two indexes wraps around, and with a full
  batch of active messages after the position the scan reports the whole batch as expired,
  although every message of it is newer than the cutoff.\<close>

theorem expiry_scan_wraps:
  assumes "index_reach crc32c disk parts idx s" and "mi_sealed idx = []"
    and "sorted_wrt (\<lambda>a b. mm_timestamp_ns a \<le> mm_timestamp_ns b) (mi_active idx)"
    and "partition_point (\<lambda>m. mm_timestamp_ns m \<le> cutoff_ns) (mi_active idx)
         < partition_point (\<lambda>m. mm_position m \<le> position) (mi_active idx)"
    and "0 < limit" and "partition_point (\<lambda>m. mm_position m \<le> position) (mi_active idx) + limit \<le> length (mi_active idx)"
  shows "\<exists>m \<in> set (mi_active idx). fst (through_timestamp_after crc32c disk position cutoff_ns limit idx s) = Inr (Some (mm_position m, limit))
    \<and> position < mm_position m
    \<and> (\<forall>m' \<in> set (mi_active idx). position < mm_position m' \<longrightarrow> cutoff_ns < mm_timestamp_ns m')"
proof -
  let ?a = "mi_active idx"
  define fa where "fa = partition_point (\<lambda>m. mm_position m \<le> position) ?a"
  define till where "till = partition_point (\<lambda>m. mm_timestamp_ns m \<le> cutoff_ns) ?a"
  have lt: "till < fa" "fa + limit \<le> length ?a" using assms(4,6) by (simp_all add: fa_def till_def)
  have ok: "index_ok crc32c disk parts idx" using index_reach_inv [OF assms(1)] by (simp add: stands_for_def)
  have small: "length ?a \<le> usize_max"
    using positions_bound [OF index_okD(6) [OF ok]] ok by (simp add: index_ok_def index_messages_def)
  have at: "i < fa \<longleftrightarrow> mm_position (?a ! i) \<le> position" "i < till \<longleftrightarrow> mm_timestamp_ns (?a ! i) \<le> cutoff_ns" if "i < length ?a" for i
    unfolding fa_def till_def
    by (rule partition_point_nth [OF _ that], use ascending_nth [OF rising_ascending [OF index_okD(6) [OF ok]]] order_trans in blast)
      (rule partition_point_nth [OF _ that], use ascending_nth [OF assms(3)] order_trans in blast)
  let ?m = "?a ! (fa + limit - 1)"
  have i: "fa + limit - 1 < length ?a" using lt assms(5) by simp
  have count: "min (wrapping_usub till fa) limit = limit" "usat_add 0 limit = limit" "(fa + limit - 1) mod 2 ^ 64 = fa + limit - 1"
    using lt small assms(5) by (simp_all add: wrapping_usub_def usize_max_def usat_add_def)
  have "fst (through_timestamp_after crc32c disk position cutoff_ns limit idx s) = Inr (Some (mm_position ?m, limit))"
    unfolding through_timestamp_after_def Let_def fa_def [symmetric] till_def [symmetric]
    using assms(2,5) count i by (simp add: get_at_def)
  moreover have "\<not> fa + limit - 1 < fa" using assms(5) by simp
  then have "position < mm_position ?m" using at(1) [OF i] by (simp only: not_le simp_thms)
  moreover have "cutoff_ns < mm_timestamp_ns m'" if m': "m' \<in> set ?a" "position < mm_position m'" for m'
  proof -
    obtain j where j: "j < length ?a" "m' = ?a ! j" using m'(1) by (auto simp: in_set_conv_nth)
    then show ?thesis using at [OF j(1)] m'(2) lt(1) by auto
  qed
  ultimately show ?thesis using nth_mem [OF i] by blast
qed

theorem expiry_scan_wraps_witness:
  "\<exists>s. fst (through_timestamp_after (sum_append 0) sample_index_disk 1 0 1
      \<lparr>mi_sealed = [], mi_active = [sample_meta 1, sample_meta 2], mi_total_count = 2\<rparr> s) = Inr (Some (2, 1))
    \<and> 0 < mm_timestamp_ns (sample_meta 2)"
proof -
  let ?idx = "\<lparr>mi_sealed = [], mi_active = [sample_meta 1, sample_meta 2], mi_total_count = 2\<rparr>"
  let ?s = "add_recovered_active (Suc (Suc 0)) (new_cache 131072)"
  have "recover_active [sample_meta 1, sample_meta 2] new_index (new_cache 131072) = (Inr ?idx, ?s)"
    by (simp add: recover_active_def extend_active_def new_index_def sample_meta_def sat_add_def usat_add_def usize_max_def)
  then have reach: "index_reach (sum_append 0) sample_index_disk [] ?idx ?s"
    by (rule index_reach.recovered_active [OF index_reach.start [OF sample_cache_ok(1)], rotated])
      (simp add: sample_meta_def new_index_def uncached_def new_cache_def)
  let ?a = "[sample_meta 1, sample_meta 2]"
  have pp: "partition_point (\<lambda>m. mm_timestamp_ns m \<le> 0) ?a = 0" "partition_point (\<lambda>m. mm_position m \<le> 1) ?a = 1"
    by (simp_all add: partition_point_def sample_meta_def word_le_nat_alt)
  have ts: "mm_timestamp_ns (sample_meta p) = 7" for p by (simp add: sample_meta_def)
  have "\<exists>m \<in> set ?a. fst (through_timestamp_after (sum_append 0) sample_index_disk 1 0 1 ?idx ?s) = Inr (Some (mm_position m, 1)) \<and> 1 < mm_position m"
    using expiry_scan_wraps [OF reach, of 0 1 1] pp ts by auto
  then have "fst (through_timestamp_after (sum_append 0) sample_index_disk 1 0 1 ?idx ?s) = Inr (Some (2, 1))"
    by (auto simp: sample_positions)
  then show ?thesis using ts by auto
qed

end
