(* ===== verification/Topic.thy ===== *)
theory Topic
  imports Message_Expiry Channel_Store
begin

text \<open>
  A Topic: \<open>crates/queue/src/topic.rs\<close> with the policy of \<open>model.rs\<close> and the manifest of
  \<open>metadata.rs\<close>. It owns the log, the message index and the Channels; its manifest file is
  replaced atomically. The index cache is shared with other Topics and passed along. The
  libraries it calls are parameters, the outcomes of its system calls arguments. The order in
  which a \<open>HashMap\<close> is iterated is unspecified, so operations that go over all Channels take the
  order as an argument.
\<close>

section \<open>Data\<close>

datatype delivery_mode = Reliable | TtlDiscard

record topic_policy =
  po_delivery_mode :: delivery_mode
  po_message_ttl_seconds :: "u64 option"

definition validate_policy :: "topic_policy \<Rightarrow> string + topic_policy" where
  "validate_policy policy =
     (case (po_delivery_mode policy, po_message_ttl_seconds policy) of
        (Reliable, None) \<Rightarrow> Inr policy
      | (Reliable, Some _) \<Rightarrow> Inl ''RELIABLE topics cannot define message_ttl_seconds''
      | (TtlDiscard, Some seconds) \<Rightarrow>
          if seconds > 0 then Inr policy
          else Inl ''TTL_DISCARD topics require message_ttl_seconds greater than zero''
      | (TtlDiscard, None) \<Rightarrow> Inl ''TTL_DISCARD topics require message_ttl_seconds greater than zero'')"

definition ttl_seconds :: "topic_policy \<Rightarrow> u64 option" where
  "ttl_seconds policy =
     (case po_delivery_mode policy of Reliable \<Rightarrow> None | TtlDiscard \<Rightarrow> po_message_ttl_seconds policy)"

record topic_manifest =
  tm_format :: u8
  tm_name :: string
  tm_paused :: bool
  tm_deleted :: bool
  tm_next_position :: u64
  tm_unrouted_from_position :: "u64 option"
  tm_delivery_mode :: delivery_mode
  tm_message_ttl_seconds :: "u64 option"
  tm_expired_through_position :: u64
  tm_ttl_discarded_messages :: u64

text \<open>What the Topic uses of other crates: CRC-32C, JSON and hexadecimal encoding.\<close>

record libraries =
  lib_crc32c :: "byte list \<Rightarrow> u32"
  lib_crc32c_append :: "u32 \<Rightarrow> byte list \<Rightarrow> u32"
  lib_manifest_to_json :: "topic_manifest \<Rightarrow> string + byte list"
  lib_manifest_from_json :: "byte list \<Rightarrow> string + topic_manifest"
  lib_channel_to_json :: "channel_checkpoint \<Rightarrow> string + byte list"
  lib_channel_from_json :: "byte list \<Rightarrow> string + channel_checkpoint"
  lib_hex_encode :: "string \<Rightarrow> string"

text \<open>The outcomes of the system calls of one operation on a Channel's store and on a Topic.\<close>

record channel_io =
  ci_write :: "(nat \<times> io_error) option"
  ci_sync :: "io_error option"
  ci_checkpoint :: replace_fault
  ci_calls :: "nat \<Rightarrow> io_error option"
  ci_open :: open_io

record topic_io =
  ti_append :: append_io
  ti_seal :: "io_error option"
  ti_rotate :: append_io
  ti_sidecar :: "string \<Rightarrow> replace_fault"
  ti_manifest :: "nat \<Rightarrow> replace_fault"
  ti_purge :: "nat \<Rightarrow> io_error option"
  ti_channel :: "string \<Rightarrow> channel_io"
  ti_open :: log_open_io
  ti_list :: "io_error option"

record pending_sync =
  ps_messages :: u64
  ps_bytes :: u64
  ps_since :: instant

record topic =
  tp_name :: string
  tp_manifest_file :: "byte list option"
  tp_manifest :: topic_manifest
  tp_log :: segment_log
  tp_messages :: message_index
  tp_position_gaps :: "(u64 \<times> u64) list"
  tp_deliverable_position :: u64
  tp_durable_position :: u64
  tp_unsynced_messages :: u64
  tp_unsynced_bytes :: u64
  tp_unsynced_since :: "instant option"
  tp_channels :: "(string, channel_runtime) fmap"
  tp_max_ack_gap :: u64
  tp_durable_channel_counters :: bool
  tp_published_count :: u64

definition max_channels_per_topic :: nat where "max_channels_per_topic = 1024"

text \<open>The \<open>?\<close> operator in an operation that carries a state: an error leaves with the state reached.\<close>

definition and_pass :: "('e + 'a) \<times> 's \<Rightarrow> ('a \<Rightarrow> 's \<Rightarrow> ('e + 'b) \<times> 's) \<Rightarrow> ('e + 'b) \<times> 's" where
  "and_pass r f = (case r of (Inl e, s) \<Rightarrow> (Inl e, s) | (Inr x, s) \<Rightarrow> f x s)"

definition storage_result :: "storage_error + 'a \<Rightarrow> broker_error + 'a" where
  "storage_result r = (case r of Inl e \<Rightarrow> Inl (StorageErr e) | Inr x \<Rightarrow> Inr x)"

definition io_result :: "io_error + 'a \<Rightarrow> broker_error + 'a" where
  "io_result r = (case r of Inl e \<Rightarrow> Inl (BrIo e) | Inr x \<Rightarrow> Inr x)"

section \<open>The manifest file\<close>

definition store_atomic ::
  "libraries \<Rightarrow> replace_fault \<Rightarrow> topic_manifest \<Rightarrow> byte list option \<Rightarrow> (io_error + unit) \<times> byte list option" where
  "store_atomic libs fault manifest old =
     (case lib_manifest_to_json libs manifest of
        Inl message \<Rightarrow> (Inl (IoError OtherKind message), old)
      | Inr bytes \<Rightarrow> store_bytes_atomic fault bytes old)"

definition read_bounded :: "byte list option \<Rightarrow> io_error + byte list" where
  "read_bounded file =
     (case file of
        None \<Rightarrow> Inl not_found
      | Some bytes \<Rightarrow>
          if length bytes > max_metadata_bytes
          then Inl (IoError InvalidData ''metadata file exceeds the maximum size'') else Inr bytes)"

definition load_topic_manifest :: "libraries \<Rightarrow> byte list option \<Rightarrow> io_error + topic_manifest option" where
  "load_topic_manifest libs file =
     (case read_bounded file of
        Inr bytes \<Rightarrow> (case lib_manifest_from_json libs bytes of
                       Inl message \<Rightarrow> Inl (IoError OtherKind message)
                     | Inr manifest \<Rightarrow> Inr (Some manifest))
      | Inl (IoError kind message) \<Rightarrow> if kind = NotFound then Inr None else Inl (IoError kind message))"

text \<open>Writing the manifest \<open>m\<close>, either to install it afterwards or because it is installed.\<close>

definition put_manifest :: "libraries \<Rightarrow> replace_fault \<Rightarrow> topic_manifest \<Rightarrow> topic \<Rightarrow> (broker_error + unit) \<times> topic" where
  "put_manifest libs fault m t =
     (case store_atomic libs fault m (tp_manifest_file t) of
        (r, file) \<Rightarrow> (io_result r, t\<lparr>tp_manifest_file := file\<rparr>))"

section \<open>Positions and policy\<close>

definition last_position :: "topic \<Rightarrow> u64" where
  "last_position t = sat_sub (tm_next_position (tp_manifest t)) 1"

definition written_position :: "topic \<Rightarrow> u64" where
  "written_position t = (case index_last_position (tp_messages t) of None \<Rightarrow> 0 | Some p \<Rightarrow> p)"

definition has_durable_channels :: "topic \<Rightarrow> bool" where
  "has_durable_channels t \<longleftrightarrow> fBex (fmran (tp_channels t)) (\<lambda>runtime. \<not> ch_ephemeral (cr_state runtime))"

definition earliest_retained_position :: "topic \<Rightarrow> u64" where
  "earliest_retained_position t =
     (case index_first_position (tp_messages t) of None \<Rightarrow> tm_next_position (tp_manifest t) | Some p \<Rightarrow> p)"

definition missing_boundary :: broker_error where
  "missing_boundary = InvalidRecord ''topic without a durable channel is missing its retention boundary''"

definition unrouted_start_position :: "topic \<Rightarrow> broker_error + u64" where
  "unrouted_start_position t = ok_or (tm_unrouted_from_position (tp_manifest t)) missing_boundary"

definition set_unrouted_from_position ::
  "libraries \<Rightarrow> replace_fault \<Rightarrow> u64 option \<Rightarrow> topic \<Rightarrow> (broker_error + unit) \<times> topic" where
  "set_unrouted_from_position libs fault position t =
     (if tm_unrouted_from_position (tp_manifest t) = position then (Inr (), t)
      else let manifest = (tp_manifest t)\<lparr>tm_unrouted_from_position := position\<rparr>
           in and_pass (put_manifest libs fault manifest t) (\<lambda>_ t. (Inr (), t\<lparr>tp_manifest := manifest\<rparr>)))"

definition reconcile_unrouted_boundary :: "libraries \<Rightarrow> replace_fault \<Rightarrow> topic \<Rightarrow> (broker_error + unit) \<times> topic" where
  "reconcile_unrouted_boundary libs fault t =
     (let m = tp_manifest t; earliest = earliest_retained_position t
      in set_unrouted_from_position libs fault
           (if has_durable_channels t then None
            else Some (min (max (max (case tm_unrouted_from_position m of None \<Rightarrow> earliest | Some p \<Rightarrow> p) earliest)
                                (sat_add (tm_expired_through_position m) 1))
                           (tm_next_position m))) t)"

definition policy_of :: "topic \<Rightarrow> topic_policy" where
  "policy_of t = \<lparr>po_delivery_mode = tm_delivery_mode (tp_manifest t),
                  po_message_ttl_seconds = tm_message_ttl_seconds (tp_manifest t)\<rparr>"

definition set_policy :: "libraries \<Rightarrow> replace_fault \<Rightarrow> topic_policy \<Rightarrow> topic \<Rightarrow> (broker_error + bool) \<times> topic" where
  "set_policy libs fault policy t =
     (case validate_policy policy of
        Inl message \<Rightarrow> (Inl (InvalidTopicPolicy message), t)
      | Inr policy \<Rightarrow>
          if policy_of t = policy then (Inr False, t)
          else let manifest = (tp_manifest t)\<lparr>tm_delivery_mode := po_delivery_mode policy,
                                              tm_message_ttl_seconds := po_message_ttl_seconds policy\<rparr>
               in and_pass (put_manifest libs fault manifest t) (\<lambda>_ t. (Inr True, t\<lparr>tp_manifest := manifest\<rparr>)))"

text \<open>Seconds to nanoseconds as the source computes them: saturating, then cut to \<open>i64\<close>.\<close>

definition ttl_ns :: "u64 \<Rightarrow> i64" where
  "ttl_ns seconds = min (min (int (unat seconds) * 1000000000) (2 ^ 64 - 1)) i64_max"

definition expiration_ns_for_timestamp :: "topic \<Rightarrow> i64 \<Rightarrow> i64 option" where
  "expiration_ns_for_timestamp t timestamp_ns =
     map_option (\<lambda>seconds. sat_add_i64 timestamp_ns (ttl_ns seconds)) (ttl_seconds (policy_of t))"

definition next_expiration_ns ::
  "libraries \<Rightarrow> topic \<Rightarrow> cache_state \<Rightarrow> (broker_error + i64 option) \<times> cache_state" where
  "next_expiration_ns libs t s =
     (case ttl_seconds (policy_of t) of
        None \<Rightarrow> (Inr None, s)
      | Some seconds \<Rightarrow>
          (case first_message_after (lib_crc32c libs) (sl_disk (tp_log t))
                  (tm_expired_through_position (tp_manifest t)) (tp_messages t) s of
             (Inl e, s) \<Rightarrow> (Inl e, s)
           | (Inr None, s) \<Rightarrow> (Inr None, s)
           | (Inr (Some (_, timestamp_ns)), s) \<Rightarrow> (Inr (Some (sat_add_i64 timestamp_ns (ttl_ns seconds))), s)))"

definition set_paused :: "libraries \<Rightarrow> replace_fault \<Rightarrow> bool \<Rightarrow> topic \<Rightarrow> (broker_error + unit) \<times> topic" where
  "set_paused libs fault paused t =
     (let t = t\<lparr>tp_manifest := (tp_manifest t)\<lparr>tm_paused := paused\<rparr>\<rparr>
      in put_manifest libs fault (tp_manifest t) t)"

section \<open>Publishing\<close>

definition mark_deliverable_through :: "u64 \<Rightarrow> topic \<Rightarrow> topic" where
  "mark_deliverable_through position t = t\<lparr>tp_deliverable_position := max (tp_deliverable_position t) position\<rparr>"

definition clear_unsynced :: "topic \<Rightarrow> topic" where
  "clear_unsynced t = t\<lparr>tp_unsynced_messages := 0, tp_unsynced_bytes := 0, tp_unsynced_since := None\<rparr>"

definition mark_durable_through :: "u64 \<Rightarrow> topic \<Rightarrow> topic" where
  "mark_durable_through position t =
     (let t = t\<lparr>tp_durable_position := max (tp_durable_position t) position,
                tp_deliverable_position := max (tp_deliverable_position t) position\<rparr>
      in if tp_durable_position t \<ge> written_position t then clear_unsynced t else t)"

definition record_unsynced :: "instant \<Rightarrow> nat \<Rightarrow> nat \<Rightarrow> topic \<Rightarrow> topic" where
  "record_unsynced now messages bytes t =
     (if messages = 0 \<or> tp_durable_position t \<ge> written_position t then t
      else t\<lparr>tp_unsynced_messages := sat_add (tp_unsynced_messages t) (word_of_nat messages),
             tp_unsynced_bytes := sat_add (tp_unsynced_bytes t) (word_of_nat bytes),
             tp_unsynced_since := Some (case tp_unsynced_since t of None \<Rightarrow> now | Some since \<Rightarrow> since)\<rparr>)"

definition pending_sync_of :: "instant \<Rightarrow> topic \<Rightarrow> pending_sync option" where
  "pending_sync_of now t =
     (if tp_unsynced_messages t > 0
      then Some \<lparr>ps_messages = tp_unsynced_messages t, ps_bytes = tp_unsynced_bytes t,
                 ps_since = (case tp_unsynced_since t of None \<Rightarrow> now | Some since \<Rightarrow> since)\<rparr>
      else None)"

text \<open>\<open>clone_log_for_sync\<close>: the caller syncs the file it gets outside the Topic's lock.\<close>

definition clone_log_for_sync :: "io_error option \<Rightarrow> topic \<Rightarrow> (broker_error + unit) \<times> topic" where
  "clone_log_for_sync fault t =
     (case log_available (tp_log t) of
        Inl e \<Rightarrow> (Inl (StorageErr e), t)
      | Inr _ \<Rightarrow>
          (case fault of
             None \<Rightarrow> (Inr (), t)
           | Some e \<Rightarrow> (Inl (StorageErr (StIo e)), t\<lparr>tp_log := isolate (tp_log t)\<rparr>)))"

definition mark_log_sync_failed :: "topic \<Rightarrow> topic" where
  "mark_log_sync_failed t = t\<lparr>tp_log := log_mark_sync_failed (tp_log t)\<rparr>"

definition persist_segment_index ::
  "libraries \<Rightarrow> replace_fault \<Rightarrow> string \<Rightarrow> topic \<Rightarrow> cache_state \<Rightarrow> (broker_error + unit) \<times> topic \<times> cache_state" where
  "persist_segment_index libs fault path t s =
     (case record_index_range (tp_log t) path of
        None \<Rightarrow> (Inl (InvalidRecord ''sealed segment has no records''), t, s)
      | Some _ \<Rightarrow>
          let metadata = encode_recovery (lib_crc32c libs) (active_for_path path (tp_messages t))
          in (case persist_recovery_index (lib_crc32c libs) (lib_crc32c_append libs) fault path metadata (tp_log t) of
                (Inl e, log) \<Rightarrow> (Inl (StorageErr e), t\<lparr>tp_log := log\<rparr>, s)
              | (Inr _, log) \<Rightarrow>
                  (case recovery_metadata log path of
                     None \<Rightarrow> (Inl (InvalidRecord ''sealed topic index was not persisted''), t\<lparr>tp_log := log\<rparr>, s)
                   | Some reference \<Rightarrow>
                       (case seal_path path reference (tp_messages t) s of
                          (r, idx, s) \<Rightarrow> (r, t\<lparr>tp_log := log, tp_messages := idx\<rparr>, s)))))"

text \<open>
  \<open>append_batch\<close>, in the order of the source: the log, the index, and, when the append has
  started a new segment, the sidecar of the segment before it.
\<close>

definition seal_previous ::
  "libraries \<Rightarrow> topic_io \<Rightarrow> string \<Rightarrow> u64 \<Rightarrow> topic \<Rightarrow> cache_state \<Rightarrow> (broker_error + unit) \<times> topic \<times> cache_state" where
  "seal_previous libs io previous_segment previous_last_position t s =
     (if previous_segment = sl_current_path (tp_log t) then (Inr (), t, s)
      else (case persist_segment_index libs (ti_sidecar io previous_segment) previous_segment t s of
              (Inl e, t, s) \<Rightarrow> (Inl e, t, s)
            | (Inr _, t, s) \<Rightarrow>
                (Inr (), clear_unsynced (t\<lparr>tp_durable_position := max (tp_durable_position t) previous_last_position,
                   tp_deliverable_position := max (tp_deliverable_position t) previous_last_position\<rparr>), s)))"

definition append_batch ::
  "libraries \<Rightarrow> topic_io \<Rightarrow> u64 \<Rightarrow> i64 \<Rightarrow> i64 \<Rightarrow> encoded_batch \<Rightarrow> bool \<Rightarrow> nat \<Rightarrow> topic \<Rightarrow> cache_state
   \<Rightarrow> (broker_error + u64 list) \<times> nat \<times> topic \<times> cache_state" where
  "append_batch libs io first_id timestamp_ns available_at_ms batch durable reservation t s =
     (if tm_deleted (tp_manifest t) then (Inl TopicNotFound, reservation, t, s)
      else if \<not> has_durable_channels t \<and> tm_unrouted_from_position (tp_manifest t) = None
      then (Inl missing_boundary, reservation, t, s)
      else
        let timestamp_ns = (case last_timestamp_ns (tp_messages t) of
                              None \<Rightarrow> timestamp_ns | Some previous \<Rightarrow> max timestamp_ns previous);
            header = \<lparr>r_kind = PublishBatch, r_flags = 0, r_index = next_index (tp_log t), r_timestamp_ns = timestamp_ns,
                      r_message_id = first_id, r_available_at_ms = available_at_ms\<rparr>;
            previous_last_position = last_position t;
            previous_segment = sl_current_path (tp_log t);
            count = word_of_nat (length (eb_entries batch))
        in (case append_parts_at_with_location (lib_crc32c libs) (lib_crc32c_append libs) (ti_append io) header
                   (batch_parts batch) durable (tp_log t) of
              (Inl e, log) \<Rightarrow> (Inl (StorageErr e), reservation, t\<lparr>tp_log := log\<rparr>, s)
            | (Inr location, log) \<Rightarrow>
                let metas = metas_after_append timestamp_ns available_at_ms location batch
                in (case index_append metas reservation (tp_messages t) s of
                      (Inl e, reservation, s) \<Rightarrow> (Inl e, reservation, t\<lparr>tp_log := log\<rparr>, s)
                    | (Inr idx, reservation, s) \<Rightarrow>
                        (case seal_previous libs io previous_segment previous_last_position
                                (t\<lparr>tp_log := log, tp_messages := idx,
                                   tp_published_count := sat_add (tp_published_count t) count\<rparr>) s of
                           (Inl e, t, s) \<Rightarrow> (Inl e, reservation, t, s)
                         | (Inr _, t, s) \<Rightarrow>
                             let t = t\<lparr>tp_manifest := (tp_manifest t)\<lparr>tm_next_position :=
                                         sat_add (tm_next_position (tp_manifest t)) count\<rparr>\<rparr>;
                                 t = (if durable then mark_durable_through (last_position t) t else t)
                             in (Inr (map mm_id metas), reservation, t, s)))))"

definition topic_seal_log ::
  "libraries \<Rightarrow> topic_io \<Rightarrow> topic \<Rightarrow> cache_state \<Rightarrow> (broker_error + unit) \<times> topic \<times> cache_state" where
  "topic_seal_log libs io t s =
     (let previous_segment = sl_current_path (tp_log t)
      in (case seal_log (ti_rotate io) (ti_seal io) (tp_log t) of
            (Inl e, log) \<Rightarrow> (Inl (StorageErr e), t\<lparr>tp_log := log\<rparr>, s)
          | (Inr _, log) \<Rightarrow>
              let t = mark_durable_through (last_position t) (t\<lparr>tp_log := log\<rparr>)
              in if previous_segment \<noteq> sl_current_path log
                 then persist_segment_index libs (ti_sidecar io previous_segment) previous_segment t s
                 else (Inr (), t, s)))"

definition spill_message_metadata ::
  "libraries \<Rightarrow> topic_io \<Rightarrow> topic \<Rightarrow> cache_state \<Rightarrow> (broker_error + nat) \<times> topic \<times> cache_state" where
  "spill_message_metadata libs io t s =
     (let count = length (mi_active (tp_messages t))
      in if count > 0
         then (case topic_seal_log libs io t s of
                 (Inl e, t, s) \<Rightarrow> (Inl e, t, s) | (Inr _, t, s) \<Rightarrow> (Inr count, t, s))
         else (Inr count, t, s))"

section \<open>Channels\<close>

definition persist_channel ::
  "libraries \<Rightarrow> channel_io \<Rightarrow> string \<Rightarrow> channel_command \<Rightarrow> topic \<Rightarrow> (broker_error + unit) \<times> topic" where
  "persist_channel libs io channel command t =
     (case fmlookup (tp_channels t) channel of
        None \<Rightarrow> (Inl ChannelNotFound, t)
      | Some runtime \<Rightarrow>
          let put = (\<lambda>runtime. t\<lparr>tp_channels := fmupd channel runtime (tp_channels t)\<rparr>)
          in (case cr_store runtime of
                None \<Rightarrow> (Inr (), put (runtime\<lparr>cr_state := apply_command command (cr_state runtime)\<rparr>))
              | Some store \<Rightarrow>
                  (case append_command (lib_crc32c libs) (ci_write io) (ci_sync io) command store of
                     (Inl e, store) \<Rightarrow> (Inl e, put (runtime\<lparr>cr_store := Some store\<rparr>))
                   | (Inr _, store) \<Rightarrow>
                       let state = apply_command command (cr_state runtime)
                       in (case checkpoint_if_needed (lib_crc32c libs) (lib_channel_to_json libs) (ci_checkpoint io)
                                  (ci_calls io) state store of
                             (r, store, _) \<Rightarrow> (r, put (runtime\<lparr>cr_state := state, cr_store := Some store\<rparr>))))))"

definition persist_channel_buffered ::
  "libraries \<Rightarrow> string \<Rightarrow> channel_command \<Rightarrow> topic \<Rightarrow> (broker_error + unit) \<times> topic" where
  "persist_channel_buffered libs channel command t =
     (case fmlookup (tp_channels t) channel of
        None \<Rightarrow> (Inl ChannelNotFound, t)
      | Some runtime \<Rightarrow>
          let put = (\<lambda>runtime. t\<lparr>tp_channels := fmupd channel runtime (tp_channels t)\<rparr>);
              applied = runtime\<lparr>cr_state := apply_command command (cr_state runtime)\<rparr>
          in (case cr_store runtime of
                None \<Rightarrow> (Inr (), put applied)
              | Some store \<Rightarrow>
                  (case append_buffered (lib_crc32c libs) command store of
                     (Inl e, store) \<Rightarrow> (Inl e, put (runtime\<lparr>cr_store := Some store\<rparr>))
                   | (Inr _, store) \<Rightarrow> (Inr (), put (applied\<lparr>cr_store := Some store\<rparr>)))))"

text \<open>Operations that go over some Channels in a given order and stop at the first error.\<close>

fun for_channels :: "(string \<Rightarrow> topic \<Rightarrow> (broker_error + unit) \<times> topic) \<Rightarrow> string list \<Rightarrow> topic \<Rightarrow> (broker_error + unit) \<times> topic" where
  "for_channels f [] t = (Inr (), t)"
| "for_channels f (channel # channels) t = and_pass (f channel t) (\<lambda>_ t. for_channels f channels t)"

definition on_store ::
  "(channel_runtime \<Rightarrow> channel_store \<Rightarrow> (broker_error + unit) \<times> channel_store) \<Rightarrow> string \<Rightarrow> topic \<Rightarrow> (broker_error + unit) \<times> topic" where
  "on_store f channel t =
     (case fmlookup (tp_channels t) channel of
        None \<Rightarrow> (Inl ChannelNotFound, t)
      | Some runtime \<Rightarrow>
          (case cr_store runtime of
             None \<Rightarrow> (Inr (), t)
           | Some store \<Rightarrow>
               (case f runtime store of
                  (r, store) \<Rightarrow> (r, t\<lparr>tp_channels := fmupd channel (runtime\<lparr>cr_store := Some store\<rparr>) (tp_channels t)\<rparr>))))"

definition prepare_channel_wal_syncs ::
  "(string \<Rightarrow> channel_io) \<Rightarrow> string list \<Rightarrow> topic \<Rightarrow> (broker_error + unit) \<times> topic" where
  "prepare_channel_wal_syncs io channels t =
     for_channels (\<lambda>name. on_store (\<lambda>runtime. prepare_sync (ci_write (io name)) (ci_sync (io name))) name) channels t"

definition mark_channel_wal_sync_failed :: "string list \<Rightarrow> topic \<Rightarrow> topic" where
  "mark_channel_wal_sync_failed channels t =
     fold (\<lambda>name t. snd (on_store (\<lambda>runtime store. (Inr (), mark_sync_failed store)) name t)) channels t"

definition checkpoint_channels_if_needed ::
  "libraries \<Rightarrow> (string \<Rightarrow> channel_io) \<Rightarrow> string list \<Rightarrow> topic \<Rightarrow> (broker_error + unit) \<times> topic" where
  "checkpoint_channels_if_needed libs io channels t =
     for_channels (\<lambda>name. on_store (\<lambda>runtime store.
       case checkpoint_if_needed (lib_crc32c libs) (lib_channel_to_json libs) (ci_checkpoint (io name)) (ci_calls (io name))
              (cr_state runtime) store of (r, store, _) \<Rightarrow> (r, store)) name) channels t"

definition reconcile_expired_boundary ::
  "libraries \<Rightarrow> (string \<Rightarrow> channel_io) \<Rightarrow> string list \<Rightarrow> topic \<Rightarrow> (broker_error + unit) \<times> topic" where
  "reconcile_expired_boundary libs io channels t =
     (let through_position = tm_expired_through_position (tp_manifest t)
      in if through_position = 0 then (Inr (), t)
         else for_channels (\<lambda>name t.
                if (case fmlookup (tp_channels t) name of
                      None \<Rightarrow> False | Some runtime \<Rightarrow> ch_ack_floor_position (cr_state runtime) < through_position)
                then persist_channel libs (io name) name (Evict through_position) t
                else (Inr (), t)) channels t)"

text \<open>
  \<open>create_channel\<close> and \<open>delete_channel\<close> also return what a crash may find: the manifest file with
  the files of the Channel, after each step. \<open>disk\<close> holds the files that an earlier Channel of the
  same name may have left. \<open>now\<close> is the clock in nanoseconds, \<open>retention\<close> the bootstrap retention.
\<close>

definition ephemeral_suffix :: string where "ephemeral_suffix = ''#ephemeral''"

definition channel_barrier :: "i64 \<Rightarrow> nat \<Rightarrow> string \<Rightarrow> topic \<Rightarrow> broker_error + u64" where
  "channel_barrier now retention name t =
     and_then
       (if suffix ephemeral_suffix name then Inr (last_position t)
        else if \<not> has_durable_channels t
        then and_then (unrouted_start_position t) (\<lambda>p. Inr (sat_sub p 1))
        else let cutoff = sat_sub_i64 now (min (int retention) i64_max)
             in Inr (sat_sub (retain_from_timestamp cutoff (tm_next_position (tp_manifest t)) (tp_messages t)) 1))
       (\<lambda>p. Inr (max p (tm_expired_through_position (tp_manifest t))))"

definition create_channel ::
  "libraries \<Rightarrow> (nat \<Rightarrow> io_error option) \<Rightarrow> replace_fault \<Rightarrow> replace_fault \<Rightarrow> i64 \<Rightarrow> nat \<Rightarrow> string \<Rightarrow> channel_disk \<Rightarrow> topic
   \<Rightarrow> (broker_error + bool) \<times> topic \<times> (byte list option \<times> channel_disk) list" where
  "create_channel libs io checkpoint_fault manifest_fault now retention name disk t =
     (if tm_deleted (tp_manifest t) then (Inl TopicNotFound, t, [])
      else if name |\<in>| fmdom (tp_channels t) then (Inr False, t, [])
      else if fcard (fmdom (tp_channels t)) \<ge> max_channels_per_topic then (Inl ChannelLimit, t, [])
      else
        let ephemeral = suffix ephemeral_suffix name;
            first_durable = (\<not> ephemeral \<and> \<not> has_durable_channels t)
        in (case channel_barrier now retention name t of
              Inl e \<Rightarrow> (Inl e, t, [])
            | Inr barrier \<Rightarrow>
                let state = set_absent_ranges (tp_position_gaps t) (new_channel name barrier ephemeral (tp_max_ack_gap t));
                    made = (if ephemeral then (Inr None, [])
                            else (case create_store (lib_crc32c libs) (lib_channel_to_json libs) (lib_hex_encode libs) io
                                         checkpoint_fault state disk of
                                    (Inl e, trace) \<Rightarrow> (Inl e, trace)
                                  | (Inr store, trace) \<Rightarrow> (Inr (Some store), trace)));
                    crashes = map (\<lambda>d. (tp_manifest_file t, d)) (snd made)
                in (case fst made of
                      Inl e \<Rightarrow> (Inl e, t, crashes)
                    | Inr store \<Rightarrow>
                        (case (if first_durable then set_unrouted_from_position libs manifest_fault None t else (Inr (), t)) of
                           (r, t) \<Rightarrow>
                             let crashes = crashes @ (case store of None \<Rightarrow> [] | Some store \<Rightarrow> [(tp_manifest_file t, cs_disk store)])
                             in (case r of
                                   Inl e \<Rightarrow> (Inl e, t, crashes)
                                 | Inr _ \<Rightarrow>
                                     (Inr True,
                                      t\<lparr>tp_channels := fmupd name
                                          \<lparr>cr_state = state, cr_store = store,
                                           cr_durable_counters = tp_durable_channel_counters t\<rparr> (tp_channels t)\<rparr>,
                                      crashes))))))"

definition delete_channel ::
  "libraries \<Rightarrow> replace_fault \<Rightarrow> (nat \<Rightarrow> io_error option) \<Rightarrow> string \<Rightarrow> topic
   \<Rightarrow> (broker_error + unit) \<times> topic \<times> (byte list option \<times> byte list option \<times> byte list option) list" where
  "delete_channel libs manifest_fault io name t =
     (case fmlookup (tp_channels t) name of
        None \<Rightarrow> (Inl ChannelNotFound, t, [])
      | Some runtime \<Rightarrow>
          let deleting_last_durable =
                (\<not> ch_ephemeral (cr_state runtime)
                 \<and> fcard (ffilter (\<lambda>name. case fmlookup (tp_channels t) name of
                      None \<Rightarrow> False | Some runtime \<Rightarrow> \<not> ch_ephemeral (cr_state runtime)) (fmdom (tp_channels t))) = 1)
          in (case (if deleting_last_durable
                    then set_unrouted_from_position libs manifest_fault (Some (tm_next_position (tp_manifest t))) t
                    else (Inr (), t)) of
                (Inl e, t) \<Rightarrow> (Inl e, t, [])
              | (Inr _, t) \<Rightarrow>
                  let t = t\<lparr>tp_channels := fmdrop name (tp_channels t)\<rparr>
                  in (case cr_store runtime of
                        None \<Rightarrow> (Inr (), t, [])
                      | Some store \<Rightarrow>
                          (case remove_store io store of
                             (r, trace) \<Rightarrow> (r, t, map (\<lambda>files. (tp_manifest_file t, files)) trace)))))"

definition channel_names :: "topic \<Rightarrow> string list" where
  "channel_names t = sorted_list_of_fset (fmdom (tp_channels t))"

definition channel_counts :: "libraries \<Rightarrow> i64 \<Rightarrow> string \<Rightarrow> topic \<Rightarrow> broker_error + u64 \<times> u64 \<times> u64" where
  "channel_counts libs now_ms channel t =
     (let last_position = tp_deliverable_position t
      in and_then (ok_or (fmlookup (tp_channels t) channel) ChannelNotFound) (\<lambda>runtime.
           (case for_each_deferred_range (lib_crc32c libs) (sl_disk (tp_log t)) now_ms last_position (tp_messages t) of
              (_, Inl e) \<Rightarrow> Inl e
            | (ranges, Inr _) \<Rightarrow>
                let scheduled = foldl (\<lambda>n (first, till).
                      sat_add n (scheduled_count_in_range (cr_state runtime) first till now_ms)) 0 ranges
                in (case metric_counts (cr_state runtime) last_position scheduled now_ms of
                      (depth, in_flight, deferred, _) \<Rightarrow> Inr (depth, in_flight, deferred)))))"

section \<open>Creating and opening a Topic\<close>

text \<open>\<open>None\<close> stands for a scan of the log that does not end; \<open>io\<close> are the two directory creations,
  \<open>opens\<close> the calls of opening the log.\<close>

definition create_topic ::
  "libraries \<Rightarrow> (nat \<Rightarrow> io_error option) \<Rightarrow> log_open_io \<Rightarrow> replace_fault \<Rightarrow> string \<Rightarrow> nat \<Rightarrow> u64 \<Rightarrow> u32 \<Rightarrow> byte list option
   \<Rightarrow> segment_disk \<Rightarrow> (broker_error + topic) option" where
  "create_topic libs io opens fault name max_segment_bytes max_ack_gap level file disk =
     (let manifest = \<lparr>tm_format = 7, tm_name = name, tm_paused = False, tm_deleted = False, tm_next_position = 1,
                      tm_unrouted_from_position = Some 1, tm_delivery_mode = Reliable, tm_message_ttl_seconds = None,
                      tm_expired_through_position = 0, tm_ttl_discarded_messages = 0\<rparr>
      in (case and_then (io_call (io 0)) (\<lambda>_. io_call (io 1)) of
            Inl e \<Rightarrow> Some (Inl e)
          | Inr _ \<Rightarrow>
              (case store_atomic libs fault manifest file of
                 (Inl e, _) \<Rightarrow> Some (Inl (BrIo e))
               | (Inr _, file) \<Rightarrow>
                   map_option (\<lambda>opened. and_then (storage_result opened) (\<lambda>log.
                     Inr \<lparr>tp_name = name, tp_manifest_file = file, tp_manifest = manifest, tp_log = log,
                          tp_messages = new_index, tp_position_gaps = [], tp_deliverable_position = 0,
                          tp_durable_position = 0, tp_unsynced_messages = 0, tp_unsynced_bytes = 0,
                          tp_unsynced_since = None, tp_channels = fmempty, tp_max_ack_gap = max_ack_gap,
                          tp_durable_channel_counters = (level \<ge> 2), tp_published_count = 0\<rparr>))
                     (open_log opens (lib_crc32c libs) (lib_crc32c_append libs) disk max_segment_bytes 1 level))))"

text \<open>\<open>read_location_with\<close> of the log: a failed read isolates it.\<close>

definition read_location_with ::
  "libraries \<Rightarrow> record_location \<Rightarrow> (record_header \<Rightarrow> nat \<Rightarrow> byte list \<Rightarrow> io_error + 'a) \<Rightarrow> segment_log
   \<Rightarrow> (storage_error + 'a) \<times> segment_log" where
  "read_location_with libs location visitor log =
     isolate_on_error (visit_record (lib_crc32c libs) (lib_crc32c_append libs) (sl_disk log) location visitor, log)"

text \<open>The metadata of the messages at some locations, read from the records.\<close>

fun metas_at ::
  "libraries \<Rightarrow> record_location list \<Rightarrow> segment_log \<Rightarrow> (broker_error + message_meta list) \<times> segment_log" where
  "metas_at libs [] log = (Inr [], log)"
| "metas_at libs (location # places) log =
     (case read_location_with libs location (\<lambda>header len stream.
             if r_kind header = PublishBatch then metas_from_reader (lib_crc32c_append libs) location header len stream
             else Inr []) log of
        (Inl e, log) \<Rightarrow> (Inl (StorageErr e), log)
      | (Inr messages, log) \<Rightarrow>
          (case metas_at libs places log of
             (Inl e, log) \<Rightarrow> (Inl e, log)
           | (Inr rest, log) \<Rightarrow> (Inr (messages @ rest), log)))"

text \<open>
  One segment of the recovery loop: a sealed one whose sidecar is in order is indexed from it;
  otherwise its records are read, and a sealed one gets a new sidecar.
\<close>

definition reindex_segment ::
  "libraries \<Rightarrow> (string \<Rightarrow> replace_fault) \<Rightarrow> string \<Rightarrow> segment_log \<Rightarrow> message_index \<Rightarrow> cache_state
   \<Rightarrow> (broker_error + segment_log \<times> message_index) \<times> cache_state" where
  "reindex_segment libs sidecar_fault path log idx s =
     (case locations_for_segment log path of
        Inl e \<Rightarrow> (Inl (StorageErr e), s)
      | Inr places \<Rightarrow>
          (case metas_at libs places log of
             (Inl e, _) \<Rightarrow> (Inl e, s)
           | (Inr messages, log) \<Rightarrow>
               if immutable_file log path \<noteq> None then
                 (case persist_recovery_index (lib_crc32c libs) (lib_crc32c_append libs) (sidecar_fault path) path
                         (encode_recovery (lib_crc32c libs) messages) log of
                    (Inl e, _) \<Rightarrow> (Inl (StorageErr e), s)
                  | (Inr _, log) \<Rightarrow>
                      (and_then (ok_or (recovery_metadata log path)
                         (InvalidRecord ''sealed topic index was not persisted'')) (\<lambda>metadata.
                       and_then (recover_sealed (lib_crc32c libs) (sl_disk log) metadata idx) (\<lambda>idx. Inr (log, idx))), s))
               else
                 (case recover_active messages idx s of
                    (Inl e, s) \<Rightarrow> (Inl e, s)
                  | (Inr idx, s) \<Rightarrow> (Inr (log, idx), s))))"

definition index_segment ::
  "libraries \<Rightarrow> (string \<Rightarrow> replace_fault) \<Rightarrow> string \<Rightarrow> segment_log \<Rightarrow> message_index \<Rightarrow> cache_state
   \<Rightarrow> (broker_error + segment_log \<times> message_index) \<times> cache_state" where
  "index_segment libs sidecar_fault path log idx s =
     (case (if immutable_file log path \<noteq> None
            then (case recovery_metadata log path of
                    None \<Rightarrow> None
                  | Some metadata \<Rightarrow>
                      (case recover_sealed (lib_crc32c libs) (sl_disk log) metadata idx of
                         Inl _ \<Rightarrow> None | Inr idx \<Rightarrow> Some idx))
            else None) of
        Some idx \<Rightarrow> (Inr (log, idx), s)
      | None \<Rightarrow> reindex_segment libs sidecar_fault path log idx s)"

fun index_segments ::
  "libraries \<Rightarrow> (string \<Rightarrow> replace_fault) \<Rightarrow> string list \<Rightarrow> segment_log \<Rightarrow> message_index \<Rightarrow> cache_state
   \<Rightarrow> (broker_error + segment_log \<times> message_index) \<times> cache_state" where
  "index_segments libs sidecar_fault [] log idx s = (Inr (log, idx), s)"
| "index_segments libs sidecar_fault (path # paths) log idx s =
     (case index_segment libs sidecar_fault path log idx s of
        (Inl e, s) \<Rightarrow> (Inl e, s)
      | (Inr (log, idx), s) \<Rightarrow> index_segments libs sidecar_fault paths log idx s)"

definition check_manifest :: "libraries \<Rightarrow> string \<Rightarrow> topic_manifest \<Rightarrow> broker_error + unit" where
  "check_manifest libs directory_name m =
     (if tm_format m \<noteq> 7 \<or> tm_deleted m then Inl (InvalidRecord ''topic manifest is not an active v7 topic'')
      else (case validate_policy \<lparr>po_delivery_mode = tm_delivery_mode m, po_message_ttl_seconds = tm_message_ttl_seconds m\<rparr> of
              Inl message \<Rightarrow> Inl (InvalidRecord message)
            | Inr _ \<Rightarrow>
                if tm_expired_through_position m \<ge> tm_next_position m
                then Inl (InvalidRecord ''topic manifest has an invalid TTL discard boundary'')
                else if (case tm_unrouted_from_position m of
                           None \<Rightarrow> False | Some position \<Rightarrow> position = 0 \<or> position > tm_next_position m)
                then Inl (InvalidRecord ''topic manifest has an invalid unrouted position'')
                else if validate_name (tm_name m) \<noteq> Inr () \<or> directory_name \<noteq> lib_hex_encode libs (tm_name m)
                then Inl (InvalidRecord ''topic manifest name does not match its directory'')
                else Inr ()))"

definition open_topic ::
  "libraries \<Rightarrow> topic_io \<Rightarrow> string \<Rightarrow> nat \<Rightarrow> u64 \<Rightarrow> u32 \<Rightarrow> byte list option \<Rightarrow> segment_disk \<Rightarrow> cache_state
   \<Rightarrow> ((broker_error + topic) \<times> cache_state) option" where
  "open_topic libs io directory_name max_segment_bytes max_ack_gap level file disk s =
     (case and_then (io_result (load_topic_manifest libs file)) (\<lambda>m.
             and_then (ok_or m (InvalidRecord ''topic manifest is missing'')) (\<lambda>m.
             and_then (check_manifest libs directory_name m) (\<lambda>_. Inr m))) of
        Inl e \<Rightarrow> Some (Inl e, s)
      | Inr manifest \<Rightarrow>
          (case open_log (ti_open io) (lib_crc32c libs) (lib_crc32c_append libs) disk max_segment_bytes 1 level of
             None \<Rightarrow> None
           | Some (Inl e) \<Rightarrow> Some (Inl (StorageErr e), s)
           | Some (Inr log) \<Rightarrow>
               (case segment_paths (sl_disk log) of
                  Inl e \<Rightarrow> Some (Inl (StorageErr (StIo e)), s)
                | Inr paths \<Rightarrow>
                    (case index_segments libs (ti_sidecar io) paths log new_index s of
                       (Inl e, s) \<Rightarrow> Some (Inl e, s)
                     | (Inr (log, messages), s) \<Rightarrow>
                         let last_written = index_last_position messages;
                             recovered_next = (case last_written of None \<Rightarrow> 1 | Some p \<Rightarrow> sat_add p 1);
                             deliverable_position = (case last_written of None \<Rightarrow> 0 | Some p \<Rightarrow> p);
                             behind = tm_next_position manifest < recovered_next;
                             manifest = (if behind then manifest\<lparr>tm_next_position := recovered_next\<rparr> else manifest)
                         in (case (if behind then store_atomic libs (ti_manifest io 0) manifest file else (Inr (), file)) of
                               (Inl e, _) \<Rightarrow> Some (Inl (BrIo e), s)
                             | (Inr _, file) \<Rightarrow>
                                 Some (Inr \<lparr>tp_name = tm_name manifest, tp_manifest_file = file, tp_manifest = manifest,
                                   tp_log = log, tp_messages = messages, tp_position_gaps = [],
                                   tp_deliverable_position = deliverable_position,
                                   tp_durable_position = deliverable_position, tp_unsynced_messages = 0,
                                   tp_unsynced_bytes = 0, tp_unsynced_since = None, tp_channels = fmempty,
                                   tp_max_ack_gap = max_ack_gap, tp_durable_channel_counters = (level \<ge> 2),
                                   tp_published_count = sat_sub (tm_next_position manifest) 1\<rparr>, s))))))"

text \<open>
  The time a requeued message was published for, during recovery. The source keeps the last
  page it has read; the sidecars do not change meanwhile, so reading it again is the same. The
  page is sorted by position and searched for it.
\<close>

definition recovered_available ::
  "libraries \<Rightarrow> topic \<Rightarrow> cache_state \<Rightarrow> u64 \<Rightarrow> broker_error + i64 option" where
  "recovered_available libs t s position =
     (case lookup position (tp_messages t) s of
        Found m \<Rightarrow> Inr (Some (mm_available_at_ms m))
      | lookup_result.Absent \<Rightarrow> Inr None
      | Load request \<Rightarrow>
          and_then (read_page (lib_crc32c libs) (sl_disk (tp_log t)) (pq_metadata request) (pq_first_ordinal request)
                      (pq_count request)) (\<lambda>page.
          and_then (ok_or (List.find (\<lambda>m. mm_position m = position) page)
                      (InvalidRecord ''recovered channel metadata position is missing'')) (\<lambda>m.
          Inr (Some (mm_available_at_ms m)))))"

text \<open>
  The files of the Channels: the checkpoint and the command log by stem. They are read in the
  order of their names.
\<close>

type_synonym channel_files = "(string, byte list \<times> disk_file) fmap"

definition recover_channel ::
  "libraries \<Rightarrow> (string \<Rightarrow> channel_io) \<Rightarrow> cache_state \<Rightarrow> string \<times> byte list \<times> disk_file \<Rightarrow> u64 \<times> topic
   \<Rightarrow> (broker_error + u64 \<times> topic) option" where
  "recover_channel libs io s entry acc =
     (case (entry, acc) of
        ((stem, ck, wal), (channel_next, t)) \<Rightarrow>
          (case open_store (lib_crc32c libs) (lib_channel_from_json libs) (lib_hex_encode libs) (ci_open (io stem)) stem (Some ck) wal
                  (tp_max_ack_gap t) of
             None \<Rightarrow> None
           | Some (Inl e, _) \<Rightarrow> Some (Inl e)
           | Some (Inr (state, store), _) \<Rightarrow>
               if ch_ephemeral state
               then Some (and_then (fst (remove_store (ci_calls (io stem)) store)) (\<lambda>_. Inr (channel_next, t)))
               else
                 let recorded_last = recovered_position_high_watermark state
                 in Some (and_then (ok_or (checked_add recorded_last 1)
                           (InvalidRecord ''channel position range is exhausted'')) (\<lambda>next.
                      let state = set_absent_ranges (position_gaps (max recorded_last (last_position t)) (tp_messages t)) state
                      in (case compact_recovered_dpubs (recovered_available libs t s) state of
                            (Inl e, _) \<Rightarrow> Inl e
                          | (Inr _, state) \<Rightarrow>
                              if ch_name state |\<in>| fmdom (tp_channels t)
                              then Inl (InvalidRecord (''duplicate stored channel identity '' @ ch_name state))
                              else Inr (max channel_next next,
                                        t\<lparr>tp_channels := fmupd (ch_name state)
                                            \<lparr>cr_state = state, cr_store = Some store,
                                             cr_durable_counters = tp_durable_channel_counters t\<rparr> (tp_channels t)\<rparr>))))))"

fun recover_each_channel ::
  "libraries \<Rightarrow> (string \<Rightarrow> channel_io) \<Rightarrow> cache_state \<Rightarrow> (string \<times> byte list \<times> disk_file) list \<Rightarrow> u64 \<times> topic
   \<Rightarrow> (broker_error + u64 \<times> topic) option" where
  "recover_each_channel libs io s [] acc = Some (Inr acc)"
| "recover_each_channel libs io s (entry # rest) acc =
     (case recover_channel libs io s entry acc of
        Some (Inr acc) \<Rightarrow> recover_each_channel libs io s rest acc
      | r \<Rightarrow> r)"

definition stored_channels :: "channel_files \<Rightarrow> (string \<times> byte list \<times> disk_file) list" where
  "stored_channels files = map (\<lambda>stem. (stem, the (fmlookup files stem))) (sorted_list_of_fset (fmdom files))"

definition fence_channels :: "topic \<Rightarrow> topic" where
  "fence_channels t =
     (let gaps = position_gaps (last_position t) (tp_messages t)
      in t\<lparr>tp_position_gaps := gaps,
           tp_channels := fmmap (\<lambda>runtime. runtime\<lparr>cr_state := set_absent_ranges gaps (cr_state runtime)\<rparr>) (tp_channels t)\<rparr>)"

definition recover_channels ::
  "libraries \<Rightarrow> topic_io \<Rightarrow> channel_files \<Rightarrow> topic \<Rightarrow> cache_state \<Rightarrow> ((broker_error + topic) \<times> cache_state) option" where
  "recover_channels libs io files t s =
     (case (case io_call (ti_list io) of
              Inl e \<Rightarrow> Some (Inl e)
            | Inr _ \<Rightarrow> recover_each_channel libs (ti_channel io) s (stored_channels files) (1, t)) of
        None \<Rightarrow> None
      | Some (Inl e) \<Rightarrow> Some (Inl e, s)
      | Some (Inr (channel_next, t)) \<Rightarrow>
          let recovered_next = (case index_last_position (tp_messages t) of None \<Rightarrow> 1 | Some p \<Rightarrow> sat_add p 1);
              behind = tm_next_position (tp_manifest t) < channel_next;
              t = (if behind then t\<lparr>tp_manifest := (tp_manifest t)\<lparr>tm_next_position := channel_next\<rparr>\<rparr> else t)
          in (case (if behind then put_manifest libs (ti_manifest io 1) (tp_manifest t) t else (Inr (), t)) of
                (Inl e, _) \<Rightarrow> Some (Inl e, s)
              | (Inr _, t) \<Rightarrow>
                  let t = fence_channels (if behind then t\<lparr>tp_published_count := last_position t\<rparr> else t)
                  in if tm_next_position (tp_manifest t) > recovered_next \<and> mi_active (tp_messages t) \<noteq> []
                     then (case spill_message_metadata libs io t s of
                             (Inl e, _, s) \<Rightarrow> Some (Inl e, s) | (Inr _, t, s) \<Rightarrow> Some (Inr t, s))
                     else Some (Inr t, s)))"

record topic_handle =
  th_state :: topic
  th_wake :: u64
  th_policy_changes :: topic_policy
  th_reliable_policy_epoch :: u64

text \<open>\<open>TopicHandle::open\<close>; \<open>order\<close> is the order of the Channels in the map.\<close>

definition open_handle ::
  "libraries \<Rightarrow> topic_io \<Rightarrow> (topic \<Rightarrow> string list) \<Rightarrow> string \<Rightarrow> nat \<Rightarrow> u64 \<Rightarrow> u32 \<Rightarrow> byte list option \<Rightarrow> segment_disk
   \<Rightarrow> channel_files \<Rightarrow> cache_state \<Rightarrow> ((broker_error + topic_handle) \<times> cache_state) option" where
  "open_handle libs io order directory_name max_segment_bytes max_ack_gap level file disk files s =
     (case open_topic libs io directory_name max_segment_bytes max_ack_gap level file disk s of
        None \<Rightarrow> None
      | Some (Inl e, s) \<Rightarrow> Some (Inl e, s)
      | Some (Inr t, s) \<Rightarrow>
          (case recover_channels libs io files t s of
             None \<Rightarrow> None
           | Some (Inl e, s) \<Rightarrow> Some (Inl e, s)
           | Some (Inr t, s) \<Rightarrow>
               if fcard (fmdom (tp_channels t)) > max_channels_per_topic
               then Some (Inl (InvalidRecord (''topic channel count '' @ decimal (fcard (fmdom (tp_channels t)))
                      @ '' exceeds configured maximum '' @ decimal max_channels_per_topic)), s)
               else (case and_pass (reconcile_expired_boundary libs (ti_channel io) (order t) t)
                            (\<lambda>_ t. reconcile_unrouted_boundary libs (ti_manifest io 2) t) of
                       (Inl e, _) \<Rightarrow> Some (Inl e, s)
                     | (Inr _, t) \<Rightarrow>
                         Some (Inr \<lparr>th_state = t, th_wake = 0, th_policy_changes = policy_of t,
                                    th_reliable_policy_epoch = 0\<rparr>, s))))"

definition signal :: "topic_handle \<Rightarrow> topic_handle" where
  "signal h = h\<lparr>th_wake := th_wake h + 1\<rparr>"

definition handle_set_policy ::
  "libraries \<Rightarrow> replace_fault \<Rightarrow> topic_policy \<Rightarrow> topic_handle \<Rightarrow> (broker_error + bool) \<times> topic_handle" where
  "handle_set_policy libs fault policy h =
     (case set_policy libs fault policy (th_state h) of
        (Inl e, t) \<Rightarrow> (Inl e, h\<lparr>th_state := t\<rparr>)
      | (Inr changed, t) \<Rightarrow>
          let h = h\<lparr>th_state := t\<rparr>
          in (Inr changed,
              if changed
              then signal (h\<lparr>th_reliable_policy_epoch :=
                       (if po_delivery_mode policy = Reliable then th_reliable_policy_epoch h + 1
                        else th_reliable_policy_epoch h),
                     th_policy_changes := policy\<rparr>)
              else h))"

end
