(* ===== verification/Topic_Delivery.thy ===== *)
theory Topic_Delivery
  imports Topic
begin

text \<open>
  Deliveries of a Topic: \<open>crates/queue/src/topic/delivery.rs\<close>. A consumer reserves a batch of
  messages of a Channel, then finishes, requeues, touches or releases each of them.
\<close>

section \<open>Reserving a batch\<close>

record reserved_delivery =
  rd_position :: u64
  rd_id :: u64
  rd_timestamp_ns :: i64
  rd_attempts :: u16
  rd_token :: u64
  rd_lease :: lease
  rd_payload :: payload_ref

datatype reserve_batch = BatchReady "reserved_delivery list" | BatchLoad "reserved_delivery list" page_request

text \<open>
  What the loop reads from outside in its \<open>k\<close>-th round: the two clocks, the outcome of the
  budget's \<open>try_reserve_message\<close>, and the index cache, which other threads use meanwhile: as the
  scan for a candidate finds it and as the lookup of the candidate finds it.
\<close>

record delivery_env =
  de_now_ms :: "nat \<Rightarrow> i64"
  de_now :: "nat \<Rightarrow> instant"
  de_lease :: "nat \<Rightarrow> lease option"
  de_scan_cache :: "nat \<Rightarrow> cache_state"
  de_cache :: "nat \<Rightarrow> cache_state"

text \<open>The variables of the loop; the token counter is shared by all Channels of the process.\<close>

record reserve_state =
  rv_reserved :: "reserved_delivery list"
  rv_bytes :: nat
  rv_next_token :: u64
  rv_channel :: channel_state

definition availability :: "message_index \<Rightarrow> cache_state \<Rightarrow> u64 \<Rightarrow> message_availability" where
  "availability idx s position =
     (case lookup position idx s of
        Found m \<Rightarrow> Ready (mm_available_at_ms m)
      | Load _ \<Rightarrow> Missing
      | lookup_result.Absent \<Rightarrow> message_availability.Absent)"

definition reserve_step ::
  "delivery_env \<Rightarrow> message_index \<Rightarrow> u64 \<Rightarrow> nat \<Rightarrow> int \<Rightarrow> nat \<Rightarrow> reserve_state
   \<Rightarrow> (reserve_batch \<times> reserve_state + reserve_state) option" where
  "reserve_step env idx last_p max_bytes timeout k v =
     (case next_candidate (de_now_ms env k) last_p (availability idx (de_scan_cache env k)) (rv_channel v) of
        None \<Rightarrow> None
      | Some (CandNone, channel) \<Rightarrow> Some (Inl (BatchReady (rv_reserved v), v\<lparr>rv_channel := channel\<rparr>))
      | Some (CandLoad position, channel) \<Rightarrow>
          (case lookup position idx (de_cache env k) of
             Load request \<Rightarrow> Some (Inl (BatchLoad (rv_reserved v) request, v\<lparr>rv_channel := channel\<rparr>))
           | _ \<Rightarrow> Some (Inr (v\<lparr>rv_channel := channel\<rparr>)))
      | Some (CandReady position, channel) \<Rightarrow>
          (case lookup position idx (de_cache env k) of
             Found m \<Rightarrow>
               let next_bytes = unat (pr_len (mm_payload m));
                   deferred = Some (Inl (BatchReady (rv_reserved v), v\<lparr>rv_channel := defer_candidate position channel\<rparr>))
               in if rv_reserved v \<noteq> [] \<and> usat_add (rv_bytes v) next_bytes > max_bytes then deferred
                  else (case de_lease env k of
                          None \<Rightarrow> deferred
                        | Some lease \<Rightarrow>
                            (case reserve_timestamped (rv_next_token v) (de_now env k) position (mm_id m) (mm_timestamp_ns m)
                                    timeout (Some lease) channel of
                               ((token, attempts), next_token, channel) \<Rightarrow>
                                 Some (Inr \<lparr>rv_reserved = rv_reserved v @
                                   [\<lparr>rd_position = position, rd_id = mm_id m, rd_timestamp_ns = mm_timestamp_ns m,
                                     rd_attempts = attempts, rd_token = token, rd_lease = lease,
                                     rd_payload = mm_payload m\<rparr>],
                                   rv_bytes = usat_add (rv_bytes v) next_bytes, rv_next_token = next_token,
                                   rv_channel = channel\<rparr>)))
           | _ \<Rightarrow> Some (Inr (v\<lparr>rv_channel := channel\<rparr>))))"

text \<open>The loop with \<open>n\<close> rounds to go, in round \<open>k\<close>.\<close>

fun reserve_loop ::
  "delivery_env \<Rightarrow> message_index \<Rightarrow> u64 \<Rightarrow> nat \<Rightarrow> int \<Rightarrow> nat \<Rightarrow> nat \<Rightarrow> reserve_state \<Rightarrow> (reserve_batch \<times> reserve_state) option" where
  "reserve_loop env idx last_p max_bytes timeout 0 k v = Some (BatchReady (rv_reserved v), v)"
| "reserve_loop env idx last_p max_bytes timeout (Suc n) k v =
     (case reserve_step env idx last_p max_bytes timeout k v of
        None \<Rightarrow> None
      | Some (Inl r) \<Rightarrow> Some r
      | Some (Inr v) \<Rightarrow> reserve_loop env idx last_p max_bytes timeout n (Suc k) v)"

definition put_state :: "string \<Rightarrow> channel_runtime \<Rightarrow> channel_state \<Rightarrow> topic \<Rightarrow> topic" where
  "put_state name runtime state t = t\<lparr>tp_channels := fmupd name (runtime\<lparr>cr_state := state\<rparr>) (tp_channels t)\<rparr>"

definition reserve_batch ::
  "delivery_env \<Rightarrow> string \<Rightarrow> nat \<Rightarrow> nat \<Rightarrow> int \<Rightarrow> u64 \<Rightarrow> topic \<Rightarrow> ((broker_error + reserve_batch) \<times> u64 \<times> topic) option" where
  "reserve_batch env name max_count max_bytes timeout next_token t =
     (if tm_deleted (tp_manifest t) then Some (Inl TopicNotFound, next_token, t)
      else if tm_paused (tp_manifest t) then Some (Inr (BatchReady []), next_token, t)
      else (case fmlookup (tp_channels t) name of
              None \<Rightarrow> Some (Inl ChannelNotFound, next_token, t)
            | Some runtime \<Rightarrow>
                (case reserve_loop env (tp_messages t) (tp_deliverable_position t) max_bytes timeout max_count 0
                        \<lparr>rv_reserved = [], rv_bytes = 0, rv_next_token = next_token, rv_channel = cr_state runtime\<rparr> of
                   None \<Rightarrow> None
                 | Some (batch, v) \<Rightarrow>
                     Some (Inr batch, rv_next_token v, put_state name runtime (rv_channel v) t))))"

definition cancel_reserved :: "string \<Rightarrow> reserved_delivery list \<Rightarrow> topic \<Rightarrow> topic" where
  "cancel_reserved name reservations t =
     (case fmlookup (tp_channels t) name of
        None \<Rightarrow> t
      | Some runtime \<Rightarrow>
          put_state name runtime
            (fold (\<lambda>reservation. cancel (rd_position reservation) (rd_token reservation)) reservations (cr_state runtime)) t)"

section \<open>Settling deliveries\<close>

definition delivery_expired :: "i64 \<Rightarrow> topic \<Rightarrow> channel_state \<Rightarrow> u64 \<Rightarrow> u64 option \<Rightarrow> bool" where
  "delivery_expired now_ns t state msg_id token \<longleftrightarrow>
     (case in_flight_timestamp state msg_id token of
        None \<Rightarrow> False
      | Some timestamp \<Rightarrow>
          (case expiration_ns_for_timestamp t timestamp of None \<Rightarrow> False | Some expires_at \<Rightarrow> expires_at \<le> now_ns))"

definition delivery_position :: "channel_state \<Rightarrow> u64 \<Rightarrow> u64 option \<Rightarrow> u64 option" where
  "delivery_position state msg_id token =
     (case token of
        Some token \<Rightarrow> in_flight_position_with_token state msg_id token
      | None \<Rightarrow> in_flight_position state msg_id)"

definition finish_command ::
  "libraries \<Rightarrow> i64 \<Rightarrow> string \<Rightarrow> u64 \<Rightarrow> bool \<Rightarrow> u64 option \<Rightarrow> topic \<Rightarrow> cache_state
   \<Rightarrow> (broker_error + channel_command) \<times> cache_state" where
  "finish_command libs now_ns name msg_id require_in_flight token t s =
     (if require_in_flight then
        (and_then (ok_or (fmlookup (tp_channels t) name) ChannelNotFound) (\<lambda>runtime.
           if delivery_expired now_ns t (cr_state runtime) msg_id token then Inl MessageNotInFlight
           else and_then (ok_or (delivery_position (cr_state runtime) msg_id token) MessageNotInFlight) (\<lambda>position.
             Inr (Finish position msg_id))), s)
      else
        (case position_by_id (lib_crc32c libs) (sl_disk (tp_log t)) msg_id (tp_messages t) s of
           (Inl e, s) \<Rightarrow> (Inl e, s)
         | (Inr None, s) \<Rightarrow> (Inl MessageNotFound, s)
         | (Inr (Some position), s) \<Rightarrow> (Inr (Finish position msg_id), s)))"

definition finish ::
  "libraries \<Rightarrow> channel_io \<Rightarrow> i64 \<Rightarrow> string \<Rightarrow> u64 \<Rightarrow> bool \<Rightarrow> topic \<Rightarrow> cache_state \<Rightarrow> (broker_error + unit) \<times> topic \<times> cache_state" where
  "finish libs io now_ns name msg_id require_in_flight t s =
     (case finish_command libs now_ns name msg_id require_in_flight None t s of
        (Inl e, s) \<Rightarrow> (Inl e, t, s)
      | (Inr command, s) \<Rightarrow> (case persist_channel libs io name command t of (r, t) \<Rightarrow> (r, t, s)))"

definition finish_buffered ::
  "libraries \<Rightarrow> i64 \<Rightarrow> string \<Rightarrow> u64 \<Rightarrow> bool \<Rightarrow> u64 option \<Rightarrow> topic \<Rightarrow> cache_state \<Rightarrow> (broker_error + unit) \<times> topic \<times> cache_state" where
  "finish_buffered libs now_ns name msg_id require_in_flight token t s =
     (case finish_command libs now_ns name msg_id require_in_flight token t s of
        (Inl e, s) \<Rightarrow> (Inl e, t, s)
      | (Inr command, s) \<Rightarrow> (case persist_channel_buffered libs name command t of (r, t) \<Rightarrow> (r, t, s)))"

definition requeue_command :: "i64 \<Rightarrow> string \<Rightarrow> u64 \<Rightarrow> i64 \<Rightarrow> u64 option \<Rightarrow> topic \<Rightarrow> broker_error + channel_command" where
  "requeue_command now_ns name msg_id available_at_ms token t =
     and_then (ok_or (fmlookup (tp_channels t) name) ChannelNotFound) (\<lambda>runtime.
       let state = cr_state runtime
       in if delivery_expired now_ns t state msg_id token then Inl MessageNotInFlight
          else and_then (ok_or (delivery_position state msg_id token) MessageNotInFlight) (\<lambda>position.
            Inr (Requeue position msg_id available_at_ms (delivery_attempts state position)
                   (if cr_durable_counters runtime then Some (next_requeue_count state) else None))))"

definition requeue_buffered ::
  "libraries \<Rightarrow> i64 \<Rightarrow> string \<Rightarrow> u64 \<Rightarrow> i64 \<Rightarrow> u64 option \<Rightarrow> topic \<Rightarrow> (broker_error + unit) \<times> topic" where
  "requeue_buffered libs now_ns name msg_id available_at_ms token t =
     (case requeue_command now_ns name msg_id available_at_ms token t of
        Inl e \<Rightarrow> (Inl e, t)
      | Inr command \<Rightarrow> persist_channel_buffered libs name command t)"

definition touch_with_token ::
  "i64 \<Rightarrow> instant \<Rightarrow> string \<Rightarrow> u64 \<Rightarrow> u64 option \<Rightarrow> int \<Rightarrow> topic \<Rightarrow> (broker_error + unit) \<times> topic" where
  "touch_with_token now_ns now name msg_id token timeout t =
     (case fmlookup (tp_channels t) name of
        None \<Rightarrow> (Inl ChannelNotFound, t)
      | Some runtime \<Rightarrow>
          if delivery_expired now_ns t (cr_state runtime) msg_id token then (Inl MessageNotInFlight, t)
          else (case delivery_position (cr_state runtime) msg_id token of
                  None \<Rightarrow> (Inl MessageNotInFlight, t)
                | Some position \<Rightarrow>
                    (case touch now position timeout (cr_state runtime) of
                       (touched, state) \<Rightarrow>
                         (if touched then Inr () else Inl MessageNotInFlight, put_state name runtime state t))))"

definition touch_delivery :: "i64 \<Rightarrow> instant \<Rightarrow> string \<Rightarrow> u64 \<Rightarrow> int \<Rightarrow> topic \<Rightarrow> (broker_error + unit) \<times> topic" where
  "touch_delivery now_ns now name msg_id timeout t = touch_with_token now_ns now name msg_id None timeout t"

fun collect_results :: "('e + 'a) list \<Rightarrow> 'e + 'a list" where
  "collect_results [] = Inr []"
| "collect_results (r # rs) = and_then r (\<lambda>x. and_then (collect_results rs) (\<lambda>xs. Inr (x # xs)))"

definition touch_deliveries_with_tokens ::
  "(nat \<Rightarrow> i64) \<Rightarrow> instant \<Rightarrow> string \<Rightarrow> (u64 \<times> u64) list \<Rightarrow> int \<Rightarrow> topic \<Rightarrow> (broker_error + unit) \<times> topic" where
  "touch_deliveries_with_tokens now_ns now name deliveries timeout t =
     (case fmlookup (tp_channels t) name of
        None \<Rightarrow> (Inl ChannelNotFound, t)
      | Some runtime \<Rightarrow>
          let state = cr_state runtime
          in if list_ex (\<lambda>(k, msg_id, token). delivery_expired (now_ns k) t state msg_id (Some token)) (enumerate 0 deliveries)
             then (Inl MessageNotInFlight, t)
             else (case collect_results (map (\<lambda>(msg_id, token).
                          ok_or (in_flight_position_with_token state msg_id token) MessageNotInFlight) deliveries) of
                     Inl e \<Rightarrow> (Inl e, t)
                   | Inr positions \<Rightarrow>
                       (Inr (), put_state name runtime
                          (fold (\<lambda>position state. snd (touch_until position (now + timeout) state)) positions state) t)))"

definition release_ids :: "string \<Rightarrow> u64 list \<Rightarrow> topic \<Rightarrow> topic" where
  "release_ids name ids t =
     (case fmlookup (tp_channels t) name of
        None \<Rightarrow> t
      | Some runtime \<Rightarrow>
          put_state name runtime
            (fold (\<lambda>msg_id state. case in_flight_position state msg_id of
                     None \<Rightarrow> state | Some position \<Rightarrow> release position state) ids (cr_state runtime)) t)"

definition release_with_tokens :: "string \<Rightarrow> (u64 \<times> u64) list \<Rightarrow> topic \<Rightarrow> topic" where
  "release_with_tokens name deliveries t =
     (case fmlookup (tp_channels t) name of
        None \<Rightarrow> t
      | Some runtime \<Rightarrow>
          put_state name runtime
            (fold (\<lambda>(msg_id, token) state. case in_flight_position_with_token state msg_id token of
                     None \<Rightarrow> state | Some position \<Rightarrow> release position state) deliveries (cr_state runtime)) t)"

definition topic_release_all :: "topic \<Rightarrow> nat \<times> topic" where
  "topic_release_all t =
     (sum_list (map (\<lambda>name. case fmlookup (tp_channels t) name of
          None \<Rightarrow> 0 | Some runtime \<Rightarrow> fst (release_all (cr_state runtime))) (channel_names t)),
      t\<lparr>tp_channels := fmmap (\<lambda>runtime. runtime\<lparr>cr_state := snd (release_all (cr_state runtime))\<rparr>) (tp_channels t)\<rparr>)"

definition message_is_unacknowledged ::
  "libraries \<Rightarrow> string \<Rightarrow> u64 \<Rightarrow> topic \<Rightarrow> cache_state \<Rightarrow> (broker_error + bool option) \<times> cache_state" where
  "message_is_unacknowledged libs name msg_id t s =
     (case position_by_id (lib_crc32c libs) (sl_disk (tp_log t)) msg_id (tp_messages t) s of
        (Inl e, s) \<Rightarrow> (Inl e, s)
      | (Inr None, s) \<Rightarrow> (Inr None, s)
      | (Inr (Some position), s) \<Rightarrow>
          (Inr (map_option (\<lambda>runtime. is_unacknowledged (cr_state runtime) position) (fmlookup (tp_channels t) name)), s))"

end
