(* ===== verification/Topic_Delivery_Props.thy ===== *)
theory Topic_Delivery_Props
  imports Topic_Delivery
begin

text \<open>
  What \<open>reserve_batch\<close> hands out, over a message index and a Channel in order: the index answers
  for its messages, the Channel is in a state its operations reach, and what it has in flight are
  messages of the index. The second property shows what the loop does when a page of the index
  is evicted between the two lookups of a round.
\<close>

section \<open>The answers of the index\<close>

definition answers :: "message_meta list \<Rightarrow> message_index \<Rightarrow> cache_state \<Rightarrow> bool" where
  "answers ms idx s \<longleftrightarrow> (\<forall>p. case lookup p idx s of
      Found m \<Rightarrow> m \<in> set ms \<and> mm_position m = p
    | lookup_result.Absent \<Rightarrow> p \<notin> mm_position ` set ms
    | Load request \<Rightarrow> p \<in> mm_position ` set ms)"

lemma stands_for_answers:
  assumes "stands_for crc32c disk parts idx s"
  shows "answers (index_messages parts idx) idx s"
  unfolding answers_def
proof
  fix p
  have ok: "index_ok crc32c disk parts idx" and cache: "cache_ok s" "coherent (zip (mi_sealed idx) parts) s"
    using assms by (simp_all add: stands_for_def)
  show "case lookup p idx s of
      Found m \<Rightarrow> m \<in> set (index_messages parts idx) \<and> mm_position m = p
    | lookup_result.Absent \<Rightarrow> p \<notin> mm_position ` set (index_messages parts idx)
    | Load request \<Rightarrow> p \<in> mm_position ` set (index_messages parts idx)"
  proof (cases "p \<in> mm_position ` set (index_messages parts idx)")
    case False
    then show ?thesis using lookup_absent [OF ok] by simp
  next
    case True
    then obtain m where m: "m \<in> set (index_messages parts idx)" "p = mm_position m" by blast
    show ?thesis
    proof (cases "lookup p idx s = Found m")
      case False
      then have sealed: "m \<in> set (concat parts)" using m lookup_active [OF ok, of m s] unfolding index_messages_def set_append by auto
      have "lookup (mm_position m) idx s \<noteq> Found m" using False m(2) by simp
      then obtain request s' where "lookup p idx s = Load request"
        unfolding m(2) by (rule lookup_present [OF ok cache sealed])
      then show ?thesis using True by simp
    qed (use m in simp)
  qed
qed

lemma answersD:
  assumes "answers ms idx s"
  shows "lookup p idx s = Found m \<Longrightarrow> m \<in> set ms \<and> mm_position m = p"
    and "lookup p idx s = Load request \<Longrightarrow> p \<in> mm_position ` set ms"
    and "lookup p idx s = lookup_result.Absent \<Longrightarrow> p \<notin> mm_position ` set ms"
  using assms [unfolded answers_def, rule_format, of p] by simp_all

lemma availability_cases:
  "availability idx s p = Ready a \<longleftrightarrow> (\<exists>m. lookup p idx s = Found m \<and> a = mm_available_at_ms m)"
  "availability idx s p = Missing \<longleftrightarrow> (\<exists>request. lookup p idx s = Load request)"
  "availability idx s p = message_availability.Absent \<longleftrightarrow> lookup p idx s = lookup_result.Absent"
  by (auto simp: availability_def split: lookup_result.splits)

definition due_at :: "message_meta list \<Rightarrow> (u64 \<Rightarrow> i64) \<Rightarrow> bool" where
  "due_at ms due \<longleftrightarrow> (\<forall>m \<in> set ms. due (mm_position m) = mm_available_at_ms m)"

lemma availability_agrees: "answers ms idx s \<Longrightarrow> due_at ms due \<Longrightarrow> agrees due (availability idx s)"
  by (auto simp: agrees_def availability_cases due_at_def dest!: answersD(1))

text \<open>What a Channel has in flight are messages of the Topic.\<close>

definition flights_ok :: "message_meta list \<Rightarrow> channel_state \<Rightarrow> bool" where
  "flights_ok ms s \<longleftrightarrow> (\<forall>p fl. fmlookup (ch_in_flight s) p = Some fl \<longrightarrow>
      (\<exists>m \<in> set ms. mm_position m = p \<and> mm_id m = fl_id fl))"

lemma fresh_id:
  assumes inv: "index_inv s" and fl: "flights_ok ms s" and ids: "inj_on mm_id (set ms)"
    and m: "m \<in> set ms" and free: "mm_position m |\<notin>| fmdom (ch_in_flight s)"
  shows "mm_id m |\<notin>| fmdom (ch_in_flight_ids s)"
proof
  assume "mm_id m |\<in>| fmdom (ch_in_flight_ids s)"
  then obtain q where "fmlookup (ch_in_flight_ids s) (mm_id m) = Some q" by (auto simp: fmlookup_dom_iff)
  then obtain fl' where q: "fmlookup (ch_in_flight s) q = Some fl'" "fl_id fl' = mm_id m"
    using index_invD(2) [OF inv] by blast
  then obtain m' where "m' \<in> set ms" "mm_position m' = q" "mm_id m' = mm_id m" using fl unfolding flights_ok_def by metis
  then have "m' = m" using ids m by (auto dest: inj_onD)
  then show False using q(1) \<open>mm_position m' = q\<close> free by (auto simp: fmdomI)
qed

section \<open>The loop\<close>

definition delivers :: "message_meta \<Rightarrow> channel_state \<Rightarrow> reserved_delivery \<Rightarrow> bool" where
  "delivers m s r \<longleftrightarrow>
     rd_position r = mm_position m \<and> rd_id r = mm_id m \<and> rd_timestamp_ns r = mm_timestamp_ns m \<and> rd_payload r = mm_payload m
     \<and> (\<exists>fl. fmlookup (ch_in_flight s) (rd_position r) = Some fl \<and> fl_id fl = rd_id r \<and> fl_token fl = rd_token r
           \<and> fl_timestamp_ns fl = rd_timestamp_ns r \<and> fl_lease fl = Some (rd_lease r))"

definition payload_bytes :: "reserved_delivery list \<Rightarrow> nat" where
  "payload_bytes rs = sum_list (map (\<lambda>r. unat (pr_len (rd_payload r))) rs)"

text \<open>
  What the loop keeps, started in \<open>s\<close> with the token \<open>token\<close>: \<open>rs\<close> has been reserved, everything
  else in flight is as it was, and no message has been settled.
\<close>

definition reserved_ok :: "message_meta list \<Rightarrow> (nat \<Rightarrow> i64) \<Rightarrow> nat \<Rightarrow> channel_state \<Rightarrow> channel_state \<Rightarrow> reserved_delivery \<Rightarrow> bool" where
  "reserved_ok ms clock n s t r \<longleftrightarrow>
     (\<exists>m \<in> set ms. delivers m t r \<and> pending s (mm_position m) \<and> mm_position m |\<notin>| fmdom (ch_in_flight s)
        \<and> (\<exists>k < n. mm_available_at_ms m \<le> clock k))"

definition reserving ::
  "message_meta list \<Rightarrow> (u64 \<Rightarrow> i64) \<Rightarrow> (nat \<Rightarrow> i64) \<Rightarrow> nat \<Rightarrow> channel_state \<Rightarrow> u64 \<Rightarrow> reserved_delivery list \<Rightarrow> channel_state \<Rightarrow> bool" where
  "reserving ms due clock n s token rs t \<longleftrightarrow>
     chan_reach due t \<and> flights_ok ms t
     \<and> (\<forall>r \<in> set rs. reserved_ok ms clock n s t r)
     \<and> distinct (map rd_position rs)
     \<and> map rd_token rs = map (\<lambda>i. token + word_of_nat i) [0..<length rs]
     \<and> (\<forall>p. p \<notin> rd_position ` set rs \<longrightarrow> fmlookup (ch_in_flight t) p = fmlookup (ch_in_flight s) p)
     \<and> (\<forall>m \<in> set ms. pending t (mm_position m) = pending s (mm_position m))
     \<and> length rs \<le> n"

lemma reserving_start: "chan_reach due s \<Longrightarrow> flights_ok ms s \<Longrightarrow> reserving ms due clock n s token [] s"
  by (simp add: reserving_def)

lemma reserving_reach: "reserving ms due clock n s token rs t \<Longrightarrow> chan_reach due t"
  by (simp add: reserving_def)

text \<open>A scan that hands out nothing, or whose candidate is put back, changes nothing of this.\<close>

lemma reserved_ok_step:
  assumes "reserved_ok ms clock n s t r" and "fmlookup (ch_in_flight u) (rd_position r) = fmlookup (ch_in_flight t) (rd_position r)"
  shows "reserved_ok ms clock (Suc n) s u r"
proof -
  obtain m k where "m \<in> set ms" "delivers m t r" "pending s (mm_position m)" "mm_position m |\<notin>| fmdom (ch_in_flight s)"
      "k < n" "mm_available_at_ms m \<le> clock k"
    using assms(1) unfolding reserved_ok_def by blast
  moreover from this(2) have "delivers m u r" unfolding delivers_def assms(2) .
  ultimately show ?thesis unfolding reserved_ok_def by (meson less_SucI)
qed

lemma reserving_idle:
  assumes "reserving ms due clock n s token rs t" and "chan_reach due u"
    and rel: "ch_in_flight u = ch_in_flight t" "\<And>m. m \<in> set ms \<Longrightarrow> pending u (mm_position m) = pending t (mm_position m)"
  shows "reserving ms due clock (Suc n) s token rs u"
  using assms reserved_ok_step [of ms clock n s t _ u] unfolding reserving_def flights_ok_def by simp

lemma scan_pending:
  assumes "scan_rel (availability idx c) t u" and "answers ms idx c" and "m \<in> set ms"
  shows "pending u (mm_position m) = pending t (mm_position m)"
proof -
  have "availability idx c (mm_position m) \<noteq> message_availability.Absent"
    using answersD(3) [OF assms(2)] assms(3) by (auto simp: availability_cases)
  then show ?thesis using scan_relD(7,8) [OF assms(1)] by blast
qed

lemma reserving_take:
  assumes inv: "reserving ms due clock n s token rs t"
    and rel: "ch_in_flight u = ch_in_flight t" "\<And>m. m \<in> set ms \<Longrightarrow> pending u (mm_position m) = pending t (mm_position m)"
    and m: "m \<in> set ms" "pending u (mm_position m)" "mm_position m |\<notin>| fmdom (ch_in_flight u)" "mm_available_at_ms m \<le> clock n"
    and v: "reserve_timestamped (token + word_of_nat (length rs)) now (mm_position m) (mm_id m) (mm_timestamp_ns m) timeout
              (Some lease) u = ((k, attempts), token', v)" and reach: "chan_reach due v"
  shows "reserving ms due clock (Suc n) s token (rs @
           [\<lparr>rd_position = mm_position m, rd_id = mm_id m, rd_timestamp_ns = mm_timestamp_ns m, rd_attempts = attempts,
             rd_token = k, rd_lease = lease, rd_payload = mm_payload m\<rparr>]) v
         \<and> token' = token + word_of_nat (Suc (length rs))"
proof -
  let ?p = "mm_position m"
  have k: "k = token + word_of_nat (length rs)" "token' = token + word_of_nat (Suc (length rs))"
    using v by (auto simp: reserve_timestamped_def Let_def)
  obtain fl where tab: "ch_in_flight v = fmupd ?p fl (ch_in_flight t)" and fl: "fl_id fl = mm_id m" "fl_token fl = k"
      "fl_timestamp_ns fl = mm_timestamp_ns m" "fl_lease fl = Some lease"
    using v rel(1) by (auto simp: reserve_timestamped_def Let_def)
  have pv: "pending v = pending u" by (rule pending_cong) (use v in \<open>auto simp: reserve_timestamped_def Let_def\<close>)
  have free: "fmlookup (ch_in_flight t) ?p = None" using m(3) rel(1) by (simp add: fmdom_notD)
  have notin: "?p \<notin> rd_position ` set rs"
    using inv free by (auto simp: reserving_def reserved_ok_def delivers_def)
  have free0: "?p |\<notin>| fmdom (ch_in_flight s)"
    using inv notin free by (auto simp: reserving_def fmdom_notI)
  have "pending s ?p" using inv m(1,2) rel(2) by (simp add: reserving_def)
  then have new: "reserved_ok ms clock (Suc n) s v
      \<lparr>rd_position = ?p, rd_id = mm_id m, rd_timestamp_ns = mm_timestamp_ns m, rd_attempts = attempts, rd_token = k, rd_lease = lease,
       rd_payload = mm_payload m\<rparr>"
    unfolding reserved_ok_def delivers_def using m(1,4) free0 tab fl by auto
  have old: "reserved_ok ms clock (Suc n) s v r" if "r \<in> set rs" for r
    using that inv notin tab by (intro reserved_ok_step [of _ _ _ _ t]) (auto simp: reserving_def)
  have "flights_ok ms v" using inv m(1) tab fl(1) by (auto simp: reserving_def flights_ok_def)
  then show ?thesis
    using inv new old reach notin tab pv rel(2) k by (auto simp: reserving_def)
qed

definition reserve_inv ::
  "message_meta list \<Rightarrow> (u64 \<Rightarrow> i64) \<Rightarrow> delivery_env \<Rightarrow> nat \<Rightarrow> channel_state \<Rightarrow> u64 \<Rightarrow> nat \<Rightarrow> reserve_state \<Rightarrow> bool" where
  "reserve_inv ms due env max_bytes s token k v \<longleftrightarrow>
     reserving ms due (de_now_ms env) k s token (rv_reserved v) (rv_channel v)
     \<and> rv_next_token v = token + word_of_nat (length (rv_reserved v))
     \<and> rv_bytes v = min (payload_bytes (rv_reserved v)) usize_max
     \<and> (length (rv_reserved v) \<le> 1 \<or> payload_bytes (rv_reserved v) \<le> max_bytes)"

definition batch_of ::
  "message_index \<Rightarrow> delivery_env \<Rightarrow> reserve_batch \<Rightarrow> reserve_state \<Rightarrow> bool" where
  "batch_of idx env b v \<longleftrightarrow>
     b = BatchReady (rv_reserved v)
     \<or> (\<exists>request p k. b = BatchLoad (rv_reserved v) request \<and> pending (rv_channel v) p \<and> lookup p idx (de_cache env k) = Load request)"

lemma reserve_inv_channel:
  assumes "reserve_inv ms due env max_bytes s token k v"
    and "reserving ms due (de_now_ms env) (Suc k) s token (rv_reserved v) t"
  shows "reserve_inv ms due env max_bytes s token (Suc k) (v\<lparr>rv_channel := t\<rparr>)"
  using assms by (simp add: reserve_inv_def)

lemma payload_bytes_snoc [simp]: "payload_bytes (rs @ [r]) = payload_bytes rs + unat (pr_len (rd_payload r))"
  by (simp add: payload_bytes_def)

lemma reserve_inv_mono:
  assumes "reserve_inv ms due env max_bytes s token k v" and "k \<le> n"
  shows "reserve_inv ms due env max_bytes s token n v"
  using assms(2)
proof (induction rule: dec_induct)
  case (step n)
  then have "reserving ms due (de_now_ms env) n s token (rv_reserved v) (rv_channel v)" by (simp add: reserve_inv_def)
  from reserving_idle [OF this reserving_reach [OF this]] show ?case
    using reserve_inv_channel [OF step.IH, of "rv_channel v"] by simp
qed (rule assms(1))

lemma reserve_step_ok:
  assumes inv: "reserve_inv ms due env max_bytes s token k v"
    and ans: "answers ms idx (de_scan_cache env k)" and still: "de_cache env k = de_scan_cache env k"
    and due: "due_at ms due" and ids: "inj_on mm_id (set ms)" and last: "last_p \<noteq> u64_max" and max: "max_bytes < usize_max"
  shows "\<exists>r. reserve_step env idx last_p max_bytes timeout k v = Some r
    \<and> (case r of Inl (b, v') \<Rightarrow> reserve_inv ms due env max_bytes s token (Suc k) v' \<and> batch_of idx env b v'
        | Inr v' \<Rightarrow> reserve_inv ms due env max_bytes s token (Suc k) v')"
proof -
  let ?t = "rv_channel v" and ?f = "availability idx (de_scan_cache env k)"
  have res: "reserving ms due (de_now_ms env) k s token (rv_reserved v) ?t" using inv by (simp add: reserve_inv_def)
  note reach = reserving_reach [OF res] and ag = availability_agrees [OF ans due]
  obtain c u where nc: "next_candidate (de_now_ms env k) last_p ?f ?t = Some (c, u)"
      "handed_out due {} (de_now_ms env k) ?f (c, u)" "scan_rel ?f ?t u"
    using next_candidate_returns [OF chan_reach_inv [OF reach] ag last, of "de_now_ms env k"] by (metis prod.collapse snd_conv)
  note tab = scan_relD(1) [OF nc(3)] and pend = scan_pending [OF nc(3) ans]
  show ?thesis
  proof (cases c)
    case CandNone
    then have "chan_reach due u" using chan_reach.idle [OF reach ag last] nc(1) by simp
    from reserve_inv_channel [OF inv reserving_idle [OF res this tab pend]]
    show ?thesis using nc(1) CandNone by (simp add: reserve_step_def batch_of_def)
  next
    case (CandLoad p)
    then have "chan_reach due u" using chan_reach.look [OF reach ag last] nc(1) by simp
    note inv' = reserve_inv_channel [OF inv reserving_idle [OF res this tab pend]]
    obtain request where "lookup p idx (de_cache env k) = Load request" "pending u p"
      using nc(2) CandLoad still by (auto simp: handed_out_def availability_cases)
    then show ?thesis using inv' nc(1) CandLoad by (auto simp: reserve_step_def batch_of_def)
  next
    case (CandReady p)
    obtain m where m: "lookup p idx (de_cache env k) = Found m" "mm_available_at_ms m \<le> de_now_ms env k" "pending u p" "\<not> held u p"
      using nc(2) CandReady still by (auto simp: handed_out_def availability_cases)
    have mm: "m \<in> set ms" "mm_position m = p" using answersD(1) [OF ans, of p m] m(1) still by simp_all
    have put: "chan_reach due (defer_candidate p u)" using chan_reach.put_back [OF reach ag last] nc(1) CandReady by simp
    have "ch_in_flight (defer_candidate p u) = ch_in_flight ?t" using tab by (simp add: defer_candidate_def)
    moreover have "pending (defer_candidate p u) = pending u" by (rule pending_cong) (simp_all add: defer_candidate_def)
    ultimately have inv': "reserve_inv ms due env max_bytes s token (Suc k) (v\<lparr>rv_channel := defer_candidate p u\<rparr>)"
      using reserve_inv_channel [OF inv reserving_idle [OF res put]] pend by simp
    have free: "p |\<notin>| fmdom (ch_in_flight u)" using m(4) by (simp add: held_def)
    have "flights_ok ms u" using res tab by (simp add: reserving_def flights_ok_def)
    moreover have "index_inv u" using nc(2) CandReady by (simp add: handed_out_def chan_inv_def)
    ultimately have fresh: "mm_id m |\<notin>| fmdom (ch_in_flight_ids u)" using fresh_id [of u ms m] ids mm free by simp
    consider (full) "rv_reserved v \<noteq> []" "usat_add (rv_bytes v) (unat (pr_len (mm_payload m))) > max_bytes"
      | (no_lease) "\<not> (rv_reserved v \<noteq> [] \<and> usat_add (rv_bytes v) (unat (pr_len (mm_payload m))) > max_bytes)" "de_lease env k = None"
      | (take) lease where "\<not> (rv_reserved v \<noteq> [] \<and> usat_add (rv_bytes v) (unat (pr_len (mm_payload m))) > max_bytes)"
          "de_lease env k = Some lease"
      by (cases "de_lease env k") auto
    then show ?thesis
    proof cases
      case full
      then show ?thesis using inv' nc(1) CandReady m(1) by (simp add: reserve_step_def batch_of_def)
    next
      case no_lease
      then show ?thesis using inv' nc(1) CandReady m(1) unfolding reserve_step_def Let_def by (simp add: batch_of_def)
    next
      case take
      obtain q a token' w where r: "reserve_timestamped (rv_next_token v) (de_now env k) p (mm_id m) (mm_timestamp_ns m) timeout
          (Some lease) u = ((q, a), token', w)" by (metis prod.collapse)
      have reach': "chan_reach due w" using chan_reach.deliver [OF reach ag last _ fresh r] nc(1) CandReady by simp
      have r': "reserve_timestamped (token + word_of_nat (length (rv_reserved v))) (de_now env k) (mm_position m) (mm_id m)
          (mm_timestamp_ns m) timeout (Some lease) u = ((q, a), token', w)"
        using r inv mm(2) by (simp add: reserve_inv_def)
      let ?v = "\<lparr>rv_reserved = rv_reserved v @ [\<lparr>rd_position = p, rd_id = mm_id m, rd_timestamp_ns = mm_timestamp_ns m,
            rd_attempts = a, rd_token = q, rd_lease = lease, rd_payload = mm_payload m\<rparr>],
          rv_bytes = usat_add (rv_bytes v) (unat (pr_len (mm_payload m))), rv_next_token = token', rv_channel = w\<rparr>"
      have "reserving ms due (de_now_ms env) (Suc k) s token (rv_reserved ?v) w \<and> token' = token + word_of_nat (Suc (length (rv_reserved v)))"
        using reserving_take [OF res tab pend mm(1) _ _ m(2) r' reach'] m(3) free mm(2) by simp
      moreover have "length (rv_reserved v) = 0 \<or> payload_bytes (rv_reserved v) + unat (pr_len (mm_payload m)) \<le> max_bytes"
        using take(1) inv max by (auto simp: reserve_inv_def usat_add_def)
      ultimately have "reserve_inv ms due env max_bytes s token (Suc k) ?v"
        using inv by (auto simp: reserve_inv_def usat_add_def)
      moreover have "reserve_step env idx last_p max_bytes timeout k v = Some (Inr ?v)"
        using nc(1) CandReady m(1) r take unfolding reserve_step_def Let_def by simp
      ultimately show ?thesis by simp
    qed
  qed
qed

lemma reserve_loop_ok:
  assumes "reserve_inv ms due env max_bytes s token k v"
    and "\<And>k. answers ms idx (de_scan_cache env k)" and "\<And>k. de_cache env k = de_scan_cache env k"
    and "due_at ms due" and "inj_on mm_id (set ms)" and "last_p \<noteq> u64_max" and "max_bytes < usize_max"
  shows "\<exists>b v'. reserve_loop env idx last_p max_bytes timeout n k v = Some (b, v')
    \<and> reserve_inv ms due env max_bytes s token (k + n) v' \<and> batch_of idx env b v'"
  using assms(1)
proof (induction n arbitrary: k v)
  case 0
  then show ?case by (simp add: batch_of_def)
next
  case (Suc n)
  obtain r where r: "reserve_step env idx last_p max_bytes timeout k v = Some r"
      "case r of Inl (b, v') \<Rightarrow> reserve_inv ms due env max_bytes s token (Suc k) v' \<and> batch_of idx env b v'
        | Inr v' \<Rightarrow> reserve_inv ms due env max_bytes s token (Suc k) v'"
    using reserve_step_ok [OF Suc.prems assms(2-7), of timeout] by blast
  show ?case
  proof (cases r)
    case (Inl bv)
    obtain b v' where "bv = (b, v')" by fastforce
    then show ?thesis using r Inl reserve_inv_mono [of ms due env max_bytes s token "Suc k" v' "k + Suc n"] by simp
  next
    case (Inr v')
    then show ?thesis using r Suc.IH [of "Suc k" v'] by simp
  qed
qed

section \<open>Where the cursor is\<close>

lemma scan_loop_cursor:
  assumes "loop (scan_step now last_p f) s = Some (CandReady p, t)" and "last_p \<noteq> u64_max"
  shows "p < ch_next_position t"
proof -
  have lt: "last_p < u64_max" using assms(2) u64_max_ge [of last_p] by (simp add: order.strict_iff_order)
  have "fst r = CandReady p \<longrightarrow> p < ch_next_position (snd r)" if "loop (scan_step now last_p f) s = Some r" for r
  proof (rule loop_partial [OF that, where I = "\<lambda>_. True"])
    fix u r' assume "scan_step now last_p f u = Inl r'"
    then show "fst r' = CandReady p \<longrightarrow> p < ch_next_position (snd r')"
      by (cases rule: scan_step_cases [of u last_p now f]) (use lt in \<open>auto simp: less_sat_inc_iff\<close>)
  qed simp_all
  from this [OF assms(1)] show ?thesis by simp
qed

lemma next_candidate_cursor:
  assumes inv: "chan_inv due X s" and "last_p \<noteq> u64_max" and nc: "next_candidate now last_p f s = Some (CandReady p, t)"
  shows "p |\<in>| ch_redelivery s \<or> p < ch_next_position t"
proof -
  let ?w = "rewind_deferred now s"
  obtain c u where rs: "redelivery_scan now f None ?w = (c, u)" by fastforce
  have w: "ch_redelivery ?w = ch_redelivery s" by (auto simp: rewind_deferred_def split: option.split)
  show ?thesis
  proof (cases c)
    case (Some k)
    then have "k = CandReady p" using nc rs by (simp add: next_candidate_def split: if_splits)
    then show ?thesis using redelivery_scan_source [OF chan_inv_rewind(1) [OF inv]] rs Some w by auto
  next
    case None
    then show ?thesis using nc rs scan_loop_cursor [OF _ assms(2), of now f u p t] by (simp add: next_candidate_def split: if_splits)
  qed
qed

section \<open>Properties\<close>

text \<open>
  C37: Reserving a batch delivers what it should. For a Channel in a state it can reach, of a
  Topic that is neither deleted nor paused and whose message ids are distinct, over an index
  whose pages stay where they are during the call, \<open>reserve_batch\<close> returns. It hands out at
  most the number of messages asked for, in different positions, with consecutive tokens, and
  within the byte limit as soon as there is more than one. Each is a message of the Topic with
  its id, time and payload, unsettled and not in flight before, due by the clock, and in flight
  afterwards under its id, token and lease. Everything else in flight is as it was, no message
  has been settled, and the Channel is again in a state it can reach. If it stops to have a page
  loaded, it is the page of a pending message.\<close>

theorem reserve_batch_exact:
  assumes idx: "\<forall>k. index_reach crc32c disk parts (tp_messages t) (de_scan_cache env k)"
    and still: "\<forall>k. de_cache env k = de_scan_cache env k"
    and ms: "ms = index_messages parts (tp_messages t)" and ids: "inj_on mm_id (set ms)"
    and topic: "\<not> tm_deleted (tp_manifest t)" "\<not> tm_paused (tp_manifest t)" "fmlookup (tp_channels t) name = Some runtime"
    and channel: "chan_reach due (cr_state runtime)" "flights_ok ms (cr_state runtime)" "due_at ms due"
    and bounds: "tp_deliverable_position t \<noteq> u64_max" "max_bytes < usize_max"
  shows "\<exists>batch rs state.
    reserve_batch env name max_count max_bytes timeout token t
      = Some (Inr batch, token + word_of_nat (length rs), put_state name runtime state t)
    \<and> (batch = BatchReady rs
       \<or> (\<exists>request p k. batch = BatchLoad rs request \<and> pending state p \<and> lookup p (tp_messages t) (de_cache env k) = Load request))
    \<and> length rs \<le> max_count \<and> distinct (map rd_position rs)
    \<and> map rd_token rs = map (\<lambda>i. token + word_of_nat i) [0..<length rs]
    \<and> (length rs \<le> 1 \<or> sum_list (map (\<lambda>r. unat (pr_len (rd_payload r))) rs) \<le> max_bytes)
    \<and> (\<forall>r \<in> set rs. \<exists>m \<in> set ms. delivers m state r \<and> pending (cr_state runtime) (mm_position m)
         \<and> mm_position m |\<notin>| fmdom (ch_in_flight (cr_state runtime)) \<and> (\<exists>k < max_count. mm_available_at_ms m \<le> de_now_ms env k))
    \<and> (\<forall>p. p \<notin> rd_position ` set rs \<longrightarrow> fmlookup (ch_in_flight state) p = fmlookup (ch_in_flight (cr_state runtime)) p)
    \<and> (\<forall>m \<in> set ms. pending state (mm_position m) = pending (cr_state runtime) (mm_position m))
    \<and> chan_reach due state \<and> flights_ok ms state"
proof -
  let ?v = "\<lparr>rv_reserved = [], rv_bytes = 0, rv_next_token = token, rv_channel = cr_state runtime\<rparr>"
  have ans: "answers ms (tp_messages t) (de_scan_cache env k)" for k
    unfolding ms by (rule stands_for_answers [OF index_reach_inv [OF spec [OF idx]]])
  have "reserve_inv ms due env max_bytes (cr_state runtime) token 0 ?v"
    using reserving_start [OF channel(1,2)] by (simp add: reserve_inv_def payload_bytes_def)
  then obtain b v where v:
      "reserve_loop env (tp_messages t) (tp_deliverable_position t) max_bytes timeout max_count 0 ?v = Some (b, v)"
      "reserve_inv ms due env max_bytes (cr_state runtime) token max_count v" "batch_of (tp_messages t) env b v"
    using reserve_loop_ok [OF _ ans spec [OF still] channel(3) ids bounds, of _ _ _ _ timeout max_count] by fastforce
  have "reserve_batch env name max_count max_bytes timeout token t
      = Some (Inr b, token + word_of_nat (length (rv_reserved v)), put_state name runtime (rv_channel v) t)"
    using v(1,2) topic by (simp add: reserve_batch_def reserve_inv_def)
  then show ?thesis
    using v(2,3) unfolding reserve_inv_def reserving_def reserved_ok_def batch_of_def payload_bytes_def by blast
qed

definition sample_log :: segment_log where
  "sample_log = \<lparr>sl_disk = sample_index_disk, sl_max_segment_bytes = 100, sl_resident_records = [], sl_sealed_indexes = fmempty,
     sl_current_path = segment_path 9, sl_current_len = 0,
     sl_recovery = \<lparr>rr_records = 0, rr_truncated_bytes = 0, rr_last_index = 0, rr_indexed_records = 0, rr_scanned_records = 0\<rparr>,
     sl_start_index = 9, sl_first_index = None, sl_last_index = None, sl_storage_bytes = 0, sl_checksums = fmempty,
     sl_isolated = False, sl_active_writer_feature_level = 5\<rparr>"

definition sample_runtime :: "u64 \<Rightarrow> channel_runtime" where
  "sample_runtime barrier = \<lparr>cr_state = new_channel ''orders'' barrier False 8, cr_store = None, cr_durable_counters = True\<rparr>"

definition sample_topic :: "u64 \<Rightarrow> topic" where
  "sample_topic barrier =
     \<lparr>tp_name = ''events'', tp_manifest_file = None,
      tp_manifest = \<lparr>tm_format = 7, tm_name = ''events'', tm_paused = False, tm_deleted = False, tm_next_position = 4,
        tm_unrouted_from_position = None, tm_delivery_mode = Reliable, tm_message_ttl_seconds = None,
        tm_expired_through_position = 0, tm_ttl_discarded_messages = 0\<rparr>,
      tp_log = sample_log, tp_messages = sample_index, tp_position_gaps = [], tp_deliverable_position = 3,
      tp_durable_position = 3, tp_unsynced_messages = 0, tp_unsynced_bytes = 0, tp_unsynced_since = None,
      tp_channels = fmupd ''orders'' (sample_runtime barrier) fmempty, tp_max_ack_gap = 8,
      tp_durable_channel_counters = True, tp_published_count = 3\<rparr>"

definition sample_due :: "u64 \<Rightarrow> i64" where
  "sample_due p = (if p = 3 then 50 else 0)"

definition sample_env :: "cache_state \<Rightarrow> cache_state \<Rightarrow> delivery_env" where
  "sample_env scan after = \<lparr>de_now_ms = (\<lambda>_. 60), de_now = (\<lambda>_. 0), de_lease = (\<lambda>k. Some k),
     de_scan_cache = (\<lambda>_. scan), de_cache = (\<lambda>_. after)\<rparr>"

theorem reserve_batch_exact_witness:
  "\<exists>batch (rs :: reserved_delivery list) state. reserve_batch (sample_env sample_cache sample_cache) ''orders'' 2 1000 30 7 (sample_topic 2)
     = Some (Inr batch, 7 + word_of_nat (length rs), put_state ''orders'' (sample_runtime 2) state (sample_topic 2))
     \<and> length rs \<le> 2 \<and> distinct (map rd_position rs) \<and> chan_reach sample_due state"
proof -
  let ?t = "sample_topic 2" and ?e = "sample_env sample_cache sample_cache" and ?parts = "[[sample_meta 1, sample_meta 2]]"
  have t: "tp_messages ?t = sample_index" "\<not> tm_deleted (tp_manifest ?t)" "\<not> tm_paused (tp_manifest ?t)"
      "fmlookup (tp_channels ?t) ''orders'' = Some (sample_runtime 2)" "tp_deliverable_position ?t \<noteq> u64_max"
    by (simp_all add: sample_topic_def)
  have e: "\<forall>k. index_reach (sum_append 0) sample_index_disk ?parts (tp_messages ?t) (de_scan_cache ?e k)"
      "\<forall>k. de_cache ?e k = de_scan_cache ?e k"
    using sample_index_reach by (simp_all add: t(1) sample_env_def)
  have ms: "[sample_meta 1, sample_meta 2, sample_active] = index_messages ?parts (tp_messages ?t)" unfolding t(1) sample_messages ..
  have ids: "inj_on mm_id (set [sample_meta 1, sample_meta 2, sample_active])"
    and due: "due_at [sample_meta 1, sample_meta 2, sample_active] sample_due"
    by (simp_all add: sample_meta_def sample_active_def due_at_def sample_due_def)
  have fl: "flights_ok [sample_meta 1, sample_meta 2, sample_active] (cr_state (sample_runtime 2))"
    by (simp add: flights_ok_def sample_runtime_def new_channel_def)
  have reach: "chan_reach sample_due (cr_state (sample_runtime 2))" by (simp add: sample_runtime_def chan_reach.create)
  have "(1000 :: nat) < usize_max" by (simp add: usize_max_def)
  from reserve_batch_exact [OF e ms ids t(2-4) reach fl due t(5) this, of 2 30 7] show ?thesis
    by blast
qed

text \<open>
  C38: The second lookup of a round can lose a message. The scan has taken the candidate out of the
  Channel's books when its metadata is looked up again. If another Topic's page has meanwhile
  pushed the candidate's page out of the shared cache, the round goes on without it: the call
  returns, and the message is unsettled but neither in flight nor waiting for redelivery, and
  when it was found by the scan, the cursor has passed it. No state a Channel reaches by its own
  operations is like this.\<close>

theorem reserve_batch_eviction:
  assumes idx: "index_reach crc32c disk parts (tp_messages t) (de_scan_cache env 0)"
    and channel: "chan_reach due (cr_state runtime)" "due_at (index_messages parts (tp_messages t)) due"
    and topic: "\<not> tm_deleted (tp_manifest t)" "\<not> tm_paused (tp_manifest t)" "fmlookup (tp_channels t) name = Some runtime"
    and last: "tp_deliverable_position t \<noteq> u64_max"
    and scan: "next_candidate (de_now_ms env 0) (tp_deliverable_position t) (availability (tp_messages t) (de_scan_cache env 0))
                 (cr_state runtime) = Some (CandReady p, state)"
    and evicted: "lookup p (tp_messages t) (de_cache env 0) = Load request"
  shows "reserve_batch env name 1 max_bytes timeout token t = Some (Inr (BatchReady []), token, put_state name runtime state t)
    \<and> p \<in> mm_position ` set (index_messages parts (tp_messages t)) \<and> pending state p
    \<and> p |\<notin>| fmdom (ch_in_flight state) \<and> p |\<notin>| ch_redelivery state
    \<and> (p |\<in>| ch_redelivery (cr_state runtime) \<or> p < ch_next_position state)"
proof -
  let ?f = "availability (tp_messages t) (de_scan_cache env 0)"
  note ans = stands_for_answers [OF index_reach_inv [OF idx]]
  note inv = chan_reach_inv [OF channel(1)]
  have out: "handed_out due {} (de_now_ms env 0) ?f (CandReady p, state)"
    by (rule next_candidate_handed_out(1) [OF inv availability_agrees [OF ans channel(2)] last scan])
  then obtain m where "lookup p (tp_messages t) (de_scan_cache env 0) = Found m" by (auto simp: handed_out_def availability_cases)
  then have "p \<in> mm_position ` set (index_messages parts (tp_messages t))" using answersD(1) [OF ans] by blast
  moreover have "reserve_batch env name 1 max_bytes timeout token t = Some (Inr (BatchReady []), token, put_state name runtime state t)"
    using topic scan evicted by (simp add: reserve_batch_def reserve_step_def)
  ultimately show ?thesis
    using out next_candidate_cursor [OF inv last scan] by (auto simp: handed_out_def held_def)
qed

lemma sample_page_loaded:
  obtains s where "index_reach (sum_append 0) sample_index_disk [[sample_meta 1, sample_meta 2]] sample_index s"
    "lookup 1 sample_index s = Found (sample_meta 1)"
    "\<exists>request. lookup 1 sample_index sample_cache = Load request"
proof -
  note inv = index_reach_inv [OF sample_index_reach, unfolded stands_for_def]
  have ok: "index_ok (sum_append 0) sample_index_disk [[sample_meta 1, sample_meta 2]] sample_index"
    and cache: "cache_ok sample_cache" "coherent (zip (mi_sealed sample_index) [[sample_meta 1, sample_meta 2]]) sample_cache"
    using inv by simp_all
  have none: "cc_pages sample_cache = fmempty"
    using recovered_pages [OF sample_cache_ok(1), of 1] unfolding sample_cache_def
    by (intro fmap_ext) (auto simp: new_cache_def, metis not_None_eq option.distinct(1))
  have "lookup (mm_position (sample_meta 1)) sample_index sample_cache \<noteq> Found (sample_meta 1)"
    using none by (simp add: lookup_def sample_index_def sample_active_def sample_meta_def from_summary_def summary_spec_def
        partition_point_def get_at_def cache_get_def Let_def)
  moreover have "sample_meta 1 \<in> set (concat [[sample_meta 1, sample_meta 2]])" by simp
  ultimately obtain request s where l: "lookup (mm_position (sample_meta 1)) sample_index sample_cache = Load request"
      "load_blocking (sum_append 0) sample_index_disk request sample_cache = (Inr (), s)"
      "has_room sample_cache \<longrightarrow> lookup (mm_position (sample_meta 1)) sample_index s = Found (sample_meta 1)"
    using lookup_present [OF ok cache] by blast
  have "has_room sample_cache" using not_over_budget [OF cache(1) sample_cache_ok(2)] by (simp add: has_room_def)
  then show thesis
    using that [OF index_reach.page_loaded [OF sample_index_reach l(1,2)]] l(1,3) by (simp add: sample_positions)
qed

theorem reserve_batch_eviction_witness:
  "\<exists>cache state. index_reach (sum_append 0) sample_index_disk [[sample_meta 1, sample_meta 2]] sample_index cache
     \<and> reserve_batch (sample_env cache sample_cache) ''orders'' 1 1000 30 7 (sample_topic 0)
         = Some (Inr (BatchReady []), 7, put_state ''orders'' (sample_runtime 0) state (sample_topic 0))
     \<and> pending state 1 \<and> 1 |\<notin>| fmdom (ch_in_flight state) \<and> 1 |\<notin>| ch_redelivery state \<and> 1 < ch_next_position state
     \<and> ch_deferred_scan state = None"
proof -
  let ?t = "sample_topic 0" and ?parts = "[[sample_meta 1, sample_meta 2]]" and ?s = "new_channel ''orders'' 0 False 8"
  obtain cache where c: "index_reach (sum_append 0) sample_index_disk ?parts sample_index cache"
      "lookup 1 sample_index cache = Found (sample_meta 1)" "\<exists>request. lookup 1 sample_index sample_cache = Load request"
    by (rule sample_page_loaded)
  let ?e = "sample_env cache sample_cache" and ?f = "availability sample_index cache"
  have "?f 1 = Ready 0" using c(2) by (simp add: availability_def sample_meta_def)
  then have "scan_step 60 3 ?f ?s = Inl (CandReady 1, ?s\<lparr>ch_next_position := 2\<rparr>)"
    by (simp add: scan_step_def new_channel_def absent_range_end_def present_distance_def absent_count_def sat_add_def sat_sub_def Let_def)
  moreover have "next_above None (ch_redelivery ?s) = None" by (simp add: next_above_None new_channel_def)
  then have "redelivery_scan 60 ?f None ?s = (None, ?s)" by (simp add: redelivery_scan.simps)
  moreover have "rewind_deferred 60 ?s = ?s" by (simp add: rewind_deferred_def new_channel_def)
  moreover have "\<not> ch_paused ?s" by (simp add: new_channel_def)
  ultimately have scan: "next_candidate 60 3 ?f ?s = Some (CandReady 1, ?s\<lparr>ch_next_position := 2\<rparr>)"
    by (simp add: next_candidate_def loop.simps [of _ ?s])
  have t: "tp_messages ?t = sample_index" "tp_deliverable_position ?t = 3" "cr_state (sample_runtime 0) = ?s"
      "\<not> tm_deleted (tp_manifest ?t)" "\<not> tm_paused (tp_manifest ?t)" "fmlookup (tp_channels ?t) ''orders'' = Some (sample_runtime 0)"
      "de_now_ms ?e 0 = 60" "de_scan_cache ?e 0 = cache" "de_cache ?e 0 = sample_cache" "tp_deliverable_position ?t \<noteq> u64_max"
    by (simp_all add: sample_topic_def sample_runtime_def sample_env_def)
  have due: "due_at (index_messages ?parts sample_index) sample_due"
    unfolding sample_messages by (simp add: due_at_def sample_due_def sample_meta_def sample_active_def)
  obtain request where "lookup 1 sample_index sample_cache = Load request" using c(3) by blast
  then have "reserve_batch ?e ''orders'' 1 1000 30 7 ?t
      = Some (Inr (BatchReady []), 7, put_state ''orders'' (sample_runtime 0) (?s\<lparr>ch_next_position := 2\<rparr>) ?t)
      \<and> pending (?s\<lparr>ch_next_position := 2\<rparr>) 1"
    using reserve_batch_eviction [of "sum_append 0" sample_index_disk ?parts ?t ?e sample_due "sample_runtime 0" "''orders''" 1
        "?s\<lparr>ch_next_position := 2\<rparr>" request 1000 30 7] c(1) chan_reach.create due scan t
    by simp
  then show ?thesis using c(1)
    by (intro exI [of _ cache] exI [of _ "?s\<lparr>ch_next_position := 2\<rparr>"]) (simp add: new_channel_def)
qed

end
