(* ===== verification/Topic_Maintenance.thy ===== *)
theory Topic_Maintenance
  imports Topic
begin

text \<open>
  Maintenance of a Topic: \<open>crates/queue/src/topic/maintenance.rs\<close>. Emptying, statistics,
  compaction, protective eviction, discarding by age, expiry of deliveries and checkpoints.
  \<open>order\<close> lists the Channels in the order the map yields them.
\<close>

section \<open>Emptying and pausing\<close>

definition empty_channel :: "libraries \<Rightarrow> channel_io \<Rightarrow> string \<Rightarrow> topic \<Rightarrow> (broker_error + unit) \<times> topic" where
  "empty_channel libs io name t = persist_channel libs io name (Empty (last_position t)) t"

definition empty_topic :: "libraries \<Rightarrow> topic_io \<Rightarrow> string list \<Rightarrow> topic \<Rightarrow> (broker_error + unit) \<times> topic" where
  "empty_topic libs io order t =
     (let through = last_position t; durable = has_durable_channels t
      in and_pass (for_channels (\<lambda>name. persist_channel libs (ti_channel io name) name (Empty through)) order t) (\<lambda>_ t.
           if durable then (Inr (), t)
           else set_unrouted_from_position libs (ti_manifest io 0) (Some (tm_next_position (tp_manifest t))) t))"

definition set_channel_paused :: "libraries \<Rightarrow> channel_io \<Rightarrow> string \<Rightarrow> bool \<Rightarrow> topic \<Rightarrow> (broker_error + unit) \<times> topic" where
  "set_channel_paused libs io name paused t = persist_channel libs io name (Pause paused) t"

section \<open>Statistics\<close>

record topic_stats =
  ts_name :: string
  ts_paused :: bool
  ts_delivery_mode :: delivery_mode
  ts_message_ttl_seconds :: "u64 option"
  ts_ttl_discarded_messages :: u64
  ts_published_count :: u64
  ts_message_count :: nat
  ts_segment_count :: u64
  ts_segment_bytes :: u64
  ts_last_durable_position :: u64
  ts_unsynced_messages :: u64
  ts_unsynced_bytes :: u64
  ts_sync_lag_ms :: u64
  ts_channels :: "channel_stats list"

text \<open>
  The scheduled messages of every Channel are counted in one pass over the deferred ranges; the
  Channels are then sorted by name. The map is keyed by their names, so going over its keys in
  order gives the same list. \<open>lag_ms\<close> is the age in milliseconds of the oldest unsynced write.
\<close>

definition topic_stats :: "libraries \<Rightarrow> i64 \<Rightarrow> instant \<Rightarrow> (instant \<Rightarrow> u64) \<Rightarrow> topic \<Rightarrow> broker_error + topic_stats" where
  "topic_stats libs now_ms now lag_ms t =
     (let last_p = tp_deliverable_position t; pending = pending_sync_of now t
      in (case for_each_deferred_range (lib_crc32c libs) (sl_disk (tp_log t)) now_ms last_p (tp_messages t) of
            (_, Inl e) \<Rightarrow> Inl e
          | (ranges, Inr _) \<Rightarrow>
              Inr \<lparr>ts_name = tp_name t, ts_paused = tm_paused (tp_manifest t),
                   ts_delivery_mode = tm_delivery_mode (tp_manifest t),
                   ts_message_ttl_seconds = tm_message_ttl_seconds (tp_manifest t),
                   ts_ttl_discarded_messages = tm_ttl_discarded_messages (tp_manifest t),
                   ts_published_count = tp_published_count t,
                   ts_message_count = count_after_position (tm_expired_through_position (tp_manifest t)) (tp_messages t),
                   ts_segment_count = fst (storage_usage (tp_log t)), ts_segment_bytes = snd (storage_usage (tp_log t)),
                   ts_last_durable_position = tp_durable_position t,
                   ts_unsynced_messages = (case pending of None \<Rightarrow> 0 | Some p \<Rightarrow> ps_messages p),
                   ts_unsynced_bytes = (case pending of None \<Rightarrow> 0 | Some p \<Rightarrow> ps_bytes p),
                   ts_sync_lag_ms = (case pending of None \<Rightarrow> 0 | Some p \<Rightarrow> lag_ms (ps_since p)),
                   ts_channels = map (\<lambda>name.
                     let state = cr_state (the (fmlookup (tp_channels t) name));
                         scheduled = foldl (\<lambda>n (first, till).
                           sat_add n (scheduled_count_in_range state first till now_ms)) 0 ranges
                     in stats state last_p scheduled now_ms) (channel_names t)\<rparr>))"

definition oldest_message_timestamp :: "topic \<Rightarrow> i64 option" where
  "oldest_message_timestamp t = oldest_timestamp_ns (tp_messages t)"

section \<open>Compaction and eviction\<close>

definition remove_purged_messages :: "topic \<Rightarrow> cache_state \<Rightarrow> (broker_error + unit) \<times> topic \<times> cache_state" where
  "remove_purged_messages t s =
     (case segment_paths (sl_disk (tp_log t)) of
        Inl e \<Rightarrow> (Inl (StorageErr (StIo e)), t, s)
      | Inr existing \<Rightarrow>
          (case remove_missing_paths (fset_of_list existing) (tp_messages t) s of
             (idx, s) \<Rightarrow> (Inr (), t\<lparr>tp_messages := idx\<rparr>, s)))"

text \<open>Minimum of an iterator, as an option.\<close>

definition min_of :: "u64 list \<Rightarrow> u64 option" where
  "min_of xs = (case xs of [] \<Rightarrow> None | x # xs \<Rightarrow> Some (fold min xs x))"

definition runtimes :: "topic \<Rightarrow> channel_runtime list" where
  "runtimes t = map (\<lambda>name. the (fmlookup (tp_channels t) name)) (channel_names t)"

text \<open>
  The first position compaction keeps: the bootstrap window, what durable Channels have not
  acknowledged or, without one, what no Channel has routed yet, deliveries in flight and the
  messages of the outbox.
\<close>

definition retained_from :: "i64 \<Rightarrow> nat \<Rightarrow> u64 fset \<Rightarrow> topic \<Rightarrow> broker_error + u64" where
  "retained_from now_ns retention retained_ids t =
     (let cutoff = sat_sub_i64 now_ns (min (int retention) i64_max);
          next_p = tm_next_position (tp_manifest t);
          bootstrap_from = max (retain_from_timestamp cutoff next_p (tp_messages t))
                             (sat_add (tm_expired_through_position (tp_manifest t)) 1)
      in and_then
           (case min_of (map (\<lambda>runtime. sat_add (ch_ack_floor_position (cr_state runtime)) 1)
                          (filter (\<lambda>runtime. \<not> ch_ephemeral (cr_state runtime)) (runtimes t))) of
              Some position \<Rightarrow> Inr position
            | None \<Rightarrow> unrouted_start_position t) (\<lambda>channel_from.
         let in_flight_from = (case min_of (List.map_filter (\<lambda>runtime. first_in_flight_position (cr_state runtime)) (runtimes t)) of
                                 None \<Rightarrow> next_p | Some position \<Rightarrow> position);
             outbox_from = retain_from_ids retained_ids next_p (tp_messages t)
         in Inr (min (min (min bootstrap_from channel_from) in_flight_from) outbox_from)))"

definition compact_through ::
  "libraries \<Rightarrow> topic_io \<Rightarrow> string fset \<Rightarrow> u64 \<Rightarrow> topic \<Rightarrow> cache_state \<Rightarrow> (broker_error + nat) \<times> topic \<times> cache_state" where
  "compact_through libs io retained_paths retain_from t s =
     (case purge_through_log_index retain_from (tp_messages t) of
        None \<Rightarrow> (Inr 0, t, s)
      | Some through_index \<Rightarrow>
          if (case first_purge_path retain_from (tp_messages t) of None \<Rightarrow> False | Some path \<Rightarrow> path |\<in>| retained_paths)
          then (Inr 0, t, s)
          else (case put_manifest libs (ti_manifest io 0) (tp_manifest t) t of
                  (Inl e, t) \<Rightarrow> (Inl e, t, s)
                | (Inr _, t) \<Rightarrow>
                    (case purge_prefix_retaining (ti_purge io) through_index retained_paths (tp_log t) of
                       (Inl e, log, _) \<Rightarrow> (Inl (StorageErr e), t\<lparr>tp_log := log\<rparr>, s)
                     | (Inr removed, log, _) \<Rightarrow>
                         let t = t\<lparr>tp_log := log\<rparr>
                         in if removed > 0
                            then (case remove_purged_messages t s of
                                    (Inl e, t, s) \<Rightarrow> (Inl e, t, s) | (Inr _, t, s) \<Rightarrow> (Inr removed, t, s))
                            else (Inr removed, t, s))))"

definition compact ::
  "libraries \<Rightarrow> topic_io \<Rightarrow> i64 \<Rightarrow> nat \<Rightarrow> string fset \<Rightarrow> u64 fset \<Rightarrow> topic \<Rightarrow> cache_state \<Rightarrow> (broker_error + nat) \<times> topic \<times> cache_state" where
  "compact libs io now_ns retention retained_paths retained_ids t s =
     (case retained_from now_ns retention retained_ids t of
        Inl e \<Rightarrow> (Inl e, t, s)
      | Inr retain_from \<Rightarrow>
          (case (if (case active_last_position (tp_messages t) of None \<Rightarrow> False | Some position \<Rightarrow> position < retain_from)
                 then topic_seal_log libs io t s else (Inr (), t, s)) of
             (Inl e, t, s) \<Rightarrow> (Inl e, t, s)
           | (Inr _, t, s) \<Rightarrow> compact_through libs io retained_paths retain_from t s))"

record protective_eviction =
  pe_topic :: string
  pe_first_position :: u64
  pe_through_position :: u64
  pe_messages :: u64
  pe_segment :: string
  pe_created_at_ms :: u64

text \<open>\<open>intent\<close> is the outcome of writing the audit file.\<close>

definition evict_through ::
  "libraries \<Rightarrow> topic_io \<Rightarrow> io_error option \<Rightarrow> string list \<Rightarrow> string fset \<Rightarrow> u64 \<Rightarrow> protective_eviction \<Rightarrow> topic \<Rightarrow> cache_state
   \<Rightarrow> (broker_error + protective_eviction option) \<times> topic \<times> cache_state" where
  "evict_through libs io intent order retained_paths through_index report t s =
     (case and_pass (put_manifest libs (ti_manifest io 0) (tp_manifest t) t) (\<lambda>_ t.
           and_pass (io_call intent, t) (\<lambda>_ t.
           and_pass (if has_durable_channels t then (Inr (), t)
                     else (case unrouted_start_position t of
                             Inl e \<Rightarrow> (Inl e, t)
                           | Inr start \<Rightarrow>
                               set_unrouted_from_position libs (ti_manifest io 1)
                                 (Some (min (max start (sat_add (pe_through_position report) 1))
                                            (tm_next_position (tp_manifest t)))) t)) (\<lambda>_ t.
           for_channels (\<lambda>name. persist_channel libs (ti_channel io name) name (Evict (pe_through_position report))) order t))) of
        (Inl e, t) \<Rightarrow> (Inl e, t, s)
      | (Inr _, t) \<Rightarrow>
          (case purge_prefix_retaining (ti_purge io) through_index retained_paths (tp_log t) of
             (Inl e, log, _) \<Rightarrow> (Inl (StorageErr e), t\<lparr>tp_log := log\<rparr>, s)
           | (Inr removed, log, _) \<Rightarrow>
               let t = t\<lparr>tp_log := log\<rparr>
               in if removed = 0
                  then (Inl (InvalidRecord ''protective eviction found no removable segment''), t, s)
                  else (case remove_purged_messages t s of
                          (Inl e, t, s) \<Rightarrow> (Inl e, t, s) | (Inr _, t, s) \<Rightarrow> (Inr (Some report), t, s))))"

definition protective_evict_oldest ::
  "libraries \<Rightarrow> topic_io \<Rightarrow> io_error option \<Rightarrow> i64 \<Rightarrow> string list \<Rightarrow> string fset \<Rightarrow> topic \<Rightarrow> cache_state
   \<Rightarrow> (broker_error + protective_eviction option) \<times> topic \<times> cache_state" where
  "protective_evict_oldest libs io intent now_ms order retained_paths t s =
     (if mi_total_count (tp_messages t) = 0 then (Inr None, t, s)
      else (case topic_seal_log libs io t s of
              (Inl e, t, s) \<Rightarrow> (Inl e, t, s)
            | (Inr _, t, s) \<Rightarrow>
                (case oldest_inactive_boundary_retaining (tp_log t) retained_paths of
                   Inl e \<Rightarrow> (Inl (StorageErr e), t, s)
                 | Inr None \<Rightarrow> (Inr None, t, s)
                 | Inr (Some (segment, through_index)) \<Rightarrow>
                     (case eviction_range through_index (tp_messages t) of
                        None \<Rightarrow> (Inr None, t, s)
                      | Some (first_p, through_position, messages) \<Rightarrow>
                          evict_through libs io intent order retained_paths through_index
                            \<lparr>pe_topic = tp_name t, pe_first_position = first_p, pe_through_position = through_position,
                             pe_messages = messages, pe_segment = segment,
                             pe_created_at_ms = word_of_int (max now_ms 0)\<rparr> t s))))"

section \<open>Discarding by age\<close>

record prepared_ttl_discard =
  pt_through_position :: u64
  pt_messages :: nat
  pt_channels :: "string list"

definition prepare_ttl_discard ::
  "libraries \<Rightarrow> i64 \<Rightarrow> nat \<Rightarrow> string list \<Rightarrow> topic \<Rightarrow> cache_state
   \<Rightarrow> (broker_error + prepared_ttl_discard option) \<times> topic \<times> cache_state" where
  "prepare_ttl_discard libs now_ns limit order t s =
     (case ttl_seconds (policy_of t) of
        None \<Rightarrow> (Inr None, t, s)
      | Some seconds \<Rightarrow>
          (case through_timestamp_after (lib_crc32c libs) (sl_disk (tp_log t)) (tm_expired_through_position (tp_manifest t))
                  (sat_sub_i64 now_ns (ttl_ns seconds)) (max limit 1) (tp_messages t) s of
             (Inl e, s) \<Rightarrow> (Inl e, t, s)
           | (Inr None, s) \<Rightarrow> (Inr None, t, s)
           | (Inr (Some (through_position, messages)), s) \<Rightarrow>
               (case for_channels (\<lambda>name. persist_channel_buffered libs name (Evict through_position)) order t of
                  (Inl e, t) \<Rightarrow> (Inl e, t, s)
                | (Inr _, t) \<Rightarrow>
                    (Inr (Some \<lparr>pt_through_position = through_position, pt_messages = messages, pt_channels = order\<rparr>), t, s))))"

definition commit_ttl_discard ::
  "libraries \<Rightarrow> replace_fault \<Rightarrow> u64 \<Rightarrow> u64 \<Rightarrow> topic \<Rightarrow> (broker_error + unit) \<times> topic" where
  "commit_ttl_discard libs fault through_position messages t =
     (if through_position \<le> tm_expired_through_position (tp_manifest t) then (Inr (), t)
      else
        let m = (tp_manifest t)\<lparr>tm_expired_through_position := through_position,
                  tm_ttl_discarded_messages := sat_add (tm_ttl_discarded_messages (tp_manifest t)) messages\<rparr>;
            m = (if has_durable_channels t then m
                 else m\<lparr>tm_unrouted_from_position := Some (min
                          (max (case tm_unrouted_from_position m of None \<Rightarrow> 1 | Some p \<Rightarrow> p) (sat_add through_position 1))
                          (tm_next_position m))\<rparr>)
        in and_pass (put_manifest libs fault m t) (\<lambda>_ t. (Inr (), t\<lparr>tp_manifest := m\<rparr>)))"

section \<open>Syncing and expiring deliveries\<close>

definition checkpoint_channels :: "libraries \<Rightarrow> (string \<Rightarrow> channel_io) \<Rightarrow> string list \<Rightarrow> topic \<Rightarrow> (broker_error + unit) \<times> topic" where
  "checkpoint_channels libs io order t =
     for_channels (\<lambda>name. on_store (\<lambda>runtime store.
       case checkpoint_store (lib_crc32c libs) (lib_channel_to_json libs) (ci_checkpoint (io name)) (ci_calls (io name))
              (cr_state runtime) store of (r, store, _) \<Rightarrow> (r, store)) name) order t"

definition sync_topic :: "libraries \<Rightarrow> topic_io \<Rightarrow> string list \<Rightarrow> topic \<Rightarrow> (broker_error + unit) \<times> topic" where
  "sync_topic libs io order t =
     (case sync_log (ti_seal io) (tp_log t) of
        (Inl e, log) \<Rightarrow> (Inl (StorageErr e), t\<lparr>tp_log := log\<rparr>)
      | (Inr _, log) \<Rightarrow>
          and_pass (checkpoint_channels libs (ti_channel io) order
                      (mark_durable_through (last_position t) (t\<lparr>tp_log := log\<rparr>)))
            (\<lambda>_ t. put_manifest libs (ti_manifest io 0) (tp_manifest t) t))"

definition expire_channel_in_flight ::
  "libraries \<Rightarrow> channel_io \<Rightarrow> instant \<Rightarrow> string \<Rightarrow> topic \<Rightarrow> (broker_error + nat) \<times> topic" where
  "expire_channel_in_flight libs io now name t =
     (case fmlookup (tp_channels t) name of
        None \<Rightarrow> (Inl ChannelNotFound, t)
      | Some runtime \<Rightarrow>
          (case expire_in_flight (lib_crc32c libs) (lib_channel_to_json libs) (ci_write io) (ci_sync io) (ci_checkpoint io)
                  (ci_calls io) now runtime of
             (r, runtime) \<Rightarrow> (r, t\<lparr>tp_channels := fmupd name runtime (tp_channels t)\<rparr>)))"

fun topic_expire_in_flight ::
  "libraries \<Rightarrow> (string \<Rightarrow> channel_io) \<Rightarrow> (string \<Rightarrow> instant) \<Rightarrow> string list \<Rightarrow> nat \<Rightarrow> topic \<Rightarrow> (broker_error + nat) \<times> topic" where
  "topic_expire_in_flight libs io now [] expired t = (Inr expired, t)"
| "topic_expire_in_flight libs io now (name # order) expired t =
     and_pass (expire_channel_in_flight libs (io name) (now name) name t)
       (\<lambda>n t. topic_expire_in_flight libs io now order (usat_add expired n) t)"

definition topic_has_expired_in_flight :: "instant \<Rightarrow> topic \<Rightarrow> bool" where
  "topic_has_expired_in_flight now t \<longleftrightarrow> list_ex (runtime_has_expired now) (runtimes t)"

definition channel_has_expired_in_flight :: "instant \<Rightarrow> string \<Rightarrow> topic \<Rightarrow> broker_error + bool" where
  "channel_has_expired_in_flight now name t =
     and_then (ok_or (fmlookup (tp_channels t) name) ChannelNotFound) (\<lambda>runtime. Inr (runtime_has_expired now runtime))"

definition mark_deleted :: "libraries \<Rightarrow> replace_fault \<Rightarrow> topic \<Rightarrow> (broker_error + unit) \<times> topic" where
  "mark_deleted libs fault t =
     (let t = t\<lparr>tp_manifest := (tp_manifest t)\<lparr>tm_deleted := True\<rparr>\<rparr> in put_manifest libs fault (tp_manifest t) t)"

definition topic_scrub_targets :: "topic \<Rightarrow> broker_error + (scrub_target \<times> byte list option) list" where
  "topic_scrub_targets t = storage_result (scrub_targets (tp_log t) False)"

end
