(* ===== verification/Spec2Isabelle.thy ===== *)
theory Spec2Isabelle
  imports Channel_Props Channel_Durability Protocol_Props Message_Expiry Topic_Delivery_Props Topic_Maintenance
begin

text \<open>
  A verification library for RustQueue, a durable message queue with NSQ-style Topics and
  Channels.

  \<^bold>\<open>The program.\<close> A client publishes messages to a Topic and reads them through Channels; each
  Channel delivers every message at least once and remembers which ones are finished. A
  Topic writes each publish batch as one record of a segmented log (\<open>crates/storage\<close>), keeps an
  index of message metadata over the log (\<open>crates/queue/src/topic/index.rs\<close>) and a set of
  Channels (\<open>channel.rs\<close>), each with a command log and a checkpoint file
  (\<open>channel_store.rs\<close>). Clients speak the NSQ protocol (\<open>crates/protocol\<close>).

  \<^bold>\<open>Theories and sources.\<close>
  \<^item> \<open>Prelude\<close>, \<open>Text\<close>, \<open>Errors\<close>, \<open>Files\<close>: machine words with saturating and checked arithmetic,
    big-endian codecs, list and map lemmas; decimal and hexadecimal text; the error types of
    the crates; files as bytes with a durable prefix, atomic replacement
    (\<open>metadata.rs\<close>: \<open>store_bytes_atomic\<close>) and what a crash may leave.
  \<^item> \<open>Framing\<close>, \<open>Replay\<close>: the interfaces of the library. \<open>frame_reader\<close>, \<open>frame_scanner\<close> and
    \<open>frame_parser\<close> are the contracts of a step that reads one frame of a byte stream, from
    which whole-stream exactness and torn-tail recovery follow; they are interpreted by the
    segment scanner, the segment verifier and the Channel log.
    \<open>settling_log\<close> is the contract of commands that only settle positions, interpreted by the
    Channel's commands.
  \<^item> \<open>Protocol\<close>, \<open>Protocol_Props\<close>: \<open>name.rs\<close>, \<open>frame.rs\<close>, \<open>mpub.rs\<close>, \<open>command.rs\<close>.
  \<^item> \<open>Record_Codec\<close>: \<open>record.rs\<close>, \<open>segment/append.rs\<close>, \<open>payload.rs\<close>.
  \<^item> \<open>Segment_Files\<close>, \<open>Segment\<close>: \<open>segment/files.rs\<close>, \<open>recovery_index.rs\<close>, \<open>metadata.rs\<close>,
    \<open>scrub.rs\<close>; the log itself, \<open>segment.rs\<close> and \<open>segment/maintenance.rs\<close>. \<open>Segment_Scan\<close>,
    \<open>Segment_Inv\<close>, \<open>Segment_Ops\<close>, \<open>Segment_Props\<close>, \<open>Segment_Maint\<close>: the invariant \<open>log_ok\<close> over a
    ghost list of segments, its preservation, and the properties of the log.
  \<^item> \<open>Batch\<close>, \<open>Topic_Recovery\<close>: \<open>batch.rs\<close> and \<open>topic/recovery.rs\<close>, the two encodings of message
    metadata.
  \<^item> \<open>Index_Cache\<close>, \<open>Message_Index\<close>: \<open>topic/index_cache.rs\<close> and \<open>topic/index.rs\<close>;
    \<open>Message_Index_Inv\<close>, \<open>Message_Index_Props\<close>, \<open>Message_Expiry\<close>: the invariant \<open>stands_for\<close>
    between an index, the cache and the list of messages, and what every query returns.
  \<^item> \<open>Channel\<close>, \<open>Channel_Store\<close>: \<open>channel.rs\<close> and \<open>channel_store.rs\<close>; \<open>Channel_Ranges\<close>,
    \<open>Channel_Inv\<close>, \<open>Channel_Lease\<close>, \<open>Channel_Scan\<close>, \<open>Channel_Props\<close>, \<open>Channel_Durability\<close>: the
    invariant of a Channel, its reachable states, and the properties of the two.
  \<^item> \<open>Topic\<close>, \<open>Topic_Delivery\<close>, \<open>Topic_Maintenance\<close>: \<open>topic.rs\<close>, \<open>topic/delivery.rs\<close> and
    \<open>topic/maintenance.rs\<close>, the Topic that puts log, index and Channels together;
    \<open>Topic_Delivery_Props\<close>: what a reservation of deliveries hands out.

  \<^bold>\<open>State and operations.\<close> Each struct of the source is a record with its fields in order and a
  short prefix, each enum a datatype; a method that takes \<open>&mut self\<close> is a function that returns
  the new state, with its \<open>Result\<close> as a sum. 64-bit counters and positions are words, so that
  saturation and wrap-around are those of the source; \<open>usize\<close> counts and file offsets are natural
  numbers, with the wrap-around or saturation written out where the source relies on it;
  \<open>i64\<close> times are integers with their range as a hypothesis. B-tree sets and maps are
  finite sets and finite maps, read in key order. The system calls that write, sync,
  cut, create, replace or remove a file, and those of opening a log, a Channel or a Topic's
  segments, take their outcome as an argument; reading a log that is open, its sidecars and the
  Topic's manifest is taken to succeed on the bytes that are there. An operation that changes the
  disk in several steps also returns the disks a crash may find in between. CRC-32C, JSON and hexadecimal encoding are parameters;
  what is assumed of them (\<open>crc_laws\<close>, the JSON round trip) is a hypothesis of the theorems that
  need it, and the witnesses instantiate them; the Topic takes them together in the record
  \<open>libraries\<close>. A loop over a hash map takes the order the map yields as an argument. The cache of
  index pages, which Topics share behind a lock, is passed along beside the Topic.

  \<^bold>\<open>What is shown.\<close> C1-C10: a Channel never loses an unsettled message as long as each candidate
  it hands out is reserved or put back, hands out only messages that are due and unsettled, makes
  progress, settles exactly what its commands say, finds deliveries by token, expires them,
  counts them and restores from its checkpoint. C11-C16: its
  files survive failing calls and crashes. C17-C20: the protocol codecs. C21-C26: the
  segmented log is durable, reads exactly, purges and indexes without changing what is read;
  its record codec. C27-C29: publish batches and recovery metadata. C30-C36: the index cache
  keeps its budget but for what recovery and oversized reservations add; the index finds exactly the messages it stands for, reports exactly the
  gaps Channels rely on and the expired messages, and what goes wrong when it is asked from
  beyond its last unexpired message. C37, C38: a Topic reserves deliveries for its consumers
  exactly as the Channel and the index say, and what a page evicted under it does to the batch.

  \<^bold>\<open>Bounds and fuel.\<close> No definition takes fuel. Loops over bytes use \<open>loop\<close>, a partial function
  into option; that they return is part of the theorems about them (C12, C21, and C3 for the
  scan of a Channel). The other loops are structural or have a measure. Record indexes and
  positions stay below \<open>2 ^ 64\<close> and segment lengths below \<open>2 ^ 63\<close>, as files do.

  \<^bold>\<open>Not modelled.\<close> The broker's asynchronous orchestration (\<open>broker.rs\<close> and \<open>broker/\<close>): tasks, locks
  and queues of tokio around the operations modelled here, one step at a time. Reading bodies
  with threads and io_uring (\<open>payload_reader.rs\<close>, \<open>io_backend.rs\<close>): the verified read is modelled,
  its scheduling is not. The delivery budget and guards are semaphores of tokio. The dead-letter
  outbox and the management documents are JSON files. The server, proxy, discovery service,
  operator, console, command-line tools and benchmarks are network and Kubernetes clients over
  third-party crates. Directory locks, disk usage, failpoints and telemetry hold no queue state.
\<close>

end
